(* ===== verification/Prelude.thy ===== *)
theory Prelude
  imports Main "HOL-Library.Word" "HOL-Library.Signed_Division"
begin

text \<open>
  Shared ground of the development: bytes, Go's error values, big-endian integers,
  decimal text, the reader that \<^verbatim>\<open>io.ReadFull\<close> consumes, the writer behind
  \<^verbatim>\<open>w.Write\<close>, and the interface of a framed codec, whose client lemmas every
  wire format of the client instantiates.
\<close>

unbundle bit_operations_syntax

named_theorems codec_simps
named_theorems sizer_defs

section \<open>Bytes and strings\<close>

type_synonym byte = "8 word"
type_synonym bytes = "byte list"
type_synonym u16 = "16 word"
type_synonym u32 = "32 word"
type_synonym u64 = "64 word"

text \<open>A Go string is a sequence of bytes, and so is a HOL string: \<open>char\<close> has 256 values.\<close>

definition byte_of_char :: "char \<Rightarrow> byte" where
  "byte_of_char c = word_of_nat (of_char c)"

definition char_of_byte :: "byte \<Rightarrow> char" where
  "char_of_byte b = char_of (unat b)"

definition bytes_of :: "string \<Rightarrow> bytes" where
  "bytes_of s = map byte_of_char s"

definition string_of :: "bytes \<Rightarrow> string" where
  "string_of b = map char_of_byte b"

lemma unat_byte_lt [simp]: "unat (b :: byte) < 256"
  using unsigned_less [where 'b = 8 and 'a = nat and w = b] by simp

lemma char_of_byte_of_char [simp]: "char_of_byte (byte_of_char c) = c"
  by (simp add: char_of_byte_def byte_of_char_def unat_of_nat)

lemma byte_of_char_of_byte [simp]: "byte_of_char (char_of_byte b) = b"
  by (simp add: char_of_byte_def byte_of_char_def)

lemma string_of_bytes_of [simp]: "string_of (bytes_of s) = s"
  by (simp add: string_of_def bytes_of_def comp_def)

lemma bytes_of_string_of [simp]: "bytes_of (string_of b) = b"
  by (simp add: string_of_def bytes_of_def comp_def)

lemma length_bytes_of [simp]: "length (bytes_of s) = length s"
  by (simp add: bytes_of_def)

lemma length_string_of [simp]: "length (string_of b) = length b"
  by (simp add: string_of_def)

lemma bytes_of_append [simp]: "bytes_of (s @ t) = bytes_of s @ bytes_of t"
  by (simp add: bytes_of_def)

lemma bytes_of_inj [simp]: "bytes_of s = bytes_of t \<longleftrightarrow> s = t"
  by (metis string_of_bytes_of)

text \<open>\<^verbatim>\<open>b[i:j]\<close> of a buffer that has at least \<open>j\<close> bytes.\<close>

definition bslice :: "nat \<Rightarrow> nat \<Rightarrow> bytes \<Rightarrow> bytes" where
  "bslice i j b = take (j - i) (drop i b)"

lemma length_bslice [simp]: "j \<le> length b \<Longrightarrow> length (bslice i j b) = j - i"
  by (simp add: bslice_def)

lemma bslice_drop: "i \<le> j \<Longrightarrow> bslice i j b @ drop j b = drop i b"
  by (metis append_take_drop_id drop_drop le_add_diff_inverse2 bslice_def)

lemma bslice_last: "length b = j \<Longrightarrow> bslice i j b = drop i b"
  by (simp add: bslice_def)

lemma nth0_drop1: "b \<noteq> [] \<Longrightarrow> b ! 0 # drop 1 b = b"
  by (cases b) simp_all

section \<open>Errors\<close>

text \<open>
  The errors the client passes around: the sentinels of \<^verbatim>\<open>io\<close> and
  \<^verbatim>\<open>net\<close>, a network error with its \<^verbatim>\<open>Timeout()\<close> answer and its
  text, an \<^verbatim>\<open>errors.New\<close> or \<^verbatim>\<open>fmt.Errorf\<close> message, and a message
  wrapped around a cause with \<^verbatim>\<open>%w\<close>.
\<close>

datatype goerr =
    EOF
  | UnexpectedEOF
  | ShortWrite
  | ErrClosed
  | NetErr bool string
  | Msg string
  | Wrap string goerr

text \<open>\<^verbatim>\<open>err.Error()\<close>; every \<^verbatim>\<open>%w\<close> of the source ends a \<^verbatim>\<open>"...: %w"\<close> format.\<close>

fun err_text :: "goerr \<Rightarrow> string" where
  "err_text EOF = ''EOF''"
| "err_text UnexpectedEOF = ''unexpected EOF''"
| "err_text ShortWrite = ''short write''"
| "err_text ErrClosed = ''use of closed network connection''"
| "err_text (NetErr t s) = s"
| "err_text (Msg s) = s"
| "err_text (Wrap s e) = s @ '': '' @ err_text e"

text \<open>
  \<^verbatim>\<open>isTransportTimeout\<close>: \<^verbatim>\<open>errors.As\<close> walks the chain of causes to
  the first network error and asks it for \<^verbatim>\<open>Timeout()\<close>. The nil error is \<open>None\<close>.
\<close>

fun chain_timeout :: "goerr \<Rightarrow> bool" where
  "chain_timeout (NetErr t s) = t"
| "chain_timeout (Wrap s e) = chain_timeout e"
| "chain_timeout _ = False"

definition isTransportTimeout :: "goerr option \<Rightarrow> bool" where
  "isTransportTimeout err = (case err of None \<Rightarrow> False | Some e \<Rightarrow> chain_timeout e)"

lemma isTransportTimeout_simps [simp]:
  "isTransportTimeout None = False"
  "isTransportTimeout (Some e) = chain_timeout e"
  by (simp_all add: isTransportTimeout_def)

section \<open>Big-endian and little-endian integers\<close>

fun be_bytes :: "nat \<Rightarrow> nat \<Rightarrow> bytes" where
  "be_bytes 0 k = []"
| "be_bytes (Suc n) k = be_bytes n (k div 256) @ [word_of_nat k]"

definition be_val :: "bytes \<Rightarrow> nat" where
  "be_val bs = foldl (\<lambda>a b. a * 256 + unat b) 0 bs"

lemma be_val_Nil [simp]: "be_val [] = 0"
  by (simp add: be_val_def)

lemma be_val_snoc [simp]: "be_val (bs @ [b]) = be_val bs * 256 + unat b"
  by (simp add: be_val_def)

lemma length_be_bytes [simp]: "length (be_bytes n k) = n"
  by (induction n arbitrary: k) auto

lemma be_val_be_bytes: "be_val (be_bytes n k) = k mod 256 ^ n"
proof (induction n arbitrary: k)
  case 0
  then show ?case by simp
next
  case (Suc n)
  have "k mod 256 ^ Suc n = 256 * (k div 256 mod 256 ^ n) + k mod 256"
    using mod_mult2_eq [of k 256 "256 ^ n"] by simp
  with Suc show ?case by (simp add: unat_of_nat)
qed

lemma be_val_be_bytes_id [codec_simps]: "k < 256 ^ n \<Longrightarrow> be_val (be_bytes n k) = k"
  by (simp add: be_val_be_bytes)

lemma be_bytes_be_val [codec_simps]: "n = length bs \<Longrightarrow> be_bytes n (be_val bs) = bs"
proof (induction bs arbitrary: n rule: rev_induct)
  case Nil
  then show ?case by simp
next
  case (snoc b bs)
  have d: "(be_val bs * 256 + unat b) div 256 = be_val bs" by simp
  have "unat (word_of_nat (be_val bs * 256 + unat b) :: byte) = unat b"
    using unat_byte_lt [of b] by (simp only: unat_of_nat) simp
  then have w: "word_of_nat (be_val bs * 256 + unat b) = b"
    by (simp only: word_unat_eq_iff)
  from snoc.prems have n: "n = Suc (length bs)" by simp
  show ?case
    unfolding n be_val_snoc be_bytes.simps d w using snoc.IH [OF refl] by simp
qed

lemma be_val_bound: "be_val bs < 256 ^ length bs"
proof (induction bs rule: rev_induct)
  case Nil
  then show ?case by simp
next
  case (snoc b bs)
  have "be_val bs * 256 + unat b < (be_val bs + 1) * 256" by simp
  also have "\<dots> \<le> 256 ^ length bs * 256"
    using snoc by (intro mult_le_mono) auto
  finally show ?case by simp
qed

lemma unat_word_bounds [simp]:
  "unat (w :: u16) < 65536" "unat (x :: u32) < 4294967296" "unat (y :: u64) < 18446744073709551616"
  using unsigned_less [where 'b = 16 and 'a = nat and w = w]
    unsigned_less [where 'b = 32 and 'a = nat and w = x]
    unsigned_less [where 'b = 64 and 'a = nat and w = y] by simp_all

definition put16 :: "u16 \<Rightarrow> bytes" where "put16 w = be_bytes 2 (unat w)"
definition put32 :: "u32 \<Rightarrow> bytes" where "put32 w = be_bytes 4 (unat w)"
definition put64 :: "u64 \<Rightarrow> bytes" where "put64 w = be_bytes 8 (unat w)"

definition get16 :: "bytes \<Rightarrow> u16" where "get16 b = word_of_nat (be_val b)"
definition get32 :: "bytes \<Rightarrow> u32" where "get32 b = word_of_nat (be_val b)"
definition get64 :: "bytes \<Rightarrow> u64" where "get64 b = word_of_nat (be_val b)"

definition le_put16 :: "u16 \<Rightarrow> bytes" where "le_put16 w = rev (put16 w)"
definition le_get16 :: "bytes \<Rightarrow> u16" where "le_get16 b = get16 (rev b)"

lemma length_put [simp]:
  "length (put16 w) = 2" "length (put32 x) = 4" "length (put64 y) = 8" "length (le_put16 w) = 2"
  by (simp_all add: put16_def put32_def put64_def le_put16_def)

lemma get_put [simp]:
  "get16 (put16 w) = w" "get32 (put32 x) = x" "get64 (put64 y) = y" "le_get16 (le_put16 w) = w"
  by (simp_all add: get16_def put16_def get32_def put32_def get64_def put64_def
      le_get16_def le_put16_def be_val_be_bytes_id)

lemma put_get:
  "length b = 2 \<Longrightarrow> put16 (get16 b) = b"
  "length b = 4 \<Longrightarrow> put32 (get32 b) = b"
  "length b = 8 \<Longrightarrow> put64 (get64 b) = b"
  "length b = 2 \<Longrightarrow> le_put16 (le_get16 b) = b"
  using be_val_bound [of b] be_val_bound [of "rev b"]
  by (simp_all add: get16_def put16_def get32_def put32_def get64_def put64_def
      le_get16_def le_put16_def unat_of_nat be_bytes_be_val)

lemma unat_u32_of_nat [simp]: "n < 4294967296 \<Longrightarrow> unat (word_of_nat n :: u32) = n"
  by (simp add: unat_of_nat)

lemma unat_u16_of_nat [simp]: "n < 65536 \<Longrightarrow> unat (word_of_nat n :: u16) = n"
  by (simp add: unat_of_nat)

section \<open>XOR of byte strings\<close>

definition xor_bytes :: "bytes \<Rightarrow> bytes \<Rightarrow> bytes" where
  "xor_bytes a b = map2 (XOR) a b"

lemma length_xor_bytes [simp]: "length (xor_bytes a b) = min (length a) (length b)"
  by (simp add: xor_bytes_def)

lemma xor_twice [simp]: "(a XOR b) XOR (b :: 'a::len word) = a"
  by (simp add: xor.assoc)

lemma xor_cancel_right [simp]: "a XOR k = b XOR k \<longleftrightarrow> a = (b :: 'a::len word)"
  by (metis xor_twice)

lemma xor_bytes_twice [simp]: "length a \<le> length k \<Longrightarrow> xor_bytes (xor_bytes a k) k = a"
  by (rule nth_equalityI) (auto simp: xor_bytes_def)

section \<open>Decimal text\<close>

definition digit :: "nat \<Rightarrow> char" where
  "digit d = char_of (48 + d)"

fun dec :: "nat \<Rightarrow> string" where
  "dec n = (if n < 10 then [digit n] else dec (n div 10) @ [digit (n mod 10)])"

declare dec.simps [simp del]

text \<open>\<^verbatim>\<open>%d\<close> of a Go \<^verbatim>\<open>int\<close>.\<close>

definition dec_int :: "int \<Rightarrow> string" where
  "dec_int i = (if i < 0 then ''-'' @ dec (nat (- i)) else dec (nat i))"

section \<open>Integer division\<close>

text \<open>Go's \<^verbatim>\<open>/\<close> on \<^verbatim>\<open>int\<close> truncates towards zero: it is \<open>sdiv\<close>.\<close>

lemma sdiv_pos [simp]: "0 \<le> a \<Longrightarrow> 0 < b \<Longrightarrow> (a :: int) sdiv b = a div b"
  by (simp add: signed_divide_int_def sgn_if)

section \<open>Readers\<close>

text \<open>
  What a connection still delivers: its bytes, then the error every later read reports.
  Which bytes and which error is the peer's and the network's choice, so the theorems
  quantify over both.
\<close>

type_synonym stream = "bytes \<times> goerr"

text \<open>\<^verbatim>\<open>io.ReadFull\<close> into a buffer of \<open>n\<close> bytes.\<close>

definition ReadFull :: "nat \<Rightarrow> stream \<Rightarrow> goerr + bytes \<times> stream" where
  "ReadFull n s = (case s of (bs, e) \<Rightarrow>
     if n \<le> length bs then Inr (take n bs, (drop n bs, e))
     else Inl (if bs \<noteq> [] \<and> e = EOF then UnexpectedEOF else e))"

lemma ReadFull_append [codec_simps]:
  "length a = n \<Longrightarrow> ReadFull n (a @ b, e) = Inr (a, (b, e))"
  by (simp add: ReadFull_def)

lemma ReadFull_exact [codec_simps]: "length a = n \<Longrightarrow> ReadFull n (a, e) = Inr (a, ([], e))"
  by (simp add: ReadFull_def)

lemma ReadFull_0 [simp]: "ReadFull 0 s = Inr ([], s)"
  by (cases s) (simp add: ReadFull_def)

lemma ReadFull_Inr:
  "ReadFull n s = Inr (b, s') \<Longrightarrow> length b = n \<and> fst s = b @ fst s' \<and> snd s' = snd s"
  by (cases s) (auto simp: ReadFull_def split: if_splits)

lemma ReadFull_InrE:
  assumes "ReadFull n s = Inr (b, s')"
  obtains r e where "s = (b @ r, e)" "s' = (r, e)" "length b = n"
  using ReadFull_Inr [OF assms] by (cases s, cases s') auto

lemma ReadFull_short [codec_simps]:
  "length a < n \<Longrightarrow> ReadFull n (a, e) = Inl (if a \<noteq> [] \<and> e = EOF then UnexpectedEOF else e)"
  by (simp add: ReadFull_def)

lemma ReadFull_timeout:
  "ReadFull n (bs, e) = Inl e' \<Longrightarrow> chain_timeout e' = chain_timeout e"
  by (auto simp: ReadFull_def split: if_splits)

section \<open>Writers\<close>

text \<open>
  A connection: the bytes it will deliver, the bytes written to it so far, and how it
  answers its successive \<^verbatim>\<open>Write\<close> calls: the \<open>k\<close>-th call accepts at most
  \<open>fst (c_ans k)\<close> bytes and reports \<open>snd (c_ans k)\<close>. Any behaviour is allowed,
  short writes without an error included.
\<close>

record conn =
  c_in :: stream
  c_out :: bytes
  c_calls :: nat
  c_ans :: "nat \<Rightarrow> nat \<times> goerr option"

definition conn_write :: "conn \<Rightarrow> bytes \<Rightarrow> nat \<times> goerr option \<times> conn" where
  "conn_write c b = (let (k, err) = c_ans c (c_calls c); n = min k (length b)
     in (n, err, c\<lparr>c_out := c_out c @ take n b, c_calls := Suc (c_calls c)\<rparr>))"

text \<open>
  \<^verbatim>\<open>io.Writer\<close>'s documented contract, which \<^verbatim>\<open>net.Conn\<close> keeps: a call that
  accepts fewer bytes than it was given reports an error. A writer that answers every
  call by taking everything is \<open>accepting\<close>.
\<close>

definition accepting :: "conn \<Rightarrow> bool" where
  "accepting c \<longleftrightarrow> (\<forall>k. snd (c_ans c k) = None \<and> 2097400 \<le> fst (c_ans c k))"

text \<open>A fresh connection that accepts everything and delivers nothing; a concrete input for examples.\<close>

definition open_conn :: conn where
  "open_conn = \<lparr>c_in = ([], EOF), c_out = [], c_calls = 0, c_ans = \<lambda>_. (2097400, None)\<rparr>"

lemma accepting_open_conn [simp]: "accepting open_conn"
  by (simp add: accepting_def open_conn_def)

lemma conn_write_accepting:
  "accepting c \<Longrightarrow> length b \<le> 2097400 \<Longrightarrow>
   conn_write c b = (length b, None, c\<lparr>c_out := c_out c @ b, c_calls := Suc (c_calls c)\<rparr>)"
  by (auto simp: conn_write_def accepting_def Let_def split: prod.splits)
    (metis fst_conv le_trans min.absorb2 snd_conv take_all_iff nle_le)+

lemma accepting_updates [simp]:
  "accepting (c\<lparr>c_out := x, c_calls := k\<rparr>) = accepting c"
  "accepting (c\<lparr>c_in := s\<rparr>) = accepting c"
  by (simp_all add: accepting_def)

text \<open>
  \<^verbatim>\<open>writeAll\<close> of \<^verbatim>\<open>internal/wire\<close> and \<^verbatim>\<open>internal/cover\<close>, and
  \<^verbatim>\<open>writeCarrierFull\<close> of the SSH carrier: the same loop three times in the source.
  Each turn either returns or drops at least one byte, so it terminates on every writer.
\<close>

function writeAll :: "conn \<Rightarrow> bytes \<Rightarrow> goerr option \<times> conn" where
  "writeAll c b = (if b = [] then (None, c)
     else case conn_write c b of (n, err, c') \<Rightarrow>
       (case err of Some e \<Rightarrow> (Some e, c')
        | None \<Rightarrow> if n = 0 then (Some ShortWrite, c') else writeAll c' (drop n b)))"
  by pat_completeness auto
termination
  by (relation "measure (\<lambda>(c, b). length b)") auto

declare writeAll.simps [simp del]

lemma writeAll_Nil [simp]: "writeAll c [] = (None, c)"
  by (simp add: writeAll.simps)

lemma conn_write_out:
  "conn_write c b = (n, err, c') \<Longrightarrow> n \<le> length b \<and> c_out c' = c_out c @ take n b \<and> c_in c' = c_in c"
  by (auto simp: conn_write_def Let_def split: prod.splits)

text \<open>What was written is a prefix of the buffer, and all of it when no error is reported.\<close>

lemma writeAll_out:
  "writeAll c b = (err, c') \<Longrightarrow>
   \<exists>n \<le> length b. c_out c' = c_out c @ take n b \<and> (err = None \<longrightarrow> n = length b)"
proof (induction c b arbitrary: err c' rule: writeAll.induct)
  case (1 c b)
  show ?case
  proof (cases "b = []")
    case True
    with "1.prems" show ?thesis by auto
  next
    case False
    obtain n e c1 where w: "conn_write c b = (n, e, c1)" by (cases "conn_write c b") auto
    note o = conn_write_out [OF w]
    show ?thesis
    proof (cases "e = None \<and> n \<noteq> 0")
      case True
      with False w "1.prems" have "writeAll c1 (drop n b) = (err, c')"
        by (simp add: writeAll.simps [of c b])
      from "1.IH" [OF False w [symmetric] refl _ _ this] True
      obtain m where m: "m \<le> length (drop n b)" "c_out c' = c_out c1 @ take m (drop n b)"
        "err = None \<longrightarrow> m = length (drop n b)" by auto
      have "take n b @ take m (drop n b) = take (n + m) b" by (simp add: take_add)
      with m o show ?thesis by (intro exI [of _ "n + m"]) auto
    next
      case False
      with \<open>b \<noteq> []\<close> w "1.prems" have "c' = c1 \<and> err \<noteq> None"
        by (auto simp: writeAll.simps [of c b] split: option.splits if_splits)
      with o show ?thesis by auto
    qed
  qed
qed

lemma writeAll_in: "writeAll c b = (err, c') \<Longrightarrow> c_in c' = c_in c"
proof (induction c b arbitrary: err c' rule: writeAll.induct)
  case (1 c b)
  obtain n e c1 where w: "conn_write c b = (n, e, c1)" by (cases "conn_write c b") auto
  with "1" conn_write_out [OF w] show ?case
    by (auto simp: writeAll.simps [of c b] split: if_splits option.splits)
qed

lemma writeAll_accepting:
  assumes "accepting c" and "length b \<le> 2097400"
  shows "fst (writeAll c b) = None" and "c_out (snd (writeAll c b)) = c_out c @ b"
  using assms by (simp_all add: writeAll.simps [of c b] conn_write_accepting)

text \<open>
  \<^verbatim>\<open>net.Buffers.WriteTo\<close> on two buffers: one \<^verbatim>\<open>Write\<close> each, in order,
  stopping at the first error; a short write without an error is not retried.
\<close>

definition buffersWriteTo :: "conn \<Rightarrow> bytes \<Rightarrow> bytes \<Rightarrow> goerr option \<times> conn" where
  "buffersWriteTo c h p = (case conn_write c h of (n, err, c') \<Rightarrow>
     (case err of Some e \<Rightarrow> (Some e, c')
      | None \<Rightarrow> (case conn_write c' p of (n', err', c'') \<Rightarrow> (err', c''))))"

lemma buffersWriteTo_in: "buffersWriteTo c h p = (err, c') \<Longrightarrow> c_in c' = c_in c"
  by (auto simp: buffersWriteTo_def dest!: conn_write_out split: prod.splits option.splits)

lemma buffersWriteTo_accepting:
  assumes "accepting c" and "length h \<le> 2097400" and "length p \<le> 2097400"
  shows "fst (buffersWriteTo c h p) = None" and "c_out (snd (buffersWriteTo c h p)) = c_out c @ h @ p"
  using assms by (simp_all add: buffersWriteTo_def conn_write_accepting)

section \<open>Framed codecs\<close>

text \<open>Read \<open>k\<close> frames one after the other, stopping at the first error.\<close>

fun read_many :: "(stream \<Rightarrow> goerr + 'f \<times> stream) \<Rightarrow> nat \<Rightarrow> stream \<Rightarrow> goerr + 'f list \<times> stream" where
  "read_many d 0 s = Inr ([], s)"
| "read_many d (Suc k) s = (case d s of Inl e \<Rightarrow> Inl e
     | Inr (f, s') \<Rightarrow> (case read_many d k s' of Inl e \<Rightarrow> Inl e
         | Inr (fs, s'') \<Rightarrow> Inr (f # fs, s'')))"

text \<open>
  The interface of a framed codec: decoding what was encoded, with anything behind it,
  gives the frame and leaves the rest; a frame cut short is an error. The client lemmas
  are what a peer relies on: pipelined frames come out in order, an encoding can be read
  in one way only, and a truncated stream never yields more frames than were complete.
\<close>

locale frame_codec =
  fixes enc :: "'f \<Rightarrow> bytes"
    and dec_frame :: "stream \<Rightarrow> goerr + 'f \<times> stream"
    and ok :: "'f \<Rightarrow> bool"
  assumes dec_enc: "ok f \<Longrightarrow> dec_frame (enc f @ r, e) = Inr (f, (r, e))"
    and dec_short: "ok f \<Longrightarrow> n < length (enc f) \<Longrightarrow> \<exists>err. dec_frame (take n (enc f), e) = Inl err"
begin

lemma pipelined:
  "\<forall>f \<in> set fs. ok f \<Longrightarrow>
   read_many dec_frame (length fs) (concat (map enc fs) @ r, e) = Inr (fs, (r, e))"
  by (induction fs) (simp_all add: dec_enc)

lemma unambiguous:
  assumes "ok f" and "ok g" and "enc f @ r = enc g @ s"
  shows "f = g \<and> r = s"
proof -
  have "dec_frame (enc g @ s, EOF) = Inr (f, (r, EOF))"
    using dec_enc [OF assms(1), of r EOF] unfolding assms(3) .
  then show ?thesis using dec_enc [OF assms(2), of s EOF] by simp
qed

lemma prefix_free: "ok f \<Longrightarrow> ok g \<Longrightarrow> enc g = enc f @ r \<Longrightarrow> r = []"
  by (metis append_Nil2 unambiguous)

lemma truncated:
  assumes "\<forall>f \<in> set fs. ok f" and "ok g" and "n < length (enc g)"
  shows "\<exists>err. read_many dec_frame (Suc (length fs)) (concat (map enc fs) @ take n (enc g), e) = Inl err"
  using assms
proof (induction fs)
  case Nil
  with dec_short [of g n e] show ?case by auto
next
  case (Cons f fs)
  then obtain err where
    "read_many dec_frame (Suc (length fs)) (concat (map enc fs) @ take n (enc g), e) = Inl err" by auto
  with Cons.prems show ?case
    by (auto simp: dec_enc simp del: read_many.simps(2) simp add: read_many.simps(2) [of _ "Suc (length fs)"])
qed

end

text \<open>
  Every frame of the program is a header of fixed size that announces a payload, then the
  payload. What has to be shown of one frame type is only how its reader treats a whole
  header and a cut header; the codec laws follow for all of them at once.
\<close>

locale length_prefixed =
  fixes hlen :: nat
    and hdr :: "'f \<Rightarrow> bytes"
    and body :: "'f \<Rightarrow> bytes"
    and mk :: "'f \<Rightarrow> bytes \<Rightarrow> 'f"
    and dec_frame :: "stream \<Rightarrow> goerr + 'f \<times> stream"
    and ok :: "'f \<Rightarrow> bool"
  assumes length_hdr: "ok f \<Longrightarrow> length (hdr f) = hlen"
    and mk_body: "ok f \<Longrightarrow> mk f (body f) = f"
    and dec_hdr: "ok f \<Longrightarrow> dec_frame (hdr f @ b, e) =
      (case ReadFull (length (body f)) (b, e) of Inl x \<Rightarrow> Inl x | Inr (p, s) \<Rightarrow> Inr (mk f p, s))"
    and dec_cut: "length b < hlen \<Longrightarrow> \<exists>err. dec_frame (b, e) = Inl err"
begin

definition whole :: "'f \<Rightarrow> bytes" where
  "whole f = hdr f @ body f"

lemma dec_whole: "ok f \<Longrightarrow> dec_frame (whole f @ r, e) = Inr (f, (r, e))"
  by (simp add: whole_def dec_hdr ReadFull_append mk_body)

lemma dec_truncated:
  assumes "ok f" and "n < length (whole f)"
  shows "\<exists>err. dec_frame (take n (whole f), e) = Inl err"
proof (cases "n < hlen")
  case True
  with assms show ?thesis by (intro dec_cut) (simp add: length_hdr)
next
  case False
  with assms have "take n (whole f) = hdr f @ take (n - hlen) (body f)"
    and "n - hlen < length (body f)" by (auto simp: whole_def length_hdr)
  with assms(1) show ?thesis by (simp add: dec_hdr ReadFull_short)
qed

end

sublocale length_prefixed \<subseteq> frame_codec whole dec_frame ok
  by unfold_locales (simp_all add: dec_whole dec_truncated)

end
