(* ===== verification/Sha256.thy ===== *)
theory Sha256
  imports Prelude
begin

text \<open>
  \<^verbatim>\<open>crypto/sha256.Sum256\<close>, the one function of the standard library whose values
  the client puts on the wire: it keys the payload mask of \<^verbatim>\<open>internal/wire\<close> and the
  cover preface of \<^verbatim>\<open>internal/cover\<close>. The definition follows FIPS 180-4 and is
  executable; what the rest of the development uses of it is that a digest has 32 bytes.
\<close>

definition rotr :: "nat \<Rightarrow> u32 \<Rightarrow> u32" where
  "rotr n w = drop_bit n w OR push_bit (32 - n) w"

definition sha_K :: "u32 list" where
  "sha_K = [
    1116352408, 1899447441, 3049323471, 3921009573, 961987163, 1508970993,
    2453635748, 2870763221, 3624381080, 310598401, 607225278, 1426881987,
    1925078388, 2162078206, 2614888103, 3248222580, 3835390401, 4022224774,
    264347078, 604807628, 770255983, 1249150122, 1555081692, 1996064986,
    2554220882, 2821834349, 2952996808, 3210313671, 3336571891, 3584528711,
    113926993, 338241895, 666307205, 773529912, 1294757372, 1396182291,
    1695183700, 1986661051, 2177026350, 2456956037, 2730485921, 2820302411,
    3259730800, 3345764771, 3516065817, 3600352804, 4094571909, 275423344,
    430227734, 506948616, 659060556, 883997877, 958139571, 1322822218,
    1537002063, 1747873779, 1955562222, 2024104815, 2227730452, 2361852424,
    2428436474, 2756734187, 3204031479, 3329325298]"

type_synonym sha_state = "u32 \<times> u32 \<times> u32 \<times> u32 \<times> u32 \<times> u32 \<times> u32 \<times> u32"

definition sha_H :: sha_state where
  "sha_H = (1779033703, 3144134277, 1013904242, 2773480762, 1359893119, 2600822924, 528734635, 1541459225)"

text \<open>
  The message schedule is kept as a window of sixteen words: round \<open>t\<close> consumes its
  first word and appends word \<open>t + 16\<close>.
\<close>

definition sched_next :: "u32 list \<Rightarrow> u32" where
  "sched_next w = (rotr 17 (w ! 14) XOR rotr 19 (w ! 14) XOR drop_bit 10 (w ! 14)) + w ! 9
     + (rotr 7 (w ! 1) XOR rotr 18 (w ! 1) XOR drop_bit 3 (w ! 1)) + w ! 0"

definition sha_round :: "u32 \<Rightarrow> u32 \<Rightarrow> sha_state \<Rightarrow> sha_state" where
  "sha_round k w s = (case s of (a, b, c, d, e, f, g, h) \<Rightarrow>
     let t1 = h + (rotr 6 e XOR rotr 11 e XOR rotr 25 e) + ((e AND f) XOR (NOT e AND g)) + k + w;
         t2 = (rotr 2 a XOR rotr 13 a XOR rotr 22 a) + ((a AND b) XOR (a AND c) XOR (b AND c))
     in (t1 + t2, a, b, c, d + t1, e, f, g))"

fun sha_rounds :: "u32 list \<Rightarrow> u32 list \<Rightarrow> sha_state \<Rightarrow> sha_state" where
  "sha_rounds [] w s = s"
| "sha_rounds (k # ks) w s = sha_rounds ks (tl w @ [sched_next w]) (sha_round k (hd w) s)"

definition sha_add :: "sha_state \<Rightarrow> sha_state \<Rightarrow> sha_state" where
  "sha_add s t = (case s of (a, b, c, d, e, f, g, h) \<Rightarrow> (case t of (a', b', c', d', e', f', g', h') \<Rightarrow>
     (a + a', b + b', c + c', d + d', e + e', f + f', g + g', h + h')))"

fun words_of_bytes :: "bytes \<Rightarrow> u32 list" where
  "words_of_bytes (a # b # c # d # r) = get32 [a, b, c, d] # words_of_bytes r"
| "words_of_bytes _ = []"

definition sha_block :: "sha_state \<Rightarrow> bytes \<Rightarrow> sha_state" where
  "sha_block s b = sha_add s (sha_rounds sha_K (words_of_bytes b) s)"

function sha_blocks :: "sha_state \<Rightarrow> bytes \<Rightarrow> sha_state" where
  "sha_blocks s m = (if m = [] then s else sha_blocks (sha_block s (take 64 m)) (drop 64 m))"
  by pat_completeness auto
termination
  by (relation "measure (\<lambda>(s, m). length m)") auto

declare sha_blocks.simps [simp del]

definition sha_pad :: "bytes \<Rightarrow> bytes" where
  "sha_pad m = m @ [0x80] @ replicate ((119 - length m mod 64) mod 64) 0 @ be_bytes 8 (8 * length m)"

definition sha256 :: "bytes \<Rightarrow> bytes" where
  "sha256 m = (case sha_blocks sha_H (sha_pad m) of (a, b, c, d, e, f, g, h) \<Rightarrow>
     concat (map put32 [a, b, c, d, e, f, g, h]))"

lemma length_sha256 [simp]: "length (sha256 m) = 32"
  by (simp add: sha256_def split: prod.splits)

lemma sha256_not_Nil [simp]: "sha256 m \<noteq> []"
  by (metis length_sha256 list.size(3) zero_neq_numeral)

text \<open>Padding fills whole blocks, so every block has its sixteen schedule words.\<close>

lemma length_sha_pad: "64 dvd length (sha_pad m)"
proof -
  have "length m mod 64 < 64" by simp
  then have "(length m mod 64 + (119 - length m mod 64) mod 64 + 9) mod 64 = 0"
    by (cases "length m mod 64 \<le> 55") (simp_all add: mod_if [of "119 - length m mod 64"])
  then have "(length m + (119 - length m mod 64) mod 64 + 9) mod 64 = 0"
    by (metis (no_types, lifting) add.assoc mod_add_left_eq)
  moreover have "length (sha_pad m) = length m + (119 - length m mod 64) mod 64 + 9"
    by (simp add: sha_pad_def)
  ultimately show ?thesis by (metis mod_0_imp_dvd)
qed

end
