(* ===== verification/Wire.thy ===== *)
theory Wire
  imports Sha256
begin

text \<open>
  \<^verbatim>\<open>internal/wire/protocol.go\<close>: the binary frames of the \<^verbatim>\<open>b\<close> and
  \<^verbatim>\<open>bp\<close> transports. Requests have 29 header bytes (33 multiplexed), responses 5
  (9 multiplexed); the payload is masked with a SHA-256 keystream or, under a clear cover
  profile, sent as it is; the first header byte is XORed with the profile's header mask.
\<close>

section \<open>Constants and types\<close>

definition RequestHeaderSize :: nat where "RequestHeaderSize = 29"
definition ResponseHeaderSize :: nat where "ResponseHeaderSize = 5"
definition MuxRequestHeaderSize :: nat where "MuxRequestHeaderSize = 33"
definition MuxResponseHeaderSize :: nat where "MuxResponseHeaderSize = 9"
definition MaxPayload :: nat where "MaxPayload = 2 * 1024 * 1024"

definition ModeProbe :: byte where "ModeProbe = 0"
definition ModeOpen :: byte where "ModeOpen = 1"
definition ModeUpload :: byte where "ModeUpload = 2"
definition ModeDownload :: byte where "ModeDownload = 3"
definition ModeClose :: byte where "ModeClose = 4"

definition StatusOK :: byte where "StatusOK = 0"
definition StatusError :: byte where "StatusError = 1"
definition StatusData :: byte where "StatusData = 2"
definition StatusWait :: byte where "StatusWait = 3"
definition StatusEOF :: byte where "StatusEOF = 4"

definition ProbeUpload :: byte where "ProbeUpload = 1"
definition ProbeDownload :: byte where "ProbeDownload = 2"
definition ProbeKeepalive :: byte where "ProbeKeepalive = 3"
definition ProbeBatch :: byte where "ProbeBatch = 4"
definition ProbeIperfUpload :: byte where "ProbeIperfUpload = 5"
definition ProbeIperfDownload :: byte where "ProbeIperfDownload = 6"

definition ProbeMagic :: bytes where "ProbeMagic = bytes_of ''DTP2''"

definition ProbeBurstCount :: "int \<Rightarrow> int" where "ProbeBurstCount chunk = 1"

lemmas header_sizes [simp] =
  RequestHeaderSize_def ResponseHeaderSize_def MuxRequestHeaderSize_def MuxResponseHeaderSize_def

lemmas mode_defs = ModeProbe_def ModeOpen_def ModeUpload_def ModeDownload_def ModeClose_def

lemmas status_defs = StatusOK_def StatusError_def StatusData_def StatusWait_def StatusEOF_def

text \<open>\<^verbatim>\<open>SessionID\<close> is \<^verbatim>\<open>[16]byte\<close>: a byte string that always has sixteen bytes.\<close>

typedef session_id = "{b :: bytes. length b = 16}"
  morphisms sid_bytes Abs_session_id
  by (rule exI [of _ "replicate 16 0"]) simp

text \<open>\<^verbatim>\<open>copy(sid[:], b)\<close> into a zeroed array.\<close>

definition sid_of :: "bytes \<Rightarrow> session_id" where
  "sid_of b = Abs_session_id (take 16 (b @ replicate 16 0))"

lemma sid_bytes_of: "sid_bytes (sid_of b) = take 16 (b @ replicate 16 0)"
  by (simp add: sid_of_def Abs_session_id_inverse)

instantiation session_id :: equal
begin

definition equal_session_id :: "session_id \<Rightarrow> session_id \<Rightarrow> bool" where
  "equal_session_id s t \<longleftrightarrow> sid_bytes s = sid_bytes t"

instance
  by standard (simp add: equal_session_id_def sid_bytes_inject)

end

lemma length_sid_bytes [simp]: "length (sid_bytes s) = 16"
  using sid_bytes [of s] by simp

lemma sid_of_sid_bytes [simp]: "sid_of (sid_bytes s) = s"
  by (simp add: sid_bytes_inject [symmetric] sid_bytes_of)

lemma sid_bytes_sid_of [simp]: "length b = 16 \<Longrightarrow> sid_bytes (sid_of b) = b"
  by (simp add: sid_bytes_of)

record Request =
  rq_mode :: byte
  rq_session :: session_id
  rq_seq :: u64
  rq_payload :: bytes

record MuxRequest =
  mq_mode :: byte
  mq_session :: session_id
  mq_seq :: u64
  mq_id :: u32
  mq_payload :: bytes

record MuxResponse =
  mr_status :: byte
  mr_id :: u32
  mr_body :: bytes

section \<open>The payload mask\<close>

definition mask_seed :: "session_id \<Rightarrow> byte \<Rightarrow> u64 \<Rightarrow> bool \<Rightarrow> u32 \<Rightarrow> bytes" where
  "mask_seed sid mode seq response counter =
     sid_bytes sid @ [mode] @ put64 seq @ [if response then 1 else 0] @ put32 counter"

text \<open>The loop of \<^verbatim>\<open>MaskInPlace\<close> from block \<open>counter\<close> on; the counter wraps at 32 bits.\<close>

function mask_from :: "session_id \<Rightarrow> byte \<Rightarrow> u64 \<Rightarrow> bool \<Rightarrow> u32 \<Rightarrow> bytes \<Rightarrow> bytes" where
  "mask_from sid mode seq response counter data =
     (if data = [] then []
      else let block = sha256 (mask_seed sid mode seq response counter);
               n = min (length data) (length block)
           in xor_bytes (take n data) (take n block)
              @ mask_from sid mode seq response (counter + 1) (drop n data))"
  by pat_completeness auto
termination
  by (relation "measure (\<lambda>(sid, mode, seq, response, counter, data). length data)") auto

declare mask_from.simps [simp del]

definition MaskInPlace :: "bytes \<Rightarrow> session_id \<Rightarrow> byte \<Rightarrow> u64 \<Rightarrow> bool \<Rightarrow> bytes" where
  "MaskInPlace data sid mode seq response =
     (if data = [] then [] else mask_from sid mode seq response 0 data)"

lemma length_mask_from [simp]: "length (mask_from sid mode seq r c data) = length data"
proof (induction sid mode seq r c data rule: mask_from.induct)
  case (1 sid mode seq r c data)
  then show ?case by (auto simp: mask_from.simps [of sid mode seq r c data] Let_def)
qed

lemma mask_from_twice [simp]:
  "mask_from sid mode seq r c (mask_from sid mode seq r c data) = data"
proof (induction sid mode seq r c data rule: mask_from.induct)
  case (1 sid mode seq r c data)
  show ?case
  proof (cases "data = []")
    case True
    then show ?thesis by (simp add: mask_from.simps)
  next
    case False
    define block where "block = sha256 (mask_seed sid mode seq r c)"
    define n where "n = min (length data) (length block)"
    define hd' where "hd' = xor_bytes (take n data) (take n block)"
    define tl' where "tl' = mask_from sid mode seq r (c + 1) (drop n data)"
    have once: "mask_from sid mode seq r c data = hd' @ tl'"
      using False by (simp add: mask_from.simps [of _ _ _ _ c data] Let_def block_def n_def hd'_def tl'_def)
    have len: "length hd' = n" "length tl' = length data - n"
      by (simp_all add: hd'_def tl'_def n_def)
    have n: "n = min (length (hd' @ tl')) (length block)"
      using len by (simp add: n_def)
    have ne: "hd' @ tl' \<noteq> []" using False len by (auto simp: n_def block_def)
    have "mask_from sid mode seq r c (hd' @ tl') =
        xor_bytes (take n (hd' @ tl')) (take n block)
        @ mask_from sid mode seq r (c + 1) (drop n (hd' @ tl'))"
      using ne n by (simp add: mask_from.simps [of _ _ _ _ c "hd' @ tl'"] Let_def block_def del: append_is_Nil_conv)
    also have "\<dots> = xor_bytes hd' (take n block) @ mask_from sid mode seq r (c + 1) tl'"
      using len by simp
    also have "\<dots> = take n data @ drop n data"
      using "1.IH" [OF False refl refl] by (simp add: hd'_def tl'_def n_def block_def)
    finally show ?thesis by (simp add: once)
  qed
qed

lemma length_MaskInPlace [simp]: "length (MaskInPlace data sid mode seq r) = length data"
  by (simp add: MaskInPlace_def)

lemma MaskInPlace_Nil [simp]: "MaskInPlace [] sid mode seq r = []"
  by (simp add: MaskInPlace_def)

lemma MaskInPlace_twice [simp]:
  "MaskInPlace (MaskInPlace data sid mode seq r) sid mode seq r = data"
proof (cases "data = []")
  case False
  then have "mask_from sid mode seq r 0 data \<noteq> []" by (metis length_0_conv length_mask_from)
  with False show ?thesis by (simp add: MaskInPlace_def)
qed simp

text \<open>A clear profile leaves the payload alone.\<close>

definition wire_payload :: "bool \<Rightarrow> session_id \<Rightarrow> byte \<Rightarrow> u64 \<Rightarrow> bool \<Rightarrow> bytes \<Rightarrow> bytes" where
  "wire_payload clear sid mode seq r p = (if clear then p else MaskInPlace p sid mode seq r)"

lemma length_wire_payload [simp]: "length (wire_payload clear sid mode seq r p) = length p"
  by (simp add: wire_payload_def)

lemma wire_payload_twice [simp]:
  "wire_payload clear sid mode seq r (wire_payload clear sid mode seq r p) = p"
  by (simp add: wire_payload_def)

section \<open>Requests\<close>

definition request_header :: "byte \<Rightarrow> session_id \<Rightarrow> u64 \<Rightarrow> u32 \<Rightarrow> byte \<Rightarrow> bytes" where
  "request_header mode sid seq n headerMask =
     [mode XOR headerMask] @ sid_bytes sid @ put64 seq @ put32 n"

definition WriteRequestProfileEncoding ::
  "conn \<Rightarrow> byte \<Rightarrow> session_id \<Rightarrow> u64 \<Rightarrow> bytes \<Rightarrow> byte \<Rightarrow> bool \<Rightarrow> goerr option \<times> conn" where
  "WriteRequestProfileEncoding w mode sid seq plaintext headerMask clear =
     (if length plaintext > MaxPayload
      then (Some (Msg (''request payload too large: '' @ dec (length plaintext))), w)
      else let header = request_header mode sid seq (word_of_nat (length plaintext)) headerMask
           in if clear then buffersWriteTo w header plaintext
              else writeAll w (header @ MaskInPlace plaintext sid mode seq False))"

definition WriteRequestProfile ::
  "conn \<Rightarrow> byte \<Rightarrow> session_id \<Rightarrow> u64 \<Rightarrow> bytes \<Rightarrow> byte \<Rightarrow> goerr option \<times> conn" where
  "WriteRequestProfile w mode sid seq plaintext headerMask =
     WriteRequestProfileEncoding w mode sid seq plaintext headerMask False"

definition WriteRequest ::
  "conn \<Rightarrow> byte \<Rightarrow> session_id \<Rightarrow> u64 \<Rightarrow> bytes \<Rightarrow> goerr option \<times> conn" where
  "WriteRequest w mode sid seq plaintext = WriteRequestProfile w mode sid seq plaintext 0"

definition ReadRequestProfileEncoding ::
  "stream \<Rightarrow> byte \<Rightarrow> bool \<Rightarrow> goerr + Request \<times> stream" where
  "ReadRequestProfileEncoding r headerMask clear =
     (case ReadFull RequestHeaderSize r of Inl e \<Rightarrow> Inl e
      | Inr (header, r1) \<Rightarrow>
        let mode = header ! 0 XOR headerMask in
        if mode > ModeClose then Inl (Msg ''unknown request mode'')
        else
          let sid = sid_of (bslice 1 17 header);
              seq = get64 (bslice 17 25 header);
              n = get32 (bslice 25 29 header) in
          if unat n > MaxPayload then Inl (Msg ''request payload too large'')
          else if n > 0 then
            (case ReadFull (unat n) r1 of Inl e \<Rightarrow> Inl e
             | Inr (p, r2) \<Rightarrow>
               Inr (\<lparr>rq_mode = mode, rq_session = sid, rq_seq = seq,
                     rq_payload = (if clear then p else MaskInPlace p sid mode seq False)\<rparr>, r2))
          else Inr (\<lparr>rq_mode = mode, rq_session = sid, rq_seq = seq, rq_payload = []\<rparr>, r1))"

definition ReadRequestProfile :: "stream \<Rightarrow> byte \<Rightarrow> goerr + Request \<times> stream" where
  "ReadRequestProfile r headerMask = ReadRequestProfileEncoding r headerMask False"

definition ReadRequest :: "stream \<Rightarrow> goerr + Request \<times> stream" where
  "ReadRequest r = ReadRequestProfile r 0"

text \<open>What a request looks like on the wire, and which requests the reader accepts.\<close>

definition req_hdr :: "byte \<Rightarrow> Request \<Rightarrow> bytes" where
  "req_hdr hm q = request_header (rq_mode q) (rq_session q) (rq_seq q)
     (word_of_nat (length (rq_payload q))) hm"

definition req_body :: "bool \<Rightarrow> Request \<Rightarrow> bytes" where
  "req_body clear q = wire_payload clear (rq_session q) (rq_mode q) (rq_seq q) False (rq_payload q)"

definition request_frame :: "byte \<Rightarrow> bool \<Rightarrow> Request \<Rightarrow> bytes" where
  "request_frame hm clear q = req_hdr hm q @ req_body clear q"

definition request_ok :: "Request \<Rightarrow> bool" where
  "request_ok q \<longleftrightarrow> rq_mode q \<le> ModeClose \<and> length (rq_payload q) \<le> MaxPayload"

lemma MaxPayload_lt: "n \<le> MaxPayload \<Longrightarrow> n < 4294967296"
  by (simp add: MaxPayload_def)

lemma length_request_header [simp]: "length (request_header m s q n k) = 29"
  by (simp add: request_header_def)

text \<open>The fields read back from a header, for any first byte.\<close>

lemma request_header_fields [codec_simps]:
  "request_header m s q n k ! 0 = m XOR k"
  "sid_of (bslice 1 17 (request_header m s q n k)) = s"
  "sid_of (bslice (Suc 0) 17 (request_header m s q n k)) = s"
  "get64 (bslice 17 25 (request_header m s q n k)) = q"
  "get32 (bslice 25 29 (request_header m s q n k)) = n"
  by (simp_all add: request_header_def bslice_def)

lemma request_header_eqI:
  assumes "length h = 29"
  shows "request_header (h ! 0 XOR k) (sid_of (bslice 1 17 h)) (get64 (bslice 17 25 h))
           (get32 (bslice 25 29 h)) k = h"
proof -
  have "h = h ! 0 # bslice 1 17 h @ bslice 17 25 h @ bslice 25 29 h"
    using assms nth0_drop1 [of h] bslice_drop [of 1 17 h] bslice_drop [of 17 25 h] bslice_last [of h 29 25]
    by fastforce
  with assms show ?thesis
    by (simp add: request_header_def put_get)
qed

lemma zero_word_unat: "\<not> (0 < (n :: 'a::len word)) \<longleftrightarrow> n = 0"
  by (simp add: word_gt_0)

interpretation request_lp: length_prefixed RequestHeaderSize "req_hdr hm" "req_body clear"
    "\<lambda>q p. q\<lparr>rq_payload := wire_payload clear (rq_session q) (rq_mode q) (rq_seq q) False p\<rparr>"
    "\<lambda>s. ReadRequestProfileEncoding s hm clear" request_ok
  for hm clear
proof unfold_locales
  fix q :: Request and b e
  assume ok: "request_ok q"
  let ?L = "length (rq_payload q)"
  have L: "?L \<le> MaxPayload" and L': "?L < 4294967296"
    using ok MaxPayload_lt [of ?L] by (auto simp: request_ok_def)
  have m: "\<not> ModeClose < rq_mode q" using ok by (simp add: request_ok_def leD)
  have pos: "(0 < (word_of_nat ?L :: u32)) = (0 < ?L)"
    using L' by (simp add: word_less_nat_alt)
  show "ReadRequestProfileEncoding (req_hdr hm q @ b, e) hm clear =
    (case ReadFull (length (req_body clear q)) (b, e) of Inl x \<Rightarrow> Inl x
     | Inr (p, s) \<Rightarrow> Inr (q\<lparr>rq_payload := wire_payload clear (rq_session q) (rq_mode q) (rq_seq q) False p\<rparr>, s))"
    using m L L' pos
    by (cases q) (simp add: ReadRequestProfileEncoding_def req_hdr_def req_body_def ReadFull_append
        request_header_fields wire_payload_def Let_def split: sum.splits)
next
  fix b :: bytes and e
  assume "length b < RequestHeaderSize"
  then show "\<exists>err. ReadRequestProfileEncoding (b, e) hm clear = Inl err"
    by (simp add: ReadRequestProfileEncoding_def ReadFull_short)
qed (simp_all add: req_hdr_def req_body_def)

lemma request_whole: "request_lp.whole hm clear = request_frame hm clear"
  by (rule ext) (simp add: request_lp.whole_def request_frame_def)

text \<open>
  The converse: whatever the reader accepts is exactly the encoding of the request it
  returns, and that request is within the reader's limits.
\<close>

lemma ReadRequest_canonical:
  assumes "ReadRequestProfileEncoding (b, e) hm clear = Inr (q, (r, e'))"
  shows "b = request_frame hm clear q @ r \<and> request_ok q \<and> e' = e"
proof -
  from assms obtain h s1 where h: "ReadFull RequestHeaderSize (b, e) = Inr (h, s1)"
    by (auto simp: ReadRequestProfileEncoding_def split: sum.splits)
  then obtain b1 where b: "b = h @ b1" and s1: "s1 = (b1, e)" and lh: "length h = 29"
    by (auto elim!: ReadFull_InrE)
  let ?n = "get32 (bslice 25 29 h)"
  have lim: "h ! 0 XOR hm \<le> ModeClose" "unat ?n \<le> MaxPayload"
    using assms h by (auto simp: ReadRequestProfileEncoding_def Let_def not_less split: if_splits)
  have hdr: "request_header (h ! 0 XOR hm) (sid_of (bslice 1 17 h)) (get64 (bslice 17 25 h)) ?n hm = h"
    by (rule request_header_eqI [OF lh])
  from assms h s1 lim obtain p where p: "ReadFull (unat ?n) (b1, e) = Inr (p, (r, e'))"
    and q: "q = \<lparr>rq_mode = h ! 0 XOR hm, rq_session = sid_of (bslice 1 17 h),
        rq_seq = get64 (bslice 17 25 h),
        rq_payload = wire_payload clear (sid_of (bslice 1 17 h)) (h ! 0 XOR hm) (get64 (bslice 17 25 h)) False p\<rparr>"
    by (auto simp: ReadRequestProfileEncoding_def Let_def wire_payload_def not_less word_gt_0
        split: if_splits sum.splits)
  from p have "b1 = p @ r" "e' = e" "length p = unat ?n" by (auto elim!: ReadFull_InrE)
  with b q hdr lim show ?thesis
    by (simp add: request_frame_def req_hdr_def req_body_def request_ok_def)
qed

section \<open>Multiplexed requests\<close>

definition mux_request_header ::
  "byte \<Rightarrow> session_id \<Rightarrow> u64 \<Rightarrow> u32 \<Rightarrow> u32 \<Rightarrow> byte \<Rightarrow> bytes" where
  "mux_request_header mode sid seq reqID n headerMask =
     [mode XOR headerMask] @ sid_bytes sid @ put64 seq @ put32 reqID @ put32 n"

definition WriteMuxRequestProfileEncoding ::
  "conn \<Rightarrow> byte \<Rightarrow> session_id \<Rightarrow> u64 \<Rightarrow> u32 \<Rightarrow> bytes \<Rightarrow> byte \<Rightarrow> bool \<Rightarrow> goerr option \<times> conn" where
  "WriteMuxRequestProfileEncoding w mode sid seq reqID plaintext headerMask clear =
     (if length plaintext > MaxPayload
      then (Some (Msg (''request payload too large: '' @ dec (length plaintext))), w)
      else let header = mux_request_header mode sid seq reqID (word_of_nat (length plaintext)) headerMask
           in if clear then buffersWriteTo w header plaintext
              else writeAll w (header @ MaskInPlace plaintext sid mode seq False))"

definition WriteMuxRequestProfile ::
  "conn \<Rightarrow> byte \<Rightarrow> session_id \<Rightarrow> u64 \<Rightarrow> u32 \<Rightarrow> bytes \<Rightarrow> byte \<Rightarrow> goerr option \<times> conn" where
  "WriteMuxRequestProfile w mode sid seq reqID plaintext headerMask =
     WriteMuxRequestProfileEncoding w mode sid seq reqID plaintext headerMask False"

definition WriteMuxRequest ::
  "conn \<Rightarrow> byte \<Rightarrow> session_id \<Rightarrow> u64 \<Rightarrow> u32 \<Rightarrow> bytes \<Rightarrow> goerr option \<times> conn" where
  "WriteMuxRequest w mode sid seq reqID plaintext =
     WriteMuxRequestProfile w mode sid seq reqID plaintext 0"

definition ReadMuxRequestProfileEncoding ::
  "stream \<Rightarrow> byte \<Rightarrow> bool \<Rightarrow> goerr + MuxRequest \<times> stream" where
  "ReadMuxRequestProfileEncoding r headerMask clear =
     (case ReadFull MuxRequestHeaderSize r of Inl e \<Rightarrow> Inl e
      | Inr (header, r1) \<Rightarrow>
        let mode = header ! 0 XOR headerMask in
        if mode > ModeClose then Inl (Msg ''unknown request mode'')
        else
          let sid = sid_of (bslice 1 17 header);
              seq = get64 (bslice 17 25 header);
              reqID = get32 (bslice 25 29 header);
              n = get32 (bslice 29 33 header) in
          if unat n > MaxPayload then Inl (Msg ''request payload too large'')
          else if n > 0 then
            (case ReadFull (unat n) r1 of Inl e \<Rightarrow> Inl e
             | Inr (p, r2) \<Rightarrow>
               Inr (\<lparr>mq_mode = mode, mq_session = sid, mq_seq = seq, mq_id = reqID,
                     mq_payload = (if clear then p else MaskInPlace p sid mode seq False)\<rparr>, r2))
          else Inr (\<lparr>mq_mode = mode, mq_session = sid, mq_seq = seq, mq_id = reqID, mq_payload = []\<rparr>, r1))"

definition ReadMuxRequestProfile :: "stream \<Rightarrow> byte \<Rightarrow> goerr + MuxRequest \<times> stream" where
  "ReadMuxRequestProfile r headerMask = ReadMuxRequestProfileEncoding r headerMask False"

definition ReadMuxRequest :: "stream \<Rightarrow> goerr + MuxRequest \<times> stream" where
  "ReadMuxRequest r = ReadMuxRequestProfile r 0"

definition mux_hdr :: "byte \<Rightarrow> MuxRequest \<Rightarrow> bytes" where
  "mux_hdr hm q = mux_request_header (mq_mode q) (mq_session q) (mq_seq q) (mq_id q)
     (word_of_nat (length (mq_payload q))) hm"

definition mux_body :: "bool \<Rightarrow> MuxRequest \<Rightarrow> bytes" where
  "mux_body clear q = wire_payload clear (mq_session q) (mq_mode q) (mq_seq q) False (mq_payload q)"

definition mux_request_frame :: "byte \<Rightarrow> bool \<Rightarrow> MuxRequest \<Rightarrow> bytes" where
  "mux_request_frame hm clear q = mux_hdr hm q @ mux_body clear q"

definition mux_request_ok :: "MuxRequest \<Rightarrow> bool" where
  "mux_request_ok q \<longleftrightarrow> mq_mode q \<le> ModeClose \<and> length (mq_payload q) \<le> MaxPayload"

lemma length_mux_request_header [simp]: "length (mux_request_header m s q i n k) = 33"
  by (simp add: mux_request_header_def)

lemma mux_request_header_fields [codec_simps]:
  "mux_request_header m s q i n k ! 0 = m XOR k"
  "sid_of (bslice 1 17 (mux_request_header m s q i n k)) = s"
  "sid_of (bslice (Suc 0) 17 (mux_request_header m s q i n k)) = s"
  "get64 (bslice 17 25 (mux_request_header m s q i n k)) = q"
  "get32 (bslice 25 29 (mux_request_header m s q i n k)) = i"
  "get32 (bslice 29 33 (mux_request_header m s q i n k)) = n"
  by (simp_all add: mux_request_header_def bslice_def)

interpretation mux_request_lp: length_prefixed MuxRequestHeaderSize "mux_hdr hm" "mux_body clear"
    "\<lambda>q p. q\<lparr>mq_payload := wire_payload clear (mq_session q) (mq_mode q) (mq_seq q) False p\<rparr>"
    "\<lambda>s. ReadMuxRequestProfileEncoding s hm clear" mux_request_ok
  for hm clear
proof unfold_locales
  fix q :: MuxRequest and b e
  assume ok: "mux_request_ok q"
  let ?L = "length (mq_payload q)"
  have L: "?L \<le> MaxPayload" and L': "?L < 4294967296"
    using ok MaxPayload_lt [of ?L] by (auto simp: mux_request_ok_def)
  have m: "\<not> ModeClose < mq_mode q" using ok by (simp add: mux_request_ok_def leD)
  have pos: "(0 < (word_of_nat ?L :: u32)) = (0 < ?L)"
    using L' by (simp add: word_less_nat_alt)
  show "ReadMuxRequestProfileEncoding (mux_hdr hm q @ b, e) hm clear =
    (case ReadFull (length (mux_body clear q)) (b, e) of Inl x \<Rightarrow> Inl x
     | Inr (p, s) \<Rightarrow> Inr (q\<lparr>mq_payload := wire_payload clear (mq_session q) (mq_mode q) (mq_seq q) False p\<rparr>, s))"
    using m L L' pos
    by (cases q) (simp add: ReadMuxRequestProfileEncoding_def mux_hdr_def mux_body_def ReadFull_append
        mux_request_header_fields wire_payload_def Let_def split: sum.splits)
next
  fix b :: bytes and e
  assume "length b < MuxRequestHeaderSize"
  then show "\<exists>err. ReadMuxRequestProfileEncoding (b, e) hm clear = Inl err"
    by (simp add: ReadMuxRequestProfileEncoding_def ReadFull_short)
qed (simp_all add: mux_hdr_def mux_body_def)

lemma mux_request_whole: "mux_request_lp.whole hm clear = mux_request_frame hm clear"
  by (rule ext) (simp add: mux_request_lp.whole_def mux_request_frame_def)

section \<open>Responses\<close>

text \<open>
  A writer may carry its own header mask and payload encoding (the server wraps its
  connections so); \<open>None\<close> is a writer without the method.
\<close>

definition writerHeaderMask :: "byte option \<Rightarrow> byte" where
  "writerHeaderMask m = (case m of Some k \<Rightarrow> k | None \<Rightarrow> 0)"

definition writerClearPayload :: "bool option \<Rightarrow> bool" where
  "writerClearPayload m = (case m of Some b \<Rightarrow> b | None \<Rightarrow> False)"

definition response_header :: "byte \<Rightarrow> u32 \<Rightarrow> byte \<Rightarrow> bytes" where
  "response_header status n headerMask = [status XOR headerMask] @ put32 n"

definition WriteResponseProfile :: "conn \<Rightarrow> byte \<Rightarrow> bytes \<Rightarrow> byte \<Rightarrow> goerr option \<times> conn" where
  "WriteResponseProfile w status body headerMask =
     (if length body > MaxPayload
      then (Some (Msg (''response body too large: '' @ dec (length body))), w)
      else writeAll w (response_header status (word_of_nat (length body)) headerMask @ body))"

definition WriteResponse :: "conn \<Rightarrow> byte option \<Rightarrow> byte \<Rightarrow> bytes \<Rightarrow> goerr option \<times> conn" where
  "WriteResponse w wmask status body = WriteResponseProfile w status body (writerHeaderMask wmask)"

definition WriteMaskedResponseProfileEncoding ::
  "conn \<Rightarrow> byte \<Rightarrow> bytes \<Rightarrow> session_id \<Rightarrow> byte \<Rightarrow> u64 \<Rightarrow> byte \<Rightarrow> bool \<Rightarrow> goerr option \<times> conn" where
  "WriteMaskedResponseProfileEncoding w status body sid mode seq headerMask clear =
     (if length body > MaxPayload
      then (Some (Msg (''response body too large: '' @ dec (length body))), w)
      else let header = response_header status (word_of_nat (length body)) headerMask
           in if clear then buffersWriteTo w header body
              else writeAll w (header @ MaskInPlace body sid mode seq True))"

definition WriteMaskedResponseProfile ::
  "conn \<Rightarrow> byte \<Rightarrow> bytes \<Rightarrow> session_id \<Rightarrow> byte \<Rightarrow> u64 \<Rightarrow> byte \<Rightarrow> goerr option \<times> conn" where
  "WriteMaskedResponseProfile w status body sid mode seq headerMask =
     WriteMaskedResponseProfileEncoding w status body sid mode seq headerMask False"

definition WriteMaskedResponse ::
  "conn \<Rightarrow> byte option \<Rightarrow> bool option \<Rightarrow> byte \<Rightarrow> bytes \<Rightarrow> session_id \<Rightarrow> byte \<Rightarrow> u64
   \<Rightarrow> goerr option \<times> conn" where
  "WriteMaskedResponse w wmask wclear status body sid mode seq =
     WriteMaskedResponseProfileEncoding w status body sid mode seq
       (writerHeaderMask wmask) (writerClearPayload wclear)"

text \<open>The body is read before the status is checked, as in the source.\<close>

definition ReadResponseProfile :: "stream \<Rightarrow> byte \<Rightarrow> goerr + (byte \<times> bytes) \<times> stream" where
  "ReadResponseProfile r headerMask =
     (case ReadFull ResponseHeaderSize r of Inl e \<Rightarrow> Inl e
      | Inr (header, r1) \<Rightarrow>
        let n = get32 (bslice 1 5 header) in
        if unat n > MaxPayload then Inl (Msg ''response body too large'')
        else
          (case (if n > 0 then ReadFull (unat n) r1 else Inr ([], r1)) of Inl e \<Rightarrow> Inl e
           | Inr (body, r2) \<Rightarrow>
             let status = header ! 0 XOR headerMask in
             if status > StatusEOF then Inl (Msg ''unknown response status'')
             else Inr ((status, body), r2)))"

definition ReadResponse :: "stream \<Rightarrow> goerr + (byte \<times> bytes) \<times> stream" where
  "ReadResponse r = ReadResponseProfile r 0"

definition DecodeMaskedResponse :: "byte \<Rightarrow> bytes \<Rightarrow> session_id \<Rightarrow> byte \<Rightarrow> u64 \<Rightarrow> bytes" where
  "DecodeMaskedResponse status body sid mode seq =
     (if body = [] \<or> status = StatusError then body else MaskInPlace body sid mode seq True)"

definition IsTerminalStatus :: "byte \<Rightarrow> bool" where
  "IsTerminalStatus status \<longleftrightarrow>
     status = StatusWait \<or> status = StatusEOF \<or> status = StatusError \<or> status = StatusOK"

definition resp_hdr :: "byte \<Rightarrow> byte \<times> bytes \<Rightarrow> bytes" where
  "resp_hdr hm f = response_header (fst f) (word_of_nat (length (snd f))) hm"

definition response_frame :: "byte \<Rightarrow> byte \<times> bytes \<Rightarrow> bytes" where
  "response_frame hm f = resp_hdr hm f @ snd f"

definition response_ok :: "byte \<times> bytes \<Rightarrow> bool" where
  "response_ok f \<longleftrightarrow> fst f \<le> StatusEOF \<and> length (snd f) \<le> MaxPayload"

lemma length_response_header [simp]: "length (response_header s n k) = 5"
  by (simp add: response_header_def)

lemma response_header_fields [codec_simps]:
  "response_header s n k ! 0 = s XOR k"
  "get32 (bslice 1 5 (response_header s n k)) = n"
  "get32 (bslice (Suc 0) 5 (response_header s n k)) = n"
  by (simp_all add: response_header_def bslice_def)

lemma response_header_eqI:
  assumes "length h = 5"
  shows "response_header (h ! 0 XOR k) (get32 (bslice 1 5 h)) k = h"
proof -
  have "h = h ! 0 # bslice 1 5 h"
    using assms nth0_drop1 [of h] bslice_last [of h 5 1] by fastforce
  with assms show ?thesis by (simp add: response_header_def put_get)
qed

interpretation response_lp: length_prefixed ResponseHeaderSize "resp_hdr hm" snd
    "\<lambda>f p. (fst f, p)" "\<lambda>s. ReadResponseProfile s hm" response_ok
  for hm
proof unfold_locales
  fix f :: "byte \<times> bytes" and b e
  assume ok: "response_ok f"
  let ?L = "length (snd f)"
  have L: "?L \<le> MaxPayload" and L': "?L < 4294967296"
    using ok MaxPayload_lt [of ?L] by (auto simp: response_ok_def)
  have m: "\<not> StatusEOF < fst f" using ok by (simp add: response_ok_def leD)
  have pos: "(0 < (word_of_nat ?L :: u32)) = (0 < ?L)"
    using L' by (simp add: word_less_nat_alt)
  show "ReadResponseProfile (resp_hdr hm f @ b, e) hm =
    (case ReadFull ?L (b, e) of Inl x \<Rightarrow> Inl x | Inr (p, s) \<Rightarrow> Inr ((fst f, p), s))"
    using m L L' pos
    by (simp add: ReadResponseProfile_def resp_hdr_def ReadFull_append
        response_header_fields Let_def split: sum.splits)
next
  fix b :: bytes and e
  assume "length b < ResponseHeaderSize"
  then show "\<exists>err. ReadResponseProfile (b, e) hm = Inl err"
    by (simp add: ReadResponseProfile_def ReadFull_short)
qed (simp_all add: resp_hdr_def)

lemma response_whole: "response_lp.whole hm = response_frame hm"
  by (rule ext) (simp add: response_lp.whole_def response_frame_def)

lemma ReadResponse_canonical:
  assumes "ReadResponseProfile (b, e) hm = Inr (f, (r, e'))"
  shows "b = response_frame hm f @ r \<and> response_ok f \<and> e' = e"
proof -
  from assms obtain h s1 where h: "ReadFull ResponseHeaderSize (b, e) = Inr (h, s1)"
    by (auto simp: ReadResponseProfile_def split: sum.splits)
  then obtain b1 where b: "b = h @ b1" and s1: "s1 = (b1, e)" and lh: "length h = 5"
    by (auto elim!: ReadFull_InrE)
  let ?n = "get32 (bslice 1 5 h)"
  have hdr: "response_header (h ! 0 XOR hm) ?n hm = h" by (rule response_header_eqI [OF lh])
  from assms h s1 obtain p where p: "ReadFull (unat ?n) (b1, e) = Inr (p, (r, e'))"
    and f: "f = (h ! 0 XOR hm, p)" and lim: "unat ?n \<le> MaxPayload" "h ! 0 XOR hm \<le> StatusEOF"
    by (auto simp: ReadResponseProfile_def Let_def not_less word_gt_0 split: if_splits sum.splits)
  from p have "b1 = p @ r" "e' = e" "length p = unat ?n" by (auto elim!: ReadFull_InrE)
  with b f hdr lim show ?thesis by (simp add: response_frame_def resp_hdr_def response_ok_def)
qed

text \<open>A timed-out read is a timeout for the caller, and no other failure is.\<close>

lemma ReadResponse_timeout:
  "ReadResponseProfile (b, e) hm = Inl err \<Longrightarrow> chain_timeout err \<Longrightarrow> chain_timeout e"
  by (auto simp: ReadResponseProfile_def Let_def split: if_splits sum.splits
      dest!: ReadFull_timeout ReadFull_Inr)

section \<open>Multiplexed responses\<close>

definition mux_response_header :: "byte \<Rightarrow> u32 \<Rightarrow> u32 \<Rightarrow> byte \<Rightarrow> bytes" where
  "mux_response_header status reqID n headerMask = [status XOR headerMask] @ put32 reqID @ put32 n"

definition WriteMuxResponseProfile ::
  "conn \<Rightarrow> byte \<Rightarrow> u32 \<Rightarrow> bytes \<Rightarrow> byte \<Rightarrow> goerr option \<times> conn" where
  "WriteMuxResponseProfile w status reqID body headerMask =
     (if length body > MaxPayload
      then (Some (Msg (''response body too large: '' @ dec (length body))), w)
      else writeAll w (mux_response_header status reqID (word_of_nat (length body)) headerMask @ body))"

definition WriteMuxResponse ::
  "conn \<Rightarrow> byte option \<Rightarrow> byte \<Rightarrow> u32 \<Rightarrow> bytes \<Rightarrow> goerr option \<times> conn" where
  "WriteMuxResponse w wmask status reqID body =
     WriteMuxResponseProfile w status reqID body (writerHeaderMask wmask)"

definition WriteMaskedMuxResponseProfileEncoding ::
  "conn \<Rightarrow> byte \<Rightarrow> u32 \<Rightarrow> bytes \<Rightarrow> session_id \<Rightarrow> byte \<Rightarrow> u64 \<Rightarrow> byte \<Rightarrow> bool \<Rightarrow> goerr option \<times> conn" where
  "WriteMaskedMuxResponseProfileEncoding w status reqID body sid mode seq headerMask clear =
     (if length body > MaxPayload
      then (Some (Msg (''response body too large: '' @ dec (length body))), w)
      else let header = mux_response_header status reqID (word_of_nat (length body)) headerMask
           in if clear then buffersWriteTo w header body
              else writeAll w (header @ MaskInPlace body sid mode seq True))"

definition WriteMaskedMuxResponseProfile ::
  "conn \<Rightarrow> byte \<Rightarrow> u32 \<Rightarrow> bytes \<Rightarrow> session_id \<Rightarrow> byte \<Rightarrow> u64 \<Rightarrow> byte \<Rightarrow> goerr option \<times> conn" where
  "WriteMaskedMuxResponseProfile w status reqID body sid mode seq headerMask =
     WriteMaskedMuxResponseProfileEncoding w status reqID body sid mode seq headerMask False"

definition WriteMaskedMuxResponse ::
  "conn \<Rightarrow> byte option \<Rightarrow> bool option \<Rightarrow> byte \<Rightarrow> u32 \<Rightarrow> bytes \<Rightarrow> session_id \<Rightarrow> byte \<Rightarrow> u64
   \<Rightarrow> goerr option \<times> conn" where
  "WriteMaskedMuxResponse w wmask wclear status reqID body sid mode seq =
     WriteMaskedMuxResponseProfileEncoding w status reqID body sid mode seq
       (writerHeaderMask wmask) (writerClearPayload wclear)"

definition ReadMuxResponseProfile :: "stream \<Rightarrow> byte \<Rightarrow> goerr + MuxResponse \<times> stream" where
  "ReadMuxResponseProfile r headerMask =
     (case ReadFull MuxResponseHeaderSize r of Inl e \<Rightarrow> Inl e
      | Inr (header, r1) \<Rightarrow>
        let status = header ! 0 XOR headerMask in
        if status > StatusEOF then Inl (Msg ''unknown response status'')
        else
          let reqID = get32 (bslice 1 5 header);
              n = get32 (bslice 5 9 header) in
          if unat n > MaxPayload then Inl (Msg ''response body too large'')
          else if n > 0 then
            (case ReadFull (unat n) r1 of Inl e \<Rightarrow> Inl e
             | Inr (body, r2) \<Rightarrow> Inr (\<lparr>mr_status = status, mr_id = reqID, mr_body = body\<rparr>, r2))
          else Inr (\<lparr>mr_status = status, mr_id = reqID, mr_body = []\<rparr>, r1))"

definition ReadMuxResponse :: "stream \<Rightarrow> goerr + MuxResponse \<times> stream" where
  "ReadMuxResponse r = ReadMuxResponseProfile r 0"

definition DecodeMaskedMuxResponse :: "MuxResponse \<Rightarrow> session_id \<Rightarrow> byte \<Rightarrow> u64 \<Rightarrow> bytes" where
  "DecodeMaskedMuxResponse resp sid mode seq =
     DecodeMaskedResponse (mr_status resp) (mr_body resp) sid mode seq"

definition mux_resp_hdr :: "byte \<Rightarrow> MuxResponse \<Rightarrow> bytes" where
  "mux_resp_hdr hm f = mux_response_header (mr_status f) (mr_id f) (word_of_nat (length (mr_body f))) hm"

definition mux_response_frame :: "byte \<Rightarrow> MuxResponse \<Rightarrow> bytes" where
  "mux_response_frame hm f = mux_resp_hdr hm f @ mr_body f"

definition mux_response_ok :: "MuxResponse \<Rightarrow> bool" where
  "mux_response_ok f \<longleftrightarrow> mr_status f \<le> StatusEOF \<and> length (mr_body f) \<le> MaxPayload"

lemma length_mux_response_header [simp]: "length (mux_response_header s i n k) = 9"
  by (simp add: mux_response_header_def)

lemma mux_response_header_fields [codec_simps]:
  "mux_response_header s i n k ! 0 = s XOR k"
  "get32 (bslice 1 5 (mux_response_header s i n k)) = i"
  "get32 (bslice (Suc 0) 5 (mux_response_header s i n k)) = i"
  "get32 (bslice 5 9 (mux_response_header s i n k)) = n"
  by (simp_all add: mux_response_header_def bslice_def)

interpretation mux_response_lp: length_prefixed MuxResponseHeaderSize "mux_resp_hdr hm" mr_body
    "\<lambda>f p. f\<lparr>mr_body := p\<rparr>" "\<lambda>s. ReadMuxResponseProfile s hm" mux_response_ok
  for hm
proof unfold_locales
  fix f :: MuxResponse and b e
  assume ok: "mux_response_ok f"
  let ?L = "length (mr_body f)"
  have L: "?L \<le> MaxPayload" and L': "?L < 4294967296"
    using ok MaxPayload_lt [of ?L] by (auto simp: mux_response_ok_def)
  have m: "\<not> StatusEOF < mr_status f" using ok by (simp add: mux_response_ok_def leD)
  have pos: "(0 < (word_of_nat ?L :: u32)) = (0 < ?L)"
    using L' by (simp add: word_less_nat_alt)
  show "ReadMuxResponseProfile (mux_resp_hdr hm f @ b, e) hm =
    (case ReadFull ?L (b, e) of Inl x \<Rightarrow> Inl x | Inr (p, s) \<Rightarrow> Inr (f\<lparr>mr_body := p\<rparr>, s))"
    using m L L' pos
    by (cases f) (simp add: ReadMuxResponseProfile_def mux_resp_hdr_def ReadFull_append
        mux_response_header_fields Let_def split: sum.splits)
next
  fix b :: bytes and e
  assume "length b < MuxResponseHeaderSize"
  then show "\<exists>err. ReadMuxResponseProfile (b, e) hm = Inl err"
    by (simp add: ReadMuxResponseProfile_def ReadFull_short)
qed (simp_all add: mux_resp_hdr_def)

lemma mux_response_whole: "mux_response_lp.whole hm = mux_response_frame hm"
  by (rule ext) (simp add: mux_response_lp.whole_def mux_response_frame_def)

section \<open>What the writers put on the wire\<close>

lemma WriteRequest_accepting:
  assumes "accepting w" and "length p \<le> MaxPayload"
  shows "fst (WriteRequestProfileEncoding w m s q p hm clear) = None"
    and "c_out (snd (WriteRequestProfileEncoding w m s q p hm clear)) = c_out w
      @ request_frame hm clear \<lparr>rq_mode = m, rq_session = s, rq_seq = q, rq_payload = p\<rparr>"
  using assms
  by (simp_all add: WriteRequestProfileEncoding_def Let_def MaxPayload_def request_frame_def
      req_hdr_def req_body_def wire_payload_def writeAll_accepting buffersWriteTo_accepting)

lemma WriteMaskedResponse_accepting:
  assumes "accepting w" and "length p \<le> MaxPayload"
  shows "fst (WriteMaskedResponseProfileEncoding w st p s m q hm clear) = None"
    and "c_out (snd (WriteMaskedResponseProfileEncoding w st p s m q hm clear)) =
      c_out w @ response_frame hm (st, wire_payload clear s m q True p)"
  using assms
  by (simp_all add: WriteMaskedResponseProfileEncoding_def Let_def MaxPayload_def response_frame_def
      resp_hdr_def wire_payload_def writeAll_accepting buffersWriteTo_accepting)

lemma WriteMuxRequest_accepting:
  assumes "accepting w" and "length p \<le> MaxPayload"
  shows "fst (WriteMuxRequestProfileEncoding w m s q i p hm clear) = None"
    and "c_out (snd (WriteMuxRequestProfileEncoding w m s q i p hm clear)) = c_out w
      @ mux_request_frame hm clear
        \<lparr>mq_mode = m, mq_session = s, mq_seq = q, mq_id = i, mq_payload = p\<rparr>"
  using assms
  by (simp_all add: WriteMuxRequestProfileEncoding_def Let_def MaxPayload_def mux_request_frame_def
      mux_hdr_def mux_body_def wire_payload_def writeAll_accepting buffersWriteTo_accepting)

lemma WriteMaskedMuxResponse_accepting:
  assumes "accepting w" and "length p \<le> MaxPayload"
  shows "fst (WriteMaskedMuxResponseProfileEncoding w st i p s m q hm clear) = None"
    and "c_out (snd (WriteMaskedMuxResponseProfileEncoding w st i p s m q hm clear)) =
      c_out w @ mux_response_frame hm
        \<lparr>mr_status = st, mr_id = i, mr_body = wire_payload clear s m q True p\<rparr>"
  using assms
  by (simp_all add: WriteMaskedMuxResponseProfileEncoding_def Let_def MaxPayload_def mux_response_frame_def
      mux_resp_hdr_def wire_payload_def writeAll_accepting buffersWriteTo_accepting)

section \<open>Keystream separation\<close>

lemma mask_seed_inj:
  assumes "mask_seed s m q r c = mask_seed s' m' q' r' c'"
  shows "s = s' \<and> m = m' \<and> q = q' \<and> r = r' \<and> c = c'"
proof -
  have "sid_bytes s = sid_bytes s' \<and> m = m' \<and> put64 q = put64 q'
      \<and> (if r then 1 else 0 :: byte) = (if r' then 1 else 0) \<and> put32 c = put32 c'"
    using assms by (simp add: mask_seed_def)
  then show ?thesis
    by (metis get_put(2) get_put(3) sid_of_sid_bytes zero_neq_one)
qed

section \<open>Properties\<close>

text \<open>C22: A request written with \<^verbatim>\<open>WriteRequestProfileEncoding\<close>, masked or clear and
  under any header mask, is read back by \<^verbatim>\<open>ReadRequestProfileEncoding\<close> field by field,
  whatever follows it on the stream.\<close>

theorem request_roundtrip:
  assumes "accepting w" and "m \<le> ModeClose" and "length p \<le> MaxPayload"
  shows "fst (WriteRequestProfileEncoding w m s q p hm clear) = None \<and>
    (\<exists>frame. c_out (snd (WriteRequestProfileEncoding w m s q p hm clear)) = c_out w @ frame \<and>
      (\<forall>r e. ReadRequestProfileEncoding (frame @ r, e) hm clear =
        Inr (\<lparr>rq_mode = m, rq_session = s, rq_seq = q, rq_payload = p\<rparr>, (r, e))))"
  using assms WriteRequest_accepting [OF assms(1,3)]
    request_lp.dec_whole [of "\<lparr>rq_mode = m, rq_session = s, rq_seq = q, rq_payload = p\<rparr>"]
  by (auto simp: request_whole request_ok_def)

theorem request_roundtrip_witness:
  "fst (WriteRequestProfileEncoding open_conn ModeUpload (sid_of [1, 2, 3]) 42 (bytes_of ''payload'') 0xF8 False) = None \<and>
    (\<exists>frame. c_out (snd (WriteRequestProfileEncoding open_conn ModeUpload (sid_of [1, 2, 3]) 42 (bytes_of ''payload'') 0xF8 False))
        = c_out open_conn @ frame \<and>
      (\<forall>r e. ReadRequestProfileEncoding (frame @ r, e) 0xF8 False =
        Inr (\<lparr>rq_mode = ModeUpload, rq_session = sid_of [1, 2, 3], rq_seq = 42, rq_payload = bytes_of ''payload''\<rparr>, (r, e))))"
  by (rule request_roundtrip) (simp_all add: mode_defs MaxPayload_def)

text \<open>Whatever byte stream the request reader accepts is exactly the encoding of the
  request it returns followed by the unread rest, the mode is one of the five known ones and
  the payload is within \<^verbatim>\<open>MaxPayload\<close>: no other encoding of a request is accepted.\<close>

theorem request_reader_canonical:
  assumes "ReadRequestProfileEncoding (b, e) hm clear = Inr (q, (r, e'))"
  shows "b = request_frame hm clear q @ r \<and> e' = e
    \<and> rq_mode q \<le> ModeClose \<and> length (rq_payload q) \<le> MaxPayload
    \<and> length b = RequestHeaderSize + length (rq_payload q) + length r"
  using ReadRequest_canonical [OF assms]
  by (auto simp: request_ok_def request_frame_def req_hdr_def req_body_def)

theorem request_reader_canonical_witness:
  "ReadRequestProfileEncoding (request_header ModeOpen (sid_of []) 7 0 8 @ [9], EOF) 8 True =
      Inr (\<lparr>rq_mode = ModeOpen, rq_session = sid_of [], rq_seq = 7, rq_payload = []\<rparr>, ([9], EOF))
   \<and> request_header ModeOpen (sid_of []) 7 0 8 @ [9] =
      request_frame 8 True \<lparr>rq_mode = ModeOpen, rq_session = sid_of [], rq_seq = 7, rq_payload = []\<rparr> @ [9]"
proof -
  have h: "ReadRequestProfileEncoding (request_header ModeOpen (sid_of []) 7 0 8 @ [9], EOF) 8 True =
      Inr (\<lparr>rq_mode = ModeOpen, rq_session = sid_of [], rq_seq = 7, rq_payload = []\<rparr>, ([9], EOF))"
    by (simp add: ReadRequestProfileEncoding_def ReadFull_append request_header_fields mode_defs Let_def)
  with request_reader_canonical [OF h] show ?thesis by simp
qed

text \<open>A response written for one request and read by the client gives back status and
  body: the client unmasks with the session, mode and sequence number the server masked with,
  or not at all under a clear profile. Error bodies are sent unmasked and are left alone.\<close>

theorem response_roundtrip:
  assumes "accepting w" and "st \<le> StatusEOF" and "st \<noteq> StatusError" and "length body \<le> MaxPayload"
  shows "\<exists>frame wb. c_out (snd (WriteMaskedResponseProfileEncoding w st body s m q hm clear)) = c_out w @ frame
    \<and> (\<forall>r e. ReadResponseProfile (frame @ r, e) hm = Inr ((st, wb), (r, e)))
    \<and> (if clear then wb else DecodeMaskedResponse st wb s m q) = body"
proof -
  let ?wb = "wire_payload clear s m q True body"
  have "response_ok (st, ?wb)" using assms by (simp add: response_ok_def)
  from response_lp.dec_whole [OF this]
  have "\<forall>r e. ReadResponseProfile (response_frame hm (st, ?wb) @ r, e) hm = Inr ((st, ?wb), (r, e))"
    by (simp add: response_whole)
  moreover have "(if clear then ?wb else DecodeMaskedResponse st ?wb s m q) = body"
    using assms(3) by (auto simp: wire_payload_def DecodeMaskedResponse_def
        dest: arg_cong [where f = length])
  ultimately show ?thesis using WriteMaskedResponse_accepting(2) [OF assms(1,4)] by blast
qed

theorem response_roundtrip_witness:
  "\<exists>frame wb. c_out (snd (WriteMaskedResponseProfileEncoding open_conn StatusData [1, 2, 3] (sid_of [5]) ModeDownload 9 0x10 False))
      = c_out open_conn @ frame
    \<and> (\<forall>r e. ReadResponseProfile (frame @ r, e) 0x10 = Inr ((StatusData, wb), (r, e)))
    \<and> (if False then wb else DecodeMaskedResponse StatusData wb (sid_of [5]) ModeDownload 9) = [1, 2, 3]"
  by (rule response_roundtrip) (simp_all add: status_defs MaxPayload_def)

text \<open>The multiplexed wire (protocol v2) round-trips in both directions and keeps the
  request ID: what \<^verbatim>\<open>WriteMuxRequestProfileEncoding\<close> and
  \<^verbatim>\<open>WriteMaskedMuxResponseProfileEncoding\<close> write is read back unchanged.\<close>

theorem mux_roundtrip:
  assumes "accepting w" and "m \<le> ModeClose" and "length p \<le> MaxPayload"
    and "st \<le> StatusEOF" and "st \<noteq> StatusError" and "length body \<le> MaxPayload"
  shows "(\<exists>frame. c_out (snd (WriteMuxRequestProfileEncoding w m s q i p hm clear)) = c_out w @ frame
      \<and> (\<forall>r e. ReadMuxRequestProfileEncoding (frame @ r, e) hm clear =
        Inr (\<lparr>mq_mode = m, mq_session = s, mq_seq = q, mq_id = i, mq_payload = p\<rparr>, (r, e))))
    \<and> (\<exists>frame resp. c_out (snd (WriteMaskedMuxResponseProfileEncoding w st i body s m q hm clear)) = c_out w @ frame
      \<and> (\<forall>r e. ReadMuxResponseProfile (frame @ r, e) hm = Inr (resp, (r, e)))
      \<and> mr_status resp = st \<and> mr_id resp = i
      \<and> (if clear then mr_body resp else DecodeMaskedMuxResponse resp s m q) = body)"
proof -
  let ?q = "\<lparr>mq_mode = m, mq_session = s, mq_seq = q, mq_id = i, mq_payload = p\<rparr>"
  let ?r = "\<lparr>mr_status = st, mr_id = i, mr_body = wire_payload clear s m q True body\<rparr>"
  have q: "\<forall>r e. ReadMuxRequestProfileEncoding (mux_request_frame hm clear ?q @ r, e) hm clear = Inr (?q, (r, e))"
    using assms mux_request_lp.dec_whole [of ?q] by (simp add: mux_request_whole mux_request_ok_def)
  have r: "\<forall>r e. ReadMuxResponseProfile (mux_response_frame hm ?r @ r, e) hm = Inr (?r, (r, e))"
    using assms mux_response_lp.dec_whole [of ?r] by (simp add: mux_response_whole mux_response_ok_def)
  have "(if clear then mr_body ?r else DecodeMaskedMuxResponse ?r s m q) = body"
    using assms(5) by (auto simp: wire_payload_def DecodeMaskedMuxResponse_def DecodeMaskedResponse_def
        dest: arg_cong [where f = length])
  with q r WriteMuxRequest_accepting(2) [OF assms(1,3)] WriteMaskedMuxResponse_accepting(2) [OF assms(1,6)]
  show ?thesis by fastforce
qed

theorem mux_roundtrip_witness:
  "(\<exists>frame. c_out (snd (WriteMuxRequestProfileEncoding open_conn ModeUpload (sid_of []) 1 77 [4] 0 True)) = c_out open_conn @ frame
      \<and> (\<forall>r e. ReadMuxRequestProfileEncoding (frame @ r, e) 0 True =
        Inr (\<lparr>mq_mode = ModeUpload, mq_session = sid_of [], mq_seq = 1, mq_id = 77, mq_payload = [4]\<rparr>, (r, e))))
    \<and> (\<exists>frame resp. c_out (snd (WriteMaskedMuxResponseProfileEncoding open_conn StatusData 77 [6] (sid_of []) ModeUpload 1 0 True)) = c_out open_conn @ frame
      \<and> (\<forall>r e. ReadMuxResponseProfile (frame @ r, e) 0 = Inr (resp, (r, e)))
      \<and> mr_status resp = StatusData \<and> mr_id resp = 77
      \<and> (if True then mr_body resp else DecodeMaskedMuxResponse resp (sid_of []) ModeUpload 1) = [6])"
  by (rule mux_roundtrip) (simp_all add: mode_defs status_defs MaxPayload_def)

text \<open>A download reply is a run of response frames on one connection. Reading as many
  frames as were sent gives exactly those, in order, and if the connection is cut inside the
  next frame the read of one more frame fails: a truncated reply is never taken for data.\<close>

theorem responses_pipelined:
  assumes "\<forall>f \<in> set fs. fst f \<le> StatusEOF \<and> length (snd f) \<le> MaxPayload"
    and "fst g \<le> StatusEOF" and "length (snd g) \<le> MaxPayload" and "n < length (response_frame hm g)"
  shows "read_many (\<lambda>s. ReadResponseProfile s hm) (length fs)
      (concat (map (response_frame hm) fs) @ r, e) = Inr (fs, (r, e))
    \<and> (\<exists>err. read_many (\<lambda>s. ReadResponseProfile s hm) (Suc (length fs))
      (concat (map (response_frame hm) fs) @ take n (response_frame hm g), e) = Inl err)"
  using assms response_lp.pipelined [of fs hm r e] response_lp.truncated [of fs g n hm e]
  by (simp add: response_whole response_ok_def del: read_many.simps)

theorem responses_pipelined_witness:
  "read_many (\<lambda>s. ReadResponseProfile s 0) (length [(StatusData, [1 :: byte]), (StatusWait, [])])
      (concat (map (response_frame 0) [(StatusData, [1]), (StatusWait, [])]) @ [7], EOF)
      = Inr ([(StatusData, [1]), (StatusWait, [])], ([7], EOF))
    \<and> (\<exists>err. read_many (\<lambda>s. ReadResponseProfile s 0) (Suc (length [(StatusData, [1 :: byte]), (StatusWait, [])]))
      (concat (map (response_frame 0) [(StatusData, [1]), (StatusWait, [])])
        @ take 3 (response_frame 0 (StatusEOF, [])), EOF) = Inl err)"
proof -
  let ?fs = "[(StatusData, [1]), (StatusWait, [])] :: (byte \<times> bytes) list"
  let ?g = "(StatusEOF, []) :: byte \<times> bytes"
  have fs: "\<forall>f \<in> set ?fs. fst f \<le> StatusEOF \<and> length (snd f) \<le> MaxPayload"
    by (simp add: status_defs MaxPayload_def)
  have g: "fst ?g \<le> StatusEOF" "length (snd ?g) \<le> MaxPayload" "3 < length (response_frame 0 ?g)"
    by (simp_all add: response_frame_def resp_hdr_def)
  show ?thesis by (rule responses_pipelined [OF fs g])
qed

text \<open>Masking a payload twice with the same parameters gives it back, masking never
  changes its length, and no two blocks of any two messages that differ in session, mode,
  sequence number, direction or block counter are keyed with the same seed.\<close>

theorem mask_involution_and_seed_separation:
  "MaskInPlace (MaskInPlace data s m q r) s m q r = data
    \<and> length (MaskInPlace data s m q r) = length data
    \<and> (mask_seed s m q r c = mask_seed s' m' q' r' c' \<longleftrightarrow>
        s = s' \<and> m = m' \<and> q = q' \<and> r = r' \<and> c = c')"
  using mask_seed_inj [of s m q r c s' m' q' r' c'] by auto

end
