(* ===== verification/XorFrame.thy ===== *)
theory XorFrame
  imports Prelude
begin

text \<open>
  \<^verbatim>\<open>internal/protocol\<close>: the legacy X framing (\<^verbatim>\<open>UP\<close> requests of 14
  header bytes, \<^verbatim>\<open>OK\<close> responses of 10, payload XORed with 0xAD) and the three
  build-dependent versions of \<^verbatim>\<open>XorInPlace\<close>.
\<close>

section \<open>XorInPlace\<close>

definition XORKey :: byte where "XORKey = 0xAD"

definition MaxChunkPayload :: nat where "MaxChunkPayload = 1024 * 1024"

definition MaxHandshake :: nat where "MaxHandshake = 2 * 1024 * 1024"

text \<open>The portable version (\<^verbatim>\<open>xor_generic.go\<close>): one byte at a time.\<close>

definition XorInPlace :: "bytes \<Rightarrow> bytes" where
  "XorInPlace b = map (\<lambda>x. x XOR XORKey) b"

text \<open>
  The 64-bit version (\<^verbatim>\<open>xor_fast64.go\<close>) works on the buffer's address: single bytes up
  to an 8-byte boundary, then 64 bytes a turn through eight little-endian words, then single
  words, then the last bytes. The 32-bit version (\<^verbatim>\<open>xor_fast32.go\<close>) does the same
  with 4-byte words and 32 bytes a turn. Each function takes what is left of the buffer.
\<close>

definition load64 :: "bytes \<Rightarrow> u64" where "load64 b = get64 (rev b)"
definition store64 :: "u64 \<Rightarrow> bytes" where "store64 w = rev (put64 w)"
definition load32 :: "bytes \<Rightarrow> u32" where "load32 b = get32 (rev b)"
definition store32 :: "u32 \<Rightarrow> bytes" where "store32 w = rev (put32 w)"

definition xorWordMask :: u64 where "xorWordMask = 0xADADADADADADADAD"
definition xorWordMask32 :: u32 where "xorWordMask32 = 0xADADADAD"

definition xor_word64 :: "bytes \<Rightarrow> bytes" where
  "xor_word64 b = store64 (load64 b XOR xorWordMask)"

definition xor_word32 :: "bytes \<Rightarrow> bytes" where
  "xor_word32 b = store32 (load32 b XOR xorWordMask32)"

fun xor64_words :: "bytes \<Rightarrow> bytes" where
  "xor64_words b = (if length b < 8 then map (\<lambda>x. x XOR XORKey) b
     else xor_word64 (take 8 b) @ xor64_words (drop 8 b))"

fun xor64_blocks :: "bytes \<Rightarrow> bytes" where
  "xor64_blocks b = (if length b < 64 then xor64_words b
     else concat (map (\<lambda>k. xor_word64 (take 8 (drop k b))) [0, 8, 16, 24, 32, 40, 48, 56])
       @ xor64_blocks (drop 64 b))"

fun xor64_align :: "nat \<Rightarrow> bytes \<Rightarrow> bytes" where
  "xor64_align addr [] = xor64_blocks []"
| "xor64_align addr (x # b) = (if addr AND 7 \<noteq> 0 then (x XOR XORKey) # xor64_align (Suc addr) b
     else xor64_blocks (x # b))"

definition XorInPlace64 :: "nat \<Rightarrow> bytes \<Rightarrow> bytes" where
  "XorInPlace64 addr b = (if length b = 0 then b else xor64_align addr b)"

fun xor32_words :: "bytes \<Rightarrow> bytes" where
  "xor32_words b = (if length b < 4 then map (\<lambda>x. x XOR XORKey) b
     else xor_word32 (take 4 b) @ xor32_words (drop 4 b))"

fun xor32_blocks :: "bytes \<Rightarrow> bytes" where
  "xor32_blocks b = (if length b < 32 then xor32_words b
     else concat (map (\<lambda>k. xor_word32 (take 4 (drop k b))) [0, 4, 8, 12, 16, 20, 24, 28])
       @ xor32_blocks (drop 32 b))"

fun xor32_align :: "nat \<Rightarrow> bytes \<Rightarrow> bytes" where
  "xor32_align addr [] = xor32_blocks []"
| "xor32_align addr (x # b) = (if addr AND 3 \<noteq> 0 then (x XOR XORKey) # xor32_align (Suc addr) b
     else xor32_blocks (x # b))"

definition XorInPlace32 :: "nat \<Rightarrow> bytes \<Rightarrow> bytes" where
  "XorInPlace32 addr b = (if length b = 0 then b else xor32_align addr b)"

declare xor64_words.simps [simp del] xor64_blocks.simps [simp del]
declare xor32_words.simps [simp del] xor32_blocks.simps [simp del]

lemma length_XorInPlace [simp]: "length (XorInPlace b) = length b"
  by (simp add: XorInPlace_def)

lemma XorInPlace_Nil: "XorInPlace [] = []"
  by (simp add: XorInPlace_def)

lemma XorInPlace_twice [simp]: "XorInPlace (XorInPlace b) = b"
  by (simp add: XorInPlace_def comp_def)

lemma XorInPlace_append: "XorInPlace (a @ b) = XorInPlace a @ XorInPlace b"
  by (simp add: XorInPlace_def)

text \<open>XOR of positional numbers is XOR of their digits.\<close>

lemma xor_digit:
  assumes "a < 256" and "b < (256 :: nat)"
  shows "(x * 256 + a) XOR (y * 256 + b) = (x XOR y) * 256 + (a XOR b)"
proof -
  let ?n = "(x * 256 + a) XOR (y * 256 + b)"
  have dx: "drop_bit 8 (x * 256 + a) = x" and dy: "drop_bit 8 (y * 256 + b) = y"
    and tx: "take_bit 8 (x * 256 + a) = a" and ty: "take_bit 8 (y * 256 + b) = b"
    using assms by (simp_all add: drop_bit_eq_div take_bit_eq_mod)
  have "?n = push_bit 8 (drop_bit 8 ?n) + take_bit 8 ?n" by (rule bits_ident [symmetric])
  also have "\<dots> = push_bit 8 (x XOR y) + (a XOR b)"
    by (simp only: drop_bit_xor take_bit_xor dx dy tx ty)
  finally show ?thesis by (simp add: push_bit_eq_mult)
qed

lemma be_val_xor: "length a = length b \<Longrightarrow> be_val (xor_bytes a b) = be_val a XOR be_val b"
proof (induction a arbitrary: b rule: rev_induct)
  case Nil
  then show ?case by (simp add: xor_bytes_def)
next
  case (snoc x a)
  then obtain y b' where b: "b = b' @ [y]" "length a = length b'"
    by (cases b rule: rev_cases) auto
  then have "xor_bytes (a @ [x]) b = xor_bytes a b' @ [x XOR y]"
    by (simp add: xor_bytes_def)
  with snoc.IH [of b'] b show ?case
    by (simp add: unsigned_xor_eq xor_digit)
qed

lemma unat_get64: "length b = 8 \<Longrightarrow> unat (get64 b) = be_val b"
  using be_val_bound [of b] by (simp add: get64_def unat_of_nat)

lemma unat_get32: "length b = 4 \<Longrightarrow> unat (get32 b) = be_val b"
  using be_val_bound [of b] by (simp add: get32_def unat_of_nat)

lemma put64_xor: "length a = 8 \<Longrightarrow> length b = 8 \<Longrightarrow> put64 (get64 a XOR get64 b) = xor_bytes a b"
  by (simp add: put64_def unsigned_xor_eq unat_get64 flip: be_val_xor) (simp add: be_bytes_be_val)

lemma put32_xor: "length a = 4 \<Longrightarrow> length b = 4 \<Longrightarrow> put32 (get32 a XOR get32 b) = xor_bytes a b"
  by (simp add: put32_def unsigned_xor_eq unat_get32 flip: be_val_xor) (simp add: be_bytes_be_val)

lemma xor_bytes_replicate: "length a = n \<Longrightarrow> xor_bytes a (replicate n k) = map (\<lambda>x. x XOR k) a"
  by (rule nth_equalityI) (auto simp: xor_bytes_def)

lemma xorWordMask_bytes: "xorWordMask = get64 (replicate 8 XORKey)"
proof -
  have r: "replicate 8 k = [k, k, k, k, k, k, k, k]" for k :: byte by (simp add: numeral_eq_Suc)
  show ?thesis unfolding r by (simp add: xorWordMask_def XORKey_def get64_def be_val_def)
qed

lemma xorWordMask32_bytes: "xorWordMask32 = get32 (replicate 4 XORKey)"
proof -
  have r: "replicate 4 k = [k, k, k, k]" for k :: byte by (simp add: numeral_eq_Suc)
  show ?thesis unfolding r by (simp add: xorWordMask32_def XORKey_def get32_def be_val_def)
qed

lemma xor_word64 [simp]: "length b = 8 \<Longrightarrow> xor_word64 b = XorInPlace b"
  by (simp add: xor_word64_def store64_def load64_def xorWordMask_bytes put64_xor
      xor_bytes_replicate XorInPlace_def rev_map)

lemma xor_word32 [simp]: "length b = 4 \<Longrightarrow> xor_word32 b = XorInPlace b"
  by (simp add: xor_word32_def store32_def load32_def xorWordMask32_bytes put32_xor
      xor_bytes_replicate XorInPlace_def rev_map)

lemma XorInPlace_take_drop: "XorInPlace (take n b) @ XorInPlace (drop n b) = XorInPlace b"
  by (simp flip: XorInPlace_append)

lemma xor64_words_eq [simp]: "xor64_words b = XorInPlace b"
proof (induction b rule: xor64_words.induct)
  case (1 b)
  then show ?case
    by (cases "length b < 8")
      (simp_all add: xor64_words.simps [of b] XorInPlace_take_drop, simp add: XorInPlace_def)
qed

lemma xor32_words_eq [simp]: "xor32_words b = XorInPlace b"
proof (induction b rule: xor32_words.induct)
  case (1 b)
  then show ?case
    by (cases "length b < 4")
      (simp_all add: xor32_words.simps [of b] XorInPlace_take_drop, simp add: XorInPlace_def)
qed

text \<open>Consecutive chunks of one width, glued together.\<close>

lemma XorInPlace_chunks:
  "concat (map (\<lambda>k. XorInPlace (take w (drop k b))) (map (\<lambda>i. w * i) [0..<n])) = XorInPlace (take (w * n) b)"
proof (induction n)
  case 0
  then show ?case by (simp add: XorInPlace_def)
next
  case (Suc n)
  then show ?case
    by (simp add: take_add XorInPlace_append add.commute [of w])
qed

lemma xor64_blocks_eq [simp]: "xor64_blocks b = XorInPlace b"
proof (induction b rule: xor64_blocks.induct)
  case (1 b)
  have ks: "[0, 8, 16, 24, 32, 40, 48, 56] = map (\<lambda>i. 8 * i) [0..<8::nat]" by (simp add: upt_rec)
  show ?case
  proof (cases "length b < 64")
    case True
    then show ?thesis by (simp add: xor64_blocks.simps [of b])
  next
    case False
    then have "map (\<lambda>k. xor_word64 (take 8 (drop k b))) [0, 8, 16, 24, 32, 40, 48, 56]
        = map (\<lambda>k. XorInPlace (take 8 (drop k b))) [0, 8, 16, 24, 32, 40, 48, 56]" by simp
    with False "1" XorInPlace_chunks [of 8 b 8] show ?thesis
      by (simp only: xor64_blocks.simps [of b] if_False ks) (simp add: XorInPlace_take_drop)
  qed
qed

lemma xor32_blocks_eq [simp]: "xor32_blocks b = XorInPlace b"
proof (induction b rule: xor32_blocks.induct)
  case (1 b)
  have ks: "[0, 4, 8, 12, 16, 20, 24, 28] = map (\<lambda>i. 4 * i) [0..<8::nat]" by (simp add: upt_rec)
  show ?case
  proof (cases "length b < 32")
    case True
    then show ?thesis by (simp add: xor32_blocks.simps [of b])
  next
    case False
    then have "map (\<lambda>k. xor_word32 (take 4 (drop k b))) [0, 4, 8, 12, 16, 20, 24, 28]
        = map (\<lambda>k. XorInPlace (take 4 (drop k b))) [0, 4, 8, 12, 16, 20, 24, 28]" by simp
    with False "1" XorInPlace_chunks [of 4 b 8] show ?thesis
      by (simp only: xor32_blocks.simps [of b] if_False ks) (simp add: XorInPlace_take_drop)
  qed
qed

lemma xor64_align_eq: "xor64_align addr b = XorInPlace b"
  by (induction addr b rule: xor64_align.induct) (simp_all add: XorInPlace_def)

lemma xor32_align_eq: "xor32_align addr b = XorInPlace b"
  by (induction addr b rule: xor32_align.induct) (simp_all add: XorInPlace_def)

section \<open>writeAll without a progress check\<close>

text \<open>
  \<^verbatim>\<open>internal/protocol\<close>'s own \<^verbatim>\<open>writeAll\<close> lacks the
  \<^verbatim>\<open>n <= 0\<close> check of its two namesakes, so it need not return: \<open>None\<close> is a loop
  that never ends.
\<close>

partial_function (option) xWriteAll :: "conn \<Rightarrow> bytes \<Rightarrow> (goerr option \<times> conn) option" where
  "xWriteAll c b = (if b = [] then Some (None, c)
     else case conn_write c b of (n, err, c') \<Rightarrow>
       (case err of Some e \<Rightarrow> Some (Some e, c') | None \<Rightarrow> xWriteAll c' (drop n b)))"

lemma xWriteAll_Nil [simp]: "xWriteAll c [] = Some (None, c)"
  by (simp add: xWriteAll.simps)

lemma xWriteAll_accepting:
  assumes "accepting c" and "length b \<le> 2097400"
  shows "\<exists>c'. xWriteAll c b = Some (None, c') \<and> c_out c' = c_out c @ b"
  using assms by (auto simp: xWriteAll.simps [of c b] conn_write_accepting)

text \<open>
  A writer that keeps \<^verbatim>\<open>io.Writer\<close>'s contract: a call that takes less than it was
  given says why. On such a writer both loops are one call and agree.
\<close>

definition contract_writer :: "conn \<Rightarrow> nat \<Rightarrow> bool" where
  "contract_writer c n \<longleftrightarrow> (\<forall>k. snd (c_ans c k) = None \<longrightarrow> n \<le> fst (c_ans c k))"

lemma xWriteAll_contract:
  assumes "contract_writer c (length b)"
  shows "xWriteAll c b = Some (writeAll c b)"
proof (cases "b = []")
  case False
  obtain k err where a: "c_ans c (c_calls c) = (k, err)" by force
  with assms have k: "err = None \<Longrightarrow> length b \<le> k"
    unfolding contract_writer_def by (metis fst_conv snd_conv)
  with False a show ?thesis
    by (cases err) (simp_all add: xWriteAll.simps [of c b] writeAll.simps [of c b] conn_write_def Let_def)
qed simp

text \<open>A writer that takes nothing and reports nothing keeps the loop running forever.\<close>

definition stuck_writer :: "conn \<Rightarrow> bool" where
  "stuck_writer c \<longleftrightarrow> (\<forall>k. c_ans c k = (0, None))"

lemma xWriteAll_stuck:
  assumes "stuck_writer c" and "b \<noteq> []"
  shows "xWriteAll c b = None"
proof (rule ccontr)
  assume "xWriteAll c b \<noteq> None"
  then obtain r where r: "xWriteAll c b = Some r" by blast
  have "stuck_writer c \<longrightarrow> b \<noteq> [] \<longrightarrow> False"
  proof (rule xWriteAll.raw_induct [where P = "\<lambda>c b r. stuck_writer c \<longrightarrow> b \<noteq> [] \<longrightarrow> False", OF _ r])
    fix f c b r
    assume IH: "\<And>c b r. f c b = Some r \<Longrightarrow> stuck_writer c \<longrightarrow> b \<noteq> [] \<longrightarrow> False"
      and eq: "(if b = [] then Some (None, c)
        else case conn_write c b of (n, err, c') \<Rightarrow>
          (case err of None \<Rightarrow> f c' (drop n b) | Some e \<Rightarrow> Some (Some e, c'))) = Some r"
    show "stuck_writer c \<longrightarrow> b \<noteq> [] \<longrightarrow> False"
    proof (intro impI)
      assume c: "stuck_writer c" and b: "b \<noteq> []"
      have "c_ans c (c_calls c) = (0, None)" using c by (simp add: stuck_writer_def)
      with b have "conn_write c b = (0, None, c\<lparr>c_out := c_out c, c_calls := Suc (c_calls c)\<rparr>)"
        by (simp add: conn_write_def)
      with b eq have "f (c\<lparr>c_out := c_out c, c_calls := Suc (c_calls c)\<rparr>) b = Some r" by simp
      from IH [OF this] c b show False by (simp add: stuck_writer_def)
    qed
  qed
  with assms show False by blast
qed

section \<open>Frames\<close>

text \<open>A request frame read back: request ID, reserved word, payload.\<close>

type_synonym xrequest = "u32 \<times> u32 \<times> bytes"

definition xreq_header :: "byte \<Rightarrow> u32 \<Rightarrow> u32 \<Rightarrow> u32 \<Rightarrow> bytes" where
  "xreq_header headerMask requestID reserved n =
     [byte_of_char (CHR ''U'') XOR headerMask, byte_of_char (CHR ''P'') XOR headerMask]
     @ put32 requestID @ put32 reserved @ put32 n"

definition WriteRequestFrameProfile ::
  "conn \<Rightarrow> u32 \<Rightarrow> bytes \<Rightarrow> byte \<Rightarrow> (goerr option \<times> conn) option" where
  "WriteRequestFrameProfile w requestID payload headerMask =
     (if length payload > MaxHandshake then Some (Some (Msg ''request frame payload too large''), w)
      else xWriteAll w (xreq_header headerMask requestID 0 (word_of_nat (length payload))
        @ XorInPlace payload))"

definition WriteRequestFrame :: "conn \<Rightarrow> u32 \<Rightarrow> bytes \<Rightarrow> (goerr option \<times> conn) option" where
  "WriteRequestFrame w requestID payload = WriteRequestFrameProfile w requestID payload 0"

definition ReadRequestFrameProfile :: "stream \<Rightarrow> byte \<Rightarrow> goerr + xrequest \<times> stream" where
  "ReadRequestFrameProfile r headerMask =
     (case ReadFull 14 r of Inl e \<Rightarrow> Inl e
      | Inr (header, r1) \<Rightarrow>
        if header ! 0 XOR headerMask \<noteq> byte_of_char (CHR ''U'')
          \<or> header ! 1 XOR headerMask \<noteq> byte_of_char (CHR ''P'')
        then Inl (Msg ''bad request magic'')
        else let requestID = get32 (bslice 2 6 header);
                 reserved = get32 (bslice 6 10 header);
                 n = get32 (bslice 10 14 header) in
          if unat n > MaxHandshake then Inl (Msg ''handshake payload too large'')
          else (case ReadFull (unat n) r1 of Inl e \<Rightarrow> Inl e
                | Inr (p, r2) \<Rightarrow> Inr ((requestID, reserved, XorInPlace p), r2)))"

definition ReadRequestFrame :: "stream \<Rightarrow> goerr + xrequest \<times> stream" where
  "ReadRequestFrame r = ReadRequestFrameProfile r 0"

definition xresp_header :: "byte \<Rightarrow> u32 \<Rightarrow> u32 \<Rightarrow> bytes" where
  "xresp_header headerMask requestID n =
     [byte_of_char (CHR ''O'') XOR headerMask, byte_of_char (CHR ''K'') XOR headerMask]
     @ put32 requestID @ put32 n"

definition WriteResponseFrameProfile ::
  "conn \<Rightarrow> u32 \<Rightarrow> bytes \<Rightarrow> byte \<Rightarrow> (goerr option \<times> conn) option" where
  "WriteResponseFrameProfile w requestID payload headerMask =
     (if length payload > MaxHandshake then Some (Some (Msg ''response frame payload too large''), w)
      else xWriteAll w (xresp_header headerMask requestID (word_of_nat (length payload))
        @ XorInPlace payload))"

definition xWriterHeaderMask :: "byte option \<Rightarrow> byte" where
  "xWriterHeaderMask m = (case m of Some k \<Rightarrow> k | None \<Rightarrow> 0)"

definition WriteResponseFrame ::
  "conn \<Rightarrow> byte option \<Rightarrow> u32 \<Rightarrow> bytes \<Rightarrow> (goerr option \<times> conn) option" where
  "WriteResponseFrame w wmask requestID payload =
     WriteResponseFrameProfile w requestID payload (xWriterHeaderMask wmask)"

text \<open>The message of a bad magic quotes the two bytes; the text keeps only its fixed part.\<close>

definition ReadResponseFrameProfile :: "stream \<Rightarrow> byte \<Rightarrow> goerr + (u32 \<times> bytes) \<times> stream" where
  "ReadResponseFrameProfile r headerMask =
     (case ReadFull 10 r of Inl e \<Rightarrow> Inl e
      | Inr (header, r1) \<Rightarrow>
        if header ! 0 XOR headerMask \<noteq> byte_of_char (CHR ''O'')
          \<or> header ! 1 XOR headerMask \<noteq> byte_of_char (CHR ''K'')
        then Inl (Msg ''bad response magic'')
        else let requestID = get32 (bslice 2 6 header);
                 n = get32 (bslice 6 10 header) in
          if unat n > MaxHandshake then Inl (Msg ''handshake response too large'')
          else (case ReadFull (unat n) r1 of Inl e \<Rightarrow> Inl e
                | Inr (p, r2) \<Rightarrow> Inr ((requestID, XorInPlace p), r2)))"

definition ReadResponseFrame :: "stream \<Rightarrow> goerr + (u32 \<times> bytes) \<times> stream" where
  "ReadResponseFrame r = ReadResponseFrameProfile r 0"

definition xreq_hdr :: "byte \<Rightarrow> xrequest \<Rightarrow> bytes" where
  "xreq_hdr hm f = xreq_header hm (fst f) (fst (snd f)) (word_of_nat (length (snd (snd f))))"

definition xreq_body :: "xrequest \<Rightarrow> bytes" where "xreq_body f = XorInPlace (snd (snd f))"

definition xrequest_frame :: "byte \<Rightarrow> xrequest \<Rightarrow> bytes" where
  "xrequest_frame hm f = xreq_hdr hm f @ xreq_body f"

definition xresp_hdr :: "byte \<Rightarrow> u32 \<times> bytes \<Rightarrow> bytes" where
  "xresp_hdr hm f = xresp_header hm (fst f) (word_of_nat (length (snd f)))"

definition xresp_body :: "u32 \<times> bytes \<Rightarrow> bytes" where "xresp_body f = XorInPlace (snd f)"

definition xresponse_frame :: "byte \<Rightarrow> u32 \<times> bytes \<Rightarrow> bytes" where
  "xresponse_frame hm f = xresp_hdr hm f @ xresp_body f"

lemma length_xreq_header [simp]: "length (xreq_header k i v n) = 14"
  by (simp add: xreq_header_def)

lemma length_xresp_header [simp]: "length (xresp_header k i n) = 10"
  by (simp add: xresp_header_def)

lemma xreq_header_fields [codec_simps]:
  "xreq_header k i v n ! 0 = byte_of_char (CHR ''U'') XOR k"
  "xreq_header k i v n ! Suc 0 = byte_of_char (CHR ''P'') XOR k"
  "get32 (bslice 2 6 (xreq_header k i v n)) = i"
  "get32 (bslice 6 10 (xreq_header k i v n)) = v"
  "get32 (bslice 10 14 (xreq_header k i v n)) = n"
  by (simp_all add: xreq_header_def bslice_def)

lemma xresp_header_fields [codec_simps]:
  "xresp_header k i n ! 0 = byte_of_char (CHR ''O'') XOR k"
  "xresp_header k i n ! Suc 0 = byte_of_char (CHR ''K'') XOR k"
  "get32 (bslice 2 6 (xresp_header k i n)) = i"
  "get32 (bslice 6 10 (xresp_header k i n)) = n"
  by (simp_all add: xresp_header_def bslice_def)

lemma MaxHandshake_lt: "n \<le> MaxHandshake \<Longrightarrow> n < 4294967296"
  by (simp add: MaxHandshake_def)

interpretation xrequest_lp: length_prefixed 14 "xreq_hdr hm" xreq_body
    "\<lambda>f p. (fst f, fst (snd f), XorInPlace p)" "\<lambda>s. ReadRequestFrameProfile s hm"
    "\<lambda>f. length (snd (snd f)) \<le> MaxHandshake"
  for hm
proof unfold_locales
  fix f :: xrequest and b e
  assume ok: "length (snd (snd f)) \<le> MaxHandshake"
  then show "ReadRequestFrameProfile (xreq_hdr hm f @ b, e) hm =
    (case ReadFull (length (xreq_body f)) (b, e) of Inl x \<Rightarrow> Inl x
     | Inr (p, s) \<Rightarrow> Inr ((fst f, fst (snd f), XorInPlace p), s))"
    using MaxHandshake_lt [OF ok]
    by (simp add: ReadRequestFrameProfile_def xreq_hdr_def xreq_body_def ReadFull_append
        xreq_header_fields Let_def split: sum.splits)
next
  fix b :: bytes and e
  assume "length b < 14"
  then show "\<exists>err. ReadRequestFrameProfile (b, e) hm = Inl err"
    by (simp add: ReadRequestFrameProfile_def ReadFull_short)
qed (simp_all add: xreq_hdr_def xreq_body_def)

interpretation xresponse_lp: length_prefixed 10 "xresp_hdr hm" xresp_body
    "\<lambda>f p. (fst f, XorInPlace p)" "\<lambda>s. ReadResponseFrameProfile s hm"
    "\<lambda>f. length (snd f) \<le> MaxHandshake"
  for hm
proof unfold_locales
  fix f :: "u32 \<times> bytes" and b e
  assume ok: "length (snd f) \<le> MaxHandshake"
  then show "ReadResponseFrameProfile (xresp_hdr hm f @ b, e) hm =
    (case ReadFull (length (xresp_body f)) (b, e) of Inl x \<Rightarrow> Inl x
     | Inr (p, s) \<Rightarrow> Inr ((fst f, XorInPlace p), s))"
    using MaxHandshake_lt [OF ok]
    by (simp add: ReadResponseFrameProfile_def xresp_hdr_def xresp_body_def ReadFull_append
        xresp_header_fields Let_def split: sum.splits)
next
  fix b :: bytes and e
  assume "length b < 10"
  then show "\<exists>err. ReadResponseFrameProfile (b, e) hm = Inl err"
    by (simp add: ReadResponseFrameProfile_def ReadFull_short)
qed (simp_all add: xresp_hdr_def xresp_body_def)

lemma xrequest_whole: "xrequest_lp.whole hm = xrequest_frame hm"
  by (rule ext) (simp add: xrequest_lp.whole_def xrequest_frame_def)

lemma xresponse_whole: "xresponse_lp.whole hm = xresponse_frame hm"
  by (rule ext) (simp add: xresponse_lp.whole_def xresponse_frame_def)

lemma WriteRequestFrame_accepting:
  assumes "accepting w" and "length p \<le> MaxHandshake"
  shows "\<exists>w'. WriteRequestFrameProfile w i p hm = Some (None, w')
    \<and> c_out w' = c_out w @ xrequest_frame hm (i, 0, p)"
proof -
  have "length (xrequest_frame hm (i, 0, p)) \<le> 2097400"
    using assms(2) by (simp add: xrequest_frame_def xreq_hdr_def xreq_body_def MaxHandshake_def)
  from xWriteAll_accepting [OF assms(1) this] assms(2) show ?thesis
    by (simp add: WriteRequestFrameProfile_def xrequest_frame_def xreq_hdr_def xreq_body_def)
qed

lemma WriteResponseFrame_accepting:
  assumes "accepting w" and "length p \<le> MaxHandshake"
  shows "\<exists>w'. WriteResponseFrameProfile w i p hm = Some (None, w')
    \<and> c_out w' = c_out w @ xresponse_frame hm (i, p)"
proof -
  have "length (xresponse_frame hm (i, p)) \<le> 2097400"
    using assms(2) by (simp add: xresponse_frame_def xresp_hdr_def xresp_body_def MaxHandshake_def)
  from xWriteAll_accepting [OF assms(1) this] assms(2) show ?thesis
    by (simp add: WriteResponseFrameProfile_def xresponse_frame_def xresp_hdr_def xresp_body_def)
qed

section \<open>Properties\<close>

text \<open>C33: The 64-bit and the 32-bit builds of \<^verbatim>\<open>XorInPlace\<close> compute the same bytes as the
  portable loop for every buffer and at every address, aligned or not, and each undoes
  itself.\<close>

theorem xor_builds_agree:
  "XorInPlace64 addr b = XorInPlace b \<and> XorInPlace32 addr b = XorInPlace b
    \<and> XorInPlace64 addr' (XorInPlace64 addr b) = b"
  by (auto simp: XorInPlace64_def XorInPlace32_def xor64_align_eq xor32_align_eq XorInPlace_Nil
      dest: arg_cong [where f = length])

text \<open>The legacy X frames round-trip: what the request and response writers send is read
  back with its request ID and payload, the reserved word being zero, whatever follows.\<close>

theorem xframe_roundtrip:
  assumes "accepting w" and "length p \<le> MaxHandshake"
  shows "(\<exists>w' frame. WriteRequestFrameProfile w i p hm = Some (None, w') \<and> c_out w' = c_out w @ frame
      \<and> (\<forall>r e. ReadRequestFrameProfile (frame @ r, e) hm = Inr ((i, 0, p), (r, e))))
    \<and> (\<exists>w' frame. WriteResponseFrameProfile w i p hm = Some (None, w') \<and> c_out w' = c_out w @ frame
      \<and> (\<forall>r e. ReadResponseFrameProfile (frame @ r, e) hm = Inr ((i, p), (r, e))))"
proof -
  have "\<forall>r e. ReadRequestFrameProfile (xrequest_frame hm (i, 0, p) @ r, e) hm = Inr ((i, 0, p), (r, e))"
    using assms(2) xrequest_lp.dec_whole [of "(i, 0, p)" hm] by (simp add: xrequest_whole)
  moreover have "\<forall>r e. ReadResponseFrameProfile (xresponse_frame hm (i, p) @ r, e) hm = Inr ((i, p), (r, e))"
    using assms(2) xresponse_lp.dec_whole [of "(i, p)" hm] by (simp add: xresponse_whole)
  ultimately show ?thesis
    using WriteRequestFrame_accepting [OF assms, of i hm] WriteResponseFrame_accepting [OF assms, of i hm]
    by blast
qed

theorem xframe_roundtrip_witness:
  "(\<exists>w' frame. WriteRequestFrameProfile open_conn 5 [1, 2] 0x40 = Some (None, w') \<and> c_out w' = c_out open_conn @ frame
      \<and> (\<forall>r e. ReadRequestFrameProfile (frame @ r, e) 0x40 = Inr ((5, 0, [1, 2]), (r, e))))
    \<and> (\<exists>w' frame. WriteResponseFrameProfile open_conn 5 [1, 2] 0x40 = Some (None, w') \<and> c_out w' = c_out open_conn @ frame
      \<and> (\<forall>r e. ReadResponseFrameProfile (frame @ r, e) 0x40 = Inr ((5, [1, 2]), (r, e))))"
  by (rule xframe_roundtrip) (simp_all add: MaxHandshake_def)

text \<open>On a writer that keeps the contract of \<^verbatim>\<open>io.Writer\<close> this package's
  \<^verbatim>\<open>writeAll\<close> returns and does what the checked loop of \<^verbatim>\<open>internal/wire\<close>
  does; on one that accepts nothing without an error it never returns, where the checked loop
  reports a short write.\<close>

theorem unchecked_writeAll:
  assumes "contract_writer c (length b)" and "stuck_writer d" and "b \<noteq> []"
  shows "xWriteAll c b = Some (writeAll c b) \<and> xWriteAll d b = None \<and> fst (writeAll d b) = Some ShortWrite"
proof -
  have "c_ans d (c_calls d) = (0, None)" using assms(2) by (simp add: stuck_writer_def)
  with assms(3) have "fst (writeAll d b) = Some ShortWrite"
    by (simp add: writeAll.simps [of d b] conn_write_def)
  with xWriteAll_contract [OF assms(1)] xWriteAll_stuck [OF assms(2,3)] show ?thesis by simp
qed

theorem unchecked_writeAll_witness:
  "xWriteAll open_conn [1] = Some (writeAll open_conn [1])
    \<and> xWriteAll (open_conn\<lparr>c_ans := \<lambda>_. (0, None)\<rparr>) [1] = None
    \<and> fst (writeAll (open_conn\<lparr>c_ans := \<lambda>_. (0, None)\<rparr>) [1]) = Some ShortWrite"
  by (rule unchecked_writeAll) (simp_all add: contract_writer_def stuck_writer_def open_conn_def)

end
