(* ===== verification/ReqIdPool.thy ===== *)
theory ReqIdPool
  imports Prelude
begin

text \<open>
  \<^verbatim>\<open>RequestIDPool\<close> of \<^verbatim>\<open>internal/wire/protocol.go\<close>: 32-bit request IDs
  handed out for in-flight requests and recycled last-in-first-out. Every operation runs
  under the pool's mutex, so a history of the pool is a sequence of whole operations.
\<close>

record RequestIDPool =
  rp_free :: "u32 list"
  rp_next :: u32
  rp_inFlight :: int

definition NewRequestIDPool :: "u32 \<Rightarrow> RequestIDPool" where
  "NewRequestIDPool start =
     \<lparr>rp_free = [], rp_next = (if start = 0 then 1 else start), rp_inFlight = 0\<rparr>"

definition Alloc :: "RequestIDPool \<Rightarrow> u32 \<times> RequestIDPool" where
  "Alloc p0 = (let p = p0\<lparr>rp_inFlight := rp_inFlight p0 + 1\<rparr> in
     if rp_free p \<noteq> [] then (last (rp_free p), p\<lparr>rp_free := butlast (rp_free p)\<rparr>)
     else let i = rp_next p; n = rp_next p + 1
       in (i, p\<lparr>rp_next := (if n = 0 then 1 else n)\<rparr>))"

definition Release :: "RequestIDPool \<Rightarrow> u32 \<Rightarrow> RequestIDPool" where
  "Release p0 i = (let p = (if rp_inFlight p0 > 0 then p0\<lparr>rp_inFlight := rp_inFlight p0 - 1\<rparr> else p0)
     in p\<lparr>rp_free := rp_free p @ [i]\<rparr>)"

definition InFlight :: "RequestIDPool \<Rightarrow> int" where
  "InFlight p = rp_inFlight p"

text \<open>
  The histories of a pool whose callers release only what they hold, once: the pool with
  the set of IDs handed out and not yet given back.
\<close>

inductive pool_run :: "u32 \<Rightarrow> RequestIDPool \<Rightarrow> u32 set \<Rightarrow> bool" for start where
  new: "pool_run start (NewRequestIDPool start) {}"
| alloc: "pool_run start p live \<Longrightarrow> card live < 2 ^ 32 - 1 \<Longrightarrow> Alloc p = (i, p')
    \<Longrightarrow> pool_run start p' (insert i live)"
| release: "pool_run start p live \<Longrightarrow> i \<in> live \<Longrightarrow> pool_run start (Release p i) (live - {i})"

text \<open>The \<open>k\<close>-th fresh ID: the IDs count up from \<open>start\<close> and skip zero when they wrap.\<close>

definition fresh_id :: "u32 \<Rightarrow> nat \<Rightarrow> u32" where
  "fresh_id start k = word_of_nat (Suc ((unat start - 1 + k) mod (2 ^ 32 - 1)))"

lemma unat_fresh_id: "unat (fresh_id start k) = Suc ((unat start - 1 + k) mod (2 ^ 32 - 1))"
proof -
  have "(unat start - 1 + k) mod (2 ^ 32 - 1) < 2 ^ 32 - 1" by simp
  then have "Suc ((unat start - 1 + k) mod (2 ^ 32 - 1)) < 4294967296" by simp
  then show ?thesis unfolding fresh_id_def by (rule unat_u32_of_nat)
qed

lemma fresh_id_nonzero [simp]: "fresh_id start k \<noteq> 0"
  by (metis unat_fresh_id unsigned_0 Zero_not_Suc)

lemma fresh_id_0: "start \<noteq> 0 \<Longrightarrow> fresh_id start 0 = start"
proof -
  assume "start \<noteq> 0"
  then have p: "0 < unat start" by (simp add: unat_gt_0)
  have "unat start - 1 < 4294967295" using unat_word_bounds(2) [of start] p by linarith
  then have "(unat start - 1 + 0) mod (2 ^ 32 - 1) = unat start - 1" by simp
  then have "unat (fresh_id start 0) = unat start" using p by (simp only: unat_fresh_id)
  then show ?thesis by (simp add: word_unat_eq_iff)
qed

text \<open>The counter's successor, skipping zero, is the next fresh ID.\<close>

lemma unat_succ_u32: "unat (w + 1 :: u32) = (if unat w = 4294967295 then 0 else unat w + 1)"
proof (cases "unat w = 4294967295")
  case False
  then have "unat w + 1 < 4294967296" using unat_word_bounds(2) [of w] by linarith
  with False show ?thesis by (simp add: unat_word_ariths)
qed (simp add: unat_word_ariths)

lemma fresh_id_Suc:
  "fresh_id start (Suc k) = (if fresh_id start k + 1 = 0 then 1 else fresh_id start k + 1)"
proof -
  define m where "m = (unat start - 1 + k) mod (2 ^ 32 - 1)"
  have m: "m < 4294967295" by (simp add: m_def)
  have f: "unat (fresh_id start k) = Suc m" by (simp only: unat_fresh_id m_def)
  have s: "(unat start - 1 + Suc k) mod (2 ^ 32 - 1) = Suc m mod (2 ^ 32 - 1)"
    by (simp add: m_def mod_Suc_eq)
  have g: "unat (fresh_id start (Suc k)) = Suc (Suc m mod (2 ^ 32 - 1))"
    by (simp only: unat_fresh_id s)
  show ?thesis
  proof (cases "m = 4294967294")
    case True
    then have "unat (fresh_id start k + 1) = 0" using f by (simp add: unat_succ_u32)
    then have "fresh_id start k + 1 = 0" by (simp add: word_unat_eq_iff)
    moreover have "unat (fresh_id start (Suc k)) = 1" using True g by simp
    ultimately show ?thesis by (simp add: word_unat_eq_iff)
  next
    case False
    with m have lt: "Suc m < 4294967295" by simp
    then have u: "unat (fresh_id start k + 1) = Suc (Suc m)" using f by (simp add: unat_succ_u32)
    then have "fresh_id start k + 1 \<noteq> 0" by (metis unsigned_0 old.nat.distinct(2))
    moreover have "unat (fresh_id start (Suc k)) = Suc (Suc m)" using lt g by simp
    ultimately show ?thesis using u by (simp add: word_unat_eq_iff)
  qed
qed

lemma fresh_id_inj:
  assumes "fresh_id start j = fresh_id start k" and "j < 2 ^ 32 - 1" and "k < 2 ^ 32 - 1"
  shows "j = k"
proof -
  define N where "N = (2 ^ 32 - 1 :: nat)"
  define s where "s = unat start - 1"
  have eq: "(s + j) mod N = (s + k) mod N"
    using arg_cong [OF assms(1), of unat] by (simp only: unat_fresh_id nat.inject N_def s_def)
  have lt: "j < N" "k < N" using assms(2,3) by (simp_all only: N_def)
  show ?thesis
  proof (rule linorder_cases [of j k])
    assume jk: "j < k"
    then have "N dvd (s + k) - (s + j)"
      using eq mod_eq_dvd_iff_nat [of "s + j" "s + k" N] by simp
    with jk lt nat_dvd_not_less [of "k - j" N] show ?thesis by simp
  next
    assume kj: "k < j"
    then have "N dvd (s + j) - (s + k)"
      using eq mod_eq_dvd_iff_nat [of "s + k" "s + j" N] by simp
    with kj lt nat_dvd_not_less [of "j - k" N] show ?thesis by simp
  qed simp
qed

section \<open>The invariant of every history\<close>

text \<open>
  The IDs ever issued are the first \<open>k\<close> fresh ones; each is either held or free, the
  free list has no duplicates, and the in-flight counter counts the held ones.
\<close>

definition pool_inv :: "u32 \<Rightarrow> RequestIDPool \<Rightarrow> u32 set \<Rightarrow> bool" where
  "pool_inv start p live \<longleftrightarrow> (\<exists>k \<le> 2 ^ 32 - 1.
     rp_next p = fresh_id start k \<and> set (rp_free p) \<union> live = fresh_id start ` {..<k}
     \<and> set (rp_free p) \<inter> live = {} \<and> distinct (rp_free p) \<and> finite live
     \<and> rp_inFlight p = int (card live))"

lemma pool_inv_new:
  "start \<noteq> 0 \<Longrightarrow> pool_inv start (NewRequestIDPool start) {}"
  unfolding pool_inv_def by (rule exI [of _ 0]) (simp add: NewRequestIDPool_def fresh_id_0)

lemma pool_inv_alloc:
  assumes inv: "pool_inv start p live" and room: "card live < 2 ^ 32 - 1" and a: "Alloc p = (i, p')"
  shows "pool_inv start p' (insert i live) \<and> i \<notin> live \<and> i \<noteq> 0"
proof -
  from inv obtain k where k: "k \<le> 2 ^ 32 - 1" and nx: "rp_next p = fresh_id start k"
    and un: "set (rp_free p) \<union> live = fresh_id start ` {..<k}"
    and di: "set (rp_free p) \<inter> live = {}" and ds: "distinct (rp_free p)"
    and fi: "finite live" and n: "rp_inFlight p = int (card live)"
    by (auto simp: pool_inv_def)
  show ?thesis
  proof (cases "rp_free p = []")
    case True
    have inj: "inj_on (fresh_id start) {..<k}"
      using k by (auto intro!: inj_onI dest: fresh_id_inj)
    have lv: "live = fresh_id start ` {..<k}" using True un by simp
    then have "card live = k" by (simp add: card_image [OF inj])
    with room have k': "Suc k \<le> 2 ^ 32 - 1" by simp
    have i: "i = fresh_id start k" and p': "p' = p\<lparr>rp_inFlight := rp_inFlight p + 1,
        rp_next := fresh_id start (Suc k)\<rparr>"
      using a True nx by (auto simp: Alloc_def Let_def fresh_id_Suc)
    have new: "i \<notin> live"
      using k' by (auto simp: lv i dest: fresh_id_inj)
    have "insert i live = fresh_id start ` {..<Suc k}" by (simp add: i lv lessThan_Suc)
    moreover from this new fi have "int (card (fresh_id start ` {..<Suc k})) = int (card live) + 1"
      by (metis card_insert_disjoint of_nat_Suc add.commute)
    ultimately have "pool_inv start p' (insert i live)"
      unfolding pool_inv_def using n p' True k' fi by (intro exI [of _ "Suc k"]) simp
    with new i show ?thesis by simp
  next
    case False
    define xs where "xs = butlast (rp_free p)"
    have sp: "rp_free p = xs @ [i]" and p': "p' = p\<lparr>rp_inFlight := rp_inFlight p + 1, rp_free := xs\<rparr>"
      using a False by (auto simp: Alloc_def Let_def xs_def)
    have new: "i \<notin> live" using di sp by auto
    have "i \<in> fresh_id start ` {..<k}" using sp by (simp flip: un)
    then have nz: "i \<noteq> 0" by auto
    have "pool_inv start p' (insert i live)"
      unfolding pool_inv_def using k nx un di ds fi n sp p' new by (intro exI [of _ k]) auto
    with new nz show ?thesis by simp
  qed
qed

lemma pool_inv_release:
  assumes inv: "pool_inv start p live" and i: "i \<in> live"
  shows "pool_inv start (Release p i) (live - {i})"
proof -
  from inv obtain k where "k \<le> 2 ^ 32 - 1" "rp_next p = fresh_id start k"
    "set (rp_free p) \<union> live = fresh_id start ` {..<k}"
    "set (rp_free p) \<inter> live = {}" "distinct (rp_free p)" "finite live" "rp_inFlight p = int (card live)"
    by (auto simp: pool_inv_def)
  moreover from this i have "card live > 0" by (auto simp: card_gt_0_iff)
  ultimately show ?thesis
    unfolding pool_inv_def using i
    by (intro exI [of _ k]) (auto simp: Release_def Let_def of_nat_diff)
qed

lemma pool_run_inv: "pool_run start p live \<Longrightarrow> start \<noteq> 0 \<Longrightarrow> pool_inv start p live"
  by (induction rule: pool_run.induct) (auto intro: pool_inv_new pool_inv_release dest: pool_inv_alloc)

lemma NewRequestIDPool_0: "NewRequestIDPool 0 = NewRequestIDPool 1"
  by (simp add: NewRequestIDPool_def)

lemma pool_run_0: "pool_run 0 p live \<Longrightarrow> pool_run 1 p live"
proof (induction rule: pool_run.induct)
  case new
  then show ?case unfolding NewRequestIDPool_0 by (rule pool_run.new)
qed (auto intro: pool_run.alloc pool_run.release)

section \<open>Properties\<close>

text \<open>C39: In every history whose callers release only what they hold, and while fewer than
  2^32 - 1 IDs are in flight, \<^verbatim>\<open>Alloc\<close> returns a non-zero ID that no request in
  flight holds (across recycling and the 32-bit wrap), and \<^verbatim>\<open>InFlight\<close> is the number
  of IDs held.\<close>

theorem request_ids_unique:
  assumes "pool_run start p live" and "card live < 2 ^ 32 - 1"
  shows "fst (Alloc p) \<notin> live \<and> fst (Alloc p) \<noteq> 0 \<and> InFlight p = int (card live)
    \<and> InFlight (snd (Alloc p)) = InFlight p + 1"
proof -
  obtain s where s: "pool_run s p live" "s \<noteq> 0"
    using assms(1) pool_run_0 [of p live] by (cases "start = 0") auto
  note inv = pool_run_inv [OF s]
  have "Alloc p = (fst (Alloc p), snd (Alloc p))" by simp
  from pool_inv_alloc [OF inv assms(2) this] inv show ?thesis
    by (auto simp: InFlight_def pool_inv_def Alloc_def Let_def)
qed

theorem request_ids_unique_witness:
  "fst (Alloc (snd (Alloc (NewRequestIDPool (- 1))))) \<notin> {- 1}
    \<and> fst (Alloc (snd (Alloc (NewRequestIDPool (- 1))))) \<noteq> 0
    \<and> InFlight (snd (Alloc (NewRequestIDPool (- 1)))) = int (card {- 1 :: u32})
    \<and> InFlight (snd (Alloc (snd (Alloc (NewRequestIDPool (- 1)))))) = InFlight (snd (Alloc (NewRequestIDPool (- 1)))) + 1"
proof -
  have a: "Alloc (NewRequestIDPool (- 1)) = (- 1, snd (Alloc (NewRequestIDPool (- 1))))"
    by (simp add: Alloc_def NewRequestIDPool_def Let_def)
  have "pool_run (- 1) (snd (Alloc (NewRequestIDPool (- 1)))) (insert (- 1) {})"
    by (rule pool_run.alloc [OF pool_run.new _ a]) simp
  from request_ids_unique [OF this] show ?thesis by simp
qed

end
