(* ===== verification/Cover.thy ===== *)
theory Cover
  imports Sha256
begin

text \<open>
  \<^verbatim>\<open>internal/cover/profile.go\<close>: the connection preface that announces the header
  mask, the payload encoding and the padding of a physical connection. Twelve bytes: the
  profile ID in clear, then ten bytes of metadata masked with a digest of the ID.
\<close>

definition PrefaceSize :: nat where "PrefaceSize = 12"
definition MaxPadding :: nat where "MaxPadding = 4096"

record Profile =
  cp_enabled :: bool
  cp_id :: u16
  cp_padding :: u16
  cp_headerMask :: byte
  cp_xor :: bool
  cp_clear :: bool

text \<open>\<^verbatim>\<open>Profile{}\<close>, the zero value.\<close>

definition zero_profile :: Profile where
  "zero_profile = \<lparr>cp_enabled = False, cp_id = 0, cp_padding = 0, cp_headerMask = 0,
     cp_xor = False, cp_clear = False\<rparr>"

definition cover_key :: "u16 \<Rightarrow> bytes" where
  "cover_key i = sha256 (bytes_of ''DragonTCP-C3'' @ put16 i
     @ [ucast i XOR 0x6d, ucast (drop_bit 8 i) XOR 0xb2])"

definition preface_flags :: "Profile \<Rightarrow> byte" where
  "preface_flags p = (let f = 0; f = (if cp_xor p then f OR 1 else f)
     in if cp_clear p then f OR 2 else f)"

text \<open>The ten metadata bytes before masking.\<close>

definition preface_plain :: "Profile \<Rightarrow> bytes" where
  "preface_plain p = (let pad = put16 (cp_padding p) in
     bytes_of ''DTC3'' @ [preface_flags p, cp_headerMask p] @ pad
     @ [preface_flags p XOR cp_headerMask p XOR 0xa5, pad ! 0 XOR pad ! 1 XOR 0x5a])"

definition EncodePreface :: "Profile \<Rightarrow> goerr + bytes" where
  "EncodePreface p =
     (if \<not> cp_enabled p then Inl (Msg ''cover profile is disabled'')
      else if unat (cp_padding p) > MaxPadding
      then Inl (Msg (''cover padding too large: '' @ dec (unat (cp_padding p))))
      else Inr (put16 (cp_id p) @ xor_bytes (preface_plain p) (take 10 (cover_key (cp_id p)))))"

text \<open>The two-valued return of \<^verbatim>\<open>DecodePreface\<close>, on its twelve-byte array.\<close>

definition DecodePreface :: "bytes \<Rightarrow> Profile \<times> bool" where
  "DecodePreface b =
     (let i = get16 (bslice 0 2 b);
          k = cover_key i;
          plain = xor_bytes (bslice 2 12 b) (take 10 k) in
      if bslice 0 4 plain \<noteq> bytes_of ''DTC3'' \<or> plain ! 4 AND NOT 3 \<noteq> 0 then (zero_profile, False)
      else if plain ! 8 \<noteq> plain ! 4 XOR plain ! 5 XOR 0xa5
        \<or> plain ! 9 \<noteq> plain ! 6 XOR plain ! 7 XOR 0x5a then (zero_profile, False)
      else
        let padding = get16 (bslice 6 8 plain) in
        if unat padding > MaxPadding then (zero_profile, False)
        else (\<lparr>cp_enabled = True, cp_id = i, cp_padding = padding, cp_headerMask = plain ! 5,
               cp_xor = (plain ! 4 AND 1 \<noteq> 0), cp_clear = (plain ! 4 AND 2 \<noteq> 0)\<rparr>, True))"

text \<open>
  \<^verbatim>\<open>rand.Read\<close> fills a buffer from the system's generator, which is no part of
  the program: its next bytes and whether it fails are an argument.
\<close>

type_synonym rng = "(nat \<Rightarrow> byte) \<times> goerr option"

definition randRead :: "rng \<Rightarrow> nat \<Rightarrow> goerr + bytes" where
  "randRead g n = (case g of (src, err) \<Rightarrow>
     (case err of Some e \<Rightarrow> Inl e | None \<Rightarrow> Inr (map src [0..<n])))"

definition WritePreface :: "conn \<Rightarrow> Profile \<Rightarrow> rng \<Rightarrow> goerr option \<times> conn" where
  "WritePreface w p g =
     (if \<not> cp_enabled p then (None, w)
      else case EncodePreface p of Inl e \<Rightarrow> (Some e, w)
      | Inr preface \<Rightarrow>
        if unat (cp_padding p) > 0 then
          (case randRead g (unat (cp_padding p)) of Inl e \<Rightarrow> (Some e, w)
           | Inr pad \<Rightarrow> writeAll w (preface @ pad))
        else writeAll w preface)"

section \<open>Lemmas\<close>

lemma length_preface_plain [simp]: "length (preface_plain p) = 10"
  by (simp add: preface_plain_def Let_def)

lemma length_cover_key [simp]: "length (cover_key i) = 32"
  by (simp add: cover_key_def)

lemma two_bits: "(x :: byte) AND NOT 3 = 0 \<Longrightarrow> x \<in> {0, 1, 2, 3}"
proof -
  assume a: "x AND NOT 3 = 0"
  have m: "(3 :: byte) = mask 2" by (simp add: mask_eq_exp_minus_1)
  have z: "bit x n \<Longrightarrow> n < 2" for n
    using arg_cong [OF a, of "\<lambda>y. bit y n"] bit_imp_le_length [of x n]
    by (simp add: m bit_simps)
  have z01: "bit x n \<Longrightarrow> n = 0 \<or> n = Suc 0" for n
    using z [of n] by auto
  have "x = (if bit x 0 then 1 else 0) OR (if bit x 1 then 2 else 0)"
    by (rule bit_word_eqI) (auto simp: bit_simps bit_1_iff bit_2_iff dest: z01)
  then show ?thesis by (cases "bit x 0"; cases "bit x 1") auto
qed

lemma preface_flags_bits [simp]:
  "preface_flags p AND NOT 3 = 0"
  "preface_flags p AND - 4 = 0"
  "preface_flags p AND 1 \<noteq> 0 \<longleftrightarrow> cp_xor p"
  "preface_flags p AND 2 \<noteq> 0 \<longleftrightarrow> cp_clear p"
  by (simp_all add: preface_flags_def)

lemma preface_flags_id:
  "(f :: byte) AND NOT 3 = 0 \<Longrightarrow> cp_xor p = (f AND 1 \<noteq> 0) \<Longrightarrow> cp_clear p = (f AND 2 \<noteq> 0)
   \<Longrightarrow> preface_flags p = f"
  using two_bits [of f] by (auto simp: preface_flags_def)

lemma list10: "length (b :: bytes) = 10 \<Longrightarrow>
  b = bslice 0 4 b @ [b ! 4, b ! 5] @ bslice 6 8 b @ [b ! 8, b ! 9]"
  by (auto simp: bslice_def numeral_eq_Suc length_Suc_conv)

lemma preface_plain_fields [codec_simps]:
  "bslice 0 4 (preface_plain p) = bytes_of ''DTC3''"
  "preface_plain p ! 4 = preface_flags p"
  "preface_plain p ! 5 = cp_headerMask p"
  "bslice 6 8 (preface_plain p) = put16 (cp_padding p)"
  "preface_plain p ! 6 = put16 (cp_padding p) ! 0"
  "preface_plain p ! 7 = put16 (cp_padding p) ! 1"
  "preface_plain p ! 8 = preface_flags p XOR cp_headerMask p XOR 0xa5"
  "preface_plain p ! 9 = put16 (cp_padding p) ! 0 XOR put16 (cp_padding p) ! 1 XOR 0x5a"
  by (simp_all add: preface_plain_def Let_def bslice_def nth_append nth_Cons' bytes_of_def)

lemma DecodePreface_encoded:
  assumes "cp_enabled p" and "unat (cp_padding p) \<le> MaxPadding"
  shows "DecodePreface (put16 (cp_id p) @ xor_bytes (preface_plain p) (take 10 (cover_key (cp_id p)))) = (p, True)"
    (is "DecodePreface ?b = _")
proof -
  have "get16 (bslice 0 2 ?b) = cp_id p" and
    "bslice 2 12 ?b = xor_bytes (preface_plain p) (take 10 (cover_key (cp_id p)))"
    by (simp_all add: bslice_def)
  then show ?thesis
    using assms by (cases p) (simp add: DecodePreface_def Let_def preface_plain_fields not_less)
qed

lemma DecodePreface_canonical:
  assumes len: "length b = 12" and ok: "DecodePreface b = (p, True)"
  shows "EncodePreface p = Inr b \<and> cp_enabled p \<and> unat (cp_padding p) \<le> MaxPadding"
proof -
  define i where "i = get16 (bslice 0 2 b)"
  define pl where "pl = xor_bytes (bslice 2 12 b) (take 10 (cover_key i))"
  have lpl: "length pl = 10" using len by (simp add: pl_def)
  have split: "b = put16 i @ bslice 2 12 b"
    using len bslice_drop [of 0 2 b] bslice_last [of b 12 2] by (simp add: i_def put_get)
  have unmask: "xor_bytes pl (take 10 (cover_key i)) = bslice 2 12 b"
    using len by (simp add: pl_def)
  from ok have magic: "bslice 0 4 pl = bytes_of ''DTC3''" and fl: "pl ! 4 AND NOT 3 = 0"
    and c8: "pl ! 8 = pl ! 4 XOR pl ! 5 XOR 0xa5" and c9: "pl ! 9 = pl ! 6 XOR pl ! 7 XOR 0x5a"
    and pad: "unat (get16 (bslice 6 8 pl)) \<le> MaxPadding"
    and p: "p = \<lparr>cp_enabled = True, cp_id = i, cp_padding = get16 (bslice 6 8 pl), cp_headerMask = pl ! 5,
       cp_xor = (pl ! 4 AND 1 \<noteq> 0), cp_clear = (pl ! 4 AND 2 \<noteq> 0)\<rparr>"
    by (auto simp: DecodePreface_def Let_def i_def pl_def split: if_splits)
  have f: "preface_flags p = pl ! 4" using fl p by (intro preface_flags_id) simp_all
  have hm: "cp_headerMask p = pl ! 5" using p by simp
  have pd: "put16 (cp_padding p) = bslice 6 8 pl" using p lpl by (simp add: put_get)
  have "preface_plain p = bytes_of ''DTC3'' @ [pl ! 4, pl ! 5] @ bslice 6 8 pl @ [pl ! 8, pl ! 9]"
    using lpl by (simp add: preface_plain_def Let_def f pd hm c8 c9) (simp add: bslice_def)
  also have "\<dots> = pl" using list10 [OF lpl] magic by simp
  finally have "preface_plain p = pl" .
  with p pad split unmask show ?thesis by (simp add: EncodePreface_def)
qed

section \<open>Properties\<close>

text \<open>Encoding an enabled profile with at most 4096 padding bytes succeeds with twelve
  bytes, and decoding them gives the profile back, whatever its ID, mask and flags.\<close>

theorem preface_roundtrip:
  assumes "cp_enabled p" and "unat (cp_padding p) \<le> MaxPadding"
  shows "\<exists>b. EncodePreface p = Inr b \<and> length b = PrefaceSize \<and> DecodePreface b = (p, True)"
  using assms DecodePreface_encoded [OF assms] by (simp add: EncodePreface_def PrefaceSize_def not_less)

theorem preface_roundtrip_witness:
  "\<exists>b. EncodePreface \<lparr>cp_enabled = True, cp_id = 0x65, cp_padding = 0, cp_headerMask = 0x25, cp_xor = False, cp_clear = True\<rparr> = Inr b
    \<and> length b = PrefaceSize
    \<and> DecodePreface b = (\<lparr>cp_enabled = True, cp_id = 0x65, cp_padding = 0, cp_headerMask = 0x25, cp_xor = False, cp_clear = True\<rparr>, True)"
  by (rule preface_roundtrip) (simp_all add: MaxPadding_def)

text \<open>The decoder accepts nothing but encodings: twelve bytes it recognises as a profile
  are exactly what \<^verbatim>\<open>EncodePreface\<close> produces for that profile, so a direct
  connection is taken for a covered one only if it starts with a genuine preface.\<close>

theorem preface_canonical:
  assumes "length b = PrefaceSize" and "DecodePreface b = (p, True)"
  shows "EncodePreface p = Inr b \<and> unat (cp_padding p) \<le> MaxPadding"
  using DecodePreface_canonical [of b p] assms by (simp add: PrefaceSize_def)

theorem preface_canonical_witness:
  "\<exists>b. length b = PrefaceSize \<and> DecodePreface b =
      (\<lparr>cp_enabled = True, cp_id = 7, cp_padding = 16, cp_headerMask = 8, cp_xor = True, cp_clear = False\<rparr>, True)
    \<and> EncodePreface \<lparr>cp_enabled = True, cp_id = 7, cp_padding = 16, cp_headerMask = 8, cp_xor = True, cp_clear = False\<rparr> = Inr b"
proof -
  let ?p = "\<lparr>cp_enabled = True, cp_id = 7, cp_padding = 16, cp_headerMask = 8, cp_xor = True, cp_clear = False\<rparr>"
  let ?b = "put16 (cp_id ?p) @ xor_bytes (preface_plain ?p) (take 10 (cover_key (cp_id ?p)))"
  have l: "length ?b = PrefaceSize" by (simp add: PrefaceSize_def)
  have d: "DecodePreface ?b = (?p, True)" by (rule DecodePreface_encoded) (simp_all add: MaxPadding_def)
  from preface_canonical [OF l d] l d show ?thesis by blast
qed

text \<open>\<^verbatim>\<open>WritePreface\<close> sends nothing for a disabled profile, and for an enabled one
  exactly the encoded preface followed by the announced number of random bytes.\<close>

theorem preface_written:
  assumes "accepting w" and "unat (cp_padding p) \<le> MaxPadding"
  shows "fst (WritePreface w p (src, None)) = None \<and>
    c_out (snd (WritePreface w p (src, None))) = c_out w @
      (if cp_enabled p
       then (case EncodePreface p of Inl e \<Rightarrow> [] | Inr b \<Rightarrow> b) @ map src [0..<unat (cp_padding p)]
       else [])"
  using assms by (auto simp: WritePreface_def EncodePreface_def randRead_def not_less MaxPadding_def
      writeAll_accepting)

theorem preface_written_witness:
  "fst (WritePreface open_conn \<lparr>cp_enabled = True, cp_id = 7, cp_padding = 2, cp_headerMask = 8, cp_xor = False, cp_clear = True\<rparr> ((\<lambda>_. 5), None)) = None \<and>
    c_out (snd (WritePreface open_conn \<lparr>cp_enabled = True, cp_id = 7, cp_padding = 2, cp_headerMask = 8, cp_xor = False, cp_clear = True\<rparr> ((\<lambda>_. 5), None)))
      = c_out open_conn @
      (if cp_enabled \<lparr>cp_enabled = True, cp_id = 7, cp_padding = 2, cp_headerMask = 8, cp_xor = False, cp_clear = True\<rparr>
       then (case EncodePreface \<lparr>cp_enabled = True, cp_id = 7, cp_padding = 2, cp_headerMask = 8, cp_xor = False, cp_clear = True\<rparr>
          of Inl e \<Rightarrow> [] | Inr b \<Rightarrow> b) @ map (\<lambda>_. 5) [0..<unat (cp_padding \<lparr>cp_enabled = True, cp_id = 7, cp_padding = 2, cp_headerMask = 8, cp_xor = False, cp_clear = True\<rparr>)]
       else [])"
  by (rule preface_written) (simp_all add: MaxPadding_def)

end
