(* ===== verification/Lane.thy ===== *)
theory Lane
  imports Wire Cover
begin

text \<open>
  \<^verbatim>\<open>requestLane\<close> of \<^verbatim>\<open>chunk.go\<close>: a serialized request/response channel to
  the server that dials on demand, rotates connections, replays a request once on a fresh
  connection after a failure, and learns when a path does not survive connection reuse.

  Every operation holds the lane's mutex from start to end, so an operation is one step of
  the lane and the world below; another lane's operations fall between steps. The world is
  what the lane meets outside the program: the outcome of the \<open>k\<close>-th dial (an error or a
  connection with everything it will deliver and answer) and the random bytes, plus a log of
  what the lane did, newest first. Deadlines reach the model as \<open>NetErr True\<close> errors of the
  connections, so \<^verbatim>\<open>SetDeadline\<close> has no counterpart.
\<close>

section \<open>The world\<close>

datatype event =
    Dialed nat
  | Requested nat byte u64 bytes
  | Closed nat

record world =
  w_dials :: "nat \<Rightarrow> goerr + conn"
  w_dialed :: nat
  w_rngs :: "nat \<Rightarrow> rng"
  w_rngn :: nat
  w_log :: "event list"
  w_probeSeq :: u64
  w_requestCounter :: u32

definition log_event :: "event \<Rightarrow> world \<Rightarrow> world" where
  "log_event ev w = w\<lparr>w_log := ev # w_log w\<rparr>"

definition take_rng :: "world \<Rightarrow> rng \<times> world" where
  "take_rng w = (w_rngs w (w_rngn w), w\<lparr>w_rngn := Suc (w_rngn w)\<rparr>)"

text \<open>The connections open after a log: dialed and not closed since.\<close>

fun live :: "event list \<Rightarrow> nat set" where
  "live [] = {}"
| "live (Dialed k # evs) = insert k (live evs)"
| "live (Requested k m q p # evs) = live evs"
| "live (Closed k # evs) = live evs - {k}"

text \<open>A request goes out only on a connection that is open at that moment.\<close>

fun log_ok :: "event list \<Rightarrow> bool" where
  "log_ok [] = True"
| "log_ok (Dialed k # evs) = (k \<notin> live evs \<and> log_ok evs)"
| "log_ok (Requested k m q p # evs) = (k \<in> live evs \<and> log_ok evs)"
| "log_ok (Closed k # evs) = (k \<in> live evs \<and> log_ok evs)"

definition world_ok :: "world \<Rightarrow> bool" where
  "world_ok w \<longleftrightarrow> log_ok (w_log w) \<and> (\<forall>k \<in> live (w_log w). k < w_dialed w)"

section \<open>The lane\<close>

record physicalConn =
  pc_id :: nat
  pc_conn :: conn
  pc_requests :: int

record requestLane =
  ln_serverAddr :: string
  ln_tcpBuffer :: int
  ln_reconnectEvery :: int
  ln_timeout :: int
  ln_headerMask :: byte
  ln_profile :: Profile
  ln_auto :: bool
  ln_pc :: "physicalConn option"
  ln_closed :: bool

definition newRequestLane ::
  "string \<Rightarrow> int \<Rightarrow> int \<Rightarrow> int \<Rightarrow> byte \<Rightarrow> Profile \<Rightarrow> requestLane" where
  "newRequestLane serverAddr tcpBuffer reconnectEvery timeout headerMask coverProfile =
     (let autoReconnect = (reconnectEvery = 1);
          reconnectEvery = (if autoReconnect then 0 else reconnectEvery)
      in \<lparr>ln_serverAddr = serverAddr, ln_tcpBuffer = tcpBuffer, ln_reconnectEvery = reconnectEvery,
          ln_timeout = timeout, ln_headerMask = headerMask, ln_profile = coverProfile,
          ln_auto = autoReconnect, ln_pc = None, ln_closed = False\<rparr>)"

definition discardLocked :: "requestLane \<Rightarrow> world \<Rightarrow> requestLane \<times> world" where
  "discardLocked l w = (case ln_pc l of None \<Rightarrow> (l, w)
     | Some p \<Rightarrow> (l\<lparr>ln_pc := None\<rparr>, log_event (Closed (pc_id p)) w))"

definition transportFailureLocked :: "bool \<Rightarrow> requestLane \<Rightarrow> world \<Rightarrow> requestLane \<times> world" where
  "transportFailureLocked reused l w =
     discardLocked (if ln_auto l \<and> reused then l\<lparr>ln_reconnectEvery := 1\<rparr> else l) w"

definition closeAfterLocked :: "requestLane \<Rightarrow> world \<Rightarrow> requestLane \<times> world" where
  "closeAfterLocked l w = (case ln_pc l of None \<Rightarrow> (l, w)
     | Some p \<Rightarrow> if ln_reconnectEvery l > 0 \<and> pc_requests p \<ge> ln_reconnectEvery l
         then discardLocked l w else (l, w))"

text \<open>\<^verbatim>\<open>protocol.DialTCP\<close> followed by the preface, the tail of \<^verbatim>\<open>ensureLocked\<close>.\<close>

definition dialLane :: "requestLane \<Rightarrow> world \<Rightarrow> goerr option \<times> requestLane \<times> world" where
  "dialLane l w =
     (let k = w_dialed w; w = w\<lparr>w_dialed := Suc k\<rparr> in
      case w_dials w k of Inl e \<Rightarrow> (Some e, l, w)
      | Inr c \<Rightarrow>
        let w = log_event (Dialed k) w;
            (g, w) = take_rng w;
            (err, c) = WritePreface c (ln_profile l) g in
        case err of Some e \<Rightarrow> (Some e, l, log_event (Closed k) w)
        | None \<Rightarrow> (None, l\<lparr>ln_pc := Some \<lparr>pc_id = k, pc_conn = c, pc_requests = 0\<rparr>\<rparr>, w))"

definition ensureLocked :: "requestLane \<Rightarrow> world \<Rightarrow> goerr option \<times> requestLane \<times> world" where
  "ensureLocked l w =
     (if ln_closed l then (Some ErrClosed, l, w)
      else case ln_pc l of
        Some p \<Rightarrow>
          if ln_reconnectEvery l \<le> 0 \<or> pc_requests p < ln_reconnectEvery l then (None, l, w)
          else (case discardLocked l w of (l, w) \<Rightarrow> dialLane l w)
      | None \<Rightarrow> dialLane l w)"

definition closeLane :: "requestLane \<Rightarrow> world \<Rightarrow> requestLane \<times> world" where
  "closeLane l w = discardLocked (l\<lparr>ln_closed := True\<rparr>) w"

section \<open>Attempts\<close>

text \<open>
  The \<^verbatim>\<open>for attempt := 0; attempt < 2\<close> loops: one turn either returns from the
  method or goes on with \<^verbatim>\<open>lastErr\<close> set; after the last turn the method fails.
\<close>

datatype 'r turn = Return 'r | Continue goerr

fun attempts ::
  "(requestLane \<Rightarrow> world \<Rightarrow> 'r turn \<times> requestLane \<times> world) \<Rightarrow> (goerr option \<Rightarrow> 'r) \<Rightarrow> nat
   \<Rightarrow> goerr option \<Rightarrow> requestLane \<Rightarrow> world \<Rightarrow> 'r \<times> requestLane \<times> world" where
  "attempts turn give_up 0 lastErr l w = (give_up lastErr, l, w)"
| "attempts turn give_up (Suc n) lastErr l w = (case turn l w of
     (Return r, l, w) \<Rightarrow> (r, l, w)
   | (Continue e, l, w) \<Rightarrow> attempts turn give_up n (Some e) l w)"

text \<open>\<^verbatim>\<open>fmt.Errorf("<msg>: %w", lastErr)\<close>; the nil case prints as Go prints it.\<close>

definition wrap_last :: "string \<Rightarrow> goerr option \<Rightarrow> goerr" where
  "wrap_last msg lastErr = (case lastErr of Some e \<Rightarrow> Wrap msg e
     | None \<Rightarrow> Msg (msg @ '': %!w(<nil>)''))"

text \<open>A failed write or read: the connection goes, and only a timeout ends the method.\<close>

definition turn_failed ::
  "(goerr \<Rightarrow> 'r) \<Rightarrow> bool \<Rightarrow> goerr \<Rightarrow> requestLane \<Rightarrow> world \<Rightarrow> 'r turn \<times> requestLane \<times> world" where
  "turn_failed fail reused e l w = (case transportFailureLocked reused l w of (l, w) \<Rightarrow>
     ((if isTransportTimeout (Some e) then Return (fail e) else Continue e), l, w))"

section \<open>One request, one response\<close>

definition single_turn ::
  "byte \<Rightarrow> session_id \<Rightarrow> u64 \<Rightarrow> bytes \<Rightarrow> requestLane \<Rightarrow> world
   \<Rightarrow> (goerr + byte \<times> bytes) turn \<times> requestLane \<times> world" where
  "single_turn mode sid seq payload l w = (case ensureLocked l w of
     (Some e, l, w) \<Rightarrow> ((if isTransportTimeout (Some e) then Return (Inl e) else Continue e), l, w)
   | (None, l, w) \<Rightarrow>
     let p = the (ln_pc l); reused = (pc_requests p > 0);
         clear = cp_clear (ln_profile l);
         w = log_event (Requested (pc_id p) mode seq payload) w in
     (case WriteRequestProfileEncoding (pc_conn p) mode sid seq payload (ln_headerMask l) clear of
       (Some e, c) \<Rightarrow> turn_failed Inl reused e l w
     | (None, c) \<Rightarrow>
       (case ReadResponseProfile (c_in c) (ln_headerMask l) of
          Inl e \<Rightarrow> turn_failed Inl reused e l w
        | Inr ((status, body), s) \<Rightarrow>
          let l = l\<lparr>ln_pc := Some (p\<lparr>pc_conn := c\<lparr>c_in := s\<rparr>, pc_requests := pc_requests p + 1\<rparr>)\<rparr>;
              (l, w) = closeAfterLocked l w;
              body = (if status \<noteq> StatusError \<and> body \<noteq> [] \<and> \<not> clear
                      then DecodeMaskedResponse status body sid mode seq else body)
          in (Return (Inr (status, body)), l, w))))"

definition single ::
  "byte \<Rightarrow> session_id \<Rightarrow> u64 \<Rightarrow> bytes \<Rightarrow> requestLane \<Rightarrow> world
   \<Rightarrow> (goerr + byte \<times> bytes) \<times> requestLane \<times> world" where
  "single mode sid seq payload =
     attempts (single_turn mode sid seq payload)
       (\<lambda>e. Inl (wrap_last ''request failed after reconnect'' e)) 2 None"

section \<open>One request, a batch of responses\<close>

text \<open>
  The loop over the response records: a transport error, an end that also discards the
  connection, or the normal end. Its state is what is left of the stream, the parts so far
  and the offset of the next one.
\<close>

datatype batch =
    BatchBroken goerr
  | BatchDiscard "bytes list" byte goerr
  | BatchDone "bytes list" byte stream

fun read_batch ::
  "byte \<Rightarrow> bool \<Rightarrow> session_id \<Rightarrow> nat \<Rightarrow> stream \<Rightarrow> bytes list \<Rightarrow> u64 \<Rightarrow> byte \<Rightarrow> batch" where
  "read_batch hm clear sid 0 s out offset lastStatus = BatchDone out lastStatus s"
| "read_batch hm clear sid (Suc n) s out offset lastStatus =
     (case ReadResponseProfile s hm of Inl e \<Rightarrow> BatchBroken e
      | Inr ((status, body), s) \<Rightarrow>
        if status = StatusData then
          let body = (if clear then body else DecodeMaskedResponse status body sid ModeDownload offset) in
          if body = [] then BatchDiscard out status (Msg ''empty DATA response'')
          else read_batch hm clear sid n s (out @ [body]) (offset + word_of_nat (length body)) status
        else if status = StatusWait \<or> status = StatusEOF then BatchDone out status s
        else if status = StatusError then BatchDiscard out status (Msg (string_of body))
        else BatchDiscard out status (Msg (''unknown response status '' @ dec (unat status))))"

type_synonym download_result = "bytes list \<times> byte \<times> goerr option"

definition download_payload :: "u64 \<Rightarrow> int \<Rightarrow> int \<Rightarrow> bytes" where
  "download_payload ackOffset maxChunk count =
     put64 ackOffset @ put32 (word_of_int maxChunk) @ put16 (word_of_int count)"

definition download_turn ::
  "session_id \<Rightarrow> u64 \<Rightarrow> u64 \<Rightarrow> int \<Rightarrow> int \<Rightarrow> requestLane \<Rightarrow> world
   \<Rightarrow> download_result turn \<times> requestLane \<times> world" where
  "download_turn sid startOffset ackOffset maxChunk count l w = (case ensureLocked l w of
     (Some e, l, w) \<Rightarrow>
       ((if isTransportTimeout (Some e) then Return ([], 0, Some e) else Continue e), l, w)
   | (None, l, w) \<Rightarrow>
     let p = the (ln_pc l); reused = (pc_requests p > 0);
         clear = cp_clear (ln_profile l);
         payload = download_payload ackOffset maxChunk count;
         w = log_event (Requested (pc_id p) ModeDownload startOffset payload) w in
     (case WriteRequestProfileEncoding (pc_conn p) ModeDownload sid startOffset payload
             (ln_headerMask l) clear of
       (Some e, c) \<Rightarrow> turn_failed (\<lambda>e. ([], 0, Some e)) reused e l w
     | (None, c) \<Rightarrow>
       (case read_batch (ln_headerMask l) clear sid (nat count) (c_in c) [] startOffset StatusOK of
          BatchBroken e \<Rightarrow> turn_failed (\<lambda>e. ([], 0, Some e)) reused e l w
        | BatchDiscard out status e \<Rightarrow>
          (case discardLocked l w of (l, w) \<Rightarrow> (Return (out, status, Some e), l, w))
        | BatchDone out lastStatus s \<Rightarrow>
          let l = l\<lparr>ln_pc := Some (p\<lparr>pc_conn := c\<lparr>c_in := s\<rparr>, pc_requests := pc_requests p + 1\<rparr>)\<rparr>;
              (l, w) = closeAfterLocked l w
          in (Return (out, lastStatus, None), l, w))))"

definition download ::
  "session_id \<Rightarrow> u64 \<Rightarrow> u64 \<Rightarrow> int \<Rightarrow> int \<Rightarrow> requestLane \<Rightarrow> world
   \<Rightarrow> download_result \<times> requestLane \<times> world" where
  "download sid startOffset ackOffset maxChunk count =
     attempts (download_turn sid startOffset ackOffset maxChunk count)
       (\<lambda>e. ([], 0, Some (wrap_last ''download request failed after reconnect'' e))) 2 None"


section \<open>What every lane operation keeps\<close>

definition owned :: "requestLane \<Rightarrow> nat set" where
  "owned l = (case ln_pc l of None \<Rightarrow> {} | Some p \<Rightarrow> {pc_id p})"

text \<open>The requests handed to the wire so far, newest first.\<close>

fun requests_of :: "event list \<Rightarrow> (byte \<times> u64 \<times> bytes) list" where
  "requests_of [] = []"
| "requests_of (Requested k m q b # evs) = (m, q, b) # requests_of evs"
| "requests_of (Dialed k # evs) = requests_of evs"
| "requests_of (Closed k # evs) = requests_of evs"

definition requests :: "world \<Rightarrow> (byte \<times> u64 \<times> bytes) list" where
  "requests w = requests_of (w_log w)"

definition sends :: "world \<Rightarrow> nat" where
  "sends w = length (requests w)"

text \<open>The lane's connection is an open one of its own, and a closed lane has none.\<close>

definition lane_own :: "requestLane \<Rightarrow> world \<Rightarrow> bool" where
  "lane_own l w \<longleftrightarrow> world_ok w \<and> owned l \<subseteq> live (w_log w) \<and> (ln_closed l \<longrightarrow> ln_pc l = None)
     \<and> (ln_auto l \<longrightarrow> ln_reconnectEvery l \<in> {0, 1})
     \<and> (\<forall>p. ln_pc l = Some p \<longrightarrow> 0 \<le> pc_requests p)"

text \<open>
  Between operations a connection has served a request and has requests to go before it is
  rotated; in the middle of one it may be new.
\<close>

definition quota :: "requestLane \<Rightarrow> bool" where
  "quota l \<longleftrightarrow> (\<forall>p. ln_pc l = Some p \<longrightarrow> 1 \<le> pc_requests p
     \<and> (0 < ln_reconnectEvery l \<longrightarrow> pc_requests p < ln_reconnectEvery l))"

definition lane_ok :: "requestLane \<Rightarrow> world \<Rightarrow> bool" where
  "lane_ok l w \<longleftrightarrow> lane_own l w \<and> quota l"

text \<open>
  One operation: the connections of others are untouched and none is lost, the settings
  stay, \<^verbatim>\<open>reconnectEvery\<close> changes only from learning, and the log only grows.
\<close>

definition lane_step :: "requestLane \<Rightarrow> world \<Rightarrow> requestLane \<Rightarrow> world \<Rightarrow> bool" where
  "lane_step l w l' w' \<longleftrightarrow>
     live (w_log w') - owned l' = live (w_log w) - owned l
     \<and> ln_auto l' = ln_auto l \<and> ln_closed l' = ln_closed l
     \<and> ln_headerMask l' = ln_headerMask l \<and> ln_profile l' = ln_profile l
     \<and> (ln_reconnectEvery l' = ln_reconnectEvery l \<or> ln_auto l \<and> ln_reconnectEvery l' = 1)
     \<and> sends w \<le> sends w' \<and> w_dials w' = w_dials w"

lemma lane_step_refl [simp]: "lane_step l w l w"
  by (simp add: lane_step_def)

lemma lane_step_trans:
  "lane_step l w l1 w1 \<Longrightarrow> lane_step l1 w1 l2 w2 \<Longrightarrow> lane_step l w l2 w2"
  by (auto simp: lane_step_def)

lemma log_event_sel [simp]:
  "w_log (log_event ev w) = ev # w_log w" "w_dials (log_event ev w) = w_dials w"
  "w_dialed (log_event ev w) = w_dialed w" "w_rngn (log_event ev w) = w_rngn w"
  "w_rngs (log_event ev w) = w_rngs w"
  by (simp_all add: log_event_def)

lemma requests_simps [simp]:
  "requests (log_event (Dialed k) w) = requests w" "requests (log_event (Closed k) w) = requests w"
  "requests (log_event (Requested k m q p) w) = (m, q, p) # requests w"
  "requests (w\<lparr>w_dialed := d\<rparr>) = requests w" "requests (w\<lparr>w_rngn := d\<rparr>) = requests w"
  "requests (w\<lparr>w_probeSeq := x\<rparr>) = requests w"
  by (simp_all add: requests_def)

lemma sends_simps [simp]:
  "sends (log_event (Dialed k) w) = sends w" "sends (log_event (Closed k) w) = sends w"
  "sends (log_event (Requested k m q p) w) = Suc (sends w)"
  "sends (w\<lparr>w_dialed := d\<rparr>) = sends w" "sends (w\<lparr>w_rngn := d\<rparr>) = sends w"
  "sends (w\<lparr>w_probeSeq := x\<rparr>) = sends w"
  by (simp_all add: sends_def)

lemma sends_eq: "requests w' = requests w \<Longrightarrow> sends w' = sends w"
  by (simp add: sends_def)

lemma owned_simps [simp]:
  "ln_pc l = None \<Longrightarrow> owned l = {}" "ln_pc l = Some p \<Longrightarrow> owned l = {pc_id p}"
  "owned (l\<lparr>ln_pc := None\<rparr>) = {}" "owned (l\<lparr>ln_pc := Some p\<rparr>) = {pc_id p}"
  by (simp_all add: owned_def)

named_theorems lane_rules

lemma discardLocked_step [lane_rules]:
  assumes "lane_own l w" and "discardLocked l w = (l', w')"
  shows "lane_own l' w' \<and> quota l' \<and> lane_step l w l' w' \<and> ln_pc l' = None \<and> requests w' = requests w
    \<and> ln_reconnectEvery l' = ln_reconnectEvery l"
  using assms
  by (auto simp: discardLocked_def lane_own_def world_ok_def lane_step_def quota_def split: option.splits)

lemma transportFailureLocked_step [lane_rules]:
  assumes "lane_own l w" and "transportFailureLocked reused l w = (l', w')"
  shows "lane_own l' w' \<and> quota l' \<and> lane_step l w l' w' \<and> ln_pc l' = None \<and> requests w' = requests w
    \<and> ln_reconnectEvery l' = (if ln_auto l \<and> reused then 1 else ln_reconnectEvery l)"
proof -
  let ?l = "if ln_auto l \<and> reused then l\<lparr>ln_reconnectEvery := 1\<rparr> else l"
  have "lane_own ?l w" and s: "lane_step l w ?l w" and "ln_pc ?l = ln_pc l"
    using assms(1) by (auto simp: lane_own_def lane_step_def owned_def)
  with discardLocked_step [of ?l w l' w'] assms(2) lane_step_trans [OF s, of l' w']
  show ?thesis by (auto simp: transportFailureLocked_def)
qed

lemma closeAfterLocked_step [lane_rules]:
  assumes "lane_own l w" and "\<And>p. ln_pc l = Some p \<Longrightarrow> 1 \<le> pc_requests p" and "closeAfterLocked l w = (l', w')"
  shows "lane_own l' w' \<and> quota l' \<and> lane_step l w l' w' \<and> requests w' = requests w
    \<and> ln_reconnectEvery l' = ln_reconnectEvery l"
  using assms discardLocked_step [of l w l' w']
  by (fastforce simp: closeAfterLocked_def quota_def split: option.splits if_splits)

lemma dialLane_step:
  assumes own: "lane_own l w" and none: "ln_pc l = None" and "\<not> ln_closed l" and d: "dialLane l w = (r, l', w')"
  shows "lane_own l' w' \<and> lane_step l w l' w' \<and> requests w' = requests w
    \<and> ln_reconnectEvery l' = ln_reconnectEvery l
    \<and> (r = None \<longrightarrow> (\<exists>p. ln_pc l' = Some p \<and> pc_requests p = 0)) \<and> (r \<noteq> None \<longrightarrow> ln_pc l' = None \<and> quota l')"
proof -
  have fresh: "w_dialed w \<notin> live (w_log w)" "\<And>k. k \<in> live (w_log w) \<Longrightarrow> k < Suc (w_dialed w)"
    using own by (auto simp: lane_own_def world_ok_def less_Suc_eq)
  with assms show ?thesis
    by (auto simp: dialLane_def lane_own_def world_ok_def lane_step_def quota_def take_rng_def Let_def
        split: sum.splits prod.splits option.splits)
qed

lemma ensureLocked_step [lane_rules]:
  assumes "lane_ok l w" and "ensureLocked l w = (r, l', w')"
  shows "lane_own l' w' \<and> lane_step l w l' w' \<and> requests w' = requests w
    \<and> ln_reconnectEvery l' = ln_reconnectEvery l
    \<and> (r = None \<longrightarrow> (\<exists>p. ln_pc l' = Some p \<and> 0 \<le> pc_requests p)) \<and> (r \<noteq> None \<longrightarrow> ln_pc l' = None \<and> quota l')"
proof -
  have own: "lane_own l w" and q: "quota l" using assms(1) by (simp_all add: lane_ok_def)
  show ?thesis
  proof (cases "ln_closed l")
    case True
    with assms own show ?thesis by (auto simp: ensureLocked_def lane_own_def quota_def)
  next
    case opn: False
    show ?thesis
    proof (cases "ln_pc l")
      case None
      with opn dialLane_step [OF own None opn] assms(2) show ?thesis
        by (fastforce simp: ensureLocked_def)
    next
      case (Some p)
      with q have "ln_reconnectEvery l \<le> 0 \<or> pc_requests p < ln_reconnectEvery l"
        by (auto simp: quota_def)
      with opn Some own q assms(2) show ?thesis by (auto simp: ensureLocked_def lane_own_def)
    qed
  qed
qed

text \<open>In a state between operations the branch that rotates inside \<^verbatim>\<open>ensureLocked\<close> is dead.\<close>

lemma ensureLocked_keeps:
  "lane_ok l w \<Longrightarrow> ln_pc l = Some p \<Longrightarrow> ensureLocked l w = (None, l, w)"
  by (auto simp: lane_ok_def lane_own_def quota_def ensureLocked_def)

lemma closeLane_step:
  assumes "lane_ok l w" and "closeLane l w = (l', w')"
  shows "lane_ok l' w' \<and> ln_pc l' = None \<and> ln_closed l' \<and> live (w_log w') = live (w_log w) - owned l
    \<and> ln_auto l' = ln_auto l \<and> ln_reconnectEvery l' = ln_reconnectEvery l"
  using assms
  by (auto simp: closeLane_def discardLocked_def lane_ok_def lane_own_def world_ok_def quota_def
      split: option.splits)

section \<open>The contract of one attempt\<close>

text \<open>
  What \<^verbatim>\<open>single\<close>, \<^verbatim>\<open>download\<close> and their \<^verbatim>\<open>bp\<close> versions have in
  common: one attempt keeps the lane, sends at most one request, and asks for another attempt
  only after an error that is no timeout and with no connection left.
\<close>

locale lane_turn =
  fixes turn :: "requestLane \<Rightarrow> world \<Rightarrow> 'r turn \<times> requestLane \<times> world"
    and rq :: "byte \<times> u64 \<times> bytes"
  assumes turn_keeps: "lane_ok l w \<Longrightarrow> turn l w = (t, l', w') \<Longrightarrow> lane_ok l' w' \<and> lane_step l w l' w'"
    and turn_requests: "lane_ok l w \<Longrightarrow> turn l w = (t, l', w') \<Longrightarrow>
      requests w' = requests w \<or> requests w' = rq # requests w"
    and turn_continue: "lane_ok l w \<Longrightarrow> turn l w = (Continue e, l', w') \<Longrightarrow>
      \<not> chain_timeout e \<and> ln_pc l' = None"
begin

lemma turn_sends: "lane_ok l w \<Longrightarrow> turn l w = (t, l', w') \<Longrightarrow> sends w' \<le> Suc (sends w)"
  using turn_requests [of l w t l' w'] by (auto simp: sends_def)

lemma attempts_keep:
  "lane_ok l w \<Longrightarrow> attempts turn f n e l w = (r, l', w') \<Longrightarrow> lane_ok l' w' \<and> lane_step l w l' w'"
proof (induction n arbitrary: e l w)
  case (Suc n)
  obtain t l1 w1 where t: "turn l w = (t, l1, w1)" by (cases "turn l w") auto
  note k = turn_keeps [OF Suc.prems(1) t]
  show ?case
  proof (cases t)
    case (Return x)
    with t k Suc.prems show ?thesis by simp
  next
    case (Continue y)
    with t k Suc.prems Suc.IH [of l1 w1 "Some y"] show ?thesis by (auto intro: lane_step_trans)
  qed
qed simp

text \<open>Every attempt sends the same request, and at most once.\<close>

lemma attempts_requests:
  "lane_ok l w \<Longrightarrow> attempts turn f n e l w = (r, l', w') \<Longrightarrow>
   \<exists>k \<le> n. requests w' = replicate k rq @ requests w"
proof (induction n arbitrary: e l w)
  case (Suc n)
  obtain t l1 w1 where t: "turn l w = (t, l1, w1)" by (cases "turn l w") auto
  note k = turn_keeps [OF Suc.prems(1) t]
  obtain j where j: "j \<le> 1" "requests w1 = replicate j rq @ requests w"
    using turn_requests [OF Suc.prems(1) t] by (metis append_Cons append_Nil le_numeral_extra(3,4) replicate_0 replicate_Suc
      zero_le_one One_nat_def)
  show ?case
  proof (cases t)
    case (Return x)
    with t j Suc.prems show ?thesis by (intro exI [of _ j]) auto
  next
    case (Continue y)
    with t k Suc.prems Suc.IH [of l1 w1 "Some y"] obtain i where
      "i \<le> n" "requests w' = replicate i rq @ requests w1" by auto
    with j show ?thesis by (intro exI [of _ "i + j"]) (simp add: replicate_add)
  qed
qed simp

lemma attempts_all:
  assumes "lane_ok l w" and "attempts turn f n e l w = (r, l', w')"
  shows "lane_ok l' w' \<and> lane_step l w l' w' \<and> sends w' \<le> sends w + n
    \<and> (\<exists>k \<le> n. requests w' = replicate k rq @ requests w)"
  using attempts_keep [OF assms] attempts_requests [OF assms] by (auto simp: sends_def)

text \<open>A second attempt starts without a connection: the replay always dials.\<close>

lemma replay_dials:
  assumes "lane_ok l w" and "turn l w = (t, l1, w1)"
  shows "(\<exists>r. t = Return r \<and> attempts turn f 2 None l w = (r, l1, w1)) \<or>
    (\<exists>e. t = Continue e \<and> \<not> chain_timeout e \<and> ln_pc l1 = None
      \<and> attempts turn f 2 None l w = attempts turn f 1 (Some e) l1 w1)"
  using assms turn_continue [OF assms(1)] by (cases t) (auto simp: numeral_2_eq_2)

end

lemma own_update:
  "lane_own l w \<Longrightarrow> ln_pc l = Some p \<Longrightarrow> pc_id p' = pc_id p \<Longrightarrow> 0 \<le> pc_requests p'
   \<Longrightarrow> lane_own (l\<lparr>ln_pc := Some p'\<rparr>) w \<and> lane_step l w (l\<lparr>ln_pc := Some p'\<rparr>) w"
  by (auto simp: lane_own_def lane_step_def)

lemma own_requested:
  "lane_own l w \<Longrightarrow> ln_pc l = Some p \<Longrightarrow>
   lane_own l (log_event (Requested (pc_id p) m q b) w)
   \<and> lane_step l w l (log_event (Requested (pc_id p) m q b) w)"
  by (auto simp: lane_own_def lane_step_def world_ok_def)

lemma turn_failed_step:
  assumes "lane_own l w" and "turn_failed fail reused e l w = (t, l', w')"
  shows "lane_ok l' w' \<and> lane_step l w l' w' \<and> requests w' = requests w \<and> ln_pc l' = None
    \<and> (\<forall>x. t = Continue x \<longrightarrow> \<not> chain_timeout x)"
proof -
  obtain l1 w1 where f: "transportFailureLocked reused l w = (l1, w1)" by fastforce
  with assms(2) have "l' = l1" "w' = w1" "t = (if chain_timeout e then Return (fail e) else Continue e)"
    by (simp_all add: turn_failed_def)
  with transportFailureLocked_step [OF assms(1) f] show ?thesis by (simp add: lane_ok_def)
qed

lemma finish_step:
  assumes "lane_own l w" and "ln_pc l = Some p" and "0 \<le> pc_requests p"
    and "closeAfterLocked (l\<lparr>ln_pc := Some (p\<lparr>pc_conn := c, pc_requests := pc_requests p + 1\<rparr>)\<rparr>) w = (l', w')"
  shows "lane_ok l' w' \<and> lane_step l w l' w' \<and> requests w' = requests w"
proof -
  let ?l = "l\<lparr>ln_pc := Some (p\<lparr>pc_conn := c, pc_requests := pc_requests p + 1\<rparr>)\<rparr>"
  have u: "lane_own ?l w" "lane_step l w ?l w"
    using own_update [OF assms(1,2), of "p\<lparr>pc_conn := c, pc_requests := pc_requests p + 1\<rparr>"] assms(3)
    by simp_all
  from closeAfterLocked_step [OF u(1) _ assms(4)] assms(3) lane_step_trans [OF u(2), of l' w']
  show ?thesis by (simp add: lane_ok_def)
qed


text \<open>How a turn goes: no connection, or a request on it and one of four ends.\<close>

inductive turn_end ::
  "requestLane \<Rightarrow> world \<Rightarrow> 'r turn \<Rightarrow> requestLane \<Rightarrow> world \<Rightarrow> bool" where
  failed: "ln_pc l = Some p \<Longrightarrow> turn_failed fail reused e l w = (t, l', w') \<Longrightarrow> turn_end l w t l' w'"
| dropped: "ln_pc l = Some p \<Longrightarrow> discardLocked l w = (l', w') \<Longrightarrow> turn_end l w (Return r) l' w'"
| kept: "ln_pc l = Some p \<Longrightarrow> closeAfterLocked
      (l\<lparr>ln_pc := Some (p\<lparr>pc_conn := c, pc_requests := pc_requests p + 1\<rparr>)\<rparr>) w = (l', w')
    \<Longrightarrow> turn_end l w (Return r) l' w'"

lemma turn_end_step:
  assumes "lane_own l w" and "turn_end l w t l' w'"
  shows "lane_ok l' w' \<and> lane_step l w l' w' \<and> requests w' = requests w
    \<and> (\<forall>e. t = Continue e \<longrightarrow> \<not> chain_timeout e \<and> ln_pc l' = None)"
  using assms(2)
proof cases
  case (failed p fail reused e)
  with turn_failed_step [OF assms(1) failed(2)] show ?thesis by simp
next
  case (dropped p r)
  with discardLocked_step [OF assms(1) dropped(3)] show ?thesis by (simp add: lane_ok_def)
next
  case (kept p c r)
  from assms(1) kept(2) have "0 \<le> pc_requests p" by (auto simp: lane_own_def)
  with finish_step [OF assms(1) kept(2) _ kept(3)] kept(1) show ?thesis by simp
qed

text \<open>The two shapes of a turn, from which the contract follows for every method at once.\<close>

lemma turn_contract:
  assumes "lane_ok l w" and "ensureLocked l w = (r0, l1, w1)"
    and "r0 = None \<Longrightarrow> turn_end l1 (log_event (Requested (pc_id (the (ln_pc l1))) m q b) w1) t l' w'"
    and "\<And>e. r0 = Some e \<Longrightarrow> l' = l1 \<and> w' = w1 \<and> (\<forall>x. t = Continue x \<longrightarrow> \<not> chain_timeout x)"
  shows "lane_ok l' w' \<and> lane_step l w l' w' \<and> (requests w' = requests w \<or> requests w' = (m, q, b) # requests w)
    \<and> (\<forall>e. t = Continue e \<longrightarrow> \<not> chain_timeout e \<and> ln_pc l' = None)"
proof (cases r0)
  case (Some e)
  with assms(4) [OF Some] ensureLocked_step [OF assms(1,2)] show ?thesis by (auto simp: lane_ok_def)
next
  case None
  note en = ensureLocked_step [OF assms(1,2)]
  with None obtain p where p: "ln_pc l1 = Some p" and own: "lane_own l1 w1" by auto
  from assms(3) [OF None] p
  have te: "turn_end l1 (log_event (Requested (pc_id p) m q b) w1) t l' w'" by simp
  let ?w = "log_event (Requested (pc_id p) m q b) w1"
  from own_requested [OF own p] have rq: "lane_own l1 ?w" "lane_step l1 w1 l1 ?w" by simp_all
  note st = turn_end_step [OF rq(1) te]
  have "lane_step l w l' w'" using en rq(2) st by (blast intro: lane_step_trans)
  with st en show ?thesis by simp
qed

lemma single_turn_contract:
  assumes "lane_ok l w" and "single_turn mode sid seq payload l w = (t, l', w')"
  shows "lane_ok l' w' \<and> lane_step l w l' w' \<and> (requests w' = requests w \<or> requests w' = (mode, seq, payload) # requests w)
    \<and> (\<forall>e. t = Continue e \<longrightarrow> \<not> chain_timeout e \<and> ln_pc l' = None)"
proof -
  obtain r0 l1 w1 where en: "ensureLocked l w = (r0, l1, w1)" by (cases "ensureLocked l w") auto
  show ?thesis
  proof (rule turn_contract [OF assms(1) en])
    assume r: "r0 = None"
    with ensureLocked_step [OF assms(1) en] obtain p where p: "ln_pc l1 = Some p" by auto
    let ?w = "log_event (Requested (pc_id p) mode seq payload) w1"
    have "turn_end l1 ?w t l' w'"
    proof (cases "WriteRequestProfileEncoding (pc_conn p) mode sid seq payload (ln_headerMask l1) (cp_clear (ln_profile l1))")
      case wr: (Pair a c)
      show ?thesis
      proof (cases a)
        case (Some e)
        with wr en r p assms(2) have "turn_failed Inl (pc_requests p > 0) e l1 ?w = (t, l', w')"
          by (simp add: single_turn_def Let_def)
        with p show ?thesis by (rule turn_end.failed)
      next
        case None
        show ?thesis
        proof (cases "ReadResponseProfile (c_in c) (ln_headerMask l1)")
          case (Inl e)
          with None wr en r p assms(2) have "turn_failed Inl (pc_requests p > 0) e l1 ?w = (t, l', w')"
            by (simp add: single_turn_def Let_def)
          with p show ?thesis by (rule turn_end.failed)
        next
          case (Inr v)
          with None wr en r p assms(2) show ?thesis
            by (cases v) (auto simp: single_turn_def Let_def split: prod.splits intro!: turn_end.kept)
        qed
      qed
    qed
    with p show "turn_end l1 (log_event (Requested (pc_id (the (ln_pc l1))) mode seq payload) w1) t l' w'"
      by simp
  next
    fix e assume "r0 = Some e"
    with en assms(2) show "l' = l1 \<and> w' = w1 \<and> (\<forall>x. t = Continue x \<longrightarrow> \<not> chain_timeout x)"
      by (auto simp: single_turn_def split: if_splits)
  qed
qed

interpretation single_lane: lane_turn "single_turn mode sid seq payload" "(mode, seq, payload)"
  for mode sid seq payload
  by unfold_locales (use single_turn_contract in \<open>blast+\<close>)

lemma download_turn_contract:
  assumes "lane_ok l w" and "download_turn sid so ao mc cnt l w = (t, l', w')"
  shows "lane_ok l' w' \<and> lane_step l w l' w' \<and> (requests w' = requests w \<or> requests w' = (ModeDownload, so, download_payload ao mc cnt) # requests w)
    \<and> (\<forall>e. t = Continue e \<longrightarrow> \<not> chain_timeout e \<and> ln_pc l' = None)"
proof -
  obtain r0 l1 w1 where en: "ensureLocked l w = (r0, l1, w1)" by (cases "ensureLocked l w") auto
  show ?thesis
  proof (rule turn_contract [OF assms(1) en])
    assume r: "r0 = None"
    with ensureLocked_step [OF assms(1) en] obtain p where p: "ln_pc l1 = Some p" by auto
    let ?pl = "download_payload ao mc cnt"
    let ?w = "log_event (Requested (pc_id p) ModeDownload so ?pl) w1"
    have "turn_end l1 ?w t l' w'"
    proof (cases "WriteRequestProfileEncoding (pc_conn p) ModeDownload sid so ?pl (ln_headerMask l1) (cp_clear (ln_profile l1))")
      case wr: (Pair a c)
      show ?thesis
      proof (cases a)
        case (Some e)
        with wr en r p assms(2) have "turn_failed (\<lambda>e. ([], 0, Some e)) (pc_requests p > 0) e l1 ?w = (t, l', w')"
          by (simp add: download_turn_def Let_def)
        with p show ?thesis by (rule turn_end.failed)
      next
        case None
        show ?thesis
        proof (cases "read_batch (ln_headerMask l1) (cp_clear (ln_profile l1)) sid (nat cnt) (c_in c) [] so StatusOK")
          case (BatchBroken e)
          with None wr en r p assms(2)
          have "turn_failed (\<lambda>e. ([], 0, Some e)) (pc_requests p > 0) e l1 ?w = (t, l', w')"
            by (simp add: download_turn_def Let_def)
          with p show ?thesis by (rule turn_end.failed)
        next
          case (BatchDiscard out st e)
          with None wr en r p assms(2) show ?thesis
            by (auto simp: download_turn_def Let_def split: prod.splits intro!: turn_end.dropped)
        next
          case (BatchDone out st s)
          with None wr en r p assms(2) show ?thesis
            by (auto simp: download_turn_def Let_def split: prod.splits intro!: turn_end.kept)
        qed
      qed
    qed
    with p show "turn_end l1 (log_event (Requested (pc_id (the (ln_pc l1))) ModeDownload so (download_payload ao mc cnt)) w1) t l' w'"
      by simp
  next
    fix e assume "r0 = Some e"
    with en assms(2) show "l' = l1 \<and> w' = w1 \<and> (\<forall>x. t = Continue x \<longrightarrow> \<not> chain_timeout x)"
      by (auto simp: download_turn_def split: if_splits)
  qed
qed

interpretation download_lane: lane_turn "download_turn sid so ao mc cnt"
    "(ModeDownload, so, download_payload ao mc cnt)"
  for sid so ao mc cnt
  by unfold_locales (use download_turn_contract in \<open>blast+\<close>)

lemma lane_ok_new: "world_ok w \<Longrightarrow> lane_ok (newRequestLane a b re t hm p) w"
  by (simp add: lane_ok_def lane_own_def quota_def newRequestLane_def Let_def owned_def)

section \<open>Histories of a lane\<close>

datatype lane_op =
    OpSingle byte session_id u64 bytes
  | OpDownload session_id u64 u64 int int
  | OpClose

fun lane_do :: "lane_op \<Rightarrow> requestLane \<times> world \<Rightarrow> requestLane \<times> world" where
  "lane_do (OpSingle m s q p) (l, w) = snd (single m s q p l w)"
| "lane_do (OpDownload s so ao mc cnt) (l, w) = snd (download s so ao mc cnt l w)"
| "lane_do OpClose (l, w) = closeLane l w"

definition lane_run :: "lane_op list \<Rightarrow> requestLane \<times> world \<Rightarrow> requestLane \<times> world" where
  "lane_run ops st = foldl (\<lambda>st op. lane_do op st) st ops"

lemma single_keeps:
  "lane_ok l w \<Longrightarrow> single m s q p l w = (r, l', w') \<Longrightarrow>
   lane_ok l' w' \<and> lane_step l w l' w' \<and> sends w' \<le> sends w + 2
   \<and> (\<exists>k \<le> 2. requests w' = replicate k (m, q, p) @ requests w)"
  unfolding single_def by (rule single_lane.attempts_all)

lemma download_keeps:
  "lane_ok l w \<Longrightarrow> download s so ao mc cnt l w = (r, l', w') \<Longrightarrow>
   lane_ok l' w' \<and> lane_step l w l' w' \<and> sends w' \<le> sends w + 2
   \<and> (\<exists>k \<le> 2. requests w' = replicate k (ModeDownload, so, download_payload ao mc cnt) @ requests w)"
  unfolding download_def by (rule download_lane.attempts_all)

text \<open>What any operation, closing included, keeps.\<close>

definition lane_trace :: "requestLane \<Rightarrow> world \<Rightarrow> requestLane \<Rightarrow> world \<Rightarrow> bool" where
  "lane_trace l w l' w' \<longleftrightarrow> lane_ok l' w'
     \<and> live (w_log w') - owned l' = live (w_log w) - owned l
     \<and> ln_auto l' = ln_auto l
     \<and> (ln_reconnectEvery l' = ln_reconnectEvery l \<or> ln_auto l \<and> ln_reconnectEvery l' = 1)
     \<and> (ln_closed l \<longrightarrow> ln_closed l')"

lemma lane_do_trace:
  assumes "lane_ok l w" and "lane_do op (l, w) = (l', w')"
  shows "lane_trace l w l' w'"
proof (cases op)
  case (OpSingle m s q p)
  then show ?thesis using assms single_keeps [OF assms(1)]
    by (cases "single m s q p l w") (auto simp: lane_trace_def lane_step_def)
next
  case (OpDownload s so ao mc cnt)
  then show ?thesis using assms download_keeps [OF assms(1)]
    by (cases "download s so ao mc cnt l w") (auto simp: lane_trace_def lane_step_def)
next
  case OpClose
  with assms(2) have "closeLane l w = (l', w')" by simp
  from closeLane_step [OF assms(1) this] show ?thesis by (simp add: lane_trace_def)
qed

lemma lane_run_trace:
  "lane_ok l w \<Longrightarrow> lane_run ops (l, w) = (l', w') \<Longrightarrow> lane_trace l w l' w'"
proof (induction ops arbitrary: l w)
  case Nil
  then show ?case by (simp add: lane_run_def lane_trace_def)
next
  case (Cons op ops)
  obtain l1 w1 where s: "lane_do op (l, w) = (l1, w1)" by fastforce
  with Cons.prems have "lane_run ops (l1, w1) = (l', w')" by (simp add: lane_run_def)
  with lane_do_trace [OF Cons.prems(1) s] Cons.IH [of l1 w1] show ?case
    by (auto simp: lane_trace_def)
qed

section \<open>An exchange on a connection that works\<close>

lemma single_on_open:
  assumes "lane_ok l w" and "ln_pc l = Some p"
  shows "single_turn m s q b l w =
    (case WriteRequestProfileEncoding (pc_conn p) m s q b (ln_headerMask l) (cp_clear (ln_profile l)) of
       (Some e, c) \<Rightarrow> turn_failed Inl True e l (log_event (Requested (pc_id p) m q b) w)
     | (None, c) \<Rightarrow>
       (case ReadResponseProfile (c_in c) (ln_headerMask l) of
          Inl e \<Rightarrow> turn_failed Inl True e l (log_event (Requested (pc_id p) m q b) w)
        | Inr ((status, body), str) \<Rightarrow>
          (case closeAfterLocked (l\<lparr>ln_pc := Some (p\<lparr>pc_conn := c\<lparr>c_in := str\<rparr>, pc_requests := pc_requests p + 1\<rparr>)\<rparr>)
              (log_event (Requested (pc_id p) m q b) w) of (l', w') \<Rightarrow>
           (Return (Inr (status, if status \<noteq> StatusError \<and> body \<noteq> [] \<and> \<not> cp_clear (ln_profile l)
              then DecodeMaskedResponse status body s m q else body)), l', w'))))"
proof -
  have r: "(0 < pc_requests p) = True" using assms by (auto simp: lane_ok_def quota_def)
  show ?thesis
    by (simp only: single_turn_def Let_def ensureLocked_keeps [OF assms] assms(2) option.sel r
        prod.case option.case case_prod_unfold fst_conv snd_conv)
qed

lemma WriteRequest_in:
  "WriteRequestProfileEncoding c m s q b hm clear = (e, c') \<Longrightarrow> c_in c' = c_in c"
  by (auto simp: WriteRequestProfileEncoding_def Let_def split: if_splits
      dest: buffersWriteTo_in writeAll_in)

lemma WriteRequest_pair:
  assumes "accepting c" and "length b \<le> MaxPayload"
  obtains c' where "WriteRequestProfileEncoding c m s q b hm clear = (None, c')"
    "c_out c' = c_out c @ request_frame hm clear \<lparr>rq_mode = m, rq_session = s, rq_seq = q, rq_payload = b\<rparr>"
    "c_in c' = c_in c"
proof -
  obtain e c' where r: "WriteRequestProfileEncoding c m s q b hm clear = (e, c')" by fastforce
  with WriteRequest_accepting [OF assms, of m s q hm clear] WriteRequest_in [OF r] that show thesis
    by simp
qed

lemma turn_failed_open:
  assumes "ln_pc l = Some p"
  shows "turn_failed fail reused e l w =
    ((if chain_timeout e then Return (fail e) else Continue e),
     (if ln_auto l \<and> reused then l\<lparr>ln_reconnectEvery := 1, ln_pc := None\<rparr> else l\<lparr>ln_pc := None\<rparr>),
     log_event (Closed (pc_id p)) w)"
  using assms by (simp add: turn_failed_def transportFailureLocked_def discardLocked_def)

section \<open>Properties\<close>

text \<open>C7: A lane never leaks a physical connection and never touches another's: after any
  sequence of requests, downloads and closing, whatever the network did, the connections open
  in the world are those that were open before plus at most the lane's own current one, which
  a closed lane does not have; and every request went out on a connection open at that time.\<close>

theorem lane_never_leaks:
  assumes "world_ok w" and "lane_run ops (newRequestLane addr buf every tmo hm prof, w) = (l', w')"
  shows "live (w_log w') = live (w_log w) \<union> owned l' \<and> (ln_closed l' \<longrightarrow> owned l' = {})
    \<and> owned l' \<inter> live (w_log w) = {} \<and> log_ok (w_log w')"
proof -
  let ?l = "newRequestLane addr buf every tmo hm prof"
  have ok: "lane_ok ?l w" and pc: "ln_pc ?l = None"
    using lane_ok_new [OF assms(1)] by (simp_all add: newRequestLane_def Let_def)
  have tr: "lane_trace ?l w l' w'" by (rule lane_run_trace [OF ok assms(2)])
  then have "live (w_log w') - owned l' = live (w_log w)" "owned l' \<subseteq> live (w_log w')"
    using pc by (auto simp: lane_trace_def lane_ok_def lane_own_def)
  with tr show ?thesis by (auto simp: lane_trace_def lane_ok_def lane_own_def world_ok_def)
qed

definition silent_world :: world where
  "silent_world = \<lparr>w_dials = \<lambda>k. if k = 0 then Inl (NetErr False ''refused'')
       else Inr (open_conn\<lparr>c_in := ([], NetErr True ''i/o timeout'')\<rparr>),
     w_dialed = 0, w_rngs = \<lambda>_. (\<lambda>_. 0, None), w_rngn = 0, w_log = [], w_probeSeq = 0, w_requestCounter = 0\<rparr>"

lemma silent_world_ok [simp]: "world_ok silent_world"
  by (simp add: world_ok_def silent_world_def)

theorem lane_never_leaks_witness:
  "\<exists>l' w'. lane_run [OpSingle ModeProbe (sid_of []) 1 [], OpClose]
      (newRequestLane ''server:53'' 0 1 0 0x80 zero_profile, silent_world) = (l', w')
    \<and> live (w_log w') = owned l' \<and> log_ok (w_log w')"
proof -
  obtain l' w' where r: "lane_run [OpSingle ModeProbe (sid_of []) 1 [], OpClose]
      (newRequestLane ''server:53'' 0 1 0 0x80 zero_profile, silent_world) = (l', w')" by fastforce
  from lane_never_leaks [OF silent_world_ok r] r show ?thesis
    by (auto simp: silent_world_def)
qed




definition waiting_pc :: physicalConn where
  "waiting_pc = \<lparr>pc_id = 0, pc_conn = open_conn\<lparr>c_in := ([3], NetErr True ''i/o timeout'')\<rparr>, pc_requests = 4\<rparr>"

definition waiting_world :: world where
  "waiting_world = silent_world\<lparr>w_dialed := 1, w_log := [Dialed 0]\<rparr>"

definition waiting_lane :: requestLane where
  "waiting_lane = (newRequestLane ''s'' 0 1 0 0 zero_profile)\<lparr>ln_pc := Some waiting_pc\<rparr>"

lemma waiting_ok: "lane_ok waiting_lane waiting_world"
  by (simp add: lane_ok_def lane_own_def quota_def world_ok_def waiting_lane_def waiting_world_def
      waiting_pc_def silent_world_def newRequestLane_def Let_def)


text \<open>On a connection that carries the exchange, \<^verbatim>\<open>single\<close> puts exactly one
  request frame on the wire and returns the status and plaintext body of the server's response
  to it, and keeps the connection with the rest of its stream unless it is due for rotation.\<close>

theorem single_exchange:
  assumes "lane_ok l w" and "ln_pc l = Some p" and "accepting (pc_conn p)" and "length b \<le> MaxPayload"
    and "st \<le> StatusEOF" and "st \<noteq> StatusError" and "length body \<le> MaxPayload"
    and "c_in (pc_conn p) = (response_frame (ln_headerMask l)
           (st, wire_payload (cp_clear (ln_profile l)) sid m q True body) @ r, e)"
    and "single m sid q b l w = (res, l', w')"
  shows "res = Inr (st, body) \<and> sends w' = Suc (sends w) \<and> w_dialed w' = w_dialed w \<and>
    (if 0 < ln_reconnectEvery l \<and> ln_reconnectEvery l \<le> pc_requests p + 1 then ln_pc l' = None
     else \<exists>p'. ln_pc l' = Some p' \<and> pc_id p' = pc_id p \<and> pc_requests p' = pc_requests p + 1
       \<and> c_in (pc_conn p') = (r, e)
       \<and> c_out (pc_conn p') = c_out (pc_conn p) @ request_frame (ln_headerMask l) (cp_clear (ln_profile l))
           \<lparr>rq_mode = m, rq_session = sid, rq_seq = q, rq_payload = b\<rparr>)"
proof -
  let ?clear = "cp_clear (ln_profile l)" and ?hm = "ln_headerMask l"
  let ?wb = "wire_payload ?clear sid m q True body"
  obtain c where c: "WriteRequestProfileEncoding (pc_conn p) m sid q b ?hm ?clear = (None, c)"
    "c_out c = c_out (pc_conn p) @ request_frame ?hm ?clear \<lparr>rq_mode = m, rq_session = sid, rq_seq = q, rq_payload = b\<rparr>"
    "c_in c = c_in (pc_conn p)" by (rule WriteRequest_pair [OF assms(3,4)])
  have "response_ok (st, ?wb)" using assms(5,7) by (simp add: response_ok_def)
  from response_lp.dec_whole [OF this]
  have rd: "ReadResponseProfile (c_in (pc_conn p)) ?hm = Inr ((st, ?wb), (r, e))"
    by (simp add: assms(8) response_whole)
  have body: "(if st \<noteq> StatusError \<and> ?wb \<noteq> [] \<and> \<not> ?clear then DecodeMaskedResponse st ?wb sid m q else ?wb) = body"
    using assms(6) by (auto simp: wire_payload_def DecodeMaskedResponse_def dest: arg_cong [where f = length])
  let ?w = "log_event (Requested (pc_id p) m q b) w"
  let ?p = "p\<lparr>pc_conn := c\<lparr>c_in := (r, e)\<rparr>, pc_requests := pc_requests p + 1\<rparr>"
  have eq: "single m sid q b l w =
      (case closeAfterLocked (l\<lparr>ln_pc := Some ?p\<rparr>) ?w of (l, w) \<Rightarrow> (Inr (st, body), l, w))"
    unfolding single_def numeral_2_eq_2 attempts.simps single_on_open [OF assms(1,2)]
    by (simp only: c(1,3) rd prod.case option.case sum.case body turn.case case_prod_unfold fst_conv snd_conv)
  show ?thesis
    using assms(9) unfolding eq closeAfterLocked_def discardLocked_def
    by (auto simp: c(2) split: if_splits)
qed

theorem single_exchange_witness:
  "\<exists>l' w'. single ModeProbe (sid_of []) 3 [9]
      (waiting_lane\<lparr>ln_pc := Some (waiting_pc\<lparr>pc_conn := open_conn\<lparr>c_in := (response_frame 0 (StatusOK, wire_payload False (sid_of []) ModeProbe 3 True []) @ [], EOF)\<rparr>\<rparr>)\<rparr>)
      waiting_world = (Inr (StatusOK, []), l', w')"
proof -
  let ?p = "waiting_pc\<lparr>pc_conn := open_conn\<lparr>c_in := (response_frame 0 (StatusOK, wire_payload False (sid_of []) ModeProbe 3 True []) @ [], EOF)\<rparr>\<rparr>"
  let ?l = "waiting_lane\<lparr>ln_pc := Some ?p\<rparr>"
  have ok: "lane_ok ?l waiting_world"
    by (simp add: lane_ok_def lane_own_def quota_def world_ok_def waiting_lane_def waiting_world_def
      waiting_pc_def silent_world_def newRequestLane_def Let_def)
  obtain res l' w' where r: "single ModeProbe (sid_of []) 3 [9] ?l waiting_world = (res, l', w')"
    by (cases "single ModeProbe (sid_of []) 3 [9] ?l waiting_world") auto
  have "res = Inr (StatusOK, [])"
    using single_exchange [OF ok _ _ _ _ _ _ _ r, of ?p StatusOK "[]" "[]" EOF]
    by (simp add: status_defs MaxPayload_def waiting_lane_def newRequestLane_def Let_def zero_profile_def)
  with r show ?thesis by auto
qed

text \<open>The server's DATA records for consecutive parts of the download, each masked at its own offset.\<close>

fun served :: "byte \<Rightarrow> bool \<Rightarrow> session_id \<Rightarrow> u64 \<Rightarrow> bytes list \<Rightarrow> bytes" where
  "served hm clear sid offset [] = []"
| "served hm clear sid offset (d # ds) =
     response_frame hm (StatusData, wire_payload clear sid ModeDownload offset True d)
     @ served hm clear sid (offset + word_of_nat (length d)) ds"

lemma read_batch_served:
  assumes "\<forall>d \<in> set ds. d \<noteq> [] \<and> length d \<le> MaxPayload" and "length ds \<le> n"
  shows "\<exists>off. read_batch hm clear sid n (served hm clear sid offset ds @ r, e) out offset st =
    read_batch hm clear sid (n - length ds) (r, e) (out @ ds) off (if ds = [] then st else StatusData)"
  using assms
proof (induction ds arbitrary: n offset out st)
  case (Cons d ds)
  then obtain k where n: "n = Suc k" by (cases n) auto
  let ?wd = "wire_payload clear sid ModeDownload offset True d"
  have "response_ok (StatusData, ?wd)" using Cons.prems by (simp add: response_ok_def status_defs)
  from response_lp.dec_whole [OF this]
  have rd: "ReadResponseProfile (response_frame hm (StatusData, ?wd) @ x, e) hm = Inr ((StatusData, ?wd), (x, e))" for x
    by (simp add: response_whole)
  have dd: "(if clear then ?wd else DecodeMaskedResponse StatusData ?wd sid ModeDownload offset) = d"
    by (auto simp: wire_payload_def DecodeMaskedResponse_def status_defs dest: arg_cong [where f = length])
  have ne: "d \<noteq> []" using Cons.prems by simp
  have "read_batch hm clear sid n (served hm clear sid offset (d # ds) @ r, e) out offset st =
    read_batch hm clear sid k (served hm clear sid (offset + word_of_nat (length d)) ds @ r, e) (out @ [d])
      (offset + word_of_nat (length d)) StatusData"
    by (simp only: n served.simps append_assoc read_batch.simps rd sum.case prod.case Let_def dd ne simp_thms if_True if_False)
  with Cons.IH [of k "offset + word_of_nat (length d)" "out @ [d]" StatusData] Cons.prems n
  show ?case by simp
qed auto

text \<open>C9: A download delivers what the server sent, in order and nothing else: for a batch of
  non-empty DATA records, each masked at the offset the previous ones reach, closed by WAIT or
  EOF or by the batch being full, \<^verbatim>\<open>download\<close> returns exactly the parts and the last
  status.\<close>

theorem download_in_order:
  assumes "lane_ok l w" and "ln_pc l = Some p" and "accepting (pc_conn p)"
    and "\<forall>d \<in> set parts. d \<noteq> [] \<and> length d \<le> MaxPayload"
    and "if int (length parts) < cnt then st \<in> {StatusWait, StatusEOF} \<and> stop = response_frame (ln_headerMask l) (st, [])
         else int (length parts) = cnt \<and> stop = [] \<and> (parts \<noteq> [] \<and> st = StatusData \<or> parts = [] \<and> st = StatusOK)"
    and "c_in (pc_conn p) = (served (ln_headerMask l) (cp_clear (ln_profile l)) sid so parts @ stop @ r, e)"
  shows "fst (download sid so ao mc cnt l w) = (parts, st, None)"
proof -
  let ?clear = "cp_clear (ln_profile l)" and ?hm = "ln_headerMask l"
  have "length (download_payload ao mc cnt) \<le> MaxPayload" by (simp add: download_payload_def MaxPayload_def)
  then obtain c where c: "WriteRequestProfileEncoding (pc_conn p) ModeDownload sid so (download_payload ao mc cnt)
      ?hm ?clear = (None, c)" "c_in c = c_in (pc_conn p)" by (rule WriteRequest_pair [OF assms(3)])
  have len: "length parts \<le> nat cnt" using assms(5) by (auto split: if_splits)
  from read_batch_served [OF assms(4) len, of ?hm ?clear sid so "stop @ r" e "[]" StatusOK]
  obtain off where rb: "read_batch ?hm ?clear sid (nat cnt) (c_in (pc_conn p)) [] so StatusOK =
    read_batch ?hm ?clear sid (nat cnt - length parts) (stop @ r, e) parts off (if parts = [] then StatusOK else StatusData)"
    by (auto simp: assms(6))
  have "\<exists>s. read_batch ?hm ?clear sid (nat cnt) (c_in (pc_conn p)) [] so StatusOK = BatchDone parts st s"
  proof (cases "int (length parts) < cnt")
    case True
    then obtain k where k: "nat cnt - length parts = Suc k"
      by (metis Suc_diff_Suc nat_less_iff of_nat_0_le_iff zless_nat_eq_int_zless)
    from True assms(5) have st: "st \<in> {StatusWait, StatusEOF}" "stop = response_frame ?hm (st, [])" by auto
    have "response_ok (st, [])" using st by (auto simp: response_ok_def status_defs)
    from response_lp.dec_whole [OF this, of ?hm r e] st
    have "ReadResponseProfile (stop @ r, e) ?hm = Inr ((st, []), (r, e))" by (simp add: response_whole)
    with rb k st show ?thesis by (auto simp: status_defs)
  next
    case False
    with assms(5) have "nat cnt - length parts = 0" by auto
    with rb False assms(5) show ?thesis by (auto split: if_splits)
  qed
  then obtain s where "read_batch ?hm ?clear sid (nat cnt) (c_in (pc_conn p)) [] so StatusOK = BatchDone parts st s" ..
  with c show ?thesis
    by (simp add: download_def numeral_2_eq_2 download_turn_def Let_def ensureLocked_keeps [OF assms(1,2)]
        assms(2) split: prod.split)
qed

theorem download_in_order_witness:
  "fst (download (sid_of []) 5 0 32 4
      (waiting_lane\<lparr>ln_pc := Some (waiting_pc\<lparr>pc_conn := open_conn\<lparr>c_in :=
         (served 0 False (sid_of []) 5 [[1, 2], [3]] @ response_frame 0 (StatusWait, []) @ [], EOF)\<rparr>\<rparr>)\<rparr>) waiting_world)
    = ([[1, 2], [3]], StatusWait, None)"
proof -
  let ?p = "waiting_pc\<lparr>pc_conn := open_conn\<lparr>c_in :=
         (served 0 False (sid_of []) 5 [[1, 2], [3]] @ response_frame 0 (StatusWait, []) @ [], EOF)\<rparr>\<rparr>"
  let ?l = "waiting_lane\<lparr>ln_pc := Some ?p\<rparr>"
  have ok: "lane_ok ?l waiting_world"
    by (simp add: lane_ok_def lane_own_def quota_def world_ok_def waiting_lane_def waiting_world_def
      waiting_pc_def silent_world_def newRequestLane_def Let_def)
  show ?thesis
    by (rule download_in_order [OF ok, where p = ?p and stop = "response_frame 0 (StatusWait, [])" and r = "[]" and e = EOF])
      (simp_all add: status_defs MaxPayload_def waiting_lane_def newRequestLane_def Let_def zero_profile_def
        del: served.simps)
qed

text \<open>The rotation setting is respected in every history: a lane set to rotate after N
  requests never keeps a connection that served N, a persistent lane stays persistent, and a
  lane on automatic is persistent until it learns, after which it keeps no connection at all
  between requests.\<close>

theorem lane_rotation:
  assumes "world_ok w" and "lane_run ops (newRequestLane addr buf every tmo hm prof, w) = (l', w')"
  shows "(every \<noteq> 1 \<longrightarrow> ln_reconnectEvery l' = every) \<and>
    (every = 1 \<longrightarrow> ln_reconnectEvery l' = 0 \<or> ln_reconnectEvery l' = 1 \<and> ln_pc l' = None) \<and>
    (1 < every \<longrightarrow> (\<forall>p. ln_pc l' = Some p \<longrightarrow> pc_requests p < every))"
proof -
  let ?l = "newRequestLane addr buf every tmo hm prof"
  have "lane_trace ?l w l' w'" by (rule lane_run_trace [OF lane_ok_new [OF assms(1)] assms(2)])
  moreover have "ln_reconnectEvery ?l = (if every = 1 then 0 else every)" "ln_auto ?l = (every = 1)"
    by (simp_all add: newRequestLane_def Let_def)
  moreover have "ln_pc l' = None" if "quota l'" "ln_reconnectEvery l' = 1"
    using that by (cases "ln_pc l'") (auto simp: quota_def)
  ultimately show ?thesis by (auto simp: lane_trace_def lane_ok_def quota_def split: if_splits)
qed

theorem lane_rotation_witness:
  "\<exists>l' w'. lane_run [OpSingle ModeProbe (sid_of []) 1 []] (newRequestLane ''s'' 0 1 0 0 zero_profile, silent_world) = (l', w')
    \<and> (ln_reconnectEvery l' = 0 \<or> ln_reconnectEvery l' = 1 \<and> ln_pc l' = None)"
proof -
  obtain l' w' where "lane_run [OpSingle ModeProbe (sid_of []) 1 []]
    (newRequestLane ''s'' 0 1 0 0 zero_profile, silent_world) = (l', w')" by fastforce
  with lane_rotation [OF silent_world_ok this] show ?thesis by auto
qed

lemma fresh_turn:
  assumes "lane_ok l w" and "ln_pc l = None" and "single_turn m s q b l w = (t, l', w')"
  shows "ln_reconnectEvery l' = ln_reconnectEvery l"
proof -
  obtain r0 l1 w1 where en: "ensureLocked l w = (r0, l1, w1)" by (cases "ensureLocked l w") auto
  have re: "ln_reconnectEvery l1 = ln_reconnectEvery l" using ensureLocked_step [OF assms(1) en] by simp
  show ?thesis
  proof (cases r0)
    case (Some e)
    with en assms(3) re show ?thesis by (simp add: single_turn_def)
  next
    case None
    have opn: "\<not> ln_closed l" using None en by (auto simp: ensureLocked_def)
    have "dialLane l w = (None, l1, w1)" using opn assms(2) None en by (simp add: ensureLocked_def)
    from dialLane_step [OF _ assms(2) opn this] assms(1) obtain p where p: "ln_pc l1 = Some p" "pc_requests p = 0"
      by (auto simp: lane_ok_def)
    from en None p assms(3) re show ?thesis
      by (auto simp: single_turn_def Let_def turn_failed_def transportFailureLocked_def discardLocked_def
          closeAfterLocked_def split: prod.splits option.splits sum.splits if_splits)
  qed
qed

text \<open>A lane on automatic learns from reuse only: a failed answer on a connection that had
  already served a request makes it rotate after every request from then on, while failures on
  fresh connections, as many as the request takes, teach it nothing.\<close>

theorem lane_learns_from_reuse:
  assumes "lane_ok l w" and "ln_auto l" and "ln_reconnectEvery l = 0"
    and "single m s q b l w = (res, l', w')"
  shows "(ln_pc l = None \<longrightarrow> ln_reconnectEvery l' = 0) \<and>
    (\<forall>p e. ln_pc l = Some p \<and> accepting (pc_conn p) \<and> length b \<le> MaxPayload \<and>
       ReadResponseProfile (c_in (pc_conn p)) (ln_headerMask l) = Inl e \<longrightarrow>
       ln_reconnectEvery l' = 1)"
proof (intro conjI impI allI)
  assume none: "ln_pc l = None"
  obtain t l1 w1 where t: "single_turn m s q b l w = (t, l1, w1)" by (cases "single_turn m s q b l w") auto
  note k1 = single_lane.turn_keeps [OF assms(1) t] fresh_turn [OF assms(1) none t]
  show "ln_reconnectEvery l' = 0"
  proof (cases t)
    case (Return x)
    with t k1 assms(3,4) show ?thesis by (simp add: single_def numeral_2_eq_2)
  next
    case (Continue e)
    obtain t2 l2 w2 where t2: "single_turn m s q b l1 w1 = (t2, l2, w2)" by (cases "single_turn m s q b l1 w1") auto
    from single_lane.turn_continue [OF assms(1)] t Continue have "ln_pc l1 = None" by blast
    from fresh_turn [OF _ this t2] k1 have "ln_reconnectEvery l2 = 0" using assms(3) by simp
    moreover have "l' = l2" using t t2 Continue assms(4)
      by (cases t2) (simp_all add: single_def numeral_2_eq_2)
    ultimately show ?thesis by simp
  qed
next
  fix p e
  assume h: "ln_pc l = Some p \<and> accepting (pc_conn p) \<and> length b \<le> MaxPayload \<and>
       ReadResponseProfile (c_in (pc_conn p)) (ln_headerMask l) = Inl e"
  then have p: "ln_pc l = Some p" by simp
  obtain c where c: "WriteRequestProfileEncoding (pc_conn p) m s q b (ln_headerMask l) (cp_clear (ln_profile l)) = (None, c)"
    "c_in c = c_in (pc_conn p)" using h by (blast elim: WriteRequest_pair)
  obtain t l1 w1 where t: "single_turn m s q b l w = (t, l1, w1)" by (cases "single_turn m s q b l w") auto
  then have one: "ln_reconnectEvery l1 = 1"
    using c h assms(2) by (auto simp: single_on_open [OF assms(1) p] turn_failed_open [OF p])
  note k = single_lane.turn_keeps [OF assms(1) t]
  show "ln_reconnectEvery l' = 1"
  proof (cases t)
    case (Return x)
    with t one assms(4) show ?thesis by (simp add: single_def numeral_2_eq_2)
  next
    case (Continue x)
    with t assms(4) have "attempts (single_turn m s q b)
       (\<lambda>e. Inl (wrap_last ''request failed after reconnect'' e)) 1 (Some x) l1 w1 = (res, l', w')"
      by (simp add: single_def numeral_2_eq_2)
    from single_lane.attempts_keep [OF _ this] k one show ?thesis by (auto simp: lane_step_def)
  qed
qed

theorem lane_learns_from_reuse_witness:
  "\<exists>res l' w'. single ModeUpload (sid_of []) 7 [1] waiting_lane waiting_world = (res, l', w')
    \<and> ln_reconnectEvery l' = 1"
proof -
  obtain res l' w' where r: "single ModeUpload (sid_of []) 7 [1] waiting_lane waiting_world = (res, l', w')"
    by (cases "single ModeUpload (sid_of []) 7 [1] waiting_lane waiting_world") auto
  have l: "ln_auto waiting_lane" "ln_reconnectEvery waiting_lane = 0" "ln_pc waiting_lane = Some waiting_pc"
    "accepting (pc_conn waiting_pc)" "length [1 :: byte] \<le> MaxPayload"
    "ReadResponseProfile (c_in (pc_conn waiting_pc)) (ln_headerMask waiting_lane) = Inl (NetErr True ''i/o timeout'')"
    by (simp_all add: waiting_lane_def waiting_pc_def newRequestLane_def Let_def MaxPayload_def
        ReadResponseProfile_def ResponseHeaderSize_def ReadFull_def)
  with lane_learns_from_reuse [OF waiting_ok l(1,2) r] r show ?thesis by blast
qed

end
