(* ===== verification/Sizer.thy ===== *)
theory Sizer
  imports Cover
begin

text \<open>
  The two adaptive chunk sizers: \<^verbatim>\<open>adaptiveSizer\<close> of \<^verbatim>\<open>chunk.go\<close> (used
  by the \<^verbatim>\<open>b\<close> and \<^verbatim>\<open>bp\<close> transports) and its older copy in
  \<^verbatim>\<open>internal/xorchunk\<close>. Both run every operation under a mutex, so a shared sizer's
  history is a sequence of whole operations, stale ones included. Sizes and counters are Go
  \<^verbatim>\<open>int\<close>s far from their width (at most 1 MiB and small counters): \<open>int\<close>.
\<close>

section \<open>Options of the binary transports\<close>

text \<open>
  Durations are nanoseconds. The fake-iPerf fields of the struct only feed the sustained
  throughput test and its log lines and are left out.
\<close>

record chunkClientOptions =
  startSize :: int
  minSize :: int
  maxSize :: int
  o_adaptive :: bool
  o_adaptSuccesses :: int
  o_shrinkAfter :: int
  o_shrinkStep :: int
  adaptLog :: bool
  pollers :: int
  o_reconnectEvery :: int
  pollDelay :: int
  txnTimeout :: int
  o_tcpBuffer :: int
  o_minPipeline :: int
  o_maxPipeline :: int
  o_headerMask :: byte
  o_coverProfile :: Profile
  skipPathProbe :: bool
  forceMaxStart :: bool

section \<open>The sizer of chunk.go\<close>

record adaptiveSizer =
  sz_name :: string
  sz_current :: int
  sz_min :: int
  sz_max :: int
  sz_adaptive :: bool
  sz_adaptSuccesses :: int
  sz_shrinkAfter :: int
  sz_shrinkStep :: int
  sz_failures :: int
  sz_successes :: int
  sz_good :: int
  sz_bad :: int
  sz_logChanges :: bool

definition newAdaptiveSizer :: "string \<Rightarrow> int \<Rightarrow> chunkClientOptions \<Rightarrow> adaptiveSizer" where
  "newAdaptiveSizer name start0 opts =
     (let start = (if start0 < minSize opts then minSize opts else start0);
          start = (if start > maxSize opts then maxSize opts else start)
      in \<lparr>sz_name = name, sz_current = start, sz_min = minSize opts, sz_max = maxSize opts,
          sz_adaptive = o_adaptive opts,
          sz_adaptSuccesses = (if o_adaptSuccesses opts > 0 then o_adaptSuccesses opts else 64),
          sz_shrinkAfter = (if o_shrinkAfter opts > 0 then o_shrinkAfter opts else 1),
          sz_shrinkStep = o_shrinkStep opts, sz_failures = 0, sz_successes = 0,
          sz_good = 0, sz_bad = 0, sz_logChanges = adaptLog opts\<rparr>)"

definition Current :: "adaptiveSizer \<Rightarrow> int" where
  "Current s = sz_current s"

definition Success :: "adaptiveSizer \<Rightarrow> int \<Rightarrow> adaptiveSizer" where
  "Success s0 attempted =
     (if \<not> sz_adaptive s0 \<or> attempted \<noteq> sz_current s0 then s0
      else
        let s = s0\<lparr>sz_failures := 0\<rparr> in
        if sz_current s \<ge> sz_max s then s
        else
          let s = (if attempted > sz_good s then s\<lparr>sz_good := attempted\<rparr> else s);
              s = s\<lparr>sz_successes := sz_successes s + 1\<rparr>;
              growAfter = (if sz_bad s > 0 \<and> sz_bad s - sz_good s \<le> 64
                           then sz_adaptSuccesses s * 8 else sz_adaptSuccesses s) in
          if sz_successes s < growAfter then s
          else
            let s = s\<lparr>sz_successes := 0\<rparr>;
                old = sz_current s;
                (s, n) = (if sz_bad s > old + 1 then (s, old + (sz_bad s - old) sdiv 2)
                  else ((if sz_bad s > 0 then s\<lparr>sz_bad := 0\<rparr> else s),
                        old + (if old sdiv 4 < 32 then 32 else old sdiv 4)));
                n = (if n > sz_max s then sz_max s else n) in
            if n \<le> old then s else s\<lparr>sz_current := n\<rparr>)"

text \<open>The pair of sizes returned, with the new state. The cause only reaches the log.\<close>

definition FailureReason ::
  "adaptiveSizer \<Rightarrow> int \<Rightarrow> goerr option \<Rightarrow> (int \<times> int) \<times> adaptiveSizer" where
  "FailureReason s0 attempted cause =
     (let old = sz_current s0 in
      if \<not> sz_adaptive s0 \<or> attempted \<noteq> sz_current s0 then ((old, old), s0)
      else
        let s = s0\<lparr>sz_successes := 0, sz_failures := sz_failures s0 + 1\<rparr> in
        if sz_failures s < sz_shrinkAfter s then ((old, old), s)
        else
          let s = s\<lparr>sz_failures := 0\<rparr>;
              s = (if sz_bad s = 0 \<or> attempted < sz_bad s then s\<lparr>sz_bad := attempted\<rparr> else s);
              n = attempted sdiv 2;
              (s, n) = (if sz_shrinkStep s > 0 then (s\<lparr>sz_good := 0\<rparr>, attempted - sz_shrinkStep s)
                else if sz_good s > 0 \<and> sz_good s < attempted then (s, sz_good s)
                else (s\<lparr>sz_good := 0\<rparr>, n));
              n = (if n < sz_min s then sz_min s else n);
              n = (if n \<ge> attempted \<and> attempted > sz_min s then attempted - 1 else n);
              n = (if n < sz_min s then sz_min s else n)
          in ((old, n), s\<lparr>sz_current := n\<rparr>))"

definition Failure :: "adaptiveSizer \<Rightarrow> int \<Rightarrow> (int \<times> int) \<times> adaptiveSizer" where
  "Failure s attempted = FailureReason s attempted None"

section \<open>The sizer of xorchunk\<close>

record xOptions =
  xo_startSize :: int
  xo_minSize :: int
  xo_maxSize :: int
  xo_uploadStartSize :: int
  xo_downloadStartSize :: int
  xo_uploadMaxSize :: int
  xo_downloadMaxSize :: int
  xo_adaptive :: bool
  xo_adaptSuccesses :: int
  xo_shrinkAfter :: int
  xo_adaptLog :: bool
  xo_pollers :: int
  xo_reconnectEvery :: int
  xo_pollDelay :: int
  xo_txnTimeout :: int
  xo_tcpBuffer :: int
  xo_headerMask :: byte
  xo_coverProfile :: Profile

record xSizer =
  xs_name :: string
  xs_current :: int
  xs_min :: int
  xs_max :: int
  xs_adaptive :: bool
  xs_adaptSuccesses :: int
  xs_shrinkAfter :: int
  xs_failures :: int
  xs_successes :: int
  xs_good :: int
  xs_bad :: int
  xs_logChanges :: bool

definition xNewAdaptiveSizer :: "string \<Rightarrow> int \<Rightarrow> int \<Rightarrow> xOptions \<Rightarrow> xSizer" where
  "xNewAdaptiveSizer name start0 ceiling0 opts =
     (let ceiling = (if ceiling0 \<le> 0 \<or> ceiling0 > xo_maxSize opts then xo_maxSize opts else ceiling0);
          ceiling = (if ceiling < xo_minSize opts then xo_minSize opts else ceiling);
          start = (if start0 \<le> 0 then xo_startSize opts else start0);
          start = (if start < xo_minSize opts then xo_minSize opts else start);
          start = (if start > ceiling then ceiling else start)
      in \<lparr>xs_name = name, xs_current = start, xs_min = xo_minSize opts, xs_max = ceiling,
          xs_adaptive = xo_adaptive opts, xs_adaptSuccesses = xo_adaptSuccesses opts,
          xs_shrinkAfter = (if xo_shrinkAfter opts > 0 then xo_shrinkAfter opts else 1),
          xs_failures = 0, xs_successes = 0, xs_good = 0, xs_bad = 0,
          xs_logChanges = xo_adaptLog opts\<rparr>)"

definition xCurrent :: "xSizer \<Rightarrow> int" where
  "xCurrent s = xs_current s"

definition xSuccess :: "xSizer \<Rightarrow> int \<Rightarrow> xSizer" where
  "xSuccess s0 attempted =
     (if \<not> xs_adaptive s0 then s0
      else if attempted \<noteq> xs_current s0 then s0
      else
        let s = s0\<lparr>xs_failures := 0\<rparr> in
        if xs_current s \<ge> xs_max s then s
        else
          let s = (if attempted > xs_good s then s\<lparr>xs_good := attempted\<rparr> else s);
              s = s\<lparr>xs_successes := xs_successes s + 1\<rparr>;
              growAfter = (if xs_bad s > 0 \<and> xs_bad s - xs_good s \<le> 32
                           then xs_adaptSuccesses s * 8 else xs_adaptSuccesses s) in
          if xs_successes s < growAfter then s
          else
            let s = s\<lparr>xs_successes := 0\<rparr>;
                old = xs_current s;
                (s, n) = (if xs_bad s > old + 1 then (s, old + (xs_bad s - old) sdiv 2)
                  else ((if xs_bad s > 0 then s\<lparr>xs_bad := 0\<rparr> else s),
                        old + (if old sdiv 4 < 32 then 32 else old sdiv 4)));
                n = (if n > xs_max s then xs_max s else n) in
            if n \<le> old then s else s\<lparr>xs_current := n\<rparr>)"

definition xFailure :: "xSizer \<Rightarrow> int \<Rightarrow> (int \<times> int) \<times> xSizer" where
  "xFailure s0 attempted =
     (let old = xs_current s0 in
      if \<not> xs_adaptive s0 then ((old, old), s0)
      else if attempted \<noteq> xs_current s0 then ((old, old), s0)
      else
        let s = s0\<lparr>xs_successes := 0, xs_failures := xs_failures s0 + 1\<rparr> in
        if xs_failures s < xs_shrinkAfter s then ((old, old), s)
        else
          let s = s\<lparr>xs_failures := 0\<rparr>;
              s = (if xs_bad s = 0 \<or> attempted < xs_bad s then s\<lparr>xs_bad := attempted\<rparr> else s);
              (s, n) = (if xs_good s > 0 \<and> xs_good s < attempted then (s, xs_good s)
                else (s\<lparr>xs_good := 0\<rparr>, attempted sdiv 2));
              n = (if n < xs_min s then xs_min s else n);
              n = (if n \<ge> attempted \<and> attempted > xs_min s then attempted - 1 else n);
              n = (if n < xs_min s then xs_min s else n)
          in ((old, n), s\<lparr>xs_current := n\<rparr>))"

section \<open>Invariants\<close>

definition sizer_inv :: "adaptiveSizer \<Rightarrow> bool" where
  "sizer_inv s \<longleftrightarrow> 1 \<le> sz_min s \<and> sz_min s \<le> sz_current s \<and> sz_current s \<le> sz_max s
     \<and> 1 \<le> sz_adaptSuccesses s \<and> 1 \<le> sz_shrinkAfter s \<and> 0 \<le> sz_failures s
     \<and> sz_failures s < sz_shrinkAfter s \<and> 0 \<le> sz_successes s \<and> 0 \<le> sz_good s \<and> 0 \<le> sz_bad s"

definition xsizer_inv :: "xSizer \<Rightarrow> bool" where
  "xsizer_inv s \<longleftrightarrow> 1 \<le> xs_min s \<and> xs_min s \<le> xs_current s \<and> xs_current s \<le> xs_max s
     \<and> 1 \<le> xs_adaptSuccesses s \<and> 1 \<le> xs_shrinkAfter s \<and> 0 \<le> xs_failures s
     \<and> xs_failures s < xs_shrinkAfter s \<and> 0 \<le> xs_successes s \<and> 0 \<le> xs_good s \<and> 0 \<le> xs_bad s"

lemma sizer_inv_new:
  "1 \<le> minSize opts \<Longrightarrow> minSize opts \<le> maxSize opts \<Longrightarrow> sizer_inv (newAdaptiveSizer n st opts)"
  by (simp add: sizer_inv_def newAdaptiveSizer_def Let_def)

lemma xsizer_inv_new:
  "1 \<le> xo_minSize opts \<Longrightarrow> 1 \<le> xo_adaptSuccesses opts \<Longrightarrow>
   xsizer_inv (xNewAdaptiveSizer n st c opts)"
  by (simp add: xsizer_inv_def xNewAdaptiveSizer_def Let_def)

section \<open>The contract of a chunk sizer\<close>

text \<open>
  What the tunnels rely on, over any state with a current size, a floor, a ceiling and a
  budget of failures (\<open>hold\<close> of them left before the next downshift). An operation on a
  size that is not current any more is a stale answer and is ignored.
\<close>

datatype sizer_event = Succeeded int | Failed int

fun sizer_step :: "('s \<Rightarrow> int \<Rightarrow> 's) \<Rightarrow> ('s \<Rightarrow> int \<Rightarrow> 's) \<Rightarrow> 's \<Rightarrow> sizer_event \<Rightarrow> 's" where
  "sizer_step sc fl s (Succeeded a) = sc s a"
| "sizer_step sc fl s (Failed a) = fl s a"

definition sizer_run ::
  "('s \<Rightarrow> int \<Rightarrow> 's) \<Rightarrow> ('s \<Rightarrow> int \<Rightarrow> 's) \<Rightarrow> 's \<Rightarrow> sizer_event list \<Rightarrow> 's" where
  "sizer_run sc fl s evs = foldl (sizer_step sc fl) s evs"

text \<open>Outcomes of requests that each used the size current at the time.\<close>

fun fresh_run ::
  "('s \<Rightarrow> int) \<Rightarrow> ('s \<Rightarrow> int \<Rightarrow> 's) \<Rightarrow> ('s \<Rightarrow> int \<Rightarrow> 's) \<Rightarrow> 's \<Rightarrow> bool list \<Rightarrow> 's" where
  "fresh_run cr sc fl s [] = s"
| "fresh_run cr sc fl s (b # bs) = fresh_run cr sc fl (if b then sc s (cr s) else fl s (cr s)) bs"

text \<open>No \<open>budget\<close> failures in a row, the first \<open>n\<close> being behind us already.\<close>

fun calm :: "int \<Rightarrow> int \<Rightarrow> bool list \<Rightarrow> bool" where
  "calm budget n [] \<longleftrightarrow> n < budget"
| "calm budget n (b # bs) \<longleftrightarrow> n < budget \<and> calm budget (if b then 0 else n + 1) bs"

lemma calm_head: "calm budget n bs \<Longrightarrow> n < budget"
  by (cases bs) auto

locale chunk_sizer =
  fixes cr mn mx :: "'s \<Rightarrow> int"
    and sc fl :: "'s \<Rightarrow> int \<Rightarrow> 's"
    and on :: "'s \<Rightarrow> bool"
    and hold budget streak patience :: "'s \<Rightarrow> int"
    and inv :: "'s \<Rightarrow> bool"
  assumes bounds: "inv s \<Longrightarrow> 1 \<le> mn s \<and> mn s \<le> cr s \<and> cr s \<le> mx s"
    and counters: "inv s \<Longrightarrow> 1 \<le> hold s \<and> hold s \<le> budget s \<and> 0 \<le> streak s \<and> 1 \<le> patience s"
    and inv_sc: "inv s \<Longrightarrow> inv (sc s a)"
    and inv_fl: "inv s \<Longrightarrow> inv (fl s a)"
    and sc_frame: "inv s \<Longrightarrow> mn (sc s a) = mn s \<and> mx (sc s a) = mx s \<and> on (sc s a) = on s
      \<and> budget (sc s a) = budget s \<and> patience (sc s a) = patience s"
    and fl_frame: "inv s \<Longrightarrow> mn (fl s a) = mn s \<and> mx (fl s a) = mx s \<and> on (fl s a) = on s
      \<and> budget (fl s a) = budget s \<and> patience (fl s a) = patience s"
    and stale: "\<not> on s \<or> a \<noteq> cr s \<Longrightarrow> sc s a = s \<and> fl s a = s"
    and sc_hold: "inv s \<Longrightarrow> on s \<Longrightarrow> hold (sc s (cr s)) = budget s"
    and sc_grows: "inv s \<Longrightarrow> cr s \<le> cr (sc s a)"
    and fl_shrinks: "inv s \<Longrightarrow> cr (fl s a) \<le> cr s"
    and fl_held: "inv s \<Longrightarrow> on s \<Longrightarrow> 1 < hold s \<Longrightarrow> cr (fl s (cr s)) = cr s \<and> hold (fl s (cr s)) = hold s - 1"
    and fl_drop: "inv s \<Longrightarrow> on s \<Longrightarrow> hold s = 1 \<Longrightarrow>
      hold (fl s (cr s)) = budget s \<and> (mn s < cr s \<longrightarrow> cr (fl s (cr s)) < cr s)"
    and sc_progress: "inv s \<Longrightarrow> on s \<Longrightarrow> cr s < mx s \<Longrightarrow> cr s < cr (sc s (cr s)) \<or>
      (cr (sc s (cr s)) = cr s \<and> streak (sc s (cr s)) = streak s + 1 \<and> streak s + 1 < 8 * patience s)"
begin

lemma step_inv: "inv s \<Longrightarrow> inv (sizer_step sc fl s e)"
  by (cases e) (simp_all add: inv_sc inv_fl)

lemma step_frame:
  "inv s \<Longrightarrow> mn (sizer_step sc fl s e) = mn s" "inv s \<Longrightarrow> mx (sizer_step sc fl s e) = mx s"
  by (cases e; simp add: sc_frame fl_frame)+

lemma run_inv: "inv s \<Longrightarrow> inv (sizer_run sc fl s evs)"
  unfolding sizer_run_def by (induction evs arbitrary: s) (simp_all add: step_inv)

lemma run_frame: "inv s \<Longrightarrow> mn (sizer_run sc fl s evs) = mn s \<and> mx (sizer_run sc fl s evs) = mx s"
  unfolding sizer_run_def by (induction evs arbitrary: s) (simp_all add: step_frame step_inv)

text \<open>Whatever answers arrive, late ones included, the size stays between floor and ceiling.\<close>

lemma run_bounds:
  assumes "inv s"
  shows "mn s \<le> cr (sizer_run sc fl s evs) \<and> cr (sizer_run sc fl s evs) \<le> mx s"
  using bounds [OF run_inv [OF assms, of evs]] run_frame [OF assms, of evs] by simp

lemma stale_run:
  "\<forall>e \<in> set evs. e \<noteq> Succeeded (cr s) \<and> e \<noteq> Failed (cr s) \<Longrightarrow> sizer_run sc fl s evs = s"
proof (induction evs)
  case (Cons e evs)
  then have "sizer_step sc fl s e = s" by (cases e) (auto simp: stale)
  with Cons show ?case by (simp add: sizer_run_def)
qed (simp add: sizer_run_def)

lemma fresh_inv: "inv s \<Longrightarrow> inv (fresh_run cr sc fl s bs)"
  by (induction bs arbitrary: s) (simp_all add: inv_sc inv_fl)

lemma fresh_append: "fresh_run cr sc fl s (as @ bs) = fresh_run cr sc fl (fresh_run cr sc fl s as) bs"
  by (induction as arbitrary: s) simp_all

text \<open>As long as the failures stay below the budget between two successes, the size never drops.\<close>

lemma calm_keeps:
  assumes "inv s" and "on s" and "calm (budget s) (budget s - hold s) bs"
  shows "cr s \<le> cr (fresh_run cr sc fl s bs)"
  using assms
proof (induction bs arbitrary: s)
  case (Cons b bs)
  show ?case
  proof (cases b)
    case True
    let ?s = "sc s (cr s)"
    have "calm (budget ?s) (budget ?s - hold ?s) bs"
      using Cons.prems True by (simp add: sc_hold sc_frame [OF Cons.prems(1)])
    from Cons.IH [OF inv_sc [OF Cons.prems(1)] _ this] Cons.prems(2)
    have "cr ?s \<le> cr (fresh_run cr sc fl ?s bs)" by (simp add: sc_frame [OF Cons.prems(1)])
    with sc_grows [OF Cons.prems(1), of "cr s"] True show ?thesis by simp
  next
    case False
    let ?s = "fl s (cr s)"
    from Cons.prems False have "calm (budget s) (budget s - hold s + 1) bs" by simp
    from calm_head [OF this] have h: "1 < hold s" by simp
    note f = fl_held [OF Cons.prems(1,2) h]
    from f have e: "budget s - hold ?s = budget s - hold s + 1" by linarith
    have "calm (budget ?s) (budget ?s - hold ?s) bs"
      using Cons.prems(3) False unfolding fl_frame [OF Cons.prems(1), THEN conjunct2, THEN conjunct2, THEN conjunct2, THEN conjunct1] e
      by simp
    from Cons.IH [OF inv_fl [OF Cons.prems(1)] _ this] Cons.prems(2) f False
    show ?thesis by (simp add: fl_frame [OF Cons.prems(1)])
  qed
qed simp

text \<open>One whole budget of failures brings the size down, unless it is at the floor.\<close>

lemma budget_spent:
  assumes "inv s" and "on s" and "nat (hold s) = Suc k"
  shows "let s' = fresh_run cr sc fl s (replicate (Suc k) False) in
    hold s' = budget s \<and> (mn s < cr s \<longrightarrow> cr s' < cr s)"
  using assms
proof (induction k arbitrary: s)
  case 0
  then have "hold s = 1" by simp
  with fl_drop [OF 0(1,2)] show ?case by simp
next
  case (Suc k)
  then have h: "1 < hold s" by simp
  note f = fl_held [OF Suc.prems(1,2) h]
  with Suc.prems have "nat (hold (fl s (cr s))) = Suc k" by simp
  from Suc.IH [OF inv_fl [OF Suc.prems(1)] _ this] Suc.prems(2) f show ?case
    by (simp add: fl_frame [OF Suc.prems(1)] Let_def)
qed

lemma storm_frame:
  "inv s \<Longrightarrow> budget (fresh_run cr sc fl s bs) = budget s \<and> mn (fresh_run cr sc fl s bs) = mn s
   \<and> mx (fresh_run cr sc fl s bs) = mx s \<and> on (fresh_run cr sc fl s bs) = on s
   \<and> patience (fresh_run cr sc fl s bs) = patience s"
  by (induction bs arbitrary: s) (simp_all add: sc_frame fl_frame inv_sc inv_fl)

lemma fails_shrink: "inv s \<Longrightarrow> cr (fresh_run cr sc fl s (replicate k False)) \<le> cr s"
proof (induction k arbitrary: s)
  case (Suc k)
  from Suc.IH [OF inv_fl [OF Suc.prems], of "cr s"] fl_shrinks [OF Suc.prems, of "cr s"]
  show ?case by simp
qed simp

text \<open>A path that fails every time walks down to the floor, within a bounded number of failures.\<close>

lemma storm:
  assumes "inv s" and "on s" and "hold s = budget s" and "cr s - mn s \<le> int d"
  shows "cr (fresh_run cr sc fl s (replicate (d * nat (budget s)) False)) = mn s"
  using assms
proof (induction d arbitrary: s)
  case 0
  then show ?case using bounds [of s] by simp
next
  case (Suc d)
  obtain k where k: "nat (hold s) = Suc k"
    using counters [OF Suc.prems(1)] by (metis Suc_nat_eq_nat_zadd1 add.commute diff_add_cancel zle_diff1_eq zless_iff_Suc_zadd linorder_not_less nat_0_iff not0_implies_Suc not_one_le_zero order_trans zero_less_one)
  let ?s = "fresh_run cr sc fl s (replicate (Suc k) False)"
  have b: "hold ?s = budget ?s" "mn s < cr s \<Longrightarrow> cr ?s < cr s"
    using budget_spent [OF Suc.prems(1,2) k] storm_frame [OF Suc.prems(1), of "replicate (Suc k) False"]
    by (simp_all only: Let_def)
  have i: "inv ?s" using fresh_inv [OF Suc.prems(1)] .
  have "cr ?s - mn ?s \<le> int d"
  proof (cases "mn s < cr s")
    case True
    with b(2) Suc.prems(4) show ?thesis using storm_frame [OF Suc.prems(1), of "replicate (Suc k) False"] by linarith
  next
    case False
    with fails_shrink [OF Suc.prems(1), of "Suc k"] show ?thesis using storm_frame [OF Suc.prems(1), of "replicate (Suc k) False"] by linarith
  qed
  from Suc.IH [OF i _ b(1) this] Suc.prems(2)
  have "cr (fresh_run cr sc fl ?s (replicate (d * nat (budget s)) False)) = mn s"
    using storm_frame [OF Suc.prems(1), of "replicate (Suc k) False"] by simp
  moreover have "Suc d * nat (budget s) = Suc k + d * nat (budget s)" using k Suc.prems(3) by simp
  ultimately show ?case by (simp only: replicate_add fresh_append)
qed

text \<open>And a path that works every time gets a larger size within \<open>8 * patience\<close> successes.\<close>

lemma growth_aux:
  assumes "inv s" and "on s" and "cr s < mx s" and "8 * patience s - streak s \<le> int k"
  shows "\<exists>j \<le> k. cr s < cr (fresh_run cr sc fl s (replicate (Suc j) True))"
  using assms
proof (induction k arbitrary: s)
  case 0
  with sc_progress [OF 0(1-3)] have "cr s < cr (sc s (cr s))" by auto
  then show ?case by auto
next
  case (Suc k)
  let ?s = "sc s (cr s)"
  show ?case
  proof (cases "cr s < cr ?s")
    case True
    then show ?thesis by (intro exI [of _ 0]) simp
  next
    case False
    with sc_progress [OF Suc.prems(1-3)] have "cr ?s = cr s" "streak ?s = streak s + 1" by auto
    with Suc.IH [OF inv_sc [OF Suc.prems(1)], of "cr s"] Suc.prems
    obtain j where "j \<le> k" "cr s < cr (fresh_run cr sc fl ?s (replicate (Suc j) True))"
      by (auto simp: sc_frame [OF Suc.prems(1)])
    then show ?thesis by (intro exI [of _ "Suc j"]) simp
  qed
qed

end

text \<open>The ways an operation can go, with the state it leaves.\<close>

lemma Success_cases:
  assumes "sizer_inv s"
  obtains (stale) "\<not> sz_adaptive s \<or> a \<noteq> sz_current s" "Success s a = s"
  | (full) "sz_adaptive s" "a = sz_current s" "sz_max s \<le> sz_current s" "Success s a = s\<lparr>sz_failures := 0\<rparr>"
  | (count) g where "sz_adaptive s" "a = sz_current s" "sz_current s < sz_max s" "0 \<le> g"
      "sz_successes s + 1 < 8 * sz_adaptSuccesses s"
      "Success s a = s\<lparr>sz_failures := 0, sz_good := g, sz_successes := sz_successes s + 1\<rparr>"
  | (grow) g b n where "sz_adaptive s" "a = sz_current s" "sz_current s < sz_max s" "0 \<le> g"
      "sz_current s < n" "n \<le> sz_max s" "b = sz_bad s \<and> n < b \<or> b = 0 \<and> sz_bad s \<le> a + 1"
      "Success s a = s\<lparr>sz_failures := 0, sz_good := g, sz_successes := 0, sz_bad := b, sz_current := n\<rparr>"
proof (cases "\<not> sz_adaptive s \<or> a \<noteq> sz_current s")
  case True
  with stale show ?thesis by (auto simp: Success_def)
next
  case F: False
  show ?thesis
  proof (cases "sz_max s \<le> sz_current s")
    case True
    with F full show ?thesis by (simp add: Success_def Let_def)
  next
    case M: False
    define g where "g = (if a > sz_good s then a else sz_good s)"
    define w where "w = (if sz_bad s > 0 \<and> sz_bad s - g \<le> 64 then sz_adaptSuccesses s * 8 else sz_adaptSuccesses s)"
    define m where "m = (if sz_bad s > a + 1 then a + (sz_bad s - a) sdiv 2 else a + (if a sdiv 4 < 32 then 32 else a sdiv 4))"
    define n where "n = (if m > sz_max s then sz_max s else m)"
    define b where "b = (if sz_bad s > a + 1 then sz_bad s else 0)"
    let ?s1 = "s\<lparr>sz_failures := 0\<rparr>"
    have r: "(if a > sz_good ?s1 then ?s1\<lparr>sz_good := a\<rparr> else ?s1) = ?s1\<lparr>sz_good := g\<rparr>"
      by (simp add: g_def)
    have rw: "(if sz_bad s > 0 \<and> sz_bad s - g \<le> 64 then sz_adaptSuccesses s * 8 else sz_adaptSuccesses s) = w"
      by (simp add: w_def)
    have en: "sz_adaptive s" "a = sz_current s" "\<not> sz_max s \<le> sz_current s" using F M by auto
    have st: "Success s a =
      (if sz_successes s + 1 < w then s\<lparr>sz_failures := 0, sz_good := g, sz_successes := sz_successes s + 1\<rparr>
       else let s = s\<lparr>sz_failures := 0, sz_good := g, sz_successes := 0\<rparr>;
          (s, n) = (if sz_bad s > a + 1 then (s, m) else ((if sz_bad s > 0 then s\<lparr>sz_bad := 0\<rparr> else s), m));
          n = (if n > sz_max s then sz_max s else n) in
          if n \<le> a then s else s\<lparr>sz_current := n\<rparr>)"
      unfolding Success_def Let_def using en r rw
      by (simp add: m_def cong: if_cong)
    have g: "0 \<le> g" using assms by (simp add: g_def sizer_inv_def)
    have w: "w \<le> 8 * sz_adaptSuccesses s" using assms by (simp add: w_def sizer_inv_def)
    have a: "0 < a" "a < sz_max s" "0 \<le> sz_bad s" using assms F M by (simp_all add: sizer_inv_def)
    have m: "a < m" using a by (auto simp: m_def)
    have "sz_bad s > a + 1 \<Longrightarrow> m < sz_bad s" using a by (simp add: m_def)
    then have n: "a < n" "n \<le> sz_max s" "b = sz_bad s \<and> n < b \<or> b = 0 \<and> sz_bad s \<le> a + 1"
      using a m by (auto simp: n_def b_def)
    show ?thesis
    proof (cases "sz_successes s + 1 < w")
      case True
      with F M g w st show ?thesis by (intro count [of g]) simp_all
    next
      case False
      have "Success s a = s\<lparr>sz_failures := 0, sz_good := g, sz_successes := 0, sz_bad := b, sz_current := n\<rparr>"
      proof (cases "sz_bad s > 0")
        case True
        with False n show ?thesis unfolding st b_def by (simp add: n_def split: if_splits)
      next
        case nb: False
        with a(3) have z: "sz_bad s = 0" by simp
        have "s\<lparr>sz_failures := 0, sz_good := g, sz_successes := 0, sz_bad := 0, sz_current := n\<rparr>
          = s\<lparr>sz_failures := 0, sz_good := g, sz_successes := 0, sz_current := n\<rparr>" using z by (cases s) simp
        with False n z a(1) show ?thesis unfolding st b_def by (simp add: n_def split: if_splits)
      qed
      with F M g n show ?thesis by (intro grow [of g n b]) simp_all
    qed
  qed
qed

lemma Failure_cases:
  assumes "sizer_inv s"
  obtains (stale) "\<not> sz_adaptive s \<or> a \<noteq> sz_current s" "snd (Failure s a) = s"
  | (held) "sz_adaptive s" "a = sz_current s" "sz_failures s + 1 < sz_shrinkAfter s"
      "snd (Failure s a) = s\<lparr>sz_successes := 0, sz_failures := sz_failures s + 1\<rparr>"
  | (drop) g b n where "sz_adaptive s" "a = sz_current s" "sz_shrinkAfter s \<le> sz_failures s + 1"
      "0 \<le> g" "0 < b" "b \<le> a" "sz_min s \<le> n" "n \<le> a" "sz_min s < a \<longrightarrow> n < a"
      "snd (Failure s a) = s\<lparr>sz_successes := 0, sz_failures := 0, sz_bad := b, sz_good := g, sz_current := n\<rparr>"
proof (cases "\<not> sz_adaptive s \<or> a \<noteq> sz_current s")
  case True
  with stale show ?thesis by (auto simp: Failure_def FailureReason_def Let_def)
next
  case F: False
  show ?thesis
  proof (cases "sz_failures s + 1 < sz_shrinkAfter s")
    case True
    with F held show ?thesis by (simp add: Failure_def FailureReason_def Let_def)
  next
    case H: False
    define b where "b = (if sz_bad s = 0 \<or> a < sz_bad s then a else sz_bad s)"
    define g where "g = (if sz_shrinkStep s > 0 then 0 else if sz_good s > 0 \<and> sz_good s < a then sz_good s else 0)"
    define m where "m = (if sz_shrinkStep s > 0 then a - sz_shrinkStep s
      else if sz_good s > 0 \<and> sz_good s < a then sz_good s else a sdiv 2)"
    define n1 where "n1 = (if m < sz_min s then sz_min s else m)"
    define n where "n = (if n1 \<ge> a \<and> a > sz_min s then a - 1 else n1)"
    have a: "0 < a" "sz_min s \<le> a" "0 \<le> sz_good s" "0 \<le> sz_bad s" using assms F by (simp_all add: sizer_inv_def)
    have g: "0 \<le> g" using a by (simp add: g_def)
    have b: "0 < b" "b \<le> a" using a by (auto simp: b_def)
    have m: "m < a" using a by (auto simp: m_def)
    have n: "sz_min s \<le> n" "n \<le> a" "sz_min s < a \<longrightarrow> n < a" using a m by (auto simp: n_def n1_def)
    have en: "sz_adaptive s" "a = sz_current s" "\<not> sz_failures s + 1 < sz_shrinkAfter s" using F H by auto
    let ?s1 = "s\<lparr>sz_successes := 0, sz_failures := 0\<rparr>"
    have r: "(if sz_bad ?s1 = 0 \<or> a < sz_bad ?s1 then ?s1\<lparr>sz_bad := a\<rparr> else ?s1) = ?s1\<lparr>sz_bad := b\<rparr>"
      by (simp add: b_def)
    have st: "snd (Failure s a) = (let (s, n) = (if sz_shrinkStep s > 0 then (?s1\<lparr>sz_bad := b, sz_good := 0\<rparr>, m)
        else if sz_good s > 0 \<and> sz_good s < a then (?s1\<lparr>sz_bad := b\<rparr>, m) else (?s1\<lparr>sz_bad := b, sz_good := 0\<rparr>, m));
        n = (if n < sz_min s then sz_min s else n);
        n = (if n \<ge> a \<and> a > sz_min s then a - 1 else n);
        n = (if n < sz_min s then sz_min s else n) in s\<lparr>sz_current := n\<rparr>)"
      unfolding Failure_def FailureReason_def Let_def using en r by (simp add: m_def cong: if_cong del: sdiv_pos)
    have "snd (Failure s a) = s\<lparr>sz_successes := 0, sz_failures := 0, sz_bad := b, sz_good := g, sz_current := n\<rparr>"
      unfolding st using n(1) by (simp add: g_def n_def n1_def Let_def)
    with F H g b n show ?thesis by (intro drop [of g b n]) simp_all
  qed
qed

text \<open>The ways an operation can go, with the state it leaves.\<close>

lemma xSuccess_cases:
  assumes "xsizer_inv s"
  obtains (stale) "\<not> xs_adaptive s \<or> a \<noteq> xs_current s" "xSuccess s a = s"
  | (full) "xs_adaptive s" "a = xs_current s" "xs_max s \<le> xs_current s" "xSuccess s a = s\<lparr>xs_failures := 0\<rparr>"
  | (count) g where "xs_adaptive s" "a = xs_current s" "xs_current s < xs_max s" "0 \<le> g"
      "xs_successes s + 1 < 8 * xs_adaptSuccesses s"
      "xSuccess s a = s\<lparr>xs_failures := 0, xs_good := g, xs_successes := xs_successes s + 1\<rparr>"
  | (grow) g b n where "xs_adaptive s" "a = xs_current s" "xs_current s < xs_max s" "0 \<le> g"
      "xs_current s < n" "n \<le> xs_max s" "b = xs_bad s \<and> n < b \<or> b = 0 \<and> xs_bad s \<le> a + 1"
      "xSuccess s a = s\<lparr>xs_failures := 0, xs_good := g, xs_successes := 0, xs_bad := b, xs_current := n\<rparr>"
proof (cases "\<not> xs_adaptive s \<or> a \<noteq> xs_current s")
  case True
  with stale show ?thesis by (auto simp: xSuccess_def)
next
  case F: False
  show ?thesis
  proof (cases "xs_max s \<le> xs_current s")
    case True
    with F full show ?thesis by (simp add: xSuccess_def Let_def)
  next
    case M: False
    define g where "g = (if a > xs_good s then a else xs_good s)"
    define w where "w = (if xs_bad s > 0 \<and> xs_bad s - g \<le> 32 then xs_adaptSuccesses s * 8 else xs_adaptSuccesses s)"
    define m where "m = (if xs_bad s > a + 1 then a + (xs_bad s - a) sdiv 2 else a + (if a sdiv 4 < 32 then 32 else a sdiv 4))"
    define n where "n = (if m > xs_max s then xs_max s else m)"
    define b where "b = (if xs_bad s > a + 1 then xs_bad s else 0)"
    let ?s1 = "s\<lparr>xs_failures := 0\<rparr>"
    have r: "(if a > xs_good ?s1 then ?s1\<lparr>xs_good := a\<rparr> else ?s1) = ?s1\<lparr>xs_good := g\<rparr>"
      by (simp add: g_def)
    have rw: "(if xs_bad s > 0 \<and> xs_bad s - g \<le> 32 then xs_adaptSuccesses s * 8 else xs_adaptSuccesses s) = w"
      by (simp add: w_def)
    have en: "xs_adaptive s" "a = xs_current s" "\<not> xs_max s \<le> xs_current s" using F M by auto
    have st: "xSuccess s a =
      (if xs_successes s + 1 < w then s\<lparr>xs_failures := 0, xs_good := g, xs_successes := xs_successes s + 1\<rparr>
       else let s = s\<lparr>xs_failures := 0, xs_good := g, xs_successes := 0\<rparr>;
          (s, n) = (if xs_bad s > a + 1 then (s, m) else ((if xs_bad s > 0 then s\<lparr>xs_bad := 0\<rparr> else s), m));
          n = (if n > xs_max s then xs_max s else n) in
          if n \<le> a then s else s\<lparr>xs_current := n\<rparr>)"
      unfolding xSuccess_def Let_def using en r rw
      by (simp add: m_def cong: if_cong)
    have g: "0 \<le> g" using assms by (simp add: g_def xsizer_inv_def)
    have w: "w \<le> 8 * xs_adaptSuccesses s" using assms by (simp add: w_def xsizer_inv_def)
    have a: "0 < a" "a < xs_max s" "0 \<le> xs_bad s" using assms F M by (simp_all add: xsizer_inv_def)
    have m: "a < m" using a by (auto simp: m_def)
    have "xs_bad s > a + 1 \<Longrightarrow> m < xs_bad s" using a by (simp add: m_def)
    then have n: "a < n" "n \<le> xs_max s" "b = xs_bad s \<and> n < b \<or> b = 0 \<and> xs_bad s \<le> a + 1"
      using a m by (auto simp: n_def b_def)
    show ?thesis
    proof (cases "xs_successes s + 1 < w")
      case True
      with F M g w st show ?thesis by (intro count [of g]) simp_all
    next
      case False
      have "xSuccess s a = s\<lparr>xs_failures := 0, xs_good := g, xs_successes := 0, xs_bad := b, xs_current := n\<rparr>"
      proof (cases "xs_bad s > 0")
        case True
        with False n show ?thesis unfolding st b_def by (simp add: n_def split: if_splits)
      next
        case nb: False
        with a(3) have z: "xs_bad s = 0" by simp
        have "s\<lparr>xs_failures := 0, xs_good := g, xs_successes := 0, xs_bad := 0, xs_current := n\<rparr>
          = s\<lparr>xs_failures := 0, xs_good := g, xs_successes := 0, xs_current := n\<rparr>" using z by (cases s) simp
        with False n z a(1) show ?thesis unfolding st b_def by (simp add: n_def split: if_splits)
      qed
      with F M g n show ?thesis by (intro grow [of g n b]) simp_all
    qed
  qed
qed

lemma xFailure_cases:
  assumes "xsizer_inv s"
  obtains (stale) "\<not> xs_adaptive s \<or> a \<noteq> xs_current s" "snd (xFailure s a) = s"
  | (held) "xs_adaptive s" "a = xs_current s" "xs_failures s + 1 < xs_shrinkAfter s"
      "snd (xFailure s a) = s\<lparr>xs_successes := 0, xs_failures := xs_failures s + 1\<rparr>"
  | (drop) g b n where "xs_adaptive s" "a = xs_current s" "xs_shrinkAfter s \<le> xs_failures s + 1"
      "0 \<le> g" "0 < b" "b \<le> a" "xs_min s \<le> n" "n \<le> a" "xs_min s < a \<longrightarrow> n < a"
      "snd (xFailure s a) = s\<lparr>xs_successes := 0, xs_failures := 0, xs_bad := b, xs_good := g, xs_current := n\<rparr>"
proof (cases "\<not> xs_adaptive s \<or> a \<noteq> xs_current s")
  case True
  with stale show ?thesis by (auto simp: xFailure_def Let_def)
next
  case F: False
  show ?thesis
  proof (cases "xs_failures s + 1 < xs_shrinkAfter s")
    case True
    with F held show ?thesis by (simp add: xFailure_def Let_def)
  next
    case H: False
    define b where "b = (if xs_bad s = 0 \<or> a < xs_bad s then a else xs_bad s)"
    define g where "g = (if xs_good s > 0 \<and> xs_good s < a then xs_good s else 0)"
    define m where "m = (if xs_good s > 0 \<and> xs_good s < a then xs_good s else a sdiv 2)"
    define n1 where "n1 = (if m < xs_min s then xs_min s else m)"
    define n where "n = (if n1 \<ge> a \<and> a > xs_min s then a - 1 else n1)"
    have a: "0 < a" "xs_min s \<le> a" "0 \<le> xs_good s" "0 \<le> xs_bad s" using assms F by (simp_all add: xsizer_inv_def)
    have g: "0 \<le> g" using a by (simp add: g_def)
    have b: "0 < b" "b \<le> a" using a by (auto simp: b_def)
    have m: "m < a" using a by (auto simp: m_def)
    have n: "xs_min s \<le> n" "n \<le> a" "xs_min s < a \<longrightarrow> n < a" using a m by (auto simp: n_def n1_def)
    have en: "xs_adaptive s" "a = xs_current s" "\<not> xs_failures s + 1 < xs_shrinkAfter s" using F H by auto
    let ?s1 = "s\<lparr>xs_successes := 0, xs_failures := 0\<rparr>"
    have r: "(if xs_bad ?s1 = 0 \<or> a < xs_bad ?s1 then ?s1\<lparr>xs_bad := a\<rparr> else ?s1) = ?s1\<lparr>xs_bad := b\<rparr>"
      by (simp add: b_def)
    have st: "snd (xFailure s a) = (let (s, n) =
        (if xs_good s > 0 \<and> xs_good s < a then (?s1\<lparr>xs_bad := b\<rparr>, m) else (?s1\<lparr>xs_bad := b, xs_good := 0\<rparr>, m));
        n = (if n < xs_min s then xs_min s else n);
        n = (if n \<ge> a \<and> a > xs_min s then a - 1 else n);
        n = (if n < xs_min s then xs_min s else n) in s\<lparr>xs_current := n\<rparr>)"
      unfolding xFailure_def Let_def using en r by (simp add: m_def cong: if_cong del: sdiv_pos)
    have "snd (xFailure s a) = s\<lparr>xs_successes := 0, xs_failures := 0, xs_bad := b, xs_good := g, xs_current := n\<rparr>"
      unfolding st using n(1) by (simp add: g_def n_def n1_def Let_def)
    with F H g b n show ?thesis by (intro drop [of g b n]) simp_all
  qed
qed

section \<open>Both sizers keep the contract\<close>

lemma Success_frame:
  assumes "sizer_inv s"
  shows "sizer_inv (Success s a)" "sz_min (Success s a) = sz_min s" "sz_max (Success s a) = sz_max s"
    "sz_adaptive (Success s a) = sz_adaptive s" "sz_shrinkAfter (Success s a) = sz_shrinkAfter s"
    "sz_adaptSuccesses (Success s a) = sz_adaptSuccesses s"
  using assms by (cases rule: Success_cases [OF assms, of a]; auto simp: sizer_inv_def)+

lemma Failure_frame:
  assumes "sizer_inv s"
  shows "sizer_inv (snd (Failure s a))" "sz_min (snd (Failure s a)) = sz_min s"
    "sz_max (snd (Failure s a)) = sz_max s" "sz_adaptive (snd (Failure s a)) = sz_adaptive s"
    "sz_shrinkAfter (snd (Failure s a)) = sz_shrinkAfter s"
    "sz_adaptSuccesses (snd (Failure s a)) = sz_adaptSuccesses s"
  using assms by (cases rule: Failure_cases [OF assms, of a]; auto simp: sizer_inv_def)+

interpretation chunk: chunk_sizer Current sz_min sz_max Success "\<lambda>s a. snd (Failure s a)" sz_adaptive
  "\<lambda>s. sz_shrinkAfter s - sz_failures s" sz_shrinkAfter sz_successes sz_adaptSuccesses sizer_inv
proof (unfold_locales, goal_cases)
  case (1 s)
  then show ?case by (simp add: sizer_inv_def Current_def)
next
  case (2 s)
  then show ?case by (simp add: sizer_inv_def)
next
  case (7 s a)
  then show ?case by (auto simp: Current_def Success_def Failure_def FailureReason_def Let_def)
next
  case (8 s)
  show ?case by (rule Success_cases [OF 8(1), of "Current s"]) (use 8 in \<open>auto simp: Current_def\<close>)
next
  case (9 s a)
  show ?case by (rule Success_cases [OF 9, of a]) (auto simp: Current_def)
next
  case (10 s a)
  show ?case by (rule Failure_cases [OF 10, of a]) (auto simp: Current_def)
next
  case (11 s)
  show ?case by (rule Failure_cases [OF 11(1), of "Current s"]) (use 11 in \<open>auto simp: Current_def\<close>)
next
  case (12 s)
  show ?case by (rule Failure_cases [OF 12(1), of "Current s"]) (use 12 in \<open>auto simp: Current_def\<close>)
next
  case (13 s)
  show ?case by (rule Success_cases [OF 13(1), of "Current s"]) (use 13 in \<open>auto simp: Current_def\<close>)
qed (simp_all add: Success_frame Failure_frame)

lemma xSuccess_frame:
  assumes "xsizer_inv s"
  shows "xsizer_inv (xSuccess s a)" "xs_min (xSuccess s a) = xs_min s" "xs_max (xSuccess s a) = xs_max s"
    "xs_adaptive (xSuccess s a) = xs_adaptive s" "xs_shrinkAfter (xSuccess s a) = xs_shrinkAfter s"
    "xs_adaptSuccesses (xSuccess s a) = xs_adaptSuccesses s"
  using assms by (cases rule: xSuccess_cases [OF assms, of a]; auto simp: xsizer_inv_def)+

lemma xFailure_frame:
  assumes "xsizer_inv s"
  shows "xsizer_inv (snd (xFailure s a))" "xs_min (snd (xFailure s a)) = xs_min s"
    "xs_max (snd (xFailure s a)) = xs_max s" "xs_adaptive (snd (xFailure s a)) = xs_adaptive s"
    "xs_shrinkAfter (snd (xFailure s a)) = xs_shrinkAfter s"
    "xs_adaptSuccesses (snd (xFailure s a)) = xs_adaptSuccesses s"
  using assms by (cases rule: xFailure_cases [OF assms, of a]; auto simp: xsizer_inv_def)+

interpretation xchunk: chunk_sizer xCurrent xs_min xs_max xSuccess "\<lambda>s a. snd (xFailure s a)" xs_adaptive
  "\<lambda>s. xs_shrinkAfter s - xs_failures s" xs_shrinkAfter xs_successes xs_adaptSuccesses xsizer_inv
proof (unfold_locales, goal_cases)
  case (1 s)
  then show ?case by (simp add: xsizer_inv_def xCurrent_def)
next
  case (2 s)
  then show ?case by (simp add: xsizer_inv_def)
next
  case (7 s a)
  then show ?case by (auto simp: xCurrent_def xSuccess_def xFailure_def Let_def)
next
  case (8 s)
  show ?case by (rule xSuccess_cases [OF 8(1), of "xCurrent s"]) (use 8 in \<open>auto simp: xCurrent_def\<close>)
next
  case (9 s a)
  show ?case by (rule xSuccess_cases [OF 9, of a]) (auto simp: xCurrent_def)
next
  case (10 s a)
  show ?case by (rule xFailure_cases [OF 10, of a]) (auto simp: xCurrent_def)
next
  case (11 s)
  show ?case by (rule xFailure_cases [OF 11(1), of "xCurrent s"]) (use 11 in \<open>auto simp: xCurrent_def\<close>)
next
  case (12 s)
  show ?case by (rule xFailure_cases [OF 12(1), of "xCurrent s"]) (use 12 in \<open>auto simp: xCurrent_def\<close>)
next
  case (13 s)
  show ?case by (rule xSuccess_cases [OF 13(1), of "xCurrent s"]) (use 13 in \<open>auto simp: xCurrent_def\<close>)
qed (simp_all add: xSuccess_frame xFailure_frame)

section \<open>Properties\<close>

lemma new_limits:
  "sz_min (newAdaptiveSizer n st opts) = minSize opts \<and> sz_max (newAdaptiveSizer n st opts) = maxSize opts"
  by (simp add: newAdaptiveSizer_def Let_def)

lemma xnew_limits:
  "xs_min (xNewAdaptiveSizer n st c opts) = xo_minSize opts \<and>
   xs_max (xNewAdaptiveSizer n st c opts) \<le> max (xo_minSize opts) (xo_maxSize opts) \<and>
   (0 < c \<longrightarrow> xs_max (xNewAdaptiveSizer n st c opts) \<le> max (xo_minSize opts) c)"
  by (simp add: xNewAdaptiveSizer_def Let_def)

text \<open>C14: Whatever answers arrive in whatever order, late ones about sizes already given up
  included, both sizers keep the chunk size between the configured minimum and the maximum
  (for \<^verbatim>\<open>xorchunk\<close>: the ceiling the server's limit and the calibration left).\<close>

theorem sizer_within_bounds:
  assumes "1 \<le> minSize opts" and "minSize opts \<le> maxSize opts"
    and "1 \<le> xo_minSize xopts" and "1 \<le> xo_adaptSuccesses xopts"
  shows "(let s = newAdaptiveSizer name start opts;
              c = Current (sizer_run Success (\<lambda>s a. snd (Failure s a)) s evs)
          in minSize opts \<le> c \<and> c \<le> maxSize opts) \<and>
    (let s = xNewAdaptiveSizer name start ceil xopts;
         c = xCurrent (sizer_run xSuccess (\<lambda>s a. snd (xFailure s a)) s evs)
     in xo_minSize xopts \<le> c \<and> c \<le> max (xo_minSize xopts) (xo_maxSize xopts)
        \<and> (0 < ceil \<longrightarrow> c \<le> max (xo_minSize xopts) ceil))"
  using chunk.run_bounds [OF sizer_inv_new [OF assms(1,2)], of name start evs]
    xchunk.run_bounds [OF xsizer_inv_new [OF assms(3,4)], of name start ceil evs]
    new_limits [of name start opts] xnew_limits [of name start ceil xopts]
  unfolding Let_def by linarith

definition sample_options :: chunkClientOptions where
  "sample_options = \<lparr>startSize = 64, minSize = 32, maxSize = 4096, o_adaptive = True,
     o_adaptSuccesses = 2, o_shrinkAfter = 3, o_shrinkStep = 0, adaptLog = False, pollers = 2,
     o_reconnectEvery = 0, pollDelay = 0, txnTimeout = 5000000000, o_tcpBuffer = 0,
     o_minPipeline = 1, o_maxPipeline = 2, o_headerMask = 0x80, o_coverProfile = zero_profile,
     skipPathProbe = True, forceMaxStart = False\<rparr>"

definition sample_xoptions :: xOptions where
  "sample_xoptions = \<lparr>xo_startSize = 64, xo_minSize = 32, xo_maxSize = 4096, xo_uploadStartSize = 0,
     xo_downloadStartSize = 0, xo_uploadMaxSize = 0, xo_downloadMaxSize = 0, xo_adaptive = True,
     xo_adaptSuccesses = 2, xo_shrinkAfter = 3, xo_adaptLog = False, xo_pollers = 2,
     xo_reconnectEvery = 1, xo_pollDelay = 0, xo_txnTimeout = 5000000000, xo_tcpBuffer = 0,
     xo_headerMask = 0x80, xo_coverProfile = zero_profile\<rparr>"

theorem sizer_within_bounds_witness:
  "minSize sample_options = 32 \<and> maxSize sample_options = 4096 \<and>
   (let c = Current (sizer_run Success (\<lambda>s a. snd (Failure s a))
       (newAdaptiveSizer ''up'' 64 sample_options) [Failed 64, Failed 64, Failed 64, Succeeded 7])
    in 32 \<le> c \<and> c \<le> 4096)"
  using sizer_within_bounds [of sample_options sample_xoptions "''up''" 64
      "[Failed 64, Failed 64, Failed 64, Succeeded 7]"]
  by (simp add: sample_options_def sample_xoptions_def)

text \<open>Isolated carrier errors never cause a downshift: between two successes both sizers
  absorb up to \<^verbatim>\<open>shrinkAfter - 1\<close> failures of the current size, in any such history,
  without the size ever falling below where it stood.\<close>

theorem sizer_absorbs_isolated_failures:
  assumes "sizer_inv s" and "sz_adaptive s" and "calm (sz_shrinkAfter s) (sz_failures s) outcomes"
    and "xsizer_inv x" and "xs_adaptive x" and "calm (xs_shrinkAfter x) (xs_failures x) outcomes"
  shows "Current s \<le> Current (fresh_run Current Success (\<lambda>s a. snd (Failure s a)) s outcomes) \<and>
    xCurrent x \<le> xCurrent (fresh_run xCurrent xSuccess (\<lambda>s a. snd (xFailure s a)) x outcomes)"
  using chunk.calm_keeps [of s outcomes] xchunk.calm_keeps [of x outcomes] assms by simp

theorem sizer_absorbs_isolated_failures_witness:
  "64 \<le> Current (fresh_run Current Success (\<lambda>s a. snd (Failure s a))
     (newAdaptiveSizer ''up'' 64 sample_options) [False, False, True, False, False, True])"
proof -
  have "calm 3 0 [False, False, True, False, False, True]" by simp
  with sizer_absorbs_isolated_failures [OF sizer_inv_new _ _ xsizer_inv_new,
      of sample_options "''up''" 64 "[False, False, True, False, False, True]"
         sample_xoptions "''up''" 64 0]
  show ?thesis
    by (simp add: newAdaptiveSizer_def xNewAdaptiveSizer_def sample_options_def sample_xoptions_def
        Current_def Let_def del: fresh_run.simps)
qed

text \<open>A path on which every request of the current size fails drives both sizers down to
  the minimum, within (size - minimum) times \<^verbatim>\<open>shrinkAfter\<close> failures, whatever
  known-good and known-bad marks were kept before.\<close>

theorem sizer_reaches_minimum:
  assumes "sizer_inv s" and "sz_adaptive s" and "sz_failures s = 0"
    and "xsizer_inv x" and "xs_adaptive x" and "xs_failures x = 0"
  shows "Current (fresh_run Current Success (\<lambda>s a. snd (Failure s a)) s
      (replicate (nat (Current s - sz_min s) * nat (sz_shrinkAfter s)) False)) = sz_min s \<and>
    xCurrent (fresh_run xCurrent xSuccess (\<lambda>s a. snd (xFailure s a)) x
      (replicate (nat (xCurrent x - xs_min x) * nat (xs_shrinkAfter x)) False)) = xs_min x"
  using chunk.storm [of s "nat (Current s - sz_min s)"]
    xchunk.storm [of x "nat (xCurrent x - xs_min x)"] assms by simp

theorem sizer_reaches_minimum_witness:
  "Current (fresh_run Current Success (\<lambda>s a. snd (Failure s a))
     (newAdaptiveSizer ''up'' 64 sample_options) (replicate 96 False)) = 32"
  using sizer_reaches_minimum [OF sizer_inv_new _ _ xsizer_inv_new, of sample_options "''up''" 64
      sample_xoptions "''up''" 64 0]
  by (simp add: newAdaptiveSizer_def xNewAdaptiveSizer_def sample_options_def sample_xoptions_def
      Current_def Let_def)

text \<open>A path that keeps working is rewarded: below the maximum, both sizers strictly
  enlarge the chunk within \<^verbatim>\<open>8 * adaptSuccesses\<close> consecutive successes, even close
  to a size known to be bad.\<close>

theorem sizer_grows:
  assumes "sizer_inv s" and "sz_adaptive s" and "Current s < sz_max s"
    and "xsizer_inv x" and "xs_adaptive x" and "xCurrent x < xs_max x"
  shows "(\<exists>k \<le> nat (8 * sz_adaptSuccesses s). Current s <
      Current (fresh_run Current Success (\<lambda>s a. snd (Failure s a)) s (replicate (Suc k) True))) \<and>
    (\<exists>k \<le> nat (8 * xs_adaptSuccesses x). xCurrent x <
      xCurrent (fresh_run xCurrent xSuccess (\<lambda>s a. snd (xFailure s a)) x (replicate (Suc k) True)))"
  using chunk.growth_aux [of s "nat (8 * sz_adaptSuccesses s)"]
    xchunk.growth_aux [of x "nat (8 * xs_adaptSuccesses x)"] assms
  by (simp add: sizer_inv_def xsizer_inv_def)

theorem sizer_grows_witness:
  "\<exists>k \<le> 16. 64 < Current (fresh_run Current Success (\<lambda>s a. snd (Failure s a))
     (newAdaptiveSizer ''up'' 64 sample_options) (replicate (Suc k) True))"
  using sizer_grows [OF sizer_inv_new _ _ xsizer_inv_new, of sample_options "''up''" 64
      sample_xoptions "''up''" 64 0]
  by (simp add: newAdaptiveSizer_def xNewAdaptiveSizer_def sample_options_def sample_xoptions_def
      Current_def xCurrent_def Let_def del: fresh_run.simps replicate.simps)

text \<open>The growth is a bounded binary search: after a size failed, a success below it
  never grows the chunk to that size or beyond while a larger untried size remains below it,
  and no failed attempt ever makes the chunk larger.\<close>

theorem sizer_search_below_failure:
  assumes "sizer_inv s" and "xsizer_inv x"
  shows "(Current s + 1 < sz_bad s \<longrightarrow> Current (Success s a) < sz_bad s) \<and>
    (xCurrent x + 1 < xs_bad x \<longrightarrow> xCurrent (xSuccess x a) < xs_bad x) \<and>
    Current (snd (Failure s a)) \<le> Current s \<and> xCurrent (snd (xFailure x a)) \<le> xCurrent x"
proof (intro conjI impI)
  assume b: "Current s + 1 < sz_bad s"
  show "Current (Success s a) < sz_bad s"
    by (rule Success_cases [OF assms(1), of a]) (use b in \<open>auto simp: Current_def\<close>)
next
  assume b: "xCurrent x + 1 < xs_bad x"
  show "xCurrent (xSuccess x a) < xs_bad x"
    by (rule xSuccess_cases [OF assms(2), of a]) (use b in \<open>auto simp: xCurrent_def\<close>)
qed (use chunk.fl_shrinks [OF assms(1)] xchunk.fl_shrinks [OF assms(2)] in auto)

theorem sizer_search_below_failure_witness:
  "let s = (newAdaptiveSizer ''up'' 64 sample_options)\<lparr>sz_bad := 128\<rparr> in
   Current (Success s 64) < 128"
  using sizer_search_below_failure [of "(newAdaptiveSizer ''up'' 64 sample_options)\<lparr>sz_bad := 128\<rparr>"
      "xNewAdaptiveSizer ''up'' 64 0 sample_xoptions" 64]
  by (simp add: newAdaptiveSizer_def xNewAdaptiveSizer_def sample_options_def sample_xoptions_def
      Current_def Let_def sizer_inv_def xsizer_inv_def)

end
