(* ===== verification/Calibrate.thy ===== *)
theory Calibrate
  imports Lane Sizer
begin

text \<open>
  Start-up calibration: \<^verbatim>\<open>chunk.go\<close> from \<^verbatim>\<open>probePattern\<close> to
  \<^verbatim>\<open>getPathProfile\<close>, and its copy in \<^verbatim>\<open>internal/xorchunk\<close>. The search
  procedures take the probe they repeat as an argument (\<open>probe candidate w\<close> is one fake-iPerf
  run in world \<open>w\<close>), because the two files run the same search over different probes. Elapsed
  times and throughput only reach log lines and are left out.
\<close>

section \<open>Probe payloads\<close>

definition pattern_byte :: "nat \<Rightarrow> byte" where
  "pattern_byte i = word_of_nat (i * 31 + 17)"

definition probePattern :: "nat \<Rightarrow> bytes" where
  "probePattern n = map pattern_byte [0..<n]"

definition makeProbePayload :: "byte \<Rightarrow> int \<Rightarrow> int \<Rightarrow> bytes \<Rightarrow> bytes" where
  "makeProbePayload kind value size0 token =
     (let base = 11 + length token; size = (if nat size0 < base then base else nat size0) in
      ProbeMagic @ [kind] @ put16 (word_of_nat (length token)) @ put32 (word_of_int value)
      @ token @ map pattern_byte [base..<size])"

section \<open>One probe\<close>

record iperfProbeResult =
  pr_ok :: bool
  pr_bytes :: int
  pr_err :: "goerr option"

definition zero_result :: iperfProbeResult where
  "zero_result = \<lparr>pr_ok = False, pr_bytes = 0, pr_err = None\<rparr>"

definition probe_error :: "int \<Rightarrow> goerr \<Rightarrow> iperfProbeResult" where
  "probe_error n e = \<lparr>pr_ok = False, pr_bytes = n, pr_err = Some e\<rparr>"

definition probe_done :: "int \<Rightarrow> iperfProbeResult" where
  "probe_done n = \<lparr>pr_ok = True, pr_bytes = n, pr_err = None\<rparr>"

text \<open>Nanoseconds.\<close>

definition calibrationDeadline :: "chunkClientOptions \<Rightarrow> int" where
  "calibrationDeadline opts =
     (let t = txnTimeout opts;
          t = (if t < 8000000000 then 8000000000 else t)
      in if t > 20000000000 then 20000000000 else t)"

definition dialProbeConn :: "chunkClientOptions \<Rightarrow> world \<Rightarrow> (goerr + nat \<times> conn) \<times> world" where
  "dialProbeConn opts w =
     (let k = w_dialed w; w = w\<lparr>w_dialed := Suc k\<rparr> in
      case w_dials w k of Inl e \<Rightarrow> (Inl e, w)
      | Inr c \<Rightarrow>
        let w = log_event (Dialed k) w;
            (g, w) = take_rng w;
            (err, c) = WritePreface c (o_coverProfile opts) g in
        case err of Some e \<Rightarrow> (Inl e, log_event (Closed k) w)
        | None \<Rightarrow> (Inr (k, c), w))"

definition randomSessionID :: "world \<Rightarrow> (goerr + session_id) \<times> world" where
  "randomSessionID w = (case take_rng w of (g, w) \<Rightarrow>
     (case randRead g 16 of Inl e \<Rightarrow> (Inl e, w) | Inr b \<Rightarrow> (Inr (sid_of b), w)))"

text \<open>The upload probe: \<open>n\<close> requests from sequence number \<open>seq\<close> on, then their answers.\<close>

fun send_burst ::
  "nat \<Rightarrow> int \<Rightarrow> chunkClientOptions \<Rightarrow> session_id \<Rightarrow> u64 \<Rightarrow> bytes \<Rightarrow> conn
   \<Rightarrow> (int \<times> goerr) option \<times> conn" where
  "send_burst 0 i opts sid seq payload c = (None, c)"
| "send_burst (Suc n) i opts sid seq payload c =
     (case WriteRequestProfileEncoding c ModeProbe sid seq payload (o_headerMask opts)
             (cp_clear (o_coverProfile opts)) of
        (Some e, c) \<Rightarrow> (Some (i, e), c)
      | (None, c) \<Rightarrow> send_burst n (i + 1) opts sid (seq + 1) payload c)"

fun read_acks :: "nat \<Rightarrow> chunkClientOptions \<Rightarrow> stream \<Rightarrow> goerr option" where
  "read_acks 0 opts s = None"
| "read_acks (Suc n) opts s = (case ReadResponseProfile s (o_headerMask opts) of
     Inl e \<Rightarrow> Some e
   | Inr ((status, body), s) \<Rightarrow>
     if status \<noteq> StatusOK
     then Some (Msg (''upload status='' @ dec (unat status) @ '' body='' @ string_of body))
     else read_acks n opts s)"

text \<open>The download probe: \<open>n\<close> DATA records that must each be the pattern.\<close>

fun read_patterns ::
  "nat \<Rightarrow> int \<Rightarrow> chunkClientOptions \<Rightarrow> session_id \<Rightarrow> u64 \<Rightarrow> int \<Rightarrow> stream \<Rightarrow> iperfProbeResult" where
  "read_patterns 0 got opts sid seq candidate s = probe_done got"
| "read_patterns (Suc n) got opts sid seq candidate s =
     (case ReadResponseProfile s (o_headerMask opts) of Inl e \<Rightarrow> probe_error got e
      | Inr ((status, body), s) \<Rightarrow>
        let body = (if status \<noteq> StatusError \<and> body \<noteq> [] \<and> \<not> cp_clear (o_coverProfile opts)
                    then DecodeMaskedResponse status body sid ModeProbe seq else body) in
        if status \<noteq> StatusData \<or> body \<noteq> probePattern (nat candidate)
        then probe_error got (Msg (''download validation failed status='' @ dec (unat status)
               @ '' len='' @ dec (length body) @ '' want='' @ dec_int candidate))
        else read_patterns n (got + int (length body)) opts sid (seq + 1) candidate s)"

definition probeIperfOne ::
  "bytes \<Rightarrow> chunkClientOptions \<Rightarrow> byte \<Rightarrow> int \<Rightarrow> world \<Rightarrow> iperfProbeResult \<times> world" where
  "probeIperfOne token opts kind candidate w =
     (let count = ProbeBurstCount candidate in
      case dialProbeConn opts w of (Inl e, w) \<Rightarrow> (probe_error 0 e, w)
      | (Inr (k, c), w) \<Rightarrow>
        (case randomSessionID w of (Inl e, w) \<Rightarrow> (probe_error 0 e, log_event (Closed k) w)
         | (Inr sid, w) \<Rightarrow>
           let w = w\<lparr>w_probeSeq := w_probeSeq w + word_of_int count\<rparr>;
               startSeq = w_probeSeq w - word_of_int count + 1 in
           if kind = ProbeUpload then
             let payload = makeProbePayload ProbeIperfUpload candidate candidate token;
                 totalBytes = int (length payload) * count;
                 w = log_event (Requested k ModeProbe startSeq payload) w in
             (case send_burst (nat count) 0 opts sid startSeq payload c of
                (Some (i, e), c) \<Rightarrow> (probe_error (i * int (length payload)) e, log_event (Closed k) w)
              | (None, c) \<Rightarrow>
                (case read_acks (nat count) opts (c_in c) of
                   Some e \<Rightarrow> (probe_error totalBytes e, log_event (Closed k) w)
                 | None \<Rightarrow> (probe_done totalBytes, log_event (Closed k) w)))
           else if kind = ProbeDownload then
             let payload = makeProbePayload ProbeIperfDownload candidate 0 token;
                 w = log_event (Requested k ModeProbe startSeq payload) w in
             (case WriteRequestProfileEncoding c ModeProbe sid startSeq payload (o_headerMask opts)
                     (cp_clear (o_coverProfile opts)) of
                (Some e, c) \<Rightarrow> (probe_error 0 e, log_event (Closed k) w)
              | (None, c) \<Rightarrow>
                (read_patterns (nat count) 0 opts sid startSeq candidate (c_in c), log_event (Closed k) w))
           else (probe_error 0 (Msg (''unknown iperf probe kind '' @ dec (unat kind))), log_event (Closed k) w)))"

section \<open>Workers\<close>

definition calculateParallelWorkers :: "int \<Rightarrow> int" where
  "calculateParallelWorkers chunkSize =
     (if chunkSize \<le> 0 then 64
      else let workers = 1048576 sdiv chunkSize;
               workers = (if 1048576 smod chunkSize \<noteq> 0 then workers + 1 else workers);
               workers = (if workers < 1 then 1 else workers)
           in if workers > 64 then 64 else workers)"

definition CalculateParallelWorkers :: "int \<Rightarrow> int" where
  "CalculateParallelWorkers chunkSize =
     (if chunkSize \<le> 0 then 64
      else let workers = 1048576 sdiv chunkSize;
               workers = (if 1048576 smod chunkSize \<noteq> 0 then workers + 1 else workers);
               workers = (if workers < 1 then 1 else workers)
           in if workers > 64 then 64 else workers)"

section \<open>The two-of-three decision\<close>

text \<open>
  The closure \<^verbatim>\<open>observe\<close> and the variables it captures. Which errors count as
  timeouts is what the two copies of the code differ in: an argument.
\<close>

record tally =
  ta_successes :: nat
  ta_failures :: nat
  ta_lastSuccess :: iperfProbeResult
  ta_lastFailure :: iperfProbeResult
  ta_lastTimeout :: iperfProbeResult

definition new_tally :: tally where
  "new_tally = \<lparr>ta_successes = 0, ta_failures = 0, ta_lastSuccess = zero_result,
     ta_lastFailure = zero_result, ta_lastTimeout = zero_result\<rparr>"

definition observe :: "(goerr option \<Rightarrow> bool) \<Rightarrow> iperfProbeResult \<Rightarrow> tally \<Rightarrow> tally" where
  "observe tmo r t =
     (if pr_ok r then t\<lparr>ta_successes := Suc (ta_successes t), ta_lastSuccess := r\<rparr>
      else if tmo (pr_err r) then t\<lparr>ta_lastTimeout := r\<rparr>
      else t\<lparr>ta_failures := Suc (ta_failures t), ta_lastFailure := r\<rparr>)"

type_synonym 'w prober = "int \<Rightarrow> 'w \<Rightarrow> iperfProbeResult \<times> 'w"

fun confirm_loop ::
  "(goerr option \<Rightarrow> bool) \<Rightarrow> 'w prober \<Rightarrow> int \<Rightarrow> nat \<Rightarrow> tally \<Rightarrow> 'w \<Rightarrow> tally \<times> 'w" where
  "confirm_loop tmo probe candidate 0 t w = (t, w)"
| "confirm_loop tmo probe candidate (Suc n) t w =
     (if ta_successes t < 2 \<and> ta_failures t < 2 then
        (case probe candidate w of (r, w) \<Rightarrow> confirm_loop tmo probe candidate n (observe tmo r t) w)
      else (t, w))"

definition calibrationDecisionAttempts :: nat where "calibrationDecisionAttempts = 3"

definition decide :: "tally \<Rightarrow> iperfProbeResult" where
  "decide t =
     (if ta_successes t \<ge> 2 then ta_lastSuccess t
      else if ta_failures t \<ge> 2 then ta_lastFailure t
      else if pr_err (ta_lastTimeout t) \<noteq> None then ta_lastTimeout t
      else if ta_successes t > ta_failures t \<and> pr_ok (ta_lastSuccess t) then ta_lastSuccess t
      else ta_lastFailure t)"

definition confirm_result ::
  "(goerr option \<Rightarrow> bool) \<Rightarrow> 'w prober \<Rightarrow> int \<Rightarrow> iperfProbeResult \<Rightarrow> 'w \<Rightarrow> iperfProbeResult \<times> 'w" where
  "confirm_result tmo probe candidate first w =
     (case confirm_loop tmo probe candidate (calibrationDecisionAttempts - 1) (observe tmo first new_tally) w
      of (t, w) \<Rightarrow> (decide t, w))"

definition confirmIperfResult ::
  "'w prober \<Rightarrow> int \<Rightarrow> iperfProbeResult \<Rightarrow> 'w \<Rightarrow> iperfProbeResult \<times> 'w" where
  "confirmIperfResult = confirm_result isTransportTimeout"

section \<open>The ascending search\<close>

definition calibrationFineResolution :: int where "calibrationFineResolution = 32"

text \<open>The next size after one that works, or \<open>None\<close> where the code returns it.\<close>

definition next_up :: "int \<Rightarrow> int \<Rightarrow> int \<Rightarrow> int option" where
  "next_up mn mx candidate =
     (if candidate \<ge> mx then None
      else let n = candidate * 4;
               n = (if candidate = mn \<and> n < 512 \<and> mx \<ge> 512 then 512 else n);
               n = (if n > mx then mx else n)
           in if n \<le> candidate then None else Some n)"

lemma next_up_bounds: "next_up mn mx c = Some n \<Longrightarrow> c < n \<and> n \<le> mx"
  by (auto simp: next_up_def Let_def split: if_splits)

text \<open>\<^verbatim>\<open>for bad-good > fine\<close>\<close>

function refine ::
  "(goerr option \<Rightarrow> bool) \<Rightarrow> 'w prober \<Rightarrow> int \<Rightarrow> int \<Rightarrow> int \<Rightarrow> 'w \<Rightarrow> int \<times> 'w" where
  "refine tmo probe fine good bad w =
     (if bad - good > fine then
        let n = good + (bad - good) sdiv 2 in
        if n \<le> good \<or> n \<ge> bad then (good, w)
        else (case probe n w of (r, w1) \<Rightarrow> (case confirm_result tmo probe n r w1 of (r, w2) \<Rightarrow>
          if pr_ok r then refine tmo probe fine n bad w2
          else if tmo (pr_err r) then (good, w2)
          else refine tmo probe fine good n w2))
      else (good, w))"
  by pat_completeness auto
termination
  by (relation "measure (\<lambda>(tmo, probe, fine, good, bad, w). nat (bad - good))") auto

declare refine.simps [simp del]

text \<open>The ascending loop; a size that only passed on the retry goes the same way as one that passed.\<close>

function ascend ::
  "(goerr option \<Rightarrow> bool) \<Rightarrow> 'w prober \<Rightarrow> int \<Rightarrow> int \<Rightarrow> int \<Rightarrow> int \<Rightarrow> int \<Rightarrow> 'w \<Rightarrow> int \<times> 'w" where
  "ascend tmo probe fine mn mx good candidate w =
     (case probe candidate w of (r0, w1) \<Rightarrow>
      (case (if pr_ok r0 then (r0, w1) else confirm_result tmo probe candidate r0 w1) of (r, w2) \<Rightarrow>
       if pr_ok r then
         (case next_up mn mx candidate of
            None \<Rightarrow> ((if candidate \<ge> mx then mx else candidate), w2)
          | Some n \<Rightarrow> ascend tmo probe fine mn mx candidate n w2)
       else if tmo (pr_err r) then ((if good = 0 then mn else good), w2)
       else if good = 0 then (mn, w2)
       else refine tmo probe fine good candidate w2))"
  by pat_completeness auto
termination
  by (relation "measure (\<lambda>(tmo, probe, fine, mn, mx, good, candidate, w). nat (mx - candidate))")
    (auto dest: next_up_bounds)

declare ascend.simps [simp del]

definition start_candidate :: "int \<Rightarrow> int \<Rightarrow> int" where
  "start_candidate mn mx = (let c = (if mn < 32 then 32 else mn) in if c > mx then mx else c)"

definition probeMaximum :: "'w prober \<Rightarrow> chunkClientOptions \<Rightarrow> 'w \<Rightarrow> int \<times> 'w" where
  "probeMaximum probe opts w =
     ascend isTransportTimeout probe calibrationFineResolution (minSize opts) (maxSize opts) 0
       (start_candidate (minSize opts) (maxSize opts)) w"

section \<open>The descending search\<close>

definition maxFirstCoarseStep :: int where "maxFirstCoarseStep = 128 * 1024"
definition maxFirstFineResolution :: int where "maxFirstFineResolution = calibrationFineResolution"

lemma half_pos: "0 < (x :: int) sdiv 2 \<Longrightarrow> 0 < x \<and> x sdiv 2 < x"
proof -
  assume a: "0 < x sdiv 2"
  have "\<not> x \<le> 0"
  proof
    assume "x \<le> 0"
    then have "x sdiv 2 \<le> 0" by (simp add: signed_divide_int_def sgn_if)
    with a show False by simp
  qed
  then show ?thesis by simp
qed

text \<open>The fine boundary search of MAX-FIRST: one probe decides.\<close>

function refine_once :: "'w prober \<Rightarrow> int \<Rightarrow> int \<Rightarrow> int \<Rightarrow> 'w \<Rightarrow> int \<times> 'w" where
  "refine_once probe fine good bad w =
     (if bad - good > fine then
        let n = good + (bad - good) sdiv 2 in
        if n \<le> good then (good, w)
        else (case probe n w of (r, w1) \<Rightarrow>
          if pr_ok r then refine_once probe fine n bad w1
          else if isTransportTimeout (pr_err r) then (good, w1)
          else refine_once probe fine good n w1)
      else (good, w))"
  by pat_completeness auto
termination
  by (relation "measure (\<lambda>(probe, fine, good, bad, w). nat (bad - good))")
    (auto simp: not_le dest!: half_pos)

declare refine_once.simps [simp del]

text \<open>The coarse descent: what it answers, or the known-good size and the failure above it.\<close>

function descend :: "'w prober \<Rightarrow> int \<Rightarrow> int \<Rightarrow> int \<Rightarrow> 'w \<Rightarrow> (int + int \<times> int) \<times> 'w" where
  "descend probe mn candidate failedHigh w =
     (case probe candidate w of (r, w1) \<Rightarrow>
       if pr_ok r then ((if failedHigh = 0 then Inl candidate else Inr (candidate, failedHigh)), w1)
       else if isTransportTimeout (pr_err r) then (Inl candidate, w1)
       else if candidate \<le> mn then (Inl mn, w1)
       else let n = candidate - maxFirstCoarseStep;
                n = (if n < mn then mn else n);
                n = (if n \<ge> candidate then mn else n)
            in descend probe mn n candidate w1)"
  by pat_completeness auto
termination
  by (relation "measure (\<lambda>(probe, mn, candidate, failedHigh, w). nat (candidate - mn))")
    (auto simp: maxFirstCoarseStep_def Let_def)

declare descend.simps [simp del]

definition probeMaximumMaxFirst :: "'w prober \<Rightarrow> chunkClientOptions \<Rightarrow> 'w \<Rightarrow> int \<times> 'w" where
  "probeMaximumMaxFirst probe opts w =
     (let candidate = (if maxSize opts < minSize opts then minSize opts else maxSize opts) in
      case descend probe (minSize opts) candidate 0 w of
        (Inl c, w) \<Rightarrow> (c, w)
      | (Inr (good, bad), w) \<Rightarrow> refine_once probe maxFirstFineResolution good bad w)"

section \<open>Probes over a lane\<close>

definition probe_timeout :: "chunkClientOptions \<Rightarrow> int" where
  "probe_timeout opts =
     (if txnTimeout opts \<le> 0 \<or> txnTimeout opts > 2500000000 then 2500000000 else txnTimeout opts)"

text \<open>\<^verbatim>\<open>probeSeq.Add(1)\<close>\<close>

definition next_probeSeq :: "world \<Rightarrow> u64 \<times> world" where
  "next_probeSeq w = (w_probeSeq w + 1, w\<lparr>w_probeSeq := w_probeSeq w + 1\<rparr>)"

definition probeOne ::
  "string \<Rightarrow> bytes \<Rightarrow> chunkClientOptions \<Rightarrow> byte \<Rightarrow> int \<Rightarrow> world \<Rightarrow> bool \<times> world" where
  "probeOne serverAddr token opts kind candidate w =
     (case randomSessionID w of (Inl e, w) \<Rightarrow> (False, w)
      | (Inr sid, w) \<Rightarrow>
        let lane = newRequestLane serverAddr (o_tcpBuffer opts) 1 (probe_timeout opts)
              (o_headerMask opts) (o_coverProfile opts);
            (seq, w) = next_probeSeq w;
            payload = makeProbePayload kind candidate (if kind = ProbeUpload then candidate else 0) token;
            (res, lane, w) = single ModeProbe sid seq payload lane w;
            ok = (case res of Inl e \<Rightarrow> False
              | Inr (status, body) \<Rightarrow>
                if kind = ProbeUpload then status = StatusOK
                else if kind = ProbeDownload
                then status = StatusData \<and> int (length body) = candidate
                  \<and> body = probePattern (nat candidate)
                else status = StatusOK)
        in (ok, snd (closeLane lane w)))"

fun persistent_loop ::
  "nat \<Rightarrow> int \<Rightarrow> bytes \<Rightarrow> session_id \<Rightarrow> requestLane \<Rightarrow> world \<Rightarrow> bool \<times> requestLane \<times> world" where
  "persistent_loop 0 i token sid lane w = (True, lane, w)"
| "persistent_loop (Suc n) i token sid lane w =
     (case next_probeSeq w of (seq, w) \<Rightarrow>
      (case single ModeProbe sid seq
          (makeProbePayload ProbeKeepalive i (32 + int (length token)) token) lane w of
         (Inr (status, body), lane, w) \<Rightarrow>
           if status \<noteq> StatusOK then (False, lane, w)
           else persistent_loop n (i + 1) token sid lane w
       | (Inl e, lane, w) \<Rightarrow> (False, lane, w)))"

definition probePersistent ::
  "string \<Rightarrow> bytes \<Rightarrow> chunkClientOptions \<Rightarrow> world \<Rightarrow> bool \<times> world" where
  "probePersistent serverAddr token opts w =
     (case randomSessionID w of (Inl e, w) \<Rightarrow> (False, w)
      | (Inr sid, w) \<Rightarrow>
        (case persistent_loop 8 0 token sid
            (newRequestLane serverAddr (o_tcpBuffer opts) 0 (probe_timeout opts)
              (o_headerMask opts) (o_coverProfile opts)) w of
           (ok, lane, w) \<Rightarrow> (ok, snd (closeLane lane w))))"

section \<open>The path profile and its cache\<close>

record pathProfile =
  pp_upload :: int
  pp_download :: int
  pp_pollers :: int
  pp_persistent :: bool
  pp_at :: int

record profileState =
  ps_key :: string
  ps_p :: pathProfile

definition fmt_bool :: "bool \<Rightarrow> string" where
  "fmt_bool b = (if b then ''true'' else ''false'')"

definition hex_digit :: "nat \<Rightarrow> char" where
  "hex_digit d = (if d < 10 then char_of (48 + d) else char_of (87 + d))"

fun fmt_hex :: "nat \<Rightarrow> nat \<Rightarrow> string" where
  "fmt_hex 0 n = []"
| "fmt_hex (Suc k) n = fmt_hex k (n div 16) @ [hex_digit (n mod 16)]"

definition path_key :: "string \<Rightarrow> bytes \<Rightarrow> chunkClientOptions \<Rightarrow> string" where
  "path_key serverAddr token opts =
     serverAddr @ ''|'' @ string_of token @ ''|'' @ dec_int (minSize opts) @ ''|'' @ dec_int (maxSize opts)
     @ ''|'' @ fmt_hex 2 (unat (o_headerMask opts)) @ ''|'' @ fmt_bool (cp_enabled (o_coverProfile opts))
     @ ''|'' @ fmt_hex 4 (unat (cp_id (o_coverProfile opts)))
     @ ''|'' @ dec_int (int (unat (cp_padding (o_coverProfile opts))))
     @ ''|'' @ fmt_bool (cp_clear (o_coverProfile opts))
     @ ''|maxfirst='' @ fmt_bool (forceMaxStart opts) @ ''|shrink='' @ dec_int (o_shrinkAfter opts)
     @ ''|step='' @ dec_int (o_shrinkStep opts)"

text \<open>
  \<open>now\<close> is read once, where the source reads the clock for the age of the cached profile and
  again, moments later, for its own. The sustained throughput test that may follow is theory
  \<^verbatim>\<open>Sustained\<close>.
\<close>

definition getPathProfile ::
  "string \<Rightarrow> bytes \<Rightarrow> chunkClientOptions \<Rightarrow> int \<Rightarrow> profileState \<Rightarrow> world
   \<Rightarrow> pathProfile \<times> profileState \<times> world" where
  "getPathProfile serverAddr token opts now st w =
     (let key = path_key serverAddr token opts in
      if ps_key st = key \<and> now - pp_at (ps_p st) < 1800000000000 then (ps_p st, st, w)
      else
        let (up, w) = (if forceMaxStart opts
              then probeMaximumMaxFirst (probeIperfOne token opts ProbeUpload) opts w
              else probeMaximum (probeIperfOne token opts ProbeUpload) opts w);
            (down, w) = (if forceMaxStart opts
              then probeMaximumMaxFirst (probeIperfOne token opts ProbeDownload) opts w
              else probeMaximum (probeIperfOne token opts ProbeDownload) opts w);
            (persistent, w) = probePersistent serverAddr token opts w;
            p = \<lparr>pp_upload = up, pp_download = down,
                 pp_pollers = calculateParallelWorkers (min up down),
                 pp_persistent = persistent, pp_at = now\<rparr>
        in (p, \<lparr>ps_key = key, ps_p = p\<rparr>, w))"


section \<open>What the searches keep of the world\<close>

lemma confirm_loop_keeps:
  assumes "\<And>c w. P w \<Longrightarrow> P (snd (probe c w))"
  shows "P w \<Longrightarrow> P (snd (confirm_loop tmo probe c n t w))"
proof (induction n arbitrary: t w)
  case (Suc n)
  with assms [of w c] show ?case by (auto split: prod.split)
qed simp

lemma confirm_result_keeps:
  assumes "\<And>c w. P w \<Longrightarrow> P (snd (probe c w))" and "P w"
  shows "P (snd (confirm_result tmo probe c r w))"
  using confirm_loop_keeps [of P probe w tmo c 2 "observe tmo r new_tally"] assms
  by (auto simp: confirm_result_def calibrationDecisionAttempts_def split: prod.split)

lemma refine_keeps:
  assumes "\<And>c w. P w \<Longrightarrow> P (snd (probe c w))" and "P w"
  shows "P (snd (refine tmo probe fine good bad w))"
  using assms
proof (induction tmo probe fine good bad w rule: refine.induct)
  case (1 tmo probe fine good bad w)
  let ?n = "good + (bad - good) sdiv 2"
  obtain r w1 where p: "probe ?n w = (r, w1)" by fastforce
  obtain r2 w2 where q: "confirm_result tmo probe ?n r w1 = (r2, w2)" by fastforce
  have "P w1" using "1.prems"(1) [OF "1.prems"(2), of ?n] p by simp
  then have "P w2" using confirm_result_keeps [of P probe w1 tmo ?n r] "1.prems"(1) q by simp
  with "1.IH" [of ?n r w1] p q "1.prems" show ?case
    by (auto simp: refine.simps [of tmo probe fine good bad w] Let_def simp del: sdiv_pos)
qed

lemma ascend_keeps:
  assumes "\<And>c w. P w \<Longrightarrow> P (snd (probe c w))" and "P w"
  shows "P (snd (ascend tmo probe fine mn mx good c w))"
  using assms
proof (induction tmo probe fine mn mx good c w rule: ascend.induct)
  case (1 tmo probe fine mn mx good c w)
  obtain r0 w1 where p: "probe c w = (r0, w1)" by fastforce
  obtain r w2 where q: "(if pr_ok r0 then (r0, w1) else confirm_result tmo probe c r0 w1) = (r, w2)" by fastforce
  have "P w1" using "1.prems"(1) [OF "1.prems"(2), of c] p by simp
  then have w2: "P w2"
    using confirm_result_keeps [of P probe w1 tmo c r0] "1.prems"(1) q by (auto split: if_splits)
  note s = ascend.simps [of tmo probe fine mn mx good c w]
  show ?case
  proof (cases "pr_ok r")
    case True
    show ?thesis
    proof (cases "next_up mn mx c")
      case None
      with p q True w2 show ?thesis by (simp add: s)
    next
      case (Some n)
      with "1.IH" [OF p [symmetric] q [symmetric] True Some "1.prems"(1) w2] p q True
      show ?thesis by (simp add: s)
    qed
  next
    case False
    with p q w2 refine_keeps [of P probe w2 tmo fine good c] "1.prems"(1) show ?thesis by (simp add: s)
  qed
qed

lemma refine_once_keeps:
  assumes "\<And>c w. P w \<Longrightarrow> P (snd (probe c w))" and "P w"
  shows "P (snd (refine_once probe fine good bad w))"
  using assms
proof (induction probe fine good bad w rule: refine_once.induct)
  case (1 probe fine good bad w)
  let ?n = "good + (bad - good) sdiv 2"
  obtain r w1 where p: "probe ?n w = (r, w1)" by fastforce
  have "P w1" using "1.prems"(1) [OF "1.prems"(2), of ?n] p by simp
  with "1.IH" [of ?n r w1] p "1.prems" show ?case
    by (auto simp: refine_once.simps [of probe fine good bad w] Let_def simp del: sdiv_pos)
qed

lemma descend_keeps:
  assumes "\<And>c w. P w \<Longrightarrow> P (snd (probe c w))" and "P w"
  shows "P (snd (descend probe mn c fh w))"
  using assms
proof (induction probe mn c fh w rule: descend.induct)
  case (1 probe mn c fh w)
  obtain r w1 where p: "probe c w = (r, w1)" by fastforce
  have "P w1" using "1.prems"(1) [OF "1.prems"(2), of c] p by simp
  with "1.IH" [OF p [symmetric]] p "1.prems" show ?case
    by (auto simp: descend.simps [of probe mn c fh w] Let_def)
qed

lemma probeMaximum_keeps:
  "(\<And>c w. P w \<Longrightarrow> P (snd (probe c w))) \<Longrightarrow> P w \<Longrightarrow> P (snd (probeMaximum probe opts w))"
  unfolding probeMaximum_def by (rule ascend_keeps)

lemma probeMaximumMaxFirst_keeps:
  assumes "\<And>c w. P w \<Longrightarrow> P (snd (probe c w))" and "P w"
  shows "P (snd (probeMaximumMaxFirst probe opts w))"
proof -
  let ?c = "if maxSize opts < minSize opts then minSize opts else maxSize opts"
  obtain a w1 where d: "descend probe (minSize opts) ?c 0 w = (a, w1)" by fastforce
  with descend_keeps [of P probe w "minSize opts" ?c 0] assms have "P w1" by simp
  with refine_once_keeps [of P probe w1] assms(1) d show ?thesis
    by (cases a) (auto simp: probeMaximumMaxFirst_def Let_def split: prod.split)
qed

section \<open>Bounds of the result\<close>

lemma refine_bounds:
  "good < bad \<Longrightarrow> good \<le> fst (refine tmo probe fine good bad w) \<and> fst (refine tmo probe fine good bad w) < bad"
proof (induction tmo probe fine good bad w rule: refine.induct)
  case (1 tmo probe fine good bad w)
  let ?n = "good + (bad - good) sdiv 2"
  obtain r w1 where p: "probe ?n w = (r, w1)" by fastforce
  obtain r2 w2 where q: "confirm_result tmo probe ?n r w1 = (r2, w2)" by fastforce
  show ?case
  proof (cases "bad - good > fine \<and> \<not> (?n \<le> good \<or> ?n \<ge> bad)")
    case True
    with "1.IH"(1) [of ?n r w1 r2 w2] "1.IH"(2) [of ?n r w1 r2 w2] p q "1.prems" show ?thesis
      by (fastforce simp: refine.simps [of tmo probe fine good bad w] Let_def simp del: sdiv_pos)
  next
    case False
    with "1.prems" show ?thesis by (auto simp: refine.simps [of tmo probe fine good bad w] Let_def simp del: sdiv_pos)
  qed
qed

lemma ascend_bounds:
  "mn \<le> c \<Longrightarrow> c \<le> mx \<Longrightarrow> good = 0 \<or> mn \<le> good \<and> good < c \<Longrightarrow>
   mn \<le> fst (ascend tmo probe fine mn mx good c w) \<and> fst (ascend tmo probe fine mn mx good c w) \<le> mx"
proof (induction tmo probe fine mn mx good c w rule: ascend.induct)
  case (1 tmo probe fine mn mx good c w)
  obtain r0 w1 where p: "probe c w = (r0, w1)" by fastforce
  obtain r w2 where q: "(if pr_ok r0 then (r0, w1) else confirm_result tmo probe c r0 w1) = (r, w2)" by fastforce
  note s = ascend.simps [of tmo probe fine mn mx good c w]
  show ?case
  proof (cases "pr_ok r")
    case True
    show ?thesis
    proof (cases "next_up mn mx c")
      case None
      with p q True "1.prems" show ?thesis by (simp add: s)
    next
      case (Some n)
      with "1.IH" [OF p [symmetric] q [symmetric] True Some] p q True "1.prems" next_up_bounds [OF Some]
      show ?thesis by (simp add: s)
    qed
  next
    case False
    with p q "1.prems" refine_bounds [of good c tmo probe fine w2] show ?thesis by (auto simp: s)
  qed
qed

lemma start_candidate_bounds: "mn \<le> mx \<Longrightarrow> mn \<le> start_candidate mn mx \<and> start_candidate mn mx \<le> mx"
  by (simp add: start_candidate_def Let_def)

lemma probeMaximum_bounds:
  "minSize opts \<le> maxSize opts \<Longrightarrow>
   minSize opts \<le> fst (probeMaximum probe opts w) \<and> fst (probeMaximum probe opts w) \<le> maxSize opts"
  unfolding probeMaximum_def using start_candidate_bounds by (intro ascend_bounds) auto

lemma refine_once_bounds:
  "good < bad \<Longrightarrow> good \<le> fst (refine_once probe fine good bad w) \<and> fst (refine_once probe fine good bad w) < bad"
proof (induction probe fine good bad w rule: refine_once.induct)
  case (1 probe fine good bad w)
  let ?n = "good + (bad - good) sdiv 2"
  obtain r w1 where p: "probe ?n w = (r, w1)" by fastforce
  show ?case
  proof (cases "bad - good > fine \<and> \<not> ?n \<le> good")
    case True
    then have "?n < bad" using half_pos [of "bad - good"] by (simp del: sdiv_pos)
    with True "1.IH"(1) [of ?n r w1] "1.IH"(2) [of ?n r w1] p "1.prems" show ?thesis
      by (fastforce simp: refine_once.simps [of probe fine good bad w] Let_def simp del: sdiv_pos)
  next
    case False
    with "1.prems" show ?thesis by (auto simp: refine_once.simps [of probe fine good bad w] Let_def simp del: sdiv_pos)
  qed
qed

lemma descend_bounds:
  assumes "mn \<le> c" and "1 \<le> mn" and "descend probe mn c fh w = (a, w')" and "fh = 0 \<or> c < fh \<and> fh \<le> mx" and "c \<le> mx"
  shows "(\<forall>x. a = Inl x \<longrightarrow> mn \<le> x \<and> x \<le> mx) \<and> (\<forall>g b. a = Inr (g, b) \<longrightarrow> mn \<le> g \<and> g < b \<and> b \<le> mx)"
  using assms
proof (induction probe mn c fh w arbitrary: a w' rule: descend.induct)
  case (1 probe mn c fh w)
  obtain r w1 where p: "probe c w = (r, w1)" by fastforce
  let ?n1 = "c - maxFirstCoarseStep" let ?n2 = "if ?n1 < mn then mn else ?n1"
  let ?n = "if ?n2 \<ge> c then mn else ?n2"
  note s = descend.simps [of probe mn c fh w]
  show ?case
  proof (cases "pr_ok r \<or> isTransportTimeout (pr_err r) \<or> c \<le> mn")
    case True
    with p "1.prems" show ?thesis by (auto simp: s split: if_splits)
  next
    case False
    with p "1.prems" have d: "descend probe mn ?n c w1 = (a, w')" by (simp add: s Let_def)
    have n: "mn \<le> ?n" "?n < c" using False by (auto simp: maxFirstCoarseStep_def)
    from "1.IH" [OF p [symmetric] _ _ _ refl refl refl _ _ d] False n "1.prems" show ?thesis by auto
  qed
qed

lemma probeMaximumMaxFirst_bounds:
  assumes "1 \<le> minSize opts" and "minSize opts \<le> maxSize opts"
  shows "minSize opts \<le> fst (probeMaximumMaxFirst probe opts w)
    \<and> fst (probeMaximumMaxFirst probe opts w) \<le> maxSize opts"
proof -
  obtain a w1 where d: "descend probe (minSize opts) (maxSize opts) 0 w = (a, w1)" by fastforce
  from descend_bounds [OF assms(2,1) d, of "maxSize opts"]
  have b: "(\<forall>x. a = Inl x \<longrightarrow> minSize opts \<le> x \<and> x \<le> maxSize opts)
    \<and> (\<forall>g b. a = Inr (g, b) \<longrightarrow> minSize opts \<le> g \<and> g < b \<and> b \<le> maxSize opts)" by simp
  show ?thesis
  proof (cases a)
    case (Inl x)
    with b d assms(2) show ?thesis by (simp add: probeMaximumMaxFirst_def Let_def)
  next
    case (Inr gb)
    obtain g bd where gb: "gb = (g, bd)" by fastforce
    with b Inr refine_once_bounds [of g bd probe maxFirstFineResolution w1] d assms(2) show ?thesis
      by (auto simp: probeMaximumMaxFirst_def Let_def)
  qed
qed

section \<open>A path with a size limit\<close>

text \<open>
  A carrier that passes records up to \<open>L\<close> bytes and rejects larger ones, where a record that
  fits may also fail now and then: after such a failure the next two runs of that size pass.
\<close>

definition limit_path :: "(goerr option \<Rightarrow> bool) \<Rightarrow> int \<Rightarrow> 'w prober \<Rightarrow> bool" where
  "limit_path tmo L probe \<longleftrightarrow> (\<forall>c w.
     if c \<le> L
     then \<not> pr_ok (fst (probe c w)) \<longrightarrow> \<not> tmo (pr_err (fst (probe c w)))
       \<and> pr_ok (fst (probe c (snd (probe c w)))) \<and> pr_ok (fst (probe c (snd (probe c (snd (probe c w))))))
     else \<not> pr_ok (fst (probe c w)) \<and> \<not> tmo (pr_err (fst (probe c w))))"

lemma limit_above:
  "limit_path tmo L probe \<Longrightarrow> L < c \<Longrightarrow> probe c w = (r, w') \<Longrightarrow> \<not> pr_ok r \<and> \<not> tmo (pr_err r)"
  unfolding limit_path_def by (drule spec [of _ c], drule spec [of _ w]) simp

lemma limit_below:
  "limit_path tmo L probe \<Longrightarrow> c \<le> L \<Longrightarrow> probe c w = (r, w1) \<Longrightarrow> \<not> pr_ok r \<Longrightarrow>
   probe c w1 = (r2, w2) \<Longrightarrow> probe c w2 = (r3, w3) \<Longrightarrow> \<not> tmo (pr_err r) \<and> pr_ok r2 \<and> pr_ok r3"
  unfolding limit_path_def by (drule spec [of _ c], drule spec [of _ w]) simp

lemma confirm_unfold:
  "confirm_result tmo probe c r w = (case confirm_loop tmo probe c (Suc (Suc 0)) (observe tmo r new_tally) w
     of (t, w) \<Rightarrow> (decide t, w))"
  by (simp only: confirm_result_def calibrationDecisionAttempts_def) (simp add: numeral_2_eq_2)

text \<open>The decision is right in spite of such failures, for the sizes that fit and for the others.\<close>

lemma confirm_limit:
  assumes lim: "limit_path tmo L probe" and p: "probe c w = (r, w1)"
    and d: "confirm_result tmo probe c r w1 = (r', w')"
  shows "pr_ok r' = (c \<le> L) \<and> (\<not> pr_ok r' \<longrightarrow> \<not> tmo (pr_err r'))"
proof -
  obtain r2 w2 where p2: "probe c w1 = (r2, w2)" by fastforce
  obtain r3 w3 where p3: "probe c w2 = (r3, w3)" by fastforce
  obtain r4 w4 where p4: "probe c w3 = (r4, w4)" by fastforce
  note obs = observe_def new_tally_def decide_def confirm_unfold
  show ?thesis
  proof (cases "c \<le> L")
    case True
    have a: "\<not> pr_ok r \<Longrightarrow> \<not> tmo (pr_err r) \<and> pr_ok r2 \<and> pr_ok r3"
      using limit_below [OF lim True p _ p2 p3] by simp
    have b: "\<not> pr_ok r2 \<Longrightarrow> \<not> tmo (pr_err r2) \<and> pr_ok r3"
      using limit_below [OF lim True p2 _ p3 p4] by simp
    show ?thesis
    proof (cases "pr_ok r")
      case ok: True
      show ?thesis using d p2 p3 True ok b by (cases "pr_ok r2") (auto simp: obs)
    next
      case False
      with d p2 p3 True a show ?thesis by (auto simp: obs)
    qed
  next
    case False
    then have l: "L < c" by simp
    note f = limit_above [OF lim l p] limit_above [OF lim l p2]
    with d p2 False show ?thesis by (auto simp: obs)
  qed
qed

lemma refine_limit:
  assumes "limit_path tmo L probe" and "1 \<le> fine" and "good \<le> L" and "L < bad"
  shows "fst (refine tmo probe fine good bad w) \<le> L \<and> L < fst (refine tmo probe fine good bad w) + fine"
  using assms
proof (induction tmo probe fine good bad w rule: refine.induct)
  case (1 tmo probe fine good bad w)
  let ?n = "good + (bad - good) sdiv 2"
  obtain r w1 where p: "probe ?n w = (r, w1)" by fastforce
  obtain r2 w2 where q: "confirm_result tmo probe ?n r w1 = (r2, w2)" by fastforce
  note s = refine.simps [of tmo probe fine good bad w]
  show ?case
  proof (cases "bad - good > fine")
    case True
    then have n: "good < ?n" "?n < bad" using "1.prems"(2) by (auto simp: sdiv_pos)
    note c = confirm_limit [OF "1.prems"(1) p q]
    show ?thesis
    proof (cases "?n \<le> L")
      case fits: True
      with c have "pr_ok r2" by simp
      with "1.IH"(1) [OF True refl _ p [symmetric] q [symmetric]] fits n "1.prems" True p q show ?thesis
        by (simp add: s Let_def del: sdiv_pos)
    next
      case False
      with c have "\<not> pr_ok r2" "\<not> tmo (pr_err r2)" by simp_all
      with "1.IH"(2) [OF True refl _ p [symmetric] q [symmetric]] False n "1.prems" True p q show ?thesis
        by (simp add: s Let_def del: sdiv_pos)
    qed
  next
    case False
    with "1.prems" show ?thesis by (simp add: s)
  qed
qed

lemma ascend_limit:
  assumes "limit_path tmo L probe" and "1 \<le> fine" and "1 \<le> mn" and "mn \<le> L" and "mn \<le> c" and "c \<le> mx"
    and "good = 0 \<and> c = mn \<or> mn \<le> good \<and> good \<le> L \<and> good < c"
  shows "(let x = fst (ascend tmo probe fine mn mx good c w) in x \<le> L \<and> (L < x + fine \<or> x = mx))"
  using assms
proof (induction tmo probe fine mn mx good c w rule: ascend.induct)
  case (1 tmo probe fine mn mx good c w)
  obtain r0 w1 where p: "probe c w = (r0, w1)" by fastforce
  obtain r w2 where q: "(if pr_ok r0 then (r0, w1) else confirm_result tmo probe c r0 w1) = (r, w2)" by fastforce
  note s = ascend.simps [of tmo probe fine mn mx good c w]
  have above: "pr_ok r0 \<Longrightarrow> c \<le> L" using limit_above [OF "1.prems"(1) _ p] by (meson not_le)
  have ok: "pr_ok r = (c \<le> L)" "\<not> pr_ok r \<Longrightarrow> \<not> tmo (pr_err r)"
    using q confirm_limit [OF "1.prems"(1) p, of r w2] above by (cases "pr_ok r0"; simp)+
  show ?case
  proof (cases "c \<le> L")
    case True
    with ok have r: "pr_ok r" by simp
    show ?thesis
    proof (cases "next_up mn mx c")
      case None
      then have c: "c = mx" using "1.prems" by (auto simp: next_up_def Let_def split: if_splits)
      then have "mx \<le> c" by simp
      with p q r None have "ascend tmo probe fine mn mx good c w = (mx, w2)" by (simp add: s)
      with c True show ?thesis by simp
    next
      case (Some n)
      with "1.IH" [OF p [symmetric] q [symmetric] r Some] p q r True "1.prems" next_up_bounds [OF Some]
      show ?thesis by (simp add: s)
    qed
  next
    case False
    then have nok: "\<not> pr_ok r" "\<not> tmo (pr_err r)" using ok by auto
    have g: "good \<noteq> 0" "good \<le> L" using "1.prems" False by auto
    from nok p q g have "ascend tmo probe fine mn mx good c w = refine tmo probe fine good c w2"
      by (simp add: s)
    with refine_limit [OF "1.prems"(1,2) g(2), of c w2] False show ?thesis by simp
  qed
qed

lemma ascend_below_minimum:
  assumes lim: "limit_path tmo L probe" and "L < c"
  shows "fst (ascend tmo probe fine mn mx 0 c w) = mn"
proof -
  obtain r0 w1 where p: "probe c w = (r0, w1)" by fastforce
  obtain r w2 where q: "confirm_result tmo probe c r0 w1 = (r, w2)" by fastforce
  from confirm_limit [OF lim p q] limit_above [OF lim assms(2) p] assms(2) p q
  show ?thesis by (simp add: ascend.simps [of tmo probe fine mn mx 0 c w])
qed

lemma ascending_limit:
  assumes lim: "limit_path tmo L probe" and "1 \<le> fine" and "32 \<le> mn" and "mn \<le> mx"
  shows "(let x = fst (ascend tmo probe fine mn mx 0 (start_candidate mn mx) w) in
    (mn \<le> L \<longrightarrow> x \<le> L \<and> (L < x + fine \<or> x = mx)) \<and> (L < mn \<longrightarrow> x = mn))"
proof -
  have s: "start_candidate mn mx = mn" using assms(3,4) by (simp add: start_candidate_def Let_def)
  show ?thesis
    using ascend_limit [OF lim assms(2), of mn mn mx 0 w] ascend_below_minimum [OF lim, of mn fine mn mx w] assms(3,4)
    by (auto simp: s Let_def)
qed

text \<open>The descending search trusts single runs, so it needs a carrier that is exact.\<close>

definition exact_path :: "int \<Rightarrow> 'w prober \<Rightarrow> bool" where
  "exact_path L probe \<longleftrightarrow> (\<forall>c w. pr_ok (fst (probe c w)) = (c \<le> L)
     \<and> \<not> isTransportTimeout (pr_err (fst (probe c w))))"

lemma exact_probe:
  "exact_path L probe \<Longrightarrow> probe c w = (r, w') \<Longrightarrow> pr_ok r = (c \<le> L) \<and> \<not> isTransportTimeout (pr_err r)"
  by (metis exact_path_def fst_conv)

lemma refine_once_limit:
  assumes "exact_path L probe" and "1 \<le> fine" and "good \<le> L" and "L < bad"
  shows "fst (refine_once probe fine good bad w) \<le> L \<and> L < fst (refine_once probe fine good bad w) + fine"
  using assms
proof (induction probe fine good bad w rule: refine_once.induct)
  case (1 probe fine good bad w)
  let ?n = "good + (bad - good) sdiv 2"
  obtain r w1 where p: "probe ?n w = (r, w1)" by fastforce
  note s = refine_once.simps [of probe fine good bad w]
  note e = exact_probe [OF "1.prems"(1) p]
  show ?case
  proof (cases "bad - good > fine")
    case True
    then have n: "good < ?n" using "1.prems"(2) by (auto simp: sdiv_pos)
    from "1.IH"(1) [OF True refl _ p [symmetric]] "1.IH"(2) [OF True refl _ p [symmetric]] n e "1.prems" True p
    show ?thesis by (simp add: s Let_def del: sdiv_pos isTransportTimeout_simps)
  next
    case False
    with "1.prems" show ?thesis by (simp add: s)
  qed
qed

lemma descend_limit:
  assumes "exact_path L probe" and "mn \<le> c" and "mn \<le> L" and "descend probe mn c fh w = (a, w')"
    and "fh = 0 \<or> L < fh" and "1 \<le> mn"
  shows "(\<forall>x. a = Inl x \<longrightarrow> fh = 0 \<and> x = c \<and> c \<le> L) \<and> (\<forall>g b. a = Inr (g, b) \<longrightarrow> g \<le> L \<and> L < b)"
  using assms
proof (induction probe mn c fh w arbitrary: a w' rule: descend.induct)
  case (1 probe mn c fh w)
  obtain r w1 where p: "probe c w = (r, w1)" by fastforce
  note e = exact_probe [OF "1.prems"(1) p]
  let ?n1 = "c - maxFirstCoarseStep" let ?n2 = "if ?n1 < mn then mn else ?n1"
  let ?n = "if ?n2 \<ge> c then mn else ?n2"
  note s = descend.simps [of probe mn c fh w]
  show ?case
  proof (cases "c \<le> L")
    case True
    with e p "1.prems" show ?thesis by (auto simp: s split: if_splits)
  next
    case False
    with e p "1.prems" have d: "descend probe mn ?n c w1 = (a, w')"
      by (simp add: s Let_def del: isTransportTimeout_simps)
    from "1.IH" [OF p [symmetric] _ _ _ refl refl refl "1.prems"(1) _ _ d] False e "1.prems"
    show ?thesis by auto
  qed
qed

lemma descend_below_minimum:
  assumes "exact_path L probe" and "mn \<le> c" and "L < mn" and "1 \<le> mn" and "descend probe mn c fh w = (a, w')"
  shows "a = Inl mn"
  using assms
proof (induction probe mn c fh w arbitrary: a w' rule: descend.induct)
  case (1 probe mn c fh w)
  obtain r w1 where p: "probe c w = (r, w1)" by fastforce
  note e = exact_probe [OF "1.prems"(1) p]
  let ?n1 = "c - maxFirstCoarseStep" let ?n2 = "if ?n1 < mn then mn else ?n1"
  let ?n = "if ?n2 \<ge> c then mn else ?n2"
  note s = descend.simps [of probe mn c fh w]
  show ?case
  proof (cases "c \<le> mn")
    case True
    moreover have "\<not> pr_ok r" "\<not> isTransportTimeout (pr_err r)" using e "1.prems"(2,3) by simp_all
    ultimately have "descend probe mn c fh w = (Inl mn, w1)"
      using p by (simp add: s del: isTransportTimeout_simps)
    with "1.prems"(5) show ?thesis by simp
  next
    case False
    with e p "1.prems" have d: "descend probe mn ?n c w1 = (a, w')"
      by (simp add: s Let_def del: isTransportTimeout_simps)
    from "1.IH" [OF p [symmetric] _ _ _ refl refl refl "1.prems"(1) _ _ _ d] False e "1.prems"
    show ?thesis by auto
  qed
qed

section \<open>Probes leave nothing open\<close>

definition quiet :: "nat set \<Rightarrow> world \<Rightarrow> bool" where
  "quiet X w \<longleftrightarrow> world_ok w \<and> live (w_log w) = X"

lemma quiet_rng [simp]: "quiet X (w\<lparr>w_rngn := n\<rparr>) = quiet X w" "quiet X (w\<lparr>w_probeSeq := s\<rparr>) = quiet X w"
  by (simp_all add: quiet_def world_ok_def)

lemma dialProbeConn_step:
  assumes "quiet X w" and "dialProbeConn opts w = (r, w')"
  shows "(\<forall>e. r = Inl e \<longrightarrow> quiet X w') \<and>
    (\<forall>k c. r = Inr (k, c) \<longrightarrow> k \<notin> X \<and> world_ok w' \<and> live (w_log w') = insert k X)"
proof -
  have "w_dialed w \<notin> live (w_log w)" "\<And>k. k \<in> live (w_log w) \<Longrightarrow> k < Suc (w_dialed w)"
    using assms(1) by (auto simp: quiet_def world_ok_def less_Suc_eq)
  with assms show ?thesis
    by (auto simp: dialProbeConn_def quiet_def world_ok_def take_rng_def Let_def
        split: sum.splits prod.splits option.splits)
qed

lemma quiet_closed:
  "k \<notin> X \<Longrightarrow> world_ok w \<Longrightarrow> live (w_log w) = insert k X \<Longrightarrow> quiet X (log_event (Closed k) w)"
  "k \<notin> X \<Longrightarrow> world_ok w \<Longrightarrow> live (w_log w) = insert k X \<Longrightarrow>
     quiet X (log_event (Closed k) (log_event (Requested k m q b) w))"
  by (auto simp: quiet_def world_ok_def)

lemma world_ok_seq [simp]: "world_ok (w\<lparr>w_probeSeq := s\<rparr>) = world_ok w" "world_ok (w\<lparr>w_rngn := n\<rparr>) = world_ok w"
  by (simp_all add: world_ok_def)

lemma randomSessionID_step:
  "randomSessionID w = (r, w') \<Longrightarrow> w' = w\<lparr>w_rngn := Suc (w_rngn w)\<rparr>"
  by (auto simp: randomSessionID_def take_rng_def split: sum.splits)

lemma probeIperfOne_quiet:
  assumes "quiet X w"
  shows "quiet X (snd (probeIperfOne token opts kind candidate w))"
proof -
  obtain r w1 where d: "dialProbeConn opts w = (r, w1)" by fastforce
  note ds = dialProbeConn_step [OF assms d]
  show ?thesis
  proof (cases r)
    case (Inl e)
    with d ds show ?thesis by (simp add: probeIperfOne_def Let_def)
  next
    case (Inr kc)
    obtain k c where kc: "kc = (k, c)" by fastforce
    with Inr ds have k: "k \<notin> X" "world_ok w1" "live (w_log w1) = insert k X" by auto
    obtain r2 w2 where rs: "randomSessionID w1 = (r2, w2)" by fastforce
    from randomSessionID_step [OF this] k have w2: "world_ok w2" "live (w_log w2) = insert k X" by simp_all
    show ?thesis
    proof (cases r2)
      case (Inl e)
      with d Inr kc rs quiet_closed(1) [OF k(1) w2] show ?thesis by (simp add: probeIperfOne_def Let_def)
    next
      case I2: (Inr sid)
      have w3: "world_ok (w2\<lparr>w_probeSeq := s\<rparr>)" "live (w_log (w2\<lparr>w_probeSeq := s\<rparr>)) = insert k X" for s
        using w2 by simp_all
      show ?thesis
        using d Inr kc rs I2 quiet_closed [OF k(1) w3]
        by (auto simp: probeIperfOne_def Let_def split: option.splits prod.splits)
    qed
  qed
qed

lemma lane_close_quiet:
  assumes "quiet X w" and "lane_ok l' w'" and "lane_step (newRequestLane a b n t hm p) w l' w'"
  shows "quiet X (snd (closeLane l' w'))"
proof -
  obtain l2 w2 where c: "closeLane l' w' = (l2, w2)" by fastforce
  from closeLane_step [OF assms(2) c]
  have "lane_ok l2 w2" "live (w_log w2) = live (w_log w') - owned l'" by simp_all
  moreover have "live (w_log w') - owned l' = X"
    using assms(1,3) by (simp add: lane_step_def quiet_def newRequestLane_def Let_def)
  ultimately show ?thesis using c by (simp add: quiet_def lane_ok_def lane_own_def)
qed

lemma probeOne_quiet:
  assumes "quiet X w"
  shows "quiet X (snd (probeOne serverAddr token opts kind candidate w))"
proof -
  obtain r w1 where r: "randomSessionID w = (r, w1)" by fastforce
  from randomSessionID_step [OF r] assms have q1: "quiet X w1" by simp
  show ?thesis
  proof (cases r)
    case (Inl e)
    with r q1 show ?thesis by (simp add: probeOne_def)
  next
    case (Inr sid)
    let ?w2 = "w1\<lparr>w_probeSeq := w_probeSeq w1 + 1\<rparr>"
    let ?l = "newRequestLane serverAddr (o_tcpBuffer opts) 1 (probe_timeout opts) (o_headerMask opts) (o_coverProfile opts)"
    have ok: "lane_ok ?l ?w2" using q1 by (simp add: lane_ok_new quiet_def)
    let ?pl = "makeProbePayload kind candidate (if kind = ProbeUpload then candidate else 0) token"
    obtain res l3 w3 where s: "single ModeProbe sid (w_probeSeq w1 + 1) ?pl ?l ?w2 = (res, l3, w3)"
      by (cases "single ModeProbe sid (w_probeSeq w1 + 1) ?pl ?l ?w2") auto
    from single_keeps [OF ok s] have k: "lane_ok l3 w3" "lane_step ?l ?w2 l3 w3" by simp_all
    have "quiet X ?w2" using q1 by simp
    from lane_close_quiet [OF this k] have "quiet X (snd (closeLane l3 w3))" .
    with r Inr s show ?thesis by (simp add: probeOne_def next_probeSeq_def Let_def)
  qed
qed

lemma persistent_loop_keeps:
  "lane_ok l w \<Longrightarrow> persistent_loop n i token sid l w = (ok, l', w') \<Longrightarrow> lane_ok l' w' \<and> lane_step l w l' w'"
proof (induction n arbitrary: i l w)
  case (Suc n)
  let ?w = "w\<lparr>w_probeSeq := w_probeSeq w + 1\<rparr>"
  have ok: "lane_ok l ?w" and st: "lane_step l w l ?w"
    using Suc.prems(1) by (simp_all add: lane_ok_def lane_own_def lane_step_def sends_def)
  let ?pl = "makeProbePayload ProbeKeepalive i (32 + int (length token)) token"
  obtain res l1 w1 where s: "single ModeProbe sid (w_probeSeq w + 1) ?pl l ?w = (res, l1, w1)"
    by (cases "single ModeProbe sid (w_probeSeq w + 1) ?pl l ?w") auto
  from single_keeps [OF ok s] st have k: "lane_ok l1 w1" "lane_step l w l1 w1" by (auto intro: lane_step_trans)
  show ?case
  proof (cases res)
    case (Inl e)
    with s k Suc.prems show ?thesis by (simp add: next_probeSeq_def)
  next
    case (Inr sb)
    with s k Suc.prems Suc.IH [OF k(1), of "i + 1"] show ?thesis
      by (auto simp: next_probeSeq_def split: prod.splits if_splits intro: lane_step_trans)
  qed
qed simp

lemma probePersistent_quiet:
  assumes "quiet X w"
  shows "quiet X (snd (probePersistent serverAddr token opts w))"
proof -
  obtain r w1 where r: "randomSessionID w = (r, w1)" by fastforce
  from randomSessionID_step [OF r] assms have q1: "quiet X w1" by simp
  show ?thesis
  proof (cases r)
    case (Inl e)
    with r q1 show ?thesis by (simp add: probePersistent_def)
  next
    case (Inr sid)
    let ?l = "newRequestLane serverAddr (o_tcpBuffer opts) 0 (probe_timeout opts) (o_headerMask opts) (o_coverProfile opts)"
    have ok: "lane_ok ?l w1" using q1 by (simp add: lane_ok_new quiet_def)
    obtain res l3 w3 where s: "persistent_loop 8 0 token sid ?l w1 = (res, l3, w3)"
      by (cases "persistent_loop 8 0 token sid ?l w1") auto
    from persistent_loop_keeps [OF ok s] have k: "lane_ok l3 w3" "lane_step ?l w1 l3 w3" by simp_all
    from lane_close_quiet [OF q1 k] have "quiet X (snd (closeLane l3 w3))" .
    with r Inr s show ?thesis by (simp add: probePersistent_def)
  qed
qed

section \<open>Properties\<close>


lemma sample_sizes [simp]: "minSize sample_options = 32" "maxSize sample_options = 4096"
  by (simp_all add: sample_options_def)

definition sample_path :: "int prober" where
  "sample_path c n = (if c \<le> 1500 \<and> n \<noteq> 3 then (probe_done c, n + 1)
     else (probe_error 0 (Msg ''rejected''), n + 1))"

lemma sample_path_limit: "limit_path isTransportTimeout 1500 sample_path"
  by (auto simp: limit_path_def sample_path_def probe_done_def probe_error_def)


text \<open>The descending MAX-FIRST search finds the limit of an exact carrier just as closely,
  starting from the ceiling.\<close>

theorem max_first_finds_limit:
  assumes "exact_path L probe" and "1 \<le> minSize opts" and "minSize opts \<le> maxSize opts"
  shows "(let x = fst (probeMaximumMaxFirst probe opts w) in
    (minSize opts \<le> L \<longrightarrow> x \<le> L \<and> (L < x + 32 \<or> x = maxSize opts)) \<and>
    (L < minSize opts \<longrightarrow> x = minSize opts))"
proof -
  obtain a w1 where d: "descend probe (minSize opts) (maxSize opts) 0 w = (a, w1)" by fastforce
  show ?thesis
  proof (cases "minSize opts \<le> L")
    case True
    from descend_limit [OF assms(1,3) True d _ assms(2)]
    have a: "\<forall>x. a = Inl x \<longrightarrow> x = maxSize opts \<and> maxSize opts \<le> L" "\<forall>g b. a = Inr (g, b) \<longrightarrow> g \<le> L \<and> L < b"
      by auto
    show ?thesis
    proof (cases a)
      case (Inl x)
      with a True d assms(3) show ?thesis by (simp add: probeMaximumMaxFirst_def Let_def)
    next
      case (Inr gb)
      obtain g b where gb: "gb = (g, b)" by fastforce
      with Inr a refine_once_limit [OF assms(1), of 32 g b w1] d True assms(3) show ?thesis
        by (simp add: probeMaximumMaxFirst_def Let_def maxFirstFineResolution_def calibrationFineResolution_def)
    qed
  next
    case False
    with descend_below_minimum [OF assms(1,3) _ assms(2) d] d assms(3) show ?thesis
      by (simp add: probeMaximumMaxFirst_def Let_def)
  qed
qed

definition exact_sample :: "unit prober" where
  "exact_sample c w = (if c \<le> 1500 then probe_done c else probe_error 0 (Msg ''rejected''), ())"

theorem max_first_finds_limit_witness:
  "let x = fst (probeMaximumMaxFirst exact_sample sample_options ()) in x \<le> 1500 \<and> (1500 < x + 32 \<or> x = 4096)"
proof -
  have "exact_path 1500 exact_sample"
    by (simp add: exact_path_def exact_sample_def probe_done_def probe_error_def)
  from max_first_finds_limit [OF this, of sample_options "()"] show ?thesis
    by (auto simp: Let_def)
qed

text \<open>The probes made, newest first, recorded next to the world.\<close>

definition traced :: "'w prober \<Rightarrow> (iperfProbeResult list \<times> 'w) prober" where
  "traced probe c st = (case st of (tr, w) \<Rightarrow> (case probe c w of (r, w') \<Rightarrow> (r, (r # tr, w'))))"

definition rejected :: "iperfProbeResult \<Rightarrow> bool" where
  "rejected r \<longleftrightarrow> \<not> pr_ok r \<and> \<not> isTransportTimeout (pr_err r)"

text \<open>The tally agrees with the runs seen.\<close>

definition tally_ok :: "tally \<Rightarrow> iperfProbeResult list \<Rightarrow> bool" where
  "tally_ok t tr \<longleftrightarrow> ta_successes t = length (filter pr_ok tr) \<and> ta_failures t = length (filter rejected tr)
     \<and> (0 < ta_successes t \<longrightarrow> pr_ok (ta_lastSuccess t)) \<and> (0 < ta_failures t \<longrightarrow> rejected (ta_lastFailure t))
     \<and> (if ta_successes t + ta_failures t < length tr
        then ta_lastTimeout t \<in> set tr \<and> \<not> pr_ok (ta_lastTimeout t) \<and> isTransportTimeout (pr_err (ta_lastTimeout t))
        else pr_err (ta_lastTimeout t) = None \<and> ta_successes t + ta_failures t = length tr)"

lemma ok_or_rejected: "length (filter pr_ok tr) + length (filter rejected tr) \<le> length tr"
  by (induction tr) (auto simp: rejected_def)

lemma tally_observe: "tally_ok t tr \<Longrightarrow> tally_ok (observe isTransportTimeout r t) (r # tr)"
  using ok_or_rejected [of tr]
  by (auto simp: tally_ok_def observe_def rejected_def simp del: isTransportTimeout_simps split: if_splits)

lemma tally_first: "tally_ok (observe isTransportTimeout r new_tally) [r]"
  by (rule tally_observe) (simp add: tally_ok_def new_tally_def zero_result_def)

lemma traced_step: "probe c w = (r, w1) \<Longrightarrow> traced probe c (tr, w) = (r, (r # tr, w1))"
  by (simp add: traced_def)

lemma tally_loop:
  "tally_ok t tr \<Longrightarrow> confirm_loop isTransportTimeout (traced probe) c n t (tr, w) = (t', (tr', w')) \<Longrightarrow>
   tally_ok t' tr' \<and> length tr' \<le> length tr + n
   \<and> (2 \<le> ta_successes t' \<or> 2 \<le> ta_failures t' \<or> length tr' = length tr + n)"
proof (induction n arbitrary: t tr w)
  case (Suc n)
  obtain r w1 where p: "probe c w = (r, w1)" by fastforce
  show ?case
  proof (cases "ta_successes t < 2 \<and> ta_failures t < 2")
    case True
    with Suc.prems p have "confirm_loop isTransportTimeout (traced probe) c n
        (observe isTransportTimeout r t) (r # tr, w1) = (t', (tr', w'))"
      by (simp add: traced_step)
    from Suc.IH [OF tally_observe [OF Suc.prems(1)] this] show ?thesis by auto
  next
    case False
    with Suc.prems show ?thesis by auto
  qed
qed simp

lemma decide_tally:
  assumes "tally_ok t tr" and "2 \<le> ta_successes t \<or> 2 \<le> ta_failures t \<or> length tr = 3"
  shows "(pr_ok (decide t) \<longrightarrow> 2 \<le> length (filter pr_ok tr)) \<and>
    (rejected (decide t) \<longrightarrow> 2 \<le> length (filter rejected tr)) \<and>
    (\<not> pr_ok (decide t) \<and> \<not> rejected (decide t) \<longrightarrow> decide t \<in> set tr)"
proof -
  have tm: "isTransportTimeout (pr_err x) \<Longrightarrow> pr_err x \<noteq> None" for x by (cases "pr_err x") auto
  consider (s) "2 \<le> ta_successes t" | (f) "ta_successes t < 2" "2 \<le> ta_failures t"
    | (n) "ta_successes t < 2" "ta_failures t < 2" "length tr = 3" using assms(2) by linarith
  then show ?thesis
  proof cases
    case s
    with assms(1) show ?thesis by (simp add: decide_def tally_ok_def rejected_def del: isTransportTimeout_simps)
  next
    case f
    with assms(1) show ?thesis by (simp add: decide_def tally_ok_def rejected_def del: isTransportTimeout_simps)
  next
    case n
    with assms(1) have l: "ta_lastTimeout t \<in> set tr" "\<not> pr_ok (ta_lastTimeout t)"
      "isTransportTimeout (pr_err (ta_lastTimeout t))"
      by (auto simp: tally_ok_def simp del: isTransportTimeout_simps split: if_splits)
    with n tm [OF l(3)] have "decide t = ta_lastTimeout t" by (simp add: decide_def)
    with l show ?thesis by (simp add: rejected_def del: isTransportTimeout_simps)
  qed
qed

text \<open>A size is accepted or rejected only on a two-of-three majority: at most three runs
  are made, a positive verdict needs two successes, a verdict that the size is too large needs
  two failures that were no timeouts, and otherwise the verdict is a timeout that happened.\<close>

theorem confirmation_majority:
  assumes "confirmIperfResult (traced probe) c first ([first], w) = (r, (tr, w'))"
  shows "length tr \<le> 3 \<and> (pr_ok r \<longrightarrow> 2 \<le> length (filter pr_ok tr)) \<and>
    (rejected r \<longrightarrow> 2 \<le> length (filter rejected tr)) \<and>
    (\<not> pr_ok r \<and> \<not> rejected r \<longrightarrow> r \<in> set tr)"
proof -
  let ?t = "observe isTransportTimeout first new_tally"
  obtain t where l: "confirm_loop isTransportTimeout (traced probe) c 2 ?t ([first], w) = (t, (tr, w'))"
    and r: "r = decide t"
    using assms by (auto simp: confirmIperfResult_def confirm_result_def calibrationDecisionAttempts_def
        simp del: confirm_loop.simps split: prod.splits)
  from tally_loop [OF tally_first l] have k: "tally_ok t tr" "length tr \<le> 3"
    "2 \<le> ta_successes t \<or> 2 \<le> ta_failures t \<or> length tr = 3" by auto
  with decide_tally [OF k(1,3)] r show ?thesis by simp
qed

theorem confirmation_majority_witness:
  "let (r, (tr, w')) = confirmIperfResult (traced exact_sample) 2000 (probe_error 0 (Msg ''rejected''))
       ([probe_error 0 (Msg ''rejected'')], ())
   in rejected r \<longrightarrow> 2 \<le> length (filter rejected tr)"
proof -
  obtain r tr w' where e: "confirmIperfResult (traced exact_sample) 2000 (probe_error 0 (Msg ''rejected''))
       ([probe_error 0 (Msg ''rejected'')], ()) = (r, (tr, w'))" by (metis prod.collapse)
  from confirmation_majority [OF e] show ?thesis by (simp add: e)
qed

text \<open>C30: The path profile is within the configured range, its number of workers between 1
  and 64, no connection stays open after the probing, and a profile measured for the same
  server, token, sizes, mask and cover is reused for thirty minutes without touching the
  network.\<close>

theorem path_profile_sound:
  assumes "world_ok w" and "1 \<le> minSize opts" and "minSize opts \<le> maxSize opts"
    and "\<not> (ps_key st = path_key srv token opts \<and> now - pp_at (ps_p st) < 1800000000000)"
    and "getPathProfile srv token opts now st w = (p, st', w')"
  shows "minSize opts \<le> pp_upload p \<and> pp_upload p \<le> maxSize opts
    \<and> minSize opts \<le> pp_download p \<and> pp_download p \<le> maxSize opts
    \<and> 1 \<le> pp_pollers p \<and> pp_pollers p \<le> 64
    \<and> live (w_log w') = live (w_log w)
    \<and> (\<forall>later w2. later - now < 1800000000000 \<longrightarrow> getPathProfile srv token opts later st' w2 = (p, st', w2))"
proof -
  let ?X = "live (w_log w)"
  define search where "search kind = (if forceMaxStart opts
     then probeMaximumMaxFirst (probeIperfOne token opts kind) opts
     else probeMaximum (probeIperfOne token opts kind) opts)" for kind
  obtain up w1 where u: "search ProbeUpload w = (up, w1)" by fastforce
  obtain dn w2 where d: "search ProbeDownload w1 = (dn, w2)" by fastforce
  obtain pe w3 where pe: "probePersistent srv token opts w2 = (pe, w3)" by fastforce
  have b: "minSize opts \<le> fst (search kind x) \<and> fst (search kind x) \<le> maxSize opts" for kind x
    by (simp add: search_def probeMaximum_bounds [OF assms(3)] probeMaximumMaxFirst_bounds [OF assms(2,3)])
  have q: "quiet ?X x \<Longrightarrow> quiet ?X (snd (search kind x))" for kind x
    by (auto simp: search_def intro: probeMaximum_keeps probeMaximumMaxFirst_keeps probeIperfOne_quiet)
  have "quiet ?X w" using assms(1) by (simp add: quiet_def)
  with q [of w ProbeUpload] q [of w1 ProbeDownload] probePersistent_quiet [of ?X w2 srv token opts] u d pe
  have w3: "quiet ?X w3" by simp
  have "getPathProfile srv token opts now st w =
    (let p = \<lparr>pp_upload = up, pp_download = dn, pp_pollers = calculateParallelWorkers (min up dn),
        pp_persistent = pe, pp_at = now\<rparr> in (p, \<lparr>ps_key = path_key srv token opts, ps_p = p\<rparr>, w3))"
    using assms(4) u d pe by (auto simp: getPathProfile_def Let_def search_def split: if_splits)
  with assms(5) have p: "p = \<lparr>pp_upload = up, pp_download = dn, pp_pollers = calculateParallelWorkers (min up dn),
        pp_persistent = pe, pp_at = now\<rparr>" "st' = \<lparr>ps_key = path_key srv token opts, ps_p = p\<rparr>" "w' = w3"
    by (auto simp: Let_def)
  have "1 \<le> calculateParallelWorkers x \<and> calculateParallelWorkers x \<le> 64" for x
    by (simp add: calculateParallelWorkers_def Let_def)
  moreover have "getPathProfile srv token opts later st' w2 = (p, st', w2)" if "later - now < 1800000000000" for later w2
    using that p by (simp add: getPathProfile_def Let_def)
  ultimately show ?thesis using p b [of ProbeUpload w] b [of ProbeDownload w1] u d w3 by (simp add: quiet_def)
qed

definition empty_profile :: profileState where
  "empty_profile = \<lparr>ps_key = [], ps_p = \<lparr>pp_upload = 0, pp_download = 0, pp_pollers = 0, pp_persistent = False, pp_at = 0\<rparr>\<rparr>"

theorem path_profile_sound_witness:
  "\<exists>p st' w'. getPathProfile ''s:53'' [1] sample_options 5 empty_profile silent_world = (p, st', w')
    \<and> 32 \<le> pp_upload p \<and> pp_upload p \<le> 4096 \<and> live (w_log w') = {}"
proof -
  obtain p st' w' where g: "getPathProfile ''s:53'' [1] sample_options 5 empty_profile silent_world = (p, st', w')"
    by (metis prod.collapse)
  have "\<not> (ps_key empty_profile = path_key ''s:53'' [1] sample_options \<and> 5 - pp_at (ps_p empty_profile) < 1800000000000)"
    by (simp add: empty_profile_def path_key_def)
  from path_profile_sound [OF silent_world_ok _ _ this g] g show ?thesis
    by (simp add: silent_world_def)
qed

text \<open>The worker count is the least that moves 1 MiB per round of chunks, capped at 64: one
  worker fewer would not reach it, and both files compute the same number.\<close>

theorem workers_cover_target:
  assumes "0 < chunk"
  shows "CalculateParallelWorkers chunk = calculateParallelWorkers chunk
    \<and> (calculateParallelWorkers chunk - 1) * chunk < 1048576
    \<and> (calculateParallelWorkers chunk < 64 \<longrightarrow> 1048576 \<le> calculateParallelWorkers chunk * chunk)"
proof -
  let ?q = "1048576 div chunk" and ?m = "1048576 mod chunk"
  have e: "1048576 = ?q * chunk + ?m" "0 \<le> ?m" "?m < chunk" "0 \<le> ?q"
    using assms by (simp_all add: pos_imp_zdiv_nonneg_iff)
  have m: "1048576 smod chunk = ?m" using assms by (simp add: signed_modulo_int_def)
  define k where "k = (if ?m \<noteq> 0 then ?q + 1 else ?q)"
  have k1: "1 \<le> k" using e unfolding k_def by (cases "?q = 0") auto
  have a: "(?q + 1) * chunk = ?q * chunk + chunk" "(?q - 1) * chunk = ?q * chunk - chunk"
    by (simp_all add: algebra_simps)
  have lo: "1048576 \<le> k * chunk"
  proof (cases "?m = 0")
    case True
    then have "k * chunk = ?q * chunk" by (simp add: k_def)
    with e True show ?thesis by linarith
  next
    case False
    then have "k * chunk = ?q * chunk + chunk" using a(1) by (simp add: k_def)
    with e show ?thesis by linarith
  qed
  have hi: "(k - 1) * chunk < 1048576"
  proof (cases "?m = 0")
    case True
    then have "(k - 1) * chunk = ?q * chunk - chunk" using a(2) by (simp add: k_def)
    with e assms True show ?thesis by linarith
  next
    case False
    then have "(k - 1) * chunk = ?q * chunk" by (simp add: k_def)
    with e False show ?thesis by linarith
  qed
  have w: "calculateParallelWorkers chunk = (if k > 64 then 64 else k)"
    using assms k1 by (auto simp: calculateParallelWorkers_def Let_def m k_def)
  have "CalculateParallelWorkers chunk = calculateParallelWorkers chunk"
    by (simp add: CalculateParallelWorkers_def calculateParallelWorkers_def)
  moreover have "(calculateParallelWorkers chunk - 1) * chunk < 1048576"
  proof (cases "k > 64")
    case True
    then have "63 * chunk \<le> (k - 1) * chunk" using assms by (intro mult_right_mono) auto
    with hi True show ?thesis by (simp add: w)
  next
    case False
    with hi show ?thesis by (simp add: w)
  qed
  ultimately show ?thesis using lo by (simp add: w)
qed

theorem workers_cover_target_witness:
  "(calculateParallelWorkers 16384 - 1) * 16384 < 1048576"
  using workers_cover_target [of 16384] by simp

text \<open>A download probe succeeds only if the server delivered the whole test pattern intact:
  when the run reports success, the stream of the connection started with a DATA response
  whose decoded body is the pattern of exactly the requested size.\<close>

theorem download_probe_means_delivered:
  assumes "pr_ok (read_patterns 1 got opts sid seq candidate (b, e))"
  shows "\<exists>body r. ReadResponseProfile (b, e) (o_headerMask opts) = Inr ((StatusData, body), r)
    \<and> (if cp_clear (o_coverProfile opts) then body else DecodeMaskedResponse StatusData body sid ModeProbe seq)
       = probePattern (nat candidate)
    \<and> pr_bytes (read_patterns 1 got opts sid seq candidate (b, e)) = got + int (nat candidate)"
proof (cases "ReadResponseProfile (b, e) (o_headerMask opts)")
  case (Inl x)
  with assms show ?thesis by (simp add: probe_error_def)
next
  case (Inr v)
  obtain status body r where v: "v = ((status, body), r)" by (metis prod.collapse)
  let ?b = "if status \<noteq> StatusError \<and> body \<noteq> [] \<and> \<not> cp_clear (o_coverProfile opts)
     then DecodeMaskedResponse status body sid ModeProbe seq else body"
  let ?fail = "probe_error got (Msg (''download validation failed status='' @ dec (unat status)
               @ '' len='' @ dec (length ?b) @ '' want='' @ dec_int candidate))"
  have eq: "read_patterns 1 got opts sid seq candidate (b, e) =
    (if status \<noteq> StatusData \<or> ?b \<noteq> probePattern (nat candidate) then ?fail
     else probe_done (got + int (length ?b)))"
    by (simp only: One_nat_def read_patterns.simps Inr v sum.case prod.case Let_def)
  have nok: "\<not> pr_ok ?fail" by (simp add: probe_error_def)
  have ok: "status = StatusData \<and> ?b = probePattern (nat candidate)"
  proof (rule ccontr)
    assume "\<not> ?thesis"
    then have "status \<noteq> StatusData \<or> ?b \<noteq> probePattern (nat candidate)" by blast
    then have "read_patterns 1 got opts sid seq candidate (b, e) = ?fail" unfolding eq by (rule if_P)
    with assms nok show False by (simp only:)
  qed
  then have "\<not> (status \<noteq> StatusData \<or> ?b \<noteq> probePattern (nat candidate))" by blast
  then have rp: "read_patterns 1 got opts sid seq candidate (b, e) = probe_done (got + int (length ?b))"
    unfolding eq by (rule if_not_P)
  have d: "?b = (if cp_clear (o_coverProfile opts) then body
      else DecodeMaskedResponse StatusData body sid ModeProbe seq)"
    using ok by (auto simp: DecodeMaskedResponse_def status_defs)
  have "length (probePattern (nat candidate)) = nat candidate" by (simp add: probePattern_def)
  then have l: "length ?b = nat candidate"
    using ok [THEN conjunct2, THEN arg_cong [where f = length]] by (rule trans [rotated])
  show ?thesis
  proof (intro exI conjI)
    show "ReadResponseProfile (b, e) (o_headerMask opts) = Inr ((StatusData, body), r)" using Inr v ok by simp
    show "(if cp_clear (o_coverProfile opts) then body else DecodeMaskedResponse StatusData body sid ModeProbe seq)
       = probePattern (nat candidate)" using ok d by (simp only:)
    show "pr_bytes (read_patterns 1 got opts sid seq candidate (b, e)) = got + int (nat candidate)"
      unfolding rp l by (simp add: probe_done_def)
  qed
qed

theorem download_probe_means_delivered_witness:
  "\<exists>body r. ReadResponseProfile (response_frame 0x80 (StatusData, MaskInPlace (probePattern 3) (sid_of []) ModeProbe 9 True) @ [], EOF) 0x80
      = Inr ((StatusData, body), r)"
proof -
  let ?m = "MaskInPlace (probePattern 3) (sid_of []) ModeProbe 9 True"
  have l: "length (probePattern 3) = 3" by (simp add: probePattern_def)
  have ok: "response_ok (StatusData, ?m)" by (simp add: response_ok_def status_defs MaxPayload_def l)
  from response_lp.dec_whole [OF ok, of "0x80" "[]" EOF]
  have rd: "ReadResponseProfile (response_frame 0x80 (StatusData, ?m) @ [], EOF) 0x80 = Inr ((StatusData, ?m), ([], EOF))"
    by (simp add: response_whole)
  have "?m \<noteq> []" using l by (metis length_MaskInPlace list.size(3) zero_neq_numeral)
  with rd have "pr_ok (read_patterns 1 0 sample_options (sid_of []) 9 3 (response_frame 0x80 (StatusData, ?m) @ [], EOF))"
    by (simp add: sample_options_def zero_profile_def DecodeMaskedResponse_def status_defs probe_done_def)
  from download_probe_means_delivered [OF this] show ?thesis by (auto simp: sample_options_def)
qed

end
