(* ===== verification/Tunnel.thy ===== *)
theory Tunnel
  imports Calibrate
begin

text \<open>
  What the two tunnels over a pair of request lanes, \<^verbatim>\<open>chunkConn\<close> of
  \<^verbatim>\<open>chunk.go\<close> and \<^verbatim>\<open>bpConn\<close> of \<^verbatim>\<open>bp.go\<close>, have in
  common. Both structs extend one record of lanes, sizers, buffer and offsets. Both
  \<^verbatim>\<open>Write\<close> loops and both \<^verbatim>\<open>fillReadBuffer\<close> loops repeat a turn of
  their own; the laws of one turn are the assumptions of a locale each, from which stream
  consistency, termination and the offsets follow once for both. The loops need not end, so
  they are partial functions whose \<open>None\<close> is not returning; sleeps have no counterpart.
\<close>

section \<open>The common state\<close>

record tunnel =
  cc_sid :: session_id
  cc_opts :: chunkClientOptions
  cc_uploadLane :: requestLane
  cc_downloadLane :: requestLane
  cc_upSizer :: adaptiveSizer
  cc_downSizer :: adaptiveSizer
  cc_upOffset :: u64
  cc_readBuf :: bytes
  cc_downloadOffset :: u64
  cc_consumedOffset :: u64
  cc_eof :: bool
  cc_pipeline :: int
  cc_closed :: bool
  cc_dead :: bool

section \<open>The loops\<close>

text \<open>One turn of a \<^verbatim>\<open>Write\<close> loop: return, or go on with the rest.\<close>

datatype write_next = WriteReturn "goerr" | WriteAgain bytes int nat

type_synonym 'c write_turner =
  "'c \<Rightarrow> world \<Rightarrow> bytes \<Rightarrow> int \<Rightarrow> nat \<Rightarrow> write_next \<times> 'c \<times> world"

partial_function (option) send_loop ::
  "'c write_turner \<Rightarrow> 'c \<Rightarrow> world \<Rightarrow> bytes \<Rightarrow> int \<Rightarrow> nat
   \<Rightarrow> (int \<times> goerr option \<times> 'c \<times> world) option" where
  "send_loop turn c w p so_far minFailures =
     (if p = [] then Some (so_far, None, c, w)
      else case turn c w p so_far minFailures of (nxt, c, w) \<Rightarrow>
        (case nxt of WriteReturn e \<Rightarrow> Some (so_far, Some e, c, w)
         | WriteAgain p n mf \<Rightarrow> send_loop turn c w p n mf))"

text \<open>The loop rule: what every turn keeps holds of the result, if the loop returns.\<close>

lemma send_loop_rule:
  assumes "send_loop turn c w p sf mf = Some res" and "J c w p sf mf"
    and step: "\<And>c w p sf mf p' sf' mf' c' w'. J c w p sf mf \<Longrightarrow> p \<noteq> [] \<Longrightarrow>
      turn c w p sf mf = (WriteAgain p' sf' mf', c', w') \<Longrightarrow> J c' w' p' sf' mf'"
    and ret: "\<And>c w p sf mf e c' w'. J c w p sf mf \<Longrightarrow> p \<noteq> [] \<Longrightarrow>
      turn c w p sf mf = (WriteReturn e, c', w') \<Longrightarrow> Q (sf, Some e, c', w')"
    and fin: "\<And>c w sf mf. J c w [] sf mf \<Longrightarrow> Q (sf, None, c, w)"
  shows "Q res"
proof -
  let ?P = "\<lambda>f c w p sf mf res. f = turn \<longrightarrow> J c w p sf mf \<longrightarrow> Q res"
  have "?P turn c w p sf mf res"
  proof (rule send_loop.raw_induct [where P = ?P, OF _ assms(1)], intro impI, goal_cases)
    case hyps: (1 f t c w p sf mf res)
    show ?case
    proof (cases "p = []")
      case True
      with hyps(2,4) fin show ?thesis by auto
    next
      case False
      obtain nxt c1 w1 where t: "turn c w p sf mf = (nxt, c1, w1)" by (metis prod.collapse)
      show ?thesis
      proof (cases nxt)
        case (WriteReturn e)
        with t False hyps(2,3) ret [OF hyps(4) False t [unfolded WriteReturn]] show ?thesis by simp
      next
        case (WriteAgain p' sf' mf')
        with t False hyps(2,3) have "f t c1 w1 p' sf' mf' = Some res" by simp
        from hyps(1) [OF this] hyps(3) step [OF hyps(4) False t [unfolded WriteAgain]] show ?thesis by simp
      qed
    qed
  qed
  with assms(2) show ?thesis by simp
qed

text \<open>And it returns if every turn that goes on makes something smaller.\<close>

lemma send_loop_total:
  assumes "wf R" and inv: "\<And>c w p sf mf p' sf' mf' c' w'. I c w \<Longrightarrow> p \<noteq> [] \<Longrightarrow>
      turn c w p sf mf = (WriteAgain p' sf' mf', c', w') \<Longrightarrow>
      I c' w' \<and> ((c', w', p', sf', mf'), (c, w, p, sf, mf)) \<in> R"
  shows "I c w \<Longrightarrow> \<exists>res. send_loop turn c w p sf mf = Some res"
proof (induction "(c, w, p, sf, mf)" arbitrary: c w p sf mf rule: wf_induct_rule [OF assms(1)])
  case 1
  obtain nxt c1 w1 where t: "turn c w p sf mf = (nxt, c1, w1)" by (metis prod.collapse)
  show ?case
  proof (cases "p = []")
    case True
    then show ?thesis by (simp add: send_loop.simps)
  next
    case False
    show ?thesis
    proof (cases nxt)
      case (WriteReturn e)
      with t False show ?thesis by (simp add: send_loop.simps [of turn c w p sf mf])
    next
      case (WriteAgain p' sf' mf')
      from inv [OF "1.prems" False t [unfolded WriteAgain]]
      have "I c1 w1" "((c1, w1, p', sf', mf'), (c, w, p, sf, mf)) \<in> R" by simp_all
      from "1.hyps" [OF this(2,1)] obtain res where "send_loop turn c1 w1 p' sf' mf' = Some res" by blast
      with t False WriteAgain show ?thesis
        by (cases res) (simp add: send_loop.simps [of turn c w p sf mf])
    qed
  qed
qed

text \<open>One turn of a \<^verbatim>\<open>fillReadBuffer\<close> loop: return, or go on.\<close>

datatype fill_next = FillReturn "goerr option" | FillAgain nat

type_synonym 'a fill_turner =
  "'a tunnel_scheme \<Rightarrow> world \<Rightarrow> nat \<Rightarrow> fill_next \<times> 'a tunnel_scheme \<times> world"

partial_function (option) fill_loop ::
  "'a fill_turner \<Rightarrow> 'a tunnel_scheme \<Rightarrow> world \<Rightarrow> nat
   \<Rightarrow> (goerr option \<times> 'a tunnel_scheme \<times> world) option" where
  "fill_loop turn c w minFailures =
     (if cc_readBuf c = [] \<and> \<not> cc_eof c then
        (case turn c w minFailures of (nxt, c, w) \<Rightarrow>
          (case nxt of FillReturn e \<Rightarrow> Some (e, c, w) | FillAgain mf \<Rightarrow> fill_loop turn c w mf))
      else Some ((if cc_eof c \<and> cc_readBuf c = [] then Some EOF else None), c, w))"

definition fill_buffer ::
  "'a fill_turner \<Rightarrow> 'a tunnel_scheme \<Rightarrow> world \<Rightarrow> (goerr option \<times> 'a tunnel_scheme \<times> world) option" where
  "fill_buffer turn c w = (if cc_eof c then Some (Some EOF, c, w) else fill_loop turn c w 0)"

text \<open>\<^verbatim>\<open>Read\<close> into a buffer of \<open>n\<close> bytes: the bytes copied and the error.\<close>

definition read_conn ::
  "'a fill_turner \<Rightarrow> nat \<Rightarrow> 'a tunnel_scheme \<Rightarrow> world
   \<Rightarrow> (bytes \<times> goerr option \<times> 'a tunnel_scheme \<times> world) option" where
  "read_conn turn n c w =
     (if n = 0 then Some ([], None, c, w)
      else case (if cc_readBuf c = [] then fill_buffer turn c w else Some (None, c, w)) of
        None \<Rightarrow> None
      | Some (Some e, c, w) \<Rightarrow> Some ([], Some e, c, w)
      | Some (None, c, w) \<Rightarrow>
          Some (take n (cc_readBuf c), None,
            c\<lparr>cc_readBuf := drop n (cc_readBuf c),
              cc_consumedOffset := cc_consumedOffset c + word_of_nat (min n (length (cc_readBuf c)))\<rparr>, w))"

definition appendChunkParts :: "bytes \<Rightarrow> bytes list \<Rightarrow> bytes" where
  "appendChunkParts dst parts =
     (if parts = [] then dst
      else if dst = [] \<and> length parts = 1 then hd parts
      else dst @ concat parts)"

lemma appendChunkParts_concat: "appendChunkParts d ps = d @ concat ps"
  by (cases ps) (auto simp: appendChunkParts_def)

text \<open>
  The start of a sizer when a tunnel opens: the calibrated size within the limits, which is
  also the ceiling unless calibration was skipped.
\<close>

definition tunnel_sizer :: "string \<Rightarrow> chunkClientOptions \<Rightarrow> int \<Rightarrow> adaptiveSizer" where
  "tunnel_sizer name opts calibrated =
     (let start = min calibrated (maxSize opts);
          start = (if start < minSize opts then minSize opts else start);
          sizerOpts = (if skipPathProbe opts then opts else opts\<lparr>maxSize := start\<rparr>)
      in newAdaptiveSizer name start sizerOpts)"

lemma tunnel_sizer_ok:
  assumes "1 \<le> minSize opts" and "minSize opts \<le> maxSize opts"
  shows "sizer_inv (tunnel_sizer n opts x) \<and> sz_min (tunnel_sizer n opts x) = minSize opts
    \<and> sz_max (tunnel_sizer n opts x) \<le> maxSize opts \<and> sz_adaptive (tunnel_sizer n opts x) = o_adaptive opts"
proof -
  define st where "st = (if min x (maxSize opts) < minSize opts then minSize opts else min x (maxSize opts))"
  define so where "so = (if skipPathProbe opts then opts else opts\<lparr>maxSize := st\<rparr>)"
  have z: "tunnel_sizer n opts x = newAdaptiveSizer n st so"
    by (simp add: tunnel_sizer_def st_def so_def Let_def)
  have "1 \<le> minSize so" "minSize so \<le> maxSize so" "maxSize so \<le> maxSize opts" "minSize so = minSize opts"
    "o_adaptive so = o_adaptive opts" using assms by (auto simp: so_def st_def)
  with sizer_inv_new [of so n st] show ?thesis unfolding z by (simp add: newAdaptiveSizer_def Let_def)
qed

section \<open>The invariant\<close>

text \<open>
  Both lanes are in order and own different connections, both sizers are within their bounds
  and share the tunnel's minimum, and what was downloaded but not yet consumed is exactly the
  read buffer.
\<close>

definition tunnel_ok :: "'a tunnel_scheme \<Rightarrow> world \<Rightarrow> bool" where
  "tunnel_ok c w \<longleftrightarrow> lane_ok (cc_uploadLane c) w \<and> lane_ok (cc_downloadLane c) w
     \<and> owned (cc_uploadLane c) \<inter> owned (cc_downloadLane c) = {}
     \<and> sizer_inv (cc_upSizer c) \<and> sizer_inv (cc_downSizer c)
     \<and> sz_min (cc_upSizer c) = minSize (cc_opts c) \<and> sz_min (cc_downSizer c) = minSize (cc_opts c)
     \<and> cc_downloadOffset c = cc_consumedOffset c + word_of_nat (length (cc_readBuf c))"

text \<open>The connections open in the world that are not this tunnel's.\<close>

definition others :: "'a tunnel_scheme \<Rightarrow> world \<Rightarrow> nat set" where
  "others c w = live (w_log w) - owned (cc_uploadLane c) - owned (cc_downloadLane c)"

lemma other_lane:
  assumes "lane_step l w l' w'" and "lane_ok l' w'" and "lane_ok k w" and "owned l \<inter> owned k = {}"
  shows "lane_ok k w' \<and> owned l' \<inter> owned k = {}
    \<and> live (w_log w') - owned l' - owned k = live (w_log w) - owned l - owned k"
proof -
  have "owned k \<subseteq> live (w_log w) - owned l" using assms(3,4) by (auto simp: lane_ok_def lane_own_def)
  also have "\<dots> = live (w_log w') - owned l'" using assms(1) by (simp add: lane_step_def)
  finally have "owned k \<subseteq> live (w_log w')" "owned l' \<inter> owned k = {}" by auto
  with assms(1-3) show ?thesis by (simp add: lane_ok_def lane_own_def lane_step_def)
qed

lemma FailureReason_Failure:
  "FailureReason s a e = (fst (Failure s a), snd (Failure s a))"
  by (simp add: Failure_def FailureReason_def Let_def)

lemma Failure_pair:
  assumes "sizer_inv s" and "Failure s a = ((old, nx), s')"
  shows "sizer_inv s' \<and> sz_min s' = sz_min s \<and> old = Current s"
proof -
  have "s' = snd (Failure s a)" using assms(2) by simp
  moreover have "old = Current s" using assms(2)
    by (auto simp: Failure_def FailureReason_def Current_def Let_def split: if_splits prod.splits)
  ultimately show ?thesis using Failure_frame [OF assms(1), of a] by simp
qed

text \<open>The new size reported is the new current size, and it is smaller or the budget shrank.\<close>

lemma Failure_current:
  assumes "sizer_inv s" and "sz_adaptive s" and "Failure s (Current s) = ((old, nx), s')"
  shows "nx = Current s' \<and> sz_adaptive s'
    \<and> (Current s' < Current s \<or> Current s' = Current s \<and> (Current s = sz_min s \<or>
        sz_shrinkAfter s' - sz_failures s' < sz_shrinkAfter s - sz_failures s))"
proof -
  have s': "s' = snd (Failure s (Current s))" using assms(3) by simp
  have "nx = Current s'" using assms(2,3)
    by (auto simp: Failure_def FailureReason_def Current_def Let_def split: if_splits prod.splits)
  moreover have "sz_adaptive s'" using Failure_frame(4) [OF assms(1), of "Current s"] assms(2) s' by simp
  moreover have "Current s' < Current s \<or> Current s' = Current s \<and> (Current s = sz_min s \<or>
        sz_shrinkAfter s' - sz_failures s' < sz_shrinkAfter s - sz_failures s)"
  proof (rule Failure_cases [OF assms(1), of "Current s"])
    fix g b n
    assume "sz_min s \<le> n" "n \<le> Current s" "sz_min s < Current s \<longrightarrow> n < Current s"
      "snd (Failure s (Current s)) = s\<lparr>sz_successes := 0, sz_failures := 0, sz_bad := b, sz_good := g, sz_current := n\<rparr>"
    then show ?thesis unfolding s' by (auto simp: Current_def)
  qed (use assms(2) in \<open>auto simp: s' Current_def\<close>)
  ultimately show ?thesis by simp
qed

text \<open>An answer means that the request was sent.\<close>

context lane_turn
begin

lemma attempts_answered:
  assumes ans: "\<And>l w l' w'. lane_ok l w \<Longrightarrow> turn l w = (Return r, l', w') \<Longrightarrow> requests w' = rq # requests w"
    and no: "\<And>e. f e \<noteq> r"
  shows "lane_ok l w \<Longrightarrow> attempts turn f n e l w = (r, l', w') \<Longrightarrow> sends w < sends w'"
proof (induction n arbitrary: e l w)
  case 0
  with no show ?case by simp
next
  case (Suc n)
  obtain t l1 w1 where t: "turn l w = (t, l1, w1)" by (cases "turn l w") auto
  note k = turn_keeps [OF Suc.prems(1) t]
  show ?case
  proof (cases t)
    case (Return x)
    with Suc.prems(2) t ans [OF Suc.prems(1), of l1 w1] show ?thesis by (auto simp: sends_def)
  next
    case (Continue y)
    with t k Suc.prems Suc.IH [of l1 w1 "Some y"] show ?thesis by (simp add: lane_step_def)
  qed
qed

end

lemma closeAfter_requests [simp]: "requests (snd (closeAfterLocked l w)) = requests w"
  by (simp add: closeAfterLocked_def discardLocked_def split: option.split)

lemma single_turn_answered:
  assumes "lane_ok l w" and "single_turn m s q b l w = (Return (Inr x), l', w')"
  shows "requests w' = (m, q, b) # requests w"
proof -
  obtain e l1 w1 where e: "ensureLocked l w = (e, l1, w1)" by (metis prod.collapse)
  let ?w2 = "log_event (Requested (pc_id (the (ln_pc l1))) m q b) w1"
  obtain l2 where "closeAfterLocked l2 ?w2 = (l', w')"
    using assms(2) e
    by (fastforce simp: single_turn_def turn_failed_def Let_def
      split: option.splits prod.splits sum.splits if_splits)
  then have "requests w' = requests ?w2" using closeAfter_requests [of l2 ?w2] by simp
  moreover have "requests w1 = requests w" using ensureLocked_step [OF assms(1) e] by simp
  ultimately show ?thesis by simp
qed

lemma single_answered:
  assumes "lane_ok l w" and "single m sid q b l w = (Inr x, l', w')"
  shows "sends w < sends w'"
  by (rule single_lane.attempts_answered [OF _ _ assms(1) assms(2) [unfolded single_def]])
    (auto intro: single_turn_answered)

section \<open>Writing\<close>

text \<open>A record that carries its bytes of the stream \<open>p\<close> which starts at sequence number \<open>base\<close>.\<close>

definition carries :: "byte \<Rightarrow> u64 \<Rightarrow> bytes \<Rightarrow> byte \<times> u64 \<times> bytes \<Rightarrow> bool" where
  "carries md base p rq \<longleftrightarrow> (case rq of (m, q, b) \<Rightarrow> m = md \<and> (\<exists>off. off + length b \<le> length p
     \<and> q = base + word_of_nat off \<and> b = take (length b) (drop off p)))"

text \<open>Byte \<open>i\<close> of the stream is in one of the records sent.\<close>

definition sent_byte :: "byte \<Rightarrow> u64 \<Rightarrow> bytes \<Rightarrow> (byte \<times> u64 \<times> bytes) list \<Rightarrow> nat \<Rightarrow> bool" where
  "sent_byte md base p reqs i \<longleftrightarrow> (\<exists>off len. off \<le> i \<and> i < off + len \<and> off + len \<le> length p
     \<and> (md, base + word_of_nat off, take len (drop off p)) \<in> set reqs)"

lemma sent_byte_mono: "sent_byte md base p reqs i \<Longrightarrow> set reqs \<subseteq> set reqs' \<Longrightarrow> sent_byte md base p reqs' i"
  by (auto simp: sent_byte_def)

text \<open>
  What a turn that goes on makes smaller, in this order: the bytes left, the distance of the
  chunk size from the minimum, the failures left before the next downshift, and, at the
  minimum, the failures left before giving up.
\<close>

definition write_rank :: "'a tunnel_scheme \<times> world \<times> bytes \<times> int \<times> nat \<Rightarrow> nat list" where
  "write_rank = (\<lambda>(c, w, p, sf, mf). let s = cc_upSizer c in
     [length p, nat (Current s - sz_min s),
      if Current s = sz_min s then 0 else nat (sz_shrinkAfter s - sz_failures s), 8 - mf])"

definition write_measures ::
  "(('a tunnel_scheme \<times> world \<times> bytes \<times> int \<times> nat) \<times> ('a tunnel_scheme \<times> world \<times> bytes \<times> int \<times> nat)) set" where
  "write_measures = measures [\<lambda>x. write_rank x ! 0, \<lambda>x. write_rank x ! 1, \<lambda>x. write_rank x ! 2, \<lambda>x. write_rank x ! 3]"

lemma write_measures_wf: "wf write_measures"
  by (simp add: write_measures_def)

text \<open>The two ways a turn goes on: bytes were sent, or the sizer was told of a failure.\<close>

lemma write_rank_sent:
  assumes "length p' < length p"
  shows "((c', w', p', sf', mf'), (c, w, p, sf, mf)) \<in> write_measures"
  using assms by (simp add: write_measures_def write_rank_def Let_def)

lemma write_rank_failed:
  assumes inv: "sizer_inv (cc_upSizer c)" and ad: "sz_adaptive (cc_upSizer c)"
    and f: "Failure (cc_upSizer c) (Current (cc_upSizer c)) = ((old, nx), cc_upSizer c')"
    and mf: "old = nx \<and> nx = sz_min (cc_upSizer c) \<Longrightarrow> mf < 8 \<and> mf' = Suc mf"
  shows "((c', w', p, sf', mf'), (c, w, p, sf, mf)) \<in> write_measures"
proof -
  let ?s = "cc_upSizer c" and ?z = "cc_upSizer c'"
  note fp = Failure_pair [OF inv f] and fc = Failure_current [OF inv ad f]
  have bnd: "sz_min ?z \<le> Current ?z" "sz_failures ?s < sz_shrinkAfter ?s"
    using fp inv by (simp_all add: sizer_inv_def Current_def)
  show ?thesis
  proof (cases "Current ?z < Current ?s")
    case True
    with fp fc bnd show ?thesis by (simp add: write_measures_def write_rank_def Let_def)
  next
    case False
    with fc have eq: "Current ?z = Current ?s" and h: "Current ?s = sz_min ?s \<or>
        sz_shrinkAfter ?z - sz_failures ?z < sz_shrinkAfter ?s - sz_failures ?s" by auto
    show ?thesis
    proof (cases "Current ?s = sz_min ?s")
      case True
      with eq fp fc mf have "mf < 8" "mf' = Suc mf" by auto
      with fp fc eq True show ?thesis by (simp add: write_measures_def write_rank_def Let_def)
    next
      case False
      with h bnd(2) have "nat (sz_shrinkAfter ?z - sz_failures ?z) < nat (sz_shrinkAfter ?s - sz_failures ?s)" by simp
      with fp fc eq False show ?thesis by (simp add: write_measures_def write_rank_def Let_def)
    qed
  qed
qed

text \<open>What no call on a tunnel changes.\<close>

definition same_tunnel :: "'a tunnel_scheme \<Rightarrow> world \<Rightarrow> 'a tunnel_scheme \<Rightarrow> world \<Rightarrow> bool" where
  "same_tunnel c w c' w' \<longleftrightarrow> cc_sid c' = cc_sid c \<and> cc_opts c' = cc_opts c \<and> cc_closed c' = cc_closed c
     \<and> others c' w' = others c w"

lemma same_tunnel_refl [simp]: "same_tunnel c w c w"
  by (simp add: same_tunnel_def)

lemma same_tunnel_trans: "same_tunnel c w c1 w1 \<Longrightarrow> same_tunnel c1 w1 c2 w2 \<Longrightarrow> same_tunnel c w c2 w2"
  by (simp add: same_tunnel_def)

text \<open>What one turn sent, and what became of the bytes left.\<close>

definition turn_sent ::
  "byte \<Rightarrow> u64 \<Rightarrow> 'a tunnel_scheme \<Rightarrow> world \<Rightarrow> bytes \<Rightarrow> int \<Rightarrow> write_next \<Rightarrow> 'a tunnel_scheme \<Rightarrow> world \<Rightarrow> bool" where
  "turn_sent md shift c w p sf nxt c' w' \<longleftrightarrow>
     (\<exists>reqs n. requests w' = reqs @ requests w \<and> set reqs \<subseteq> {(md, cc_upOffset c + shift, take n p)}
        \<and> 0 < n \<and> n \<le> length p
        \<and> (case nxt of WriteReturn e \<Rightarrow> cc_upOffset c' = cc_upOffset c
           | WriteAgain p' sf' mf' \<Rightarrow>
               p' = drop n p \<and> sf' = sf + int n \<and> cc_upOffset c' = cc_upOffset c + word_of_nat n \<and> reqs \<noteq> []
             \<or> p' = p \<and> sf' = sf \<and> cc_upOffset c' = cc_upOffset c))"

text \<open>The laws of a turn from what its exchange did and what it left of the state.\<close>

lemma upload_moved:
  assumes ok: "tunnel_ok c w" and l: "lane_ok l1 w1" "lane_step (cc_uploadLane c) w l1 w1"
    and z: "sizer_inv z" "sz_min z = sz_min (cc_upSizer c)"
    and c': "c' = c\<lparr>cc_uploadLane := l1, cc_upSizer := z, cc_upOffset := ofs, cc_dead := d\<rparr>"
  shows "tunnel_ok c' w1 \<and> same_tunnel c w c' w1"
proof -
  have lk: "lane_ok (cc_downloadLane c) w" "owned (cc_uploadLane c) \<inter> owned (cc_downloadLane c) = {}"
    using ok by (simp_all add: tunnel_ok_def)
  from other_lane [OF l(2,1) lk] ok l(1) z show ?thesis
    by (simp add: tunnel_ok_def same_tunnel_def others_def c')
qed

lemma upload_turn_rule:
  assumes "tunnel_ok c w" and "lane_ok l1 w1" and "lane_step (cc_uploadLane c) w l1 w1"
    and rq: "requests w1 = replicate k (md, cc_upOffset c + shift, take n p) @ requests w"
    and n: "0 < n" "n \<le> length p"
    and "sizer_inv z" and "sz_min z = sz_min (cc_upSizer c)"
    and c': "c' = c\<lparr>cc_uploadLane := l1, cc_upSizer := z, cc_upOffset := ofs, cc_dead := d\<rparr>"
    and nx: "case nxt of WriteReturn e \<Rightarrow> ofs = cc_upOffset c
       | WriteAgain p' sf' mf' \<Rightarrow> p' = drop n p \<and> sf' = sf + int n \<and> ofs = cc_upOffset c + word_of_nat n \<and> k \<noteq> 0
           \<or> p' = p \<and> sf' = sf \<and> ofs = cc_upOffset c"
  shows "tunnel_ok c' w1 \<and> same_tunnel c w c' w1 \<and> turn_sent md shift c w p sf nxt c' w1"
proof -
  let ?reqs = "replicate k (md, cc_upOffset c + shift, take n p)"
  have "set ?reqs \<subseteq> {(md, cc_upOffset c + shift, take n p)}" "(?reqs \<noteq> []) = (k \<noteq> 0)" by auto
  with nx have "turn_sent md shift c w p sf nxt c' w1" unfolding turn_sent_def
    using rq n by (intro exI [of _ ?reqs] exI [of _ n]) (cases nxt; simp add: c')
  with upload_moved [OF assms(1-3,7,8) c'] show ?thesis by simp
qed

definition write_post ::
  "byte \<Rightarrow> u64 \<Rightarrow> u64 \<Rightarrow> bytes \<Rightarrow> nat \<Rightarrow> 'a tunnel_scheme \<Rightarrow> world
   \<Rightarrow> int \<times> goerr option \<times> 'a tunnel_scheme \<times> world \<Rightarrow> bool" where
  "write_post md shift base p0 k c w res \<longleftrightarrow> (case res of (n, err, c', w') \<Rightarrow>
     same_tunnel c w c' w'
     \<and> (\<exists>reqs. requests w' = reqs @ requests w \<and> (\<forall>rq \<in> set reqs. carries md (base + shift) p0 rq)
          \<and> (\<forall>i. k \<le> i \<and> i < nat n \<longrightarrow> sent_byte md (base + shift) p0 reqs i))
     \<and> int k \<le> n \<and> n \<le> int (length p0) \<and> cc_upOffset c' = base + word_of_nat (nat n)
     \<and> (err = None \<longrightarrow> n = int (length p0)))"

locale upload_turn =
  fixes turn :: "'a tunnel_scheme \<Rightarrow> world \<Rightarrow> bytes \<Rightarrow> int \<Rightarrow> nat \<Rightarrow> write_next \<times> 'a tunnel_scheme \<times> world"
    and ok :: "'a tunnel_scheme \<Rightarrow> world \<Rightarrow> bool"
    and md :: byte and shift :: u64
  assumes turn_step: "ok c w \<Longrightarrow> p \<noteq> [] \<Longrightarrow> turn c w p sf mf = (nxt, c', w') \<Longrightarrow>
      ok c' w' \<and> same_tunnel c w c' w' \<and> turn_sent md shift c w p sf nxt c' w'"
    and turn_progress: "ok c w \<Longrightarrow> sz_adaptive (cc_upSizer c) \<Longrightarrow> p \<noteq> [] \<Longrightarrow>
      turn c w p sf mf = (WriteAgain p' sf' mf', c', w') \<Longrightarrow>
      sz_adaptive (cc_upSizer c') \<and> ((c', w', p', sf', mf'), (c, w, p, sf, mf)) \<in> write_measures"
    and turn_closed: "\<not> sz_adaptive (cc_upSizer c) \<Longrightarrow> Current (cc_upSizer c) \<noteq> minSize (cc_opts c) \<Longrightarrow>
      ln_closed (cc_uploadLane c) \<Longrightarrow> p \<noteq> [] \<Longrightarrow> turn c w p sf mf = (WriteAgain p sf 0, c, w)"
begin

lemma loop_post:
  assumes "send_loop turn c w p sf mf = Some res" and "ok c w" and "p = drop k p0" and "k \<le> length p0"
    and "sf = int k" and "cc_upOffset c = base + word_of_nat k"
  shows "write_post md shift base p0 k c w res \<and> (case res of (n, err, c', w') \<Rightarrow> ok c' w')"
proof -
  let ?P = "\<lambda>f c w p sf mf res. f = turn \<longrightarrow> (\<forall>k. ok c w \<longrightarrow> p = drop k p0 \<longrightarrow> k \<le> length p0 \<longrightarrow> sf = int k \<longrightarrow>
      cc_upOffset c = base + word_of_nat k \<longrightarrow>
      write_post md shift base p0 k c w res \<and> (case res of (n, err, c', w') \<Rightarrow> ok c' w'))"
  have "?P turn c w p sf mf res"
  proof (rule send_loop.raw_induct [where P = ?P, OF _ assms(1)], intro allI impI, goal_cases)
    case hyps: (1 f t c w p sf mf res k)
    show ?case
    proof (cases "p = []")
      case True
      with hyps(2) have res: "res = (sf, None, c, w)" by simp
      from True hyps(5,6) have "length p0 = k" by simp
      with res hyps(4,7,8) show ?thesis by (auto simp: write_post_def)
    next
      case False
      obtain nxt c1 w1 where t: "turn c w p sf mf = (nxt, c1, w1)" by (metis prod.collapse)
      from turn_step [OF hyps(4) False t] obtain reqs n where
        k1: "ok c1 w1" "same_tunnel c w c1 w1"
        and rq: "requests w1 = reqs @ requests w" "set reqs \<subseteq> {(md, cc_upOffset c + shift, take n p)}"
        and n: "0 < n" "n \<le> length p"
        and nx: "case nxt of WriteReturn e \<Rightarrow> cc_upOffset c1 = cc_upOffset c
         | WriteAgain p' sf' mf' \<Rightarrow>
             p' = drop n p \<and> sf' = sf + int n \<and> cc_upOffset c1 = cc_upOffset c + word_of_nat n \<and> reqs \<noteq> []
           \<or> p' = p \<and> sf' = sf \<and> cc_upOffset c1 = cc_upOffset c" unfolding turn_sent_def by blast
      have kn: "k + n \<le> length p0" using hyps(5,6) n by simp
      have rec: "(md, cc_upOffset c + shift, take n p) = (md, base + shift + word_of_nat k, take n (drop k p0))"
        using hyps(5,8) by simp
      have car: "\<forall>rq \<in> set reqs. carries md (base + shift) p0 rq"
        using rq(2) kn unfolding rec by (auto simp: carries_def intro!: exI [of _ k])
      show ?thesis
      proof (cases nxt)
        case (WriteReturn e)
        with t False hyps(2,3) have "res = (sf, Some e, c1, w1)" by simp
        moreover have "cc_upOffset c1 = base + word_of_nat k" using nx WriteReturn hyps(8) by simp
        moreover have "\<exists>reqs. requests w1 = reqs @ requests w \<and> (\<forall>rq \<in> set reqs. carries md (base + shift) p0 rq)
          \<and> (\<forall>i. k \<le> i \<and> i < k \<longrightarrow> sent_byte md (base + shift) p0 reqs i)"
          using rq(1) car by (intro exI [of _ reqs]) auto
        ultimately show ?thesis using k1 hyps(6,7) by (simp add: write_post_def)
      next
        case (WriteAgain p' sf' mf')
        with t False hyps(2,3) have f: "f turn c1 w1 p' sf' mf' = Some res" by simp
        obtain m err c2 w2 where res: "res = (m, err, c2, w2)" by (metis prod.collapse)
        have "\<exists>j. write_post md shift base p0 j c1 w1 res \<and> ok c2 w2 \<and> k \<le> j
          \<and> (\<forall>i. k \<le> i \<and> i < j \<longrightarrow> sent_byte md (base + shift) p0 reqs i)"
        proof (cases "p' = p \<and> sf' = sf \<and> cc_upOffset c1 = cc_upOffset c")
          case True
          with hyps(1) [OF f] k1(1) hyps(5-8) res show ?thesis by auto
        next
          case False
          with nx WriteAgain have a: "p' = drop (k + n) p0" "sf' = int (k + n)"
            "cc_upOffset c1 = base + word_of_nat (k + n)" "reqs \<noteq> []" using hyps(5-8) by (auto simp: add.commute)
          from a(4) rq(2) have "(md, base + shift + word_of_nat k, take n (drop k p0)) \<in> set reqs"
            unfolding rec by (cases reqs) auto
          with kn have "\<forall>i. k \<le> i \<and> i < k + n \<longrightarrow> sent_byte md (base + shift) p0 reqs i"
            unfolding sent_byte_def by blast
          with hyps(1) [OF f] k1(1) kn a(1-3) res show ?thesis by (intro exI [of _ "k + n"]) simp
        qed
        then obtain j where j: "write_post md shift base p0 j c1 w1 res" "ok c2 w2" "k \<le> j"
          "\<And>i. k \<le> i \<Longrightarrow> i < j \<Longrightarrow> sent_byte md (base + shift) p0 reqs i" by blast
        from j(1) obtain reqs2 where r2: "requests w2 = reqs2 @ requests w1"
          "\<forall>rq \<in> set reqs2. carries md (base + shift) p0 rq"
          "\<And>i. j \<le> i \<Longrightarrow> i < nat m \<Longrightarrow> sent_byte md (base + shift) p0 reqs2 i"
          by (auto simp: write_post_def res)
        have "sent_byte md (base + shift) p0 (reqs2 @ reqs) i" if "k \<le> i" "i < nat m" for i
          using j(4) [OF that(1)] r2(3) [OF _ that(2)] by (cases "i < j") (auto elim!: sent_byte_mono)
        with r2 rq(1) car have "\<exists>rs. requests w2 = rs @ requests w \<and> (\<forall>rq \<in> set rs. carries md (base + shift) p0 rq)
          \<and> (\<forall>i. k \<le> i \<and> i < nat m \<longrightarrow> sent_byte md (base + shift) p0 rs i)"
          by (intro exI [of _ "reqs2 @ reqs"]) auto
        with j(1-3) k1(2) show ?thesis by (auto simp: write_post_def res intro: same_tunnel_trans)
      qed
    qed
  qed
  with assms(2-6) show ?thesis by blast
qed

text \<open>The same for a whole call, which starts with nothing sent.\<close>

lemma send_all:
  assumes "send_loop turn c w p 0 mf = Some (n, err, c', w')" and "ok c w"
  shows "ok c' w' \<and> same_tunnel c w c' w' \<and> 0 \<le> n \<and> n \<le> int (length p)
    \<and> (err = None \<longrightarrow> n = int (length p)) \<and> cc_upOffset c' = cc_upOffset c + word_of_nat (nat n)
    \<and> (\<exists>reqs. requests w' = reqs @ requests w
        \<and> (\<forall>rq \<in> set reqs. carries md (cc_upOffset c + shift) p rq)
        \<and> (\<forall>i < nat n. sent_byte md (cc_upOffset c + shift) p reqs i))"
  using loop_post [OF assms, of 0 p "cc_upOffset c"] by (simp add: write_post_def)

lemma loop_total:
  assumes "ok c w" and "sz_adaptive (cc_upSizer c)"
  shows "\<exists>res. send_loop turn c w p sf mf = Some res"
proof (rule send_loop_total [OF write_measures_wf, where I = "\<lambda>c w. ok c w \<and> sz_adaptive (cc_upSizer c)"])
  show "ok c w \<and> sz_adaptive (cc_upSizer c)" using assms by simp
  show "(ok c' w' \<and> sz_adaptive (cc_upSizer c')) \<and> ((c', w', p', sf', mf'), (c, w, p, sf, mf)) \<in> write_measures"
    if "ok c w \<and> sz_adaptive (cc_upSizer c)" "p \<noteq> []" "turn c w p sf mf = (WriteAgain p' sf' mf', c', w')"
    for c w p sf mf p' sf' mf' c' w'
    using turn_step [OF _ that(2,3)] turn_progress [OF _ _ that(2,3)] that(1) by blast
qed

lemma loop_stuck:
  assumes "send_loop turn c w p sf mf = Some res"
  shows "\<not> (\<not> sz_adaptive (cc_upSizer c) \<and> Current (cc_upSizer c) \<noteq> minSize (cc_opts c)
    \<and> ln_closed (cc_uploadLane c) \<and> p \<noteq> [])"
proof -
  let ?P = "\<lambda>f c w p sf mf res. f = turn \<longrightarrow> \<not> (\<not> sz_adaptive (cc_upSizer c)
    \<and> Current (cc_upSizer c) \<noteq> minSize (cc_opts c) \<and> ln_closed (cc_uploadLane c) \<and> p \<noteq> [])"
  have "?P turn c w p sf mf res"
  proof (rule send_loop.raw_induct [where P = ?P, OF _ assms], intro impI notI, elim conjE, goal_cases)
    case hyps: (1 f t c w p sf mf res)
    from hyps(2,3,7) turn_closed [OF hyps(4-7), of w sf mf]
    have "f turn c w p sf 0 = Some res" by simp
    from hyps(1) [OF this] hyps(4-7) show ?case by simp
  qed
  then show ?thesis by simp
qed

end

section \<open>Reading\<close>

text \<open>What a read-side step may change, and that the bytes it gained are counted.\<close>

definition gained :: "'a tunnel_scheme \<Rightarrow> 'a tunnel_scheme \<Rightarrow> bytes \<Rightarrow> bool" where
  "gained c c' d \<longleftrightarrow> cc_readBuf c' = cc_readBuf c @ d
     \<and> cc_downloadOffset c' = cc_downloadOffset c + word_of_nat (length d)
     \<and> cc_consumedOffset c' = cc_consumedOffset c \<and> cc_sid c' = cc_sid c \<and> cc_opts c' = cc_opts c
     \<and> cc_uploadLane c' = cc_uploadLane c \<and> cc_upSizer c' = cc_upSizer c \<and> cc_upOffset c' = cc_upOffset c
     \<and> cc_closed c' = cc_closed c"

lemma gained_trans: "gained c c1 d \<Longrightarrow> gained c1 c2 e \<Longrightarrow> gained c c2 (d @ e)"
  by (simp add: gained_def)

text \<open>The bytes \<open>n\<close> of the buffer handed to the caller.\<close>

definition consume :: "nat \<Rightarrow> 'a tunnel_scheme \<Rightarrow> 'a tunnel_scheme" where
  "consume n c = c\<lparr>cc_readBuf := drop n (cc_readBuf c),
     cc_consumedOffset := cc_consumedOffset c + word_of_nat (min n (length (cc_readBuf c)))\<rparr>"

lemma consume_ok: "tunnel_ok c w \<Longrightarrow> tunnel_ok (consume n c) w"
proof -
  have "word_of_nat (length (cc_readBuf c)) =
    (word_of_nat (min n (length (cc_readBuf c))) :: u64) + word_of_nat (length (cc_readBuf c) - n)"
    by (simp flip: of_nat_add) (simp add: min_def)
  then show "tunnel_ok c w \<Longrightarrow> tunnel_ok (consume n c) w" by (simp add: tunnel_ok_def consume_def)
qed

lemma others_consume [simp]: "others (consume n c) w = others c w"
  by (simp add: others_def consume_def)

locale fill_turn_laws =
  fixes turn :: "'a tunnel_scheme \<Rightarrow> world \<Rightarrow> nat \<Rightarrow> fill_next \<times> 'a tunnel_scheme \<times> world"
    and ok :: "'a tunnel_scheme \<Rightarrow> world \<Rightarrow> bool"
  assumes turn_fill: "ok c w \<Longrightarrow> turn c w mf = (nxt, c', w') \<Longrightarrow>
      ok c' w' \<and> others c' w' = others c w \<and> (\<exists>d. gained c c' d)
      \<and> (nxt = FillReturn None \<longrightarrow> cc_readBuf c' \<noteq> [])"
    and ok_consume: "ok c w \<Longrightarrow> ok (consume n c) w"
begin

lemma fill_post:
  assumes "fill_loop turn c w mf = Some (e, c', w')" and "ok c w"
  shows "ok c' w' \<and> others c' w' = others c w \<and> (\<exists>d. gained c c' d) \<and> (e = None \<longrightarrow> cc_readBuf c' \<noteq> [])"
proof -
  let ?P = "\<lambda>f c w mf res. f = turn \<longrightarrow> ok c w \<longrightarrow> (case res of (e, c', w') \<Rightarrow>
     ok c' w' \<and> others c' w' = others c w \<and> (\<exists>d. gained c c' d) \<and> (e = None \<longrightarrow> cc_readBuf c' \<noteq> []))"
  have "?P turn c w mf (e, c', w')"
  proof (rule fill_loop.raw_induct [where P = ?P, OF _ assms(1)], intro impI, goal_cases)
    case hyps: (1 f t c w mf res)
    show ?case
    proof (cases "cc_readBuf c = [] \<and> \<not> cc_eof c")
      case False
      with hyps have "res = ((if cc_eof c \<and> cc_readBuf c = [] then Some EOF else None), c, w)" by (auto split: if_splits)
      with False hyps show ?thesis by (auto simp: gained_def)
    next
      case True
      obtain nxt c1 w1 where t: "turn c w mf = (nxt, c1, w1)" by (metis prod.collapse)
      from turn_fill [OF hyps(4) t] obtain d where k: "ok c1 w1" "others c1 w1 = others c w" "gained c c1 d"
        "nxt = FillReturn None \<longrightarrow> cc_readBuf c1 \<noteq> []" by blast
      show ?thesis
      proof (cases nxt)
        case (FillReturn e)
        with hyps(2,3) True t have "res = (e, c1, w1)" by simp
        with k FillReturn show ?thesis by auto
      next
        case (FillAgain m)
        with hyps(2,3) True t have "f turn c1 w1 m = Some res" by simp
        from hyps(1) [OF this] k show ?thesis by (auto split: prod.splits dest: gained_trans)
      qed
    qed
  qed
  with assms(2) show ?thesis by simp
qed

lemma read_post:
  assumes "read_conn turn n c w = Some (b, e, c', w')" and "ok c w"
  shows "ok c' w' \<and> same_tunnel c w c' w' \<and> (\<exists>d. cc_readBuf c @ d = b @ cc_readBuf c'
      \<and> cc_downloadOffset c' = cc_downloadOffset c + word_of_nat (length d)
      \<and> cc_consumedOffset c' = cc_consumedOffset c + word_of_nat (length b))
    \<and> length b \<le> n \<and> (e \<noteq> None \<longrightarrow> b = []) \<and> (e = None \<longrightarrow> n \<noteq> 0 \<longrightarrow> b \<noteq> [])"
proof (cases "n = 0")
  case True
  with assms show ?thesis by (auto simp: read_conn_def)
next
  case n: False
  let ?m = "if cc_readBuf c = [] then fill_buffer turn c w else Some (None, c, w)"
  obtain e1 c1 w1 where m: "?m = Some (e1, c1, w1)"
    using assms(1) n by (auto simp: read_conn_def split: option.splits)
  have g: "ok c1 w1 \<and> others c1 w1 = others c w \<and> (\<exists>d. gained c c1 d) \<and> (e1 = None \<longrightarrow> cc_readBuf c1 \<noteq> [])"
    using m assms(2) fill_post [of c w 0 e1 c1 w1]
    by (auto simp: fill_buffer_def gained_def split: if_splits)
  then obtain d where d: "gained c c1 d" by blast
  show ?thesis
  proof (cases e1)
    case (Some x)
    with assms(1) m n have "b = []" "e = Some x" "c' = c1" "w' = w1" by (auto simp: read_conn_def)
    with g d show ?thesis by (auto simp: gained_def same_tunnel_def)
  next
    case None
    from None assms(1) m n have r: "b = take n (cc_readBuf c1)" "e = None" "c' = consume n c1" "w' = w1"
      by (auto simp: read_conn_def consume_def)
    have len: "length b = min n (length (cc_readBuf c1))" using r(1) by (simp add: min.commute)
    have "same_tunnel c w c' w'" using d g r(3,4) by (simp add: same_tunnel_def gained_def) (simp add: consume_def)
    moreover have "b @ cc_readBuf c' = cc_readBuf c1" by (simp add: r consume_def)
    then have "cc_readBuf c @ d = b @ cc_readBuf c'
      \<and> cc_downloadOffset c' = cc_downloadOffset c + word_of_nat (length d)
      \<and> cc_consumedOffset c' = cc_consumedOffset c + word_of_nat (length b)"
      using d r(3) len by (simp add: gained_def consume_def)
    ultimately show ?thesis using r g ok_consume [of c1 w1 n] None n by auto
  qed
qed

end

section \<open>Closing and opening\<close>

text \<open>Closing both lanes after one last exchange on either of them.\<close>

lemma close_both:
  assumes "lane_ok up w" and "lane_ok dn w" and "owned up \<inter> owned dn = {}"
    and "closeLane up w = (up2, w2)" and "closeLane dn w2 = (dn2, w3)"
  shows "ln_pc up2 = None \<and> ln_pc dn2 = None \<and> live (w_log w3) = live (w_log w) - owned up - owned dn
    \<and> requests w3 = requests w"
proof -
  note s2 = closeLane_step [OF assms(1,4)]
  have "lane_ok dn w2" using assms(2,3) s2 by (auto simp: lane_ok_def lane_own_def)
  note s3 = closeLane_step [OF this assms(5)]
  have "requests w3 = requests w"
    using assms(4,5) by (auto simp: closeLane_def discardLocked_def split: option.splits)
  with s2 s3 show ?thesis by auto
qed

definition sized :: "chunkClientOptions \<Rightarrow> bool" where
  "sized x \<longleftrightarrow> 32 \<le> minSize x \<and> minSize x \<le> maxSize x \<and> maxSize x \<le> 1048576"

definition depth_ok :: "chunkClientOptions \<Rightarrow> bool" where
  "depth_ok x \<longleftrightarrow> 1 \<le> o_minPipeline x \<and> 1 \<le> o_maxPipeline x \<and> o_maxPipeline x \<le> 256"

lemma let_rule: "J e \<Longrightarrow> (\<And>x. J x \<Longrightarrow> P (f x)) \<Longrightarrow> P (Let e f)"
  by (simp add: Let_def)

text \<open>The profile step of \<^verbatim>\<open>openChunkTunnel\<close> leaves no connection open.\<close>

lemma getPathProfile_quiet:
  assumes "quiet X w"
  shows "quiet X (snd (snd (getPathProfile srv token opts now st w)))"
proof -
  define search where "search kind = (if forceMaxStart opts
     then probeMaximumMaxFirst (probeIperfOne token opts kind) opts
     else probeMaximum (probeIperfOne token opts kind) opts)" for kind
  obtain up w1 where u: "search ProbeUpload w = (up, w1)" by fastforce
  obtain dn w2 where d: "search ProbeDownload w1 = (dn, w2)" by fastforce
  obtain pe w3 where pe: "probePersistent srv token opts w2 = (pe, w3)" by fastforce
  have q: "quiet X x \<Longrightarrow> quiet X (snd (search kind x))" for kind x
    by (auto simp: search_def intro: probeMaximum_keeps probeMaximumMaxFirst_keeps probeIperfOne_quiet)
  from q [OF assms, of ProbeUpload] q [of w1 ProbeDownload] probePersistent_quiet [of X w2 srv token opts] u d pe
  have "quiet X w3" by simp
  moreover have "snd (snd (getPathProfile srv token opts now st w)) = w
      \<or> snd (snd (getPathProfile srv token opts now st w)) = w3"
    using u d pe by (auto simp: getPathProfile_def Let_def search_def split: if_splits)
  ultimately show ?thesis using assms by metis
qed

text \<open>Closing the lane that owns nothing else's connections restores what was open.\<close>

lemma lane_done:
  assumes "lane_ok l w" and "live (w_log w) - owned l = X"
  shows "live (w_log (snd (closeLane l w))) = X"
proof -
  obtain l' w' where c: "closeLane l w = (l', w')" by fastforce
  from closeLane_step [OF assms(1) c] assms(2) show ?thesis by (simp add: c)
qed

end
