(* ===== verification/ChunkConn.thy ===== *)
theory ChunkConn
  imports Tunnel
begin

text \<open>
  \<^verbatim>\<open>chunkConn\<close> of \<^verbatim>\<open>chunk.go\<close>: one tunnelled TCP stream over the
  \<^verbatim>\<open>b\<close> wire, the common tunnel state with the server's chunk limit and the bounds
  of the download pipeline. \<^verbatim>\<open>Read\<close> and \<^verbatim>\<open>Write\<close> hold one mutex
  each, so each is one step of its own half of the state.
\<close>

section \<open>OPEN\<close>

definition encodeOpen :: "bytes \<Rightarrow> bytes \<Rightarrow> int \<Rightarrow> goerr + bytes" where
  "encodeOpen token host port =
     (if length token > 65535 \<or> length host > 65535
      then Inl (Msg ''token or hostname too long'')
      else Inr (put16 (word_of_nat (length token)) @ put16 (word_of_nat (length host))
        @ put16 (word_of_int port) @ token @ host))"

text \<open>The first block of \<^verbatim>\<open>openChunkTunnel\<close>: the options as the tunnel uses them.\<close>

definition normalize_options :: "chunkClientOptions \<Rightarrow> chunkClientOptions" where
  "normalize_options o0 =
     (let o1 = (if minSize o0 < 32 then o0\<lparr>minSize := 32\<rparr> else o0);
          o1 = (if maxSize o1 < minSize o1 then o1\<lparr>maxSize := minSize o1\<rparr> else o1);
          o1 = (if maxSize o1 > 1048576 then o1\<lparr>maxSize := 1048576\<rparr> else o1);
          o1 = (if txnTimeout o1 \<le> 0 then o1\<lparr>txnTimeout := 5000000000\<rparr> else o1);
          o1 = (if o_adaptSuccesses o1 < 1 then o1\<lparr>o_adaptSuccesses := 64\<rparr> else o1);
          o1 = (if o_shrinkAfter o1 < 1 then o1\<lparr>o_shrinkAfter := 1\<rparr> else o1);
          o1 = (if forceMaxStart o1 then o1\<lparr>startSize := maxSize o1\<rparr> else o1);
          o1 = (if o_reconnectEvery o1 < 0 then o1\<lparr>o_reconnectEvery := 0\<rparr> else o1);
          o1 = (if o_maxPipeline o1 < 1 then o1\<lparr>o_maxPipeline := 1\<rparr> else o1);
          o1 = (if o_maxPipeline o1 > 256 then o1\<lparr>o_maxPipeline := 256\<rparr> else o1);
          o1 = (if o_minPipeline o1 < 1 then o1\<lparr>o_minPipeline := 1\<rparr> else o1)
      in if o_minPipeline o1 > o_maxPipeline o1 then o1\<lparr>o_minPipeline := o_maxPipeline o1\<rparr> else o1)"

record chunkConn = tunnel +
  cc_serverMax :: int
  cc_minPipeline :: int
  cc_maxPipeline :: int

text \<open>The tail of \<^verbatim>\<open>openChunkTunnel\<close>: the connection built after a good OPEN response.\<close>

definition build_conn ::
  "string \<Rightarrow> chunkClientOptions \<Rightarrow> pathProfile \<Rightarrow> session_id \<Rightarrow> requestLane \<Rightarrow> int \<Rightarrow> chunkConn" where
  "build_conn serverAddr opts profile sid uploadLane serverMax =
     (let opts = (if maxSize opts > serverMax then opts\<lparr>maxSize := serverMax\<rparr> else opts)
      in \<lparr>cc_sid = sid, cc_opts = opts, cc_uploadLane = uploadLane,
          cc_downloadLane = newRequestLane serverAddr (o_tcpBuffer opts) (o_reconnectEvery opts)
            (txnTimeout opts) (o_headerMask opts) (o_coverProfile opts),
          cc_upSizer = tunnel_sizer ''upload'' opts (pp_upload profile),
          cc_downSizer = tunnel_sizer ''download'' opts (pp_download profile),
          cc_upOffset = 0, cc_readBuf = [], cc_downloadOffset = 0, cc_consumedOffset = 0,
          cc_eof = False, cc_pipeline = o_maxPipeline opts, cc_closed = False, cc_dead = False,
          cc_serverMax = serverMax, cc_minPipeline = o_minPipeline opts,
          cc_maxPipeline = o_maxPipeline opts\<rparr>)"

definition openChunkTunnel ::
  "string \<Rightarrow> bytes \<Rightarrow> bytes \<Rightarrow> int \<Rightarrow> chunkClientOptions \<Rightarrow> int \<Rightarrow> profileState \<Rightarrow> world
   \<Rightarrow> (goerr + chunkConn) \<times> profileState \<times> world" where
  "openChunkTunnel serverAddr token targetHost targetPort opts0 now st w =
     (let opts = normalize_options opts0;
          defaultStart = (if forceMaxStart opts then maxSize opts else minSize opts);
          (profile, st, w) = (if skipPathProbe opts
            then (\<lparr>pp_upload = defaultStart, pp_download = defaultStart, pp_pollers = 0,
                   pp_persistent = False, pp_at = now\<rparr>, st, w)
            else getPathProfile serverAddr token opts now st w);
          opts = (if \<not> skipPathProbe opts \<and> pp_pollers profile > pollers opts
                  then opts\<lparr>pollers := pp_pollers profile\<rparr> else opts)
      in case randomSessionID w of (Inl e, w) \<Rightarrow> (Inl e, st, w)
      | (Inr sid, w) \<Rightarrow>
        let uploadLane = newRequestLane serverAddr (o_tcpBuffer opts) (o_reconnectEvery opts)
              (txnTimeout opts) (o_headerMask opts) (o_coverProfile opts) in
        (case encodeOpen token targetHost targetPort of
           Inl e \<Rightarrow> (Inl e, st, snd (closeLane uploadLane w))
         | Inr payload \<Rightarrow>
           (case single ModeOpen sid 0 payload uploadLane w of
              (Inl e, lane, w) \<Rightarrow> (Inl e, st, snd (closeLane lane w))
            | (Inr (status, body), lane, w) \<Rightarrow>
              if status = StatusError then (Inl (Msg (string_of body)), st, snd (closeLane lane w))
              else if status \<noteq> StatusOK \<or> length body \<noteq> 4
              then (Inl (Msg ''bad OPEN response''), st, snd (closeLane lane w))
              else let serverMax = int (unat (get32 body)) in
                if serverMax < minSize opts
                then (Inl (Msg (''server maximum chunk '' @ dec_int serverMax
                       @ '' is below client minimum '' @ dec_int (minSize opts))),
                      st, snd (closeLane lane w))
                else (Inr (build_conn serverAddr opts profile sid lane serverMax), st, w))))"

section \<open>Reading\<close>

text \<open>The size of the next batch.\<close>

definition batch_count :: "chunkConn \<Rightarrow> int \<Rightarrow> int" where
  "batch_count c chunk =
     (let count = cc_pipeline c;
          count = (if count < cc_minPipeline c then cc_minPipeline c else count);
          count = (if count > cc_maxPipeline c then cc_maxPipeline c else count);
          maxCount = 1048576 sdiv (max chunk 1)
      in if maxCount < count then max maxCount (cc_minPipeline c) else count)"

text \<open>What one turn of \<^verbatim>\<open>fillReadBuffer\<close>'s loop does with the outcome of a download.\<close>

definition fill_data :: "chunkConn \<Rightarrow> int \<Rightarrow> bytes list \<Rightarrow> chunkConn" where
  "fill_data c chunk data =
     (let c = c\<lparr>cc_readBuf := appendChunkParts (cc_readBuf c) data,
               cc_downloadOffset := cc_downloadOffset c + word_of_nat (length (concat data))\<rparr>
      in if data \<noteq> [] then
           let c = c\<lparr>cc_downSizer := Success (cc_downSizer c) chunk\<rparr>
           in if cc_pipeline c < cc_maxPipeline c then c\<lparr>cc_pipeline := cc_pipeline c + 1\<rparr> else c
         else c)"

definition fill_error :: "chunkConn \<Rightarrow> int \<Rightarrow> goerr \<Rightarrow> nat \<Rightarrow> fill_next \<times> chunkConn" where
  "fill_error c chunk err minFailures =
     (if isTransportTimeout (Some err) then (FillReturn (Some err), c\<lparr>cc_dead := True\<rparr>)
      else
        let (stop, minFailures, c) =
          (if cc_pipeline c > cc_minPipeline c then
             (None, minFailures, c\<lparr>cc_pipeline := (if cc_pipeline c sdiv 2 < cc_minPipeline c
                then cc_minPipeline c else cc_pipeline c sdiv 2)\<rparr>)
           else
             (case FailureReason (cc_downSizer c) chunk (Some err) of ((old, n), sz) \<Rightarrow>
                let c = c\<lparr>cc_downSizer := sz\<rparr> in
                if old = n \<and> n = minSize (cc_opts c) then
                  ((if Suc minFailures \<ge> 8
                    then Some (Wrap (''download failed at minimum chunk '' @ dec_int n) err) else None),
                   Suc minFailures, c)
                else (None, minFailures, c)))
        in case stop of Some e \<Rightarrow> (FillReturn (Some e), c)
        | None \<Rightarrow> if cc_readBuf c \<noteq> [] then (FillReturn None, c) else (FillAgain minFailures, c))"

definition fill_turn :: "chunkConn \<Rightarrow> world \<Rightarrow> nat \<Rightarrow> fill_next \<times> chunkConn \<times> world" where
  "fill_turn c w minFailures =
     (let chunk = Current (cc_downSizer c); count = batch_count c chunk in
      case download (cc_sid c) (cc_downloadOffset c) (cc_consumedOffset c) chunk count (cc_downloadLane c) w of
        ((data, status, err), lane, w) \<Rightarrow>
        let c = fill_data (c\<lparr>cc_downloadLane := lane\<rparr>) chunk data;
            minFailures = (if data \<noteq> [] then 0 else minFailures) in
        case err of
          Some e \<Rightarrow> (case fill_error c chunk e minFailures of (nxt, c) \<Rightarrow> (nxt, c, w))
        | None \<Rightarrow>
          let c = (if status = StatusEOF then c\<lparr>cc_eof := True\<rparr> else c) in
          if cc_readBuf c \<noteq> [] then (FillReturn None, c, w) else (FillAgain minFailures, c, w))"

definition fillReadBuffer :: "chunkConn \<Rightarrow> world \<Rightarrow> (goerr option \<times> chunkConn \<times> world) option" where
  "fillReadBuffer = fill_buffer fill_turn"

definition Read :: "nat \<Rightarrow> chunkConn \<Rightarrow> world \<Rightarrow> (bytes \<times> goerr option \<times> chunkConn \<times> world) option" where
  "Read = read_conn fill_turn"

section \<open>Writing\<close>

definition write_turn ::
  "chunkConn \<Rightarrow> world \<Rightarrow> bytes \<Rightarrow> int \<Rightarrow> nat \<Rightarrow> write_next \<times> chunkConn \<times> world" where
  "write_turn c w p so_far minFailures =
     (let size = Current (cc_upSizer c); n = nat (min size (int (length p))) in
      case single ModeUpload (cc_sid c) (cc_upOffset c) (take n p) (cc_uploadLane c) w of
        (Inl err, lane, w) \<Rightarrow>
          let c = c\<lparr>cc_uploadLane := lane\<rparr> in
          if isTransportTimeout (Some err) then (WriteReturn err, c\<lparr>cc_dead := True\<rparr>, w)
          else (case FailureReason (cc_upSizer c) size (Some err) of ((old, nx), sz) \<Rightarrow>
            let c = c\<lparr>cc_upSizer := sz\<rparr> in
            if old = nx \<and> nx = minSize (cc_opts c) then
              if Suc minFailures \<ge> 8
              then (WriteReturn (Wrap (''upload failed at minimum chunk '' @ dec_int nx) err), c, w)
              else (WriteAgain p so_far (Suc minFailures), c, w)
            else (WriteAgain p so_far 0, c, w))
      | (Inr (status, body), lane, w) \<Rightarrow>
          let c = c\<lparr>cc_uploadLane := lane\<rparr> in
          if status = StatusError then (WriteReturn (Msg (string_of body)), c, w)
          else if status \<noteq> StatusOK
          then (WriteReturn (Msg (''unexpected upload status '' @ dec (unat status))), c, w)
          else (WriteAgain (drop n p) (so_far + int n) 0,
                c\<lparr>cc_upOffset := cc_upOffset c + word_of_nat n, cc_upSizer := Success (cc_upSizer c) size\<rparr>, w))"

definition write_loop ::
  "chunkConn \<Rightarrow> world \<Rightarrow> bytes \<Rightarrow> int \<Rightarrow> nat \<Rightarrow> (int \<times> goerr option \<times> chunkConn \<times> world) option" where
  "write_loop = send_loop write_turn"

definition Write :: "bytes \<Rightarrow> chunkConn \<Rightarrow> world \<Rightarrow> (int \<times> goerr option \<times> chunkConn \<times> world) option" where
  "Write p c w = (if p = [] then Some (0, None, c, w) else write_loop c w p 0 0)"

section \<open>Closing\<close>

definition Close :: "chunkConn \<Rightarrow> world \<Rightarrow> chunkConn \<times> world" where
  "Close c w =
     (if cc_closed c then (c, w)
      else
        let c = c\<lparr>cc_closed := True\<rparr>;
            (up, w) = (if \<not> cc_dead c then snd (single ModeClose (cc_sid c) 0 [] (cc_uploadLane c) w)
                       else (cc_uploadLane c, w));
            (up, w) = closeLane up w;
            (down, w) = closeLane (cc_downloadLane c) w
        in (c\<lparr>cc_uploadLane := up, cc_downloadLane := down\<rparr>, w))"

section \<open>The tunnel's invariant\<close>

text \<open>The common invariant, and the pipeline within its bounds.\<close>

definition conn_ok :: "chunkConn \<Rightarrow> world \<Rightarrow> bool" where
  "conn_ok c w \<longleftrightarrow> tunnel_ok c w
     \<and> 1 \<le> cc_minPipeline c \<and> cc_minPipeline c \<le> cc_pipeline c \<and> cc_pipeline c \<le> cc_maxPipeline c"

lemma conn_ok_common: "conn_ok c w \<Longrightarrow> tunnel_ok c w"
  by (simp add: conn_ok_def)

section \<open>Writing keeps the stream\<close>

lemma write_turn_step:
  assumes ok: "conn_ok c w" and p: "p \<noteq> []" and t: "write_turn c w p sf mf = (nxt, c', w')"
  shows "conn_ok c' w' \<and> same_tunnel c w c' w' \<and> turn_sent ModeUpload 0 c w p sf nxt c' w'"
proof -
  let ?n = "nat (min (Current (cc_upSizer c)) (int (length p)))"
  have tok: "tunnel_ok c w" and inv: "sizer_inv (cc_upSizer c)" and lk: "lane_ok (cc_uploadLane c) w"
    using ok by (simp_all add: conn_ok_def tunnel_ok_def)
  from inv have n: "0 < ?n" "?n \<le> length p" using p by (auto simp: sizer_inv_def Current_def)
  obtain r l1 w1 where s: "single ModeUpload (cc_sid c) (cc_upOffset c) (take ?n p) (cc_uploadLane c) w = (r, l1, w1)"
    by (metis prod.collapse)
  from single_keeps [OF lk s] obtain k where k: "lane_ok l1 w1" "lane_step (cc_uploadLane c) w l1 w1"
    "requests w1 = replicate k (ModeUpload, cc_upOffset c + 0, take ?n p) @ requests w" by auto
  have fin: "conn_ok c' w1" if "tunnel_ok c' w1"
    "c' = c\<lparr>cc_uploadLane := l1, cc_upSizer := z, cc_upOffset := ofs, cc_dead := d\<rparr>" for z ofs d
    using that ok by (simp add: conn_ok_def)
  show ?thesis
  proof (cases r)
    case (Inl e)
    obtain old nx z where f: "Failure (cc_upSizer c) (Current (cc_upSizer c)) = ((old, nx), z)" by (metis prod.collapse)
    note z = Failure_pair [OF inv f]
    have "\<exists>z d. c' = c\<lparr>cc_uploadLane := l1, cc_upSizer := z, cc_upOffset := cc_upOffset c, cc_dead := d\<rparr>
      \<and> sizer_inv z \<and> sz_min z = sz_min (cc_upSizer c) \<and> w' = w1
      \<and> (\<forall>p' sf' mf'. nxt = WriteAgain p' sf' mf' \<longrightarrow> p' = p \<and> sf' = sf)"
    proof (cases "isTransportTimeout (Some e)")
      case True
      with t s Inl inv show ?thesis
        by (intro exI [of _ "cc_upSizer c"] exI [of _ True]) (auto simp: write_turn_def Let_def)
    next
      case False
      with t s Inl f z show ?thesis
        by (intro exI [of _ z] exI [of _ "cc_dead c"])
          (auto simp: write_turn_def Let_def FailureReason_Failure split: if_splits)
    qed
    then obtain z d where c': "c' = c\<lparr>cc_uploadLane := l1, cc_upSizer := z, cc_upOffset := cc_upOffset c, cc_dead := d\<rparr>"
      and zi: "sizer_inv z" "sz_min z = sz_min (cc_upSizer c)" and w': "w' = w1"
      and nx: "\<forall>p' sf' mf'. nxt = WriteAgain p' sf' mf' \<longrightarrow> p' = p \<and> sf' = sf" by blast
    from upload_turn_rule [OF tok k n zi c', where nxt = nxt and sf = sf] nx fin [OF _ c'] w' show ?thesis
      by (cases nxt) simp_all
  next
    case (Inr sb)
    obtain st b where sb: "sb = (st, b)" by fastforce
    have "k \<noteq> 0" using single_answered [OF lk s [unfolded Inr]] k(3) by (auto simp: sends_def)
    let ?sent = "c\<lparr>cc_uploadLane := l1, cc_upSizer := Success (cc_upSizer c) (Current (cc_upSizer c)),
      cc_upOffset := cc_upOffset c + word_of_nat ?n, cc_dead := cc_dead c\<rparr>"
    let ?not = "c\<lparr>cc_uploadLane := l1, cc_upSizer := cc_upSizer c, cc_upOffset := cc_upOffset c, cc_dead := cc_dead c\<rparr>"
    from t s Inr sb have cs: "c' = ?not \<and> w' = w1 \<and> (\<exists>e. nxt = WriteReturn e) \<or>
        c' = ?sent \<and> w' = w1 \<and> nxt = WriteAgain (drop ?n p) (sf + int ?n) 0"
      by (auto simp: write_turn_def Let_def split: if_splits)
    note fr = Success_frame [OF inv, of "Current (cc_upSizer c)"]
    from cs show ?thesis
    proof (elim disjE conjE exE)
      fix e assume c': "c' = ?not" "w' = w1" "nxt = WriteReturn e"
      from upload_turn_rule [OF tok k n inv refl c'(1), where nxt = nxt and sf = sf] c' fin [OF _ c'(1)] show ?thesis by simp
    next
      assume c': "c' = ?sent" "w' = w1" "nxt = WriteAgain (drop ?n p) (sf + int ?n) 0"
      from upload_turn_rule [OF tok k n fr(1,2) c'(1), where nxt = nxt and sf = sf] c' fin [OF _ c'(1)] \<open>k \<noteq> 0\<close> show ?thesis by simp
    qed
  qed
qed

section \<open>Writing ends\<close>

lemma write_turn_progress:
  assumes ok: "conn_ok c w" and ad: "sz_adaptive (cc_upSizer c)" and p: "p \<noteq> []"
    and t: "write_turn c w p sf mf = (WriteAgain p' sf' mf', c', w')"
  shows "sz_adaptive (cc_upSizer c') \<and> ((c', w', p', sf', mf'), (c, w, p, sf, mf)) \<in> write_measures"
proof -
  let ?s = "cc_upSizer c"
  let ?n = "nat (min (Current ?s) (int (length p)))"
  have inv: "sizer_inv ?s" and mn: "sz_min ?s = minSize (cc_opts c)"
    using ok by (simp_all add: conn_ok_def tunnel_ok_def)
  then have n: "0 < ?n" using p by (auto simp: sizer_inv_def Current_def)
  obtain r l1 w1 where s: "single ModeUpload (cc_sid c) (cc_upOffset c) (take ?n p) (cc_uploadLane c) w = (r, l1, w1)"
    by (cases "single ModeUpload (cc_sid c) (cc_upOffset c) (take ?n p) (cc_uploadLane c) w") auto
  show ?thesis
  proof (cases r)
    case (Inr sb)
    with t s have "p' = drop ?n p" "cc_upSizer c' = Success ?s (Current ?s)"
      by (auto simp: write_turn_def Let_def split: if_splits prod.splits)
    with n p Success_frame(4) [OF inv] ad show ?thesis by (simp add: write_rank_sent)
  next
    case (Inl e)
    obtain old nx sz where f: "Failure ?s (Current ?s) = ((old, nx), sz)" by (metis prod.collapse)
    from t s Inl f have c': "cc_upSizer c' = sz" "p' = p"
      and mf: "if old = nx \<and> nx = minSize (cc_opts c) then Suc mf < 8 \<and> mf' = Suc mf else mf' = 0"
      by (auto simp: write_turn_def Let_def FailureReason_Failure split: if_splits)
    from write_rank_failed [OF inv ad f [folded c'(1)]] mf mn Failure_current [OF inv ad f] c'
    show ?thesis by (auto split: if_splits)
  qed
qed

text \<open>Without adaptation a failure at another size than the minimum is never counted.\<close>

lemma write_turn_closed:
  assumes "\<not> sz_adaptive (cc_upSizer c)" and "Current (cc_upSizer c) \<noteq> minSize (cc_opts c)"
    and "ln_closed (cc_uploadLane c)" and "p \<noteq> []"
  shows "write_turn c w p sf mf = (WriteAgain p sf 0, c, w)"
proof -
  have e: "ensureLocked (cc_uploadLane c) w = (Some ErrClosed, cc_uploadLane c, w)"
    using assms(3) by (simp add: ensureLocked_def)
  have st: "single_turn m s q b (cc_uploadLane c) w = (Continue ErrClosed, cc_uploadLane c, w)" for m s q b
    by (simp add: single_turn_def e)
  have sg: "single m s q b (cc_uploadLane c) w =
      (Inl (Wrap ''request failed after reconnect'' ErrClosed), cc_uploadLane c, w)" for m s q b
    by (simp add: single_def numeral_2_eq_2 st wrap_last_def)
  have f: "FailureReason (cc_upSizer c) x e = ((Current (cc_upSizer c), Current (cc_upSizer c)), cc_upSizer c)" for x e
    using assms(1) by (simp add: FailureReason_def Current_def Let_def)
  show ?thesis using assms(2) by (simp add: write_turn_def Let_def sg f)
qed

interpretation chunk_up: upload_turn write_turn conn_ok ModeUpload 0
  by unfold_locales (use write_turn_step in blast, use write_turn_progress in blast, rule write_turn_closed)

section \<open>Reading keeps the offsets\<close>

definition down_ok :: "chunkConn \<Rightarrow> bool" where
  "down_ok c \<longleftrightarrow> sizer_inv (cc_downSizer c) \<and> sz_min (cc_downSizer c) = minSize (cc_opts c)
     \<and> 1 \<le> cc_minPipeline c \<and> cc_minPipeline c \<le> cc_pipeline c \<and> cc_pipeline c \<le> cc_maxPipeline c"

lemma fill_data_step:
  assumes "down_ok c"
  shows "down_ok (fill_data c chunk data) \<and> gained c (fill_data c chunk data) (concat data)
    \<and> cc_downloadLane (fill_data c chunk data) = cc_downloadLane c \<and> cc_eof (fill_data c chunk data) = cc_eof c"
  using assms Success_frame [of "cc_downSizer c" chunk]
  by (auto simp: fill_data_def down_ok_def gained_def appendChunkParts_concat Let_def)

lemma fill_error_step:
  assumes "down_ok c" and "fill_error c chunk e mf = (nxt, c')"
  shows "down_ok c' \<and> gained c c' [] \<and> cc_downloadLane c' = cc_downloadLane c
    \<and> (nxt = FillReturn None \<longrightarrow> cc_readBuf c' \<noteq> [])"
proof (cases "isTransportTimeout (Some e)")
  case True
  with assms show ?thesis by (auto simp: fill_error_def down_ok_def gained_def)
next
  case nt: False
  show ?thesis
  proof (cases "cc_pipeline c > cc_minPipeline c")
    case True
    with assms nt show ?thesis
      by (auto simp: fill_error_def down_ok_def gained_def Let_def split: if_splits)
  next
    case False
    obtain old nx sz where f: "Failure (cc_downSizer c) chunk = ((old, nx), sz)" by (metis prod.collapse)
    from Failure_pair [OF _ f] assms(1) have "sizer_inv sz" "sz_min sz = sz_min (cc_downSizer c)"
      by (simp_all add: down_ok_def)
    with assms nt False f show ?thesis
      by (auto simp: fill_error_def down_ok_def gained_def FailureReason_Failure Let_def split: if_splits)
  qed
qed

lemma fill_turn_step:
  assumes ok: "conn_ok c w" and t: "fill_turn c w mf = (nxt, c', w')"
  shows "conn_ok c' w' \<and> others c' w' = others c w \<and> (\<exists>d. gained c c' d)
    \<and> (\<exists>k cnt. requests w' = replicate k (ModeDownload, cc_downloadOffset c,
          download_payload (cc_consumedOffset c) (Current (cc_downSizer c)) cnt) @ requests w)
    \<and> (nxt = FillReturn None \<longrightarrow> cc_readBuf c' \<noteq> [])"
proof -
  let ?chunk = "Current (cc_downSizer c)" and ?cnt = "batch_count c (Current (cc_downSizer c))"
  obtain data st err l1 w1 where s: "download (cc_sid c) (cc_downloadOffset c) (cc_consumedOffset c) ?chunk ?cnt
      (cc_downloadLane c) w = ((data, st, err), l1, w1)" by (metis prod.collapse)
  have lk: "lane_ok (cc_uploadLane c) w" "lane_ok (cc_downloadLane c) w"
    "owned (cc_downloadLane c) \<inter> owned (cc_uploadLane c) = {}" using ok by (auto simp: conn_ok_def tunnel_ok_def)
  from download_keeps [OF lk(2) s] obtain k where k: "lane_ok l1 w1" "lane_step (cc_downloadLane c) w l1 w1"
    "requests w1 = replicate k (ModeDownload, cc_downloadOffset c, download_payload (cc_consumedOffset c) ?chunk ?cnt) @ requests w"
    by blast
  from other_lane [OF k(2,1) lk(1,3)] have u: "lane_ok (cc_uploadLane c) w1" "owned l1 \<inter> owned (cc_uploadLane c) = {}"
    and oth: "live (w_log w1) - owned (cc_uploadLane c) - owned l1 = others c w"
    unfolding others_def by (simp_all add: Diff_eq Int_ac)
  let ?c0 = "c\<lparr>cc_downloadLane := l1\<rparr>"
  have d0: "down_ok ?c0" using ok by (simp add: conn_ok_def tunnel_ok_def down_ok_def)
  define c1 where "c1 = fill_data ?c0 ?chunk data"
  from fill_data_step [OF d0, of ?chunk data]
  have d1: "down_ok c1" "gained ?c0 c1 (concat data)" "cc_downloadLane c1 = l1" by (simp_all add: c1_def)
  have fin: "conn_ok c' w1 \<and> others c' w1 = others c w" if "down_ok c'" "gained ?c0 c' d" "cc_downloadLane c' = l1" for c' d
    using that ok k(1) u oth unfolding others_def by (auto simp: conn_ok_def tunnel_ok_def down_ok_def gained_def)
  show ?thesis
  proof (cases err)
    case None
    with t s have c': "w' = w1" "c' = c1 \<or> c' = c1\<lparr>cc_eof := True\<rparr>" and nx: "nxt = FillReturn None \<longrightarrow> cc_readBuf c' \<noteq> []"
      by (auto simp: fill_turn_def Let_def c1_def split: if_splits)
    then have "down_ok c'" "gained ?c0 c' (concat data)" "cc_downloadLane c' = l1"
      using d1 by (auto simp: down_ok_def gained_def)
    with fin [OF this] c' nx k(3) show ?thesis by (auto simp: gained_def)
  next
    case (Some e)
    obtain mf' where f: "fill_error c1 ?chunk e mf' = (nxt, c')" "w' = w1"
      using t s Some by (auto simp: fill_turn_def Let_def c1_def split: prod.splits)
    from fill_error_step [OF d1(1) f(1)] have e: "down_ok c'" "gained c1 c' []" "cc_downloadLane c' = l1"
      "nxt = FillReturn None \<longrightarrow> cc_readBuf c' \<noteq> []" using d1(3) by simp_all
    from gained_trans [OF d1(2) e(2)] have "gained ?c0 c' (concat data)" by simp
    with fin [OF e(1) this e(3)] f e(4) k(3) show ?thesis by (auto simp: gained_def)
  qed
qed

interpretation chunk_down: fill_turn_laws fill_turn conn_ok
proof unfold_locales
  show "conn_ok c w \<Longrightarrow> conn_ok (consume n c) w" for c w n
    using consume_ok [of c w n] by (simp add: conn_ok_def) (simp add: consume_def)
qed (use fill_turn_step in blast)

lemma Write_loop: "Write p c w = Some res \<Longrightarrow> send_loop write_turn c w p 0 0 = Some res"
  by (cases "p = []") (simp_all add: Write_def write_loop_def send_loop.simps [of write_turn c w "[]"])

lemma Write_total: "conn_ok c w \<Longrightarrow> sz_adaptive (cc_upSizer c) \<Longrightarrow> \<exists>n err c' w'. Write p c w = Some (n, err, c', w')"
  using chunk_up.loop_total [of c w p 0 0] by (auto simp: Write_def write_loop_def)

section \<open>Opening and closing\<close>

lemma normalize_options_ok:
  assumes "minSize opts \<le> 1048576"
  shows "sized (normalize_options opts) \<and> depth_ok (normalize_options opts)
    \<and> o_minPipeline (normalize_options opts) \<le> o_maxPipeline (normalize_options opts)"
    (is "?P (normalize_options opts)")
  unfolding normalize_options_def
  supply s = let_rule [where P = ?P and J = sized]
  apply (rule let_rule [where P = ?P and J = "\<lambda>x. 32 \<le> minSize x \<and> minSize x \<le> 1048576"], use assms in simp)
  apply (rule let_rule [where P = ?P and J = "\<lambda>x. 32 \<le> minSize x \<and> minSize x \<le> 1048576 \<and> minSize x \<le> maxSize x"], simp)
  apply (rule s, simp add: sized_def, rule s, simp add: sized_def, rule s, simp add: sized_def)
  apply (rule s, simp add: sized_def, rule s, simp add: sized_def, rule s, simp add: sized_def)
  apply (rule let_rule [where P = ?P and J = "\<lambda>x. sized x \<and> 1 \<le> o_maxPipeline x"], simp add: sized_def)
  apply (rule let_rule [where P = ?P and J = "\<lambda>x. sized x \<and> 1 \<le> o_maxPipeline x \<and> o_maxPipeline x \<le> 256"],
    simp add: sized_def)
  apply (rule let_rule [where P = ?P and J = "\<lambda>x. sized x \<and> depth_ok x"], simp add: sized_def depth_ok_def)
  apply (simp add: sized_def depth_ok_def)
  done

lemma build_conn_rest:
  assumes "c = build_conn srv opts pr sid lane m"
  shows "cc_uploadLane c = lane \<and> owned (cc_downloadLane c) = {} \<and> ln_pc (cc_downloadLane c) = None
    \<and> (\<exists>a b re t hm p. cc_downloadLane c = newRequestLane a b re t hm p)
    \<and> minSize (cc_opts c) = minSize opts \<and> cc_serverMax c = m
    \<and> cc_minPipeline c = o_minPipeline opts \<and> cc_maxPipeline c = o_maxPipeline opts
    \<and> cc_pipeline c = o_maxPipeline opts \<and> \<not> cc_closed c \<and> \<not> cc_dead c \<and> \<not> cc_eof c
    \<and> cc_upOffset c = 0 \<and> cc_downloadOffset c = 0 \<and> cc_consumedOffset c = 0 \<and> cc_readBuf c = []"
proof -
  have "ln_pc (newRequestLane a b re t hm p) = None" for a b re t hm p
    by (simp add: newRequestLane_def Let_def)
  then show ?thesis unfolding assms build_conn_def Let_def by (auto intro!: exI)
qed

lemma build_conn_sizers:
  assumes "1 \<le> minSize opts" and "minSize opts \<le> maxSize opts" and "minSize opts \<le> m"
    and "c = build_conn srv opts pr sid lane m" and "z = cc_upSizer c \<or> z = cc_downSizer c"
  shows "sizer_inv z \<and> sz_min z = minSize opts \<and> sz_max z \<le> min m (maxSize opts)"
proof -
  let ?o = "if maxSize opts > m then opts\<lparr>maxSize := m\<rparr> else opts"
  have o: "1 \<le> minSize ?o" "minSize ?o \<le> maxSize ?o" "maxSize ?o = min m (maxSize opts)" "minSize ?o = minSize opts"
    using assms(1-3) by auto
  have "\<exists>n x. z = tunnel_sizer n ?o x" using assms(4,5) by (auto simp: build_conn_def Let_def intro!: exI)
  with tunnel_sizer_ok [OF o(1,2)] o show ?thesis by auto
qed

lemma build_conn_ok:
  assumes "lane_ok lane w" and "1 \<le> minSize opts" and "minSize opts \<le> maxSize opts" and "minSize opts \<le> m"
    and "1 \<le> o_minPipeline opts" and "o_minPipeline opts \<le> o_maxPipeline opts" and "world_ok w"
  shows "conn_ok (build_conn srv opts pr sid lane m) w"
proof -
  let ?c = "build_conn srv opts pr sid lane m"
  note z = build_conn_sizers [OF assms(2-4) refl, of _ srv pr sid lane]
  note r = build_conn_rest [OF refl, of srv opts pr sid lane m]
  from r lane_ok_new [OF assms(7)] have "lane_ok (cc_downloadLane ?c) w" by metis
  with z [of "cc_upSizer ?c"] z [of "cc_downSizer ?c"] r assms(1,5,6) show ?thesis
    by (simp add: conn_ok_def tunnel_ok_def)
qed

definition open_post :: "chunkClientOptions \<Rightarrow> nat set \<Rightarrow> goerr + chunkConn \<Rightarrow> world \<Rightarrow> bool" where
  "open_post opts X r w' \<longleftrightarrow> (case r of Inl e \<Rightarrow> live (w_log w') = X
    | Inr c \<Rightarrow> conn_ok c w' \<and> live (w_log w') - owned (cc_uploadLane c) = X
        \<and> owned (cc_downloadLane c) = {} \<and> \<not> cc_closed c \<and> \<not> cc_dead c \<and> \<not> cc_eof c
        \<and> cc_upOffset c = 0 \<and> cc_downloadOffset c = 0 \<and> cc_consumedOffset c = 0 \<and> cc_readBuf c = []
        \<and> sz_max (cc_upSizer c) \<le> min (cc_serverMax c) (maxSize opts)
        \<and> sz_max (cc_downSizer c) \<le> min (cc_serverMax c) (maxSize opts))"

lemma openChunkTunnel_post:
  assumes w: "world_ok w" and mn: "minSize opts0 \<le> 1048576"
    and o: "openChunkTunnel srv token host port opts0 now st w = (r, st', w')"
  shows "open_post (normalize_options opts0) (live (w_log w)) r w'"
proof -
  let ?n = "normalize_options opts0" and ?X = "live (w_log w)"
  let ?first = "if skipPathProbe ?n
      then (\<lparr>pp_upload = if forceMaxStart ?n then maxSize ?n else minSize ?n,
             pp_download = if forceMaxStart ?n then maxSize ?n else minSize ?n, pp_pollers = 0,
             pp_persistent = False, pp_at = now\<rparr>, st, w)
      else getPathProfile srv token ?n now st w"
  obtain pr st1 w1 where f: "?first = (pr, st1, w1)" by (metis prod.collapse)
  have "quiet ?X w" using w by (simp add: quiet_def)
  with f getPathProfile_quiet [of ?X w srv token ?n now st] have q1: "quiet ?X w1" by (auto split: if_splits)
  define opts where "opts = (if \<not> skipPathProbe ?n \<and> pp_pollers pr > pollers ?n
                  then ?n\<lparr>pollers := pp_pollers pr\<rparr> else ?n)"
  have os: "minSize opts = minSize ?n" "maxSize opts = maxSize ?n"
    "o_minPipeline opts = o_minPipeline ?n" "o_maxPipeline opts = o_maxPipeline ?n" by (simp_all add: opts_def)
  note ok = normalize_options_ok [OF mn]
  obtain rs w2 where rs: "randomSessionID w1 = (rs, w2)" by fastforce
  then have q2: "quiet ?X w2" using q1 by (auto simp: randomSessionID_def take_rng_def split: sum.splits)
  let ?lane = "newRequestLane srv (o_tcpBuffer opts) (o_reconnectEvery opts) (txnTimeout opts)
      (o_headerMask opts) (o_coverProfile opts)"
  have lane: "lane_ok ?lane w2" using q2 by (simp add: quiet_def lane_ok_new)
  have ow: "owned ?lane = {}" by (simp add: newRequestLane_def Let_def)
  note o' = o [unfolded openChunkTunnel_def, folded opts_def, unfolded Let_def f prod.case, folded opts_def, unfolded rs prod.case]
  show ?thesis
  proof (cases rs)
    case (Inl e)
    with o' q2 show ?thesis by (auto simp: open_post_def quiet_def)
  next
    case (Inr sid)
    show ?thesis
    proof (cases "encodeOpen token host port")
      case (Inl e)
      with o' Inr have "r = Inl e" "w' = snd (closeLane ?lane w2)" by simp_all
      with lane_done [OF lane, of ?X] ow q2 show ?thesis by (simp add: open_post_def quiet_def)
    next
      case pl: (Inr payload)
      obtain res l3 w3 where s: "single ModeOpen sid 0 payload ?lane w2 = (res, l3, w3)" by (metis prod.collapse)
      from single_keeps [OF lane s] ow q2 have l3: "lane_ok l3 w3" "live (w_log w3) - owned l3 = ?X"
        by (simp_all add: lane_step_def quiet_def)
      have fail: ?thesis if "r = Inl e" "w' = snd (closeLane l3 w3)" for e
        using that lane_done [OF l3] by (simp add: open_post_def)
      show ?thesis
      proof (cases "\<exists>body. res = Inr (StatusOK, body) \<and> length body = 4 \<and> minSize opts \<le> int (unat (get32 body))")
        case False
        have "(\<exists>e. r = Inl e) \<and> w' = snd (closeLane l3 w3)"
          using o' Inr pl s False by (cases res) (auto split: if_splits)
        with fail show ?thesis by blast
      next
        case True
        then obtain body where b: "res = Inr (StatusOK, body)" "length body = 4" "minSize opts \<le> int (unat (get32 body))"
          by blast
        let ?m = "int (unat (get32 body))"
        have "StatusOK \<noteq> StatusError" by (simp add: status_defs)
        with o' Inr pl s b have r: "r = Inr (build_conn srv opts pr sid l3 ?m)" "w' = w3" by simp_all
        have wo: "world_ok w3" using l3(1) by (simp add: lane_ok_def lane_own_def)
        have "conn_ok (build_conn srv opts pr sid l3 ?m) w3"
          using build_conn_ok [OF l3(1) _ _ b(3) _ _ wo] ok os by (simp add: sized_def depth_ok_def)
        moreover have "sz_max (cc_upSizer (build_conn srv opts pr sid l3 ?m)) \<le> min ?m (maxSize ?n)"
          "sz_max (cc_downSizer (build_conn srv opts pr sid l3 ?m)) \<le> min ?m (maxSize ?n)"
          using build_conn_sizers [OF _ _ b(3) refl, of _ srv pr sid l3] ok os by (simp_all add: sized_def)
        ultimately show ?thesis unfolding open_post_def r using l3(2) build_conn_rest [OF refl, of srv opts pr sid l3 ?m]
          by simp
      qed
    qed
  qed
qed

lemma Close_step:
  assumes ok: "conn_ok c w" and "\<not> cc_closed c" and cl: "Close c w = (c', w')"
  shows "cc_closed c' \<and> ln_pc (cc_uploadLane c') = None \<and> ln_pc (cc_downloadLane c') = None
    \<and> live (w_log w') = others c w
    \<and> (\<exists>k \<le> 2. requests w' = replicate k (ModeClose, 0, []) @ requests w \<and> (cc_dead c \<longrightarrow> k = 0))"
proof -
  have lk: "lane_ok (cc_uploadLane c) w" "lane_ok (cc_downloadLane c) w"
    "owned (cc_uploadLane c) \<inter> owned (cc_downloadLane c) = {}" using ok by (simp_all add: conn_ok_def tunnel_ok_def)
  obtain up w1 where u: "(if \<not> cc_dead c then snd (single ModeClose (cc_sid c) 0 [] (cc_uploadLane c) w)
      else (cc_uploadLane c, w)) = (up, w1)" by fastforce
  have "\<exists>k \<le> 2. requests w1 = replicate k (ModeClose, 0, []) @ requests w \<and> (cc_dead c \<longrightarrow> k = 0)
      \<and> lane_ok up w1 \<and> lane_step (cc_uploadLane c) w up w1"
  proof (cases "cc_dead c")
    case True
    with u lk(1) show ?thesis by (auto intro!: exI [of _ 0])
  next
    case False
    obtain r where "single ModeClose (cc_sid c) 0 [] (cc_uploadLane c) w = (r, up, w1)"
      using u False by (cases "single ModeClose (cc_sid c) 0 [] (cc_uploadLane c) w") auto
    from single_keeps [OF lk(1) this] False show ?thesis by blast
  qed
  then obtain k where k: "k \<le> 2" "requests w1 = replicate k (ModeClose, 0, []) @ requests w"
    "cc_dead c \<longrightarrow> k = 0" and l1: "lane_ok up w1" "lane_step (cc_uploadLane c) w up w1" by blast
  from other_lane [OF l1(2,1) lk(2,3)] have d1: "lane_ok (cc_downloadLane c) w1"
    "owned up \<inter> owned (cc_downloadLane c) = {}"
    "live (w_log w1) - owned up - owned (cc_downloadLane c) = others c w" by (simp_all add: others_def)
  obtain up2 w2 where c2: "closeLane up w1 = (up2, w2)" by fastforce
  obtain dn w3 where c3: "closeLane (cc_downloadLane c) w2 = (dn, w3)" by fastforce
  note cb = close_both [OF l1(1) d1(1,2) c2 c3]
  from assms(2) cl u c2 c3 have "c' = c\<lparr>cc_closed := True, cc_uploadLane := up2, cc_downloadLane := dn\<rparr>" "w' = w3"
    by (cases "cc_dead c"; simp add: Close_def Let_def)+
  with cb d1(3) k show ?thesis by auto
qed

section \<open>A server that answers\<close>

text \<open>A request on a lane without a connection, answered on the one it dials.\<close>

lemma single_fresh:
  assumes "ln_pc l = None" and "\<not> ln_closed l" and "w_dials w (w_dialed w) = Inr c"
    and "\<not> cp_enabled (ln_profile l)" and "accepting c" and "length b \<le> MaxPayload"
    and "st \<le> StatusEOF" and "st \<noteq> StatusError" and "length body \<le> MaxPayload"
    and "c_in c = (response_frame (ln_headerMask l)
           (st, wire_payload (cp_clear (ln_profile l)) sid m q True body) @ r, e)"
  shows "\<exists>l' w'. single m sid q b l w = (Inr (st, body), l', w')"
proof -
  let ?clear = "cp_clear (ln_profile l)" and ?hm = "ln_headerMask l"
  let ?wb = "wire_payload ?clear sid m q True body"
  let ?p = "\<lparr>pc_id = w_dialed w, pc_conn = c, pc_requests = 0\<rparr>"
  obtain w1 where en: "ensureLocked l w = (None, l\<lparr>ln_pc := Some ?p\<rparr>, w1)"
    using assms(1-4) by (simp add: ensureLocked_def dialLane_def Let_def take_rng_def WritePreface_def)
  obtain c1 where c: "WriteRequestProfileEncoding c m sid q b ?hm ?clear = (None, c1)" "c_in c1 = c_in c"
    by (rule WriteRequest_pair [OF assms(5,6)])
  have "response_ok (st, ?wb)" using assms(7,9) by (simp add: response_ok_def)
  from response_lp.dec_whole [OF this]
  have rd: "ReadResponseProfile (c_in c) ?hm = Inr ((st, ?wb), (r, e))"
    by (simp add: assms(10) response_whole)
  have body: "(if st \<noteq> StatusError \<and> ?wb \<noteq> [] \<and> \<not> ?clear then DecodeMaskedResponse st ?wb sid m q else ?wb) = body"
    using assms(8) by (auto simp: wire_payload_def DecodeMaskedResponse_def dest: arg_cong [where f = length])
  show ?thesis
    by (simp add: single_def numeral_2_eq_2 single_turn_def en c rd body Let_def split: prod.split)
qed

text \<open>A server whose every connection answers one OPEN and then ends.\<close>

definition zero_sid :: session_id where
  "zero_sid = sid_of (replicate 16 0)"

definition opening_conn :: conn where
  "opening_conn = open_conn\<lparr>c_in := (response_frame 0x80
     (StatusOK, wire_payload False zero_sid ModeOpen 0 True (put32 2048)) @ [], EOF)\<rparr>"

definition opening_world :: world where
  "opening_world = silent_world\<lparr>w_dials := \<lambda>_. Inr opening_conn\<rparr>"

lemma opening_world_ok [simp]: "world_ok opening_world"
  by (simp add: world_ok_def opening_world_def silent_world_def)

lemma normalize_sample:
  "normalize_options sample_options = sample_options"
  by (simp add: normalize_options_def sample_options_def)

lemma opening_succeeds:
  "\<exists>c st' w'. openChunkTunnel ''s:53'' [1] [2] 80 sample_options 0 empty_profile opening_world = (Inr c, st', w')
    \<and> sz_adaptive (cc_upSizer c) \<and> (\<exists>lane m. c = build_conn ''s:53'' sample_options
         \<lparr>pp_upload = 32, pp_download = 32, pp_pollers = 0, pp_persistent = False, pp_at = 0\<rparr> zero_sid lane m)"
proof -
  let ?l = "newRequestLane ''s:53'' (o_tcpBuffer sample_options) (o_reconnectEvery sample_options)
      (txnTimeout sample_options) (o_headerMask sample_options) (o_coverProfile sample_options)"
  let ?pr = "\<lparr>pp_upload = 32, pp_download = 32, pp_pollers = 0, pp_persistent = False, pp_at = 0 :: int\<rparr>"
  have rs: "randomSessionID opening_world = (Inr zero_sid, opening_world\<lparr>w_rngn := Suc 0\<rparr>)"
    by (simp add: randomSessionID_def take_rng_def opening_world_def silent_world_def randRead_def zero_sid_def
        map_replicate_const)
  obtain pl where pl: "encodeOpen [1] [2] 80 = Inr pl" "length pl \<le> MaxPayload"
    by (simp add: encodeOpen_def MaxPayload_def)
  have ol: "ln_pc ?l = None" "\<not> ln_closed ?l" "ln_headerMask ?l = 0x80" "ln_profile ?l = zero_profile"
    by (simp_all add: newRequestLane_def Let_def sample_options_def)
  have "accepting opening_conn" by (simp add: opening_conn_def)
  with single_fresh [OF ol(1,2), of "opening_world\<lparr>w_rngn := Suc 0\<rparr>" opening_conn pl StatusOK "put32 2048" zero_sid ModeOpen 0 "[]" EOF]
  obtain l' w' where s: "single ModeOpen zero_sid 0 pl ?l (opening_world\<lparr>w_rngn := Suc 0\<rparr>) = (Inr (StatusOK, put32 2048), l', w')"
    using pl(2) ol by (auto simp: opening_world_def opening_conn_def status_defs MaxPayload_def zero_profile_def)
  have sk: "skipPathProbe sample_options" "\<not> forceMaxStart sample_options" by (simp_all add: sample_options_def)
  have "openChunkTunnel ''s:53'' [1] [2] 80 sample_options 0 empty_profile opening_world =
      (Inr (build_conn ''s:53'' sample_options ?pr zero_sid l' 2048), empty_profile, w')"
    by (simp add: openChunkTunnel_def normalize_sample Let_def sk rs pl(1) s status_defs)
  moreover have "sz_adaptive (cc_upSizer (build_conn ''s:53'' sample_options ?pr zero_sid l' 2048))"
    by (simp add: build_conn_def tunnel_sizer_def newAdaptiveSizer_def sample_options_def Let_def)
  ultimately show ?thesis by blast
qed

section \<open>Properties\<close>

text \<open>C10: A call of \<^verbatim>\<open>Write\<close> keeps the upload stream intact: every record it ever
  sends, retries after reconnects and downshifts included, carries exactly the bytes of the
  caller's buffer that belong at its offset, every byte counted as written was in one of
  them, the offset advances by the count returned, and no error means all was written.\<close>

theorem upload_stream_consistent:
  assumes "conn_ok c w" and "Write p c w = Some (n, err, c', w')"
  shows "conn_ok c' w' \<and> 0 \<le> n \<and> n \<le> int (length p) \<and> (err = None \<longrightarrow> n = int (length p))
    \<and> cc_upOffset c' = cc_upOffset c + word_of_nat (nat n)
    \<and> (\<exists>reqs. requests w' = reqs @ requests w
        \<and> (\<forall>rq \<in> set reqs. carries ModeUpload (cc_upOffset c) p rq)
        \<and> (\<forall>i < nat n. sent_byte ModeUpload (cc_upOffset c) p reqs i))"
  using chunk_up.send_all [OF Write_loop [OF assms(2)] assms(1)] by simp

theorem upload_stream_consistent_witness:
  "\<exists>c st' w' n err c' w''. openChunkTunnel ''s:53'' [1] [2] 80 sample_options 0 empty_profile opening_world = (Inr c, st', w')
    \<and> Write [7, 8, 9] c w' = Some (n, err, c', w'') \<and> cc_upOffset c' = cc_upOffset c + word_of_nat (nat n)"
proof -
  obtain c st' w' where o: "openChunkTunnel ''s:53'' [1] [2] 80 sample_options 0 empty_profile opening_world = (Inr c, st', w')"
    "sz_adaptive (cc_upSizer c)" using opening_succeeds by blast
  have "minSize sample_options \<le> 1048576" by simp
  from openChunkTunnel_post [OF opening_world_ok this o(1)] have ok: "conn_ok c w'" by (simp add: open_post_def)
  obtain n err c' w'' where w: "Write [7, 8, 9] c w' = Some (n, err, c', w'')"
    using Write_total [OF ok o(2)] by blast
  from upload_stream_consistent [OF ok w] o w show ?thesis by blast
qed

text \<open>C28: With adaptation on, \<^verbatim>\<open>Write\<close> always returns: sending, shrinking to the minimum
  and the eight failures allowed there all end. With adaptation off and a size other than
  the minimum that budget is never counted: on a closed upload lane \<^verbatim>\<open>Write\<close> of a
  non-empty buffer never returns.\<close>

theorem write_returns_iff_adaptive:
  assumes "conn_ok c w"
  shows "(sz_adaptive (cc_upSizer c) \<longrightarrow> (\<exists>res. Write p c w = Some res))
    \<and> (\<not> sz_adaptive (cc_upSizer c) \<and> Current (cc_upSizer c) \<noteq> minSize (cc_opts c)
        \<and> ln_closed (cc_uploadLane c) \<and> p \<noteq> [] \<longrightarrow> Write p c w = None)"
proof (intro conjI impI)
  assume "sz_adaptive (cc_upSizer c)"
  from Write_total [OF assms this, of p] show "\<exists>res. Write p c w = Some res" by blast
next
  assume a: "\<not> sz_adaptive (cc_upSizer c) \<and> Current (cc_upSizer c) \<noteq> minSize (cc_opts c)
        \<and> ln_closed (cc_uploadLane c) \<and> p \<noteq> []"
  with chunk_up.loop_stuck [of c w p 0 0] show "Write p c w = None"
    by (cases "send_loop write_turn c w p 0 0") (auto simp: Write_def write_loop_def)
qed

theorem write_returns_iff_adaptive_witness:
  "\<exists>c st' w'. openChunkTunnel ''s:53'' [1] [2] 80 sample_options 0 empty_profile opening_world = (Inr c, st', w') \<and> (\<exists>res. Write [7, 8, 9] c w' = Some res)"
proof -
  obtain c st' w' where o: "openChunkTunnel ''s:53'' [1] [2] 80 sample_options 0 empty_profile opening_world = (Inr c, st', w')"
    "sz_adaptive (cc_upSizer c)" using opening_succeeds by blast
  have "minSize sample_options \<le> 1048576" by simp
  from openChunkTunnel_post [OF opening_world_ok this o(1)] have ok: "conn_ok c w'" by (simp add: open_post_def)
  from write_returns_iff_adaptive [OF ok, of "[7, 8, 9]"] o show ?thesis by blast
qed



text \<open>C29: Opening a tunnel either fails with no connection left open or returns a tunnel in
  order: nothing read, written or closed yet, its only connection the one OPEN went over,
  and both chunk ceilings at most what the server and the options allow.\<close>

theorem open_tunnel_sound:
  assumes "world_ok w" and "minSize opts \<le> 1048576"
    and "openChunkTunnel srv token host port opts now st w = (r, st', w')"
  shows "case r of Inl e \<Rightarrow> live (w_log w') = live (w_log w)
    | Inr c \<Rightarrow> conn_ok c w' \<and> others c w' = live (w_log w)
        \<and> \<not> cc_closed c \<and> \<not> cc_dead c \<and> cc_readBuf c = []
        \<and> cc_upOffset c = 0 \<and> cc_downloadOffset c = 0 \<and> cc_consumedOffset c = 0
        \<and> sz_max (cc_upSizer c) \<le> min (cc_serverMax c) (maxSize (normalize_options opts))
        \<and> sz_max (cc_downSizer c) \<le> min (cc_serverMax c) (maxSize (normalize_options opts))"
  using openChunkTunnel_post [OF assms] by (auto simp: open_post_def others_def split: sum.splits)

theorem open_tunnel_sound_witness:
  "\<exists>c st' w'. openChunkTunnel ''s:53'' [1] [2] 80 sample_options 0 empty_profile opening_world = (Inr c, st', w')
    \<and> conn_ok c w' \<and> sz_max (cc_upSizer c) \<le> 4096"
proof -
  obtain c st' w' where o: "openChunkTunnel ''s:53'' [1] [2] 80 sample_options 0 empty_profile opening_world = (Inr c, st', w')"
    "sz_adaptive (cc_upSizer c)" using opening_succeeds by blast
  have "minSize sample_options \<le> 1048576" by simp
  from openChunkTunnel_post [OF opening_world_ok this o(1)] have ok: "conn_ok c w'" by (simp add: open_post_def)
  have "minSize sample_options \<le> 1048576" by simp
  from open_tunnel_sound [OF opening_world_ok this o(1)] o show ?thesis by (auto simp: normalize_sample)
qed

text \<open>The calls an application makes on an open tunnel.\<close>

datatype conn_call = CallRead nat | CallWrite bytes

fun conn_do :: "conn_call \<Rightarrow> chunkConn \<times> world \<Rightarrow> (chunkConn \<times> world) option" where
  "conn_do (CallRead n) (c, w) = map_option (\<lambda>(b, e, c, w). (c, w)) (Read n c w)"
| "conn_do (CallWrite p) (c, w) = map_option (\<lambda>(n, e, c, w). (c, w)) (Write p c w)"

fun conn_run :: "conn_call list \<Rightarrow> chunkConn \<times> world \<Rightarrow> (chunkConn \<times> world) option" where
  "conn_run [] s = Some s"
| "conn_run (x # xs) s = (case conn_do x s of None \<Rightarrow> None | Some s \<Rightarrow> conn_run xs s)"

lemma conn_do_step:
  assumes "conn_ok c w" and "conn_do x (c, w) = Some (c', w')"
  shows "conn_ok c' w' \<and> others c' w' = others c w \<and> cc_closed c' = cc_closed c"
proof (cases x)
  case (CallRead n)
  with assms(2) obtain b e where "read_conn fill_turn n c w = Some (b, e, c', w')" by (auto simp: Read_def)
  from chunk_down.read_post [OF this assms(1)] show ?thesis by (simp add: same_tunnel_def)
next
  case (CallWrite p)
  with assms(2) obtain n e where "Write p c w = Some (n, e, c', w')" by auto
  from chunk_up.send_all [OF Write_loop [OF this] assms(1)] show ?thesis by (simp add: same_tunnel_def)
qed

lemma conn_run_step:
  "conn_ok c w \<Longrightarrow> conn_run xs (c, w) = Some (c', w') \<Longrightarrow>
   conn_ok c' w' \<and> others c' w' = others c w \<and> cc_closed c' = cc_closed c"
proof (induction xs arbitrary: c w)
  case (Cons x xs)
  then obtain c1 w1 where s: "conn_do x (c, w) = Some (c1, w1)" "conn_run xs (c1, w1) = Some (c', w')"
    by (auto split: option.splits)
  from conn_do_step [OF Cons.prems(1) s(1)] Cons.IH [OF _ s(2)] show ?case by simp
qed simp

text \<open>C13: The whole life of a tunnel leaks nothing: open it, read and write in any order, with
  whatever errors, and close it, and the connections open are those open before. Closing
  sends at most the CLOSE request with its one replay, nothing at all on a tunnel that timed
  out, and a second close changes nothing.\<close>

theorem tunnel_life_leaks_nothing:
  assumes "world_ok w" and "minSize opts \<le> 1048576"
    and "openChunkTunnel srv token host port opts now st w = (Inr c, st', w1)"
    and "conn_run calls (c, w1) = Some (c2, w2)" and "Close c2 w2 = (c3, w3)"
  shows "live (w_log w3) = live (w_log w)
    \<and> (\<exists>k \<le> 2. requests w3 = replicate k (ModeClose, 0, []) @ requests w2 \<and> (cc_dead c2 \<longrightarrow> k = 0))
    \<and> Close c3 w3 = (c3, w3)"
proof -
  from openChunkTunnel_post [OF assms(1-3)] have o: "conn_ok c w1" "others c w1 = live (w_log w)" "\<not> cc_closed c"
    by (simp_all add: open_post_def others_def)
  from conn_run_step [OF o(1) assms(4)] o have r: "conn_ok c2 w2" "others c2 w2 = live (w_log w)" "\<not> cc_closed c2"
    by simp_all
  from Close_step [OF r(1,3) assms(5)] r(2) show ?thesis by (auto simp: Close_def)
qed

theorem tunnel_life_leaks_nothing_witness:
  "\<exists>c st' w' c2 w2. openChunkTunnel ''s:53'' [1] [2] 80 sample_options 0 empty_profile opening_world = (Inr c, st', w')
    \<and> conn_run [CallWrite [7, 8, 9], CallRead 0] (c, w') = Some (c2, w2)
    \<and> live (w_log (snd (Close c2 w2))) = {}"
proof -
  obtain c st' w' where o: "openChunkTunnel ''s:53'' [1] [2] 80 sample_options 0 empty_profile opening_world = (Inr c, st', w')"
    "sz_adaptive (cc_upSizer c)" using opening_succeeds by blast
  have "minSize sample_options \<le> 1048576" by simp
  from openChunkTunnel_post [OF opening_world_ok this o(1)] have ok: "conn_ok c w'" by (simp add: open_post_def)
  obtain n err c2 w2 where "Write [7, 8, 9] c w' = Some (n, err, c2, w2)"
    using Write_total [OF ok o(2)] by blast
  then have r: "conn_run [CallWrite [7, 8, 9], CallRead 0] (c, w') = Some (c2, w2)" by (simp add: Read_def read_conn_def)
  obtain c3 w3 where cl: "Close c2 w2 = (c3, w3)" by fastforce
  have "minSize sample_options \<le> 1048576" by simp
  from tunnel_life_leaks_nothing [OF opening_world_ok this o(1) r cl] o r cl show ?thesis
    by (auto simp: opening_world_def silent_world_def)
qed

end
