(* ===== verification/BpTunnel.thy ===== *)
theory BpTunnel
  imports ChunkConn
begin

text \<open>
  \<^verbatim>\<open>bp.go\<close>: the BP transport. Its lane is the request lane again, operation by
  operation, with its own request record and response batch; its tunnel extends the common
  tunnel state by the last acknowledged offset.
\<close>

section \<open>The lane\<close>

definition bpModeProbe :: byte where "bpModeProbe = 0"
definition bpModeUpload :: byte where "bpModeUpload = 1"
definition bpModeDownload :: byte where "bpModeDownload = 2"
definition bpModeBatchDownload :: byte where "bpModeBatchDownload = 3"
definition bpModeACK :: byte where "bpModeACK = 4"

lemmas bp_modes = bpModeProbe_def bpModeUpload_def bpModeDownload_def bpModeBatchDownload_def bpModeACK_def

definition bpOpenMagic :: bytes where "bpOpenMagic = bytes_of ''DOP1''"
definition bpCloseMagic :: bytes where "bpCloseMagic = bytes_of ''DCL1''"

text \<open>\<^verbatim>\<open>bpLane\<close> and \<^verbatim>\<open>bpPhysicalConn\<close> have the fields of
  \<^verbatim>\<open>requestLane\<close> and \<^verbatim>\<open>physicalConn\<close>.\<close>

type_synonym bpLane = requestLane

definition newBPLaneWithMask ::
  "string \<Rightarrow> int \<Rightarrow> int \<Rightarrow> int \<Rightarrow> byte \<Rightarrow> Profile \<Rightarrow> bpLane" where
  "newBPLaneWithMask serverAddr tcpBuffer reconnectEvery timeout headerMask coverProfile =
     (let autoReconnect = (reconnectEvery = 1);
          reconnectEvery = (if autoReconnect then 0 else reconnectEvery)
      in \<lparr>ln_serverAddr = serverAddr, ln_tcpBuffer = tcpBuffer, ln_reconnectEvery = reconnectEvery,
          ln_timeout = timeout, ln_headerMask = headerMask, ln_profile = coverProfile,
          ln_auto = autoReconnect, ln_pc = None, ln_closed = False\<rparr>)"

definition newBPLane :: "string \<Rightarrow> int \<Rightarrow> int \<Rightarrow> int \<Rightarrow> Profile \<Rightarrow> bpLane" where
  "newBPLane serverAddr tcpBuffer reconnectEvery timeout coverProfile =
     newBPLaneWithMask serverAddr tcpBuffer reconnectEvery timeout (cp_headerMask coverProfile) coverProfile"

definition bpDiscardLocked :: "bpLane \<Rightarrow> world \<Rightarrow> bpLane \<times> world" where
  "bpDiscardLocked l w = (case ln_pc l of None \<Rightarrow> (l, w)
     | Some p \<Rightarrow> (l\<lparr>ln_pc := None\<rparr>, log_event (Closed (pc_id p)) w))"

definition bpTransportFailureLocked :: "bool \<Rightarrow> bpLane \<Rightarrow> world \<Rightarrow> bpLane \<times> world" where
  "bpTransportFailureLocked reused l w =
     bpDiscardLocked (if ln_auto l \<and> reused then l\<lparr>ln_reconnectEvery := 1\<rparr> else l) w"

definition bpCloseAfterLocked :: "bpLane \<Rightarrow> world \<Rightarrow> bpLane \<times> world" where
  "bpCloseAfterLocked l w = (case ln_pc l of None \<Rightarrow> (l, w)
     | Some p \<Rightarrow> if ln_reconnectEvery l > 0 \<and> pc_requests p \<ge> ln_reconnectEvery l
         then bpDiscardLocked l w else (l, w))"

definition bpDial :: "bpLane \<Rightarrow> world \<Rightarrow> goerr option \<times> bpLane \<times> world" where
  "bpDial l w =
     (let k = w_dialed w; w = w\<lparr>w_dialed := Suc k\<rparr> in
      case w_dials w k of Inl e \<Rightarrow> (Some e, l, w)
      | Inr c \<Rightarrow>
        let w = log_event (Dialed k) w;
            (g, w) = take_rng w;
            (err, c) = WritePreface c (ln_profile l) g in
        case err of Some e \<Rightarrow> (Some e, l, log_event (Closed k) w)
        | None \<Rightarrow> (None, l\<lparr>ln_pc := Some \<lparr>pc_id = k, pc_conn = c, pc_requests = 0\<rparr>\<rparr>, w))"

definition bpEnsureLocked :: "bpLane \<Rightarrow> world \<Rightarrow> goerr option \<times> bpLane \<times> world" where
  "bpEnsureLocked l w =
     (if ln_closed l then (Some ErrClosed, l, w)
      else case ln_pc l of
        Some p \<Rightarrow>
          if ln_reconnectEvery l \<le> 0 \<or> pc_requests p < ln_reconnectEvery l then (None, l, w)
          else (case bpDiscardLocked l w of (l, w) \<Rightarrow> bpDial l w)
      | None \<Rightarrow> bpDial l w)"

definition bpCloseLane :: "bpLane \<Rightarrow> world \<Rightarrow> bpLane \<times> world" where
  "bpCloseLane l w = bpDiscardLocked (l\<lparr>ln_closed := True\<rparr>) w"

text \<open>The lane operations agree with those of \<^verbatim>\<open>chunk.go\<close>, so its lemmas apply.\<close>

lemma bp_lane_ops [simp]:
  "newBPLaneWithMask = newRequestLane" "bpDiscardLocked = discardLocked"
  "bpTransportFailureLocked = transportFailureLocked" "bpCloseAfterLocked = closeAfterLocked"
  "bpDial = dialLane" "bpEnsureLocked = ensureLocked" "bpCloseLane = closeLane"
proof -
  show d: "bpDiscardLocked = discardLocked" by (intro ext) (unfold bpDiscardLocked_def discardLocked_def, rule refl)
  show "newBPLaneWithMask = newRequestLane" by (intro ext) (unfold newBPLaneWithMask_def newRequestLane_def, rule refl)
  show "bpTransportFailureLocked = transportFailureLocked"
    by (intro ext) (unfold bpTransportFailureLocked_def transportFailureLocked_def d, rule refl)
  show "bpCloseAfterLocked = closeAfterLocked" by (intro ext) (unfold bpCloseAfterLocked_def closeAfterLocked_def d, rule refl)
  show l: "bpDial = dialLane" by (intro ext) (unfold bpDial_def dialLane_def, rule refl)
  show "bpEnsureLocked = ensureLocked" by (intro ext) (unfold bpEnsureLocked_def ensureLocked_def d l, rule refl)
  show "bpCloseLane = closeLane" by (intro ext) (unfold bpCloseLane_def closeLane_def d, rule refl)
qed

section \<open>Records\<close>

definition bp_header :: "byte \<Rightarrow> session_id \<Rightarrow> u64 \<Rightarrow> u32 \<Rightarrow> byte \<Rightarrow> bytes" where
  "bp_header mode sid seq n headerMask = (mode XOR headerMask) # sid_bytes sid @ put64 seq @ put32 n"

definition writeBPRequest ::
  "conn \<Rightarrow> byte \<Rightarrow> session_id \<Rightarrow> u64 \<Rightarrow> bytes \<Rightarrow> u32 \<Rightarrow> byte \<Rightarrow> bool \<Rightarrow> goerr option \<times> conn" where
  "writeBPRequest w mode sid seq payload0 downloadHint headerMask clear =
     (let (n, payload) = (if mode = bpModeDownload then (downloadHint, [])
            else (word_of_nat (length payload0), payload0)) in
      if length payload > MaxPayload then (Some (Msg (''BP payload too large: '' @ dec (length payload))), w)
      else let header = bp_header mode sid seq n headerMask
           in if clear then buffersWriteTo w header payload
              else writeAll w (header @ MaskInPlace payload sid mode seq False))"

definition readBPResponse ::
  "stream \<Rightarrow> session_id \<Rightarrow> byte \<Rightarrow> u64 \<Rightarrow> byte \<Rightarrow> bool \<Rightarrow> goerr + (byte \<times> bytes) \<times> stream" where
  "readBPResponse s sid mode seq headerMask clear = (case ReadResponseProfile s headerMask of
     Inl e \<Rightarrow> Inl e
   | Inr ((status, body), s) \<Rightarrow>
       Inr ((status, if status \<noteq> StatusError \<and> body \<noteq> [] \<and> \<not> clear
                     then MaskInPlace body sid mode seq True else body), s))"

definition bp_single_turn ::
  "byte \<Rightarrow> session_id \<Rightarrow> u64 \<Rightarrow> bytes \<Rightarrow> u32 \<Rightarrow> bpLane \<Rightarrow> world
   \<Rightarrow> (goerr + byte \<times> bytes) turn \<times> bpLane \<times> world" where
  "bp_single_turn mode sid seq payload hint l w = (case bpEnsureLocked l w of
     (Some e, l, w) \<Rightarrow> ((if isTransportTimeout (Some e) then Return (Inl e) else Continue e), l, w)
   | (None, l, w) \<Rightarrow>
     let p = the (ln_pc l); reused = (pc_requests p > 0);
         clear = cp_clear (ln_profile l);
         w = log_event (Requested (pc_id p) mode seq payload) w in
     (case writeBPRequest (pc_conn p) mode sid seq payload hint (ln_headerMask l) clear of
       (Some e, c) \<Rightarrow> turn_failed Inl reused e l w
     | (None, c) \<Rightarrow>
       (case readBPResponse (c_in c) sid mode seq (ln_headerMask l) clear of
          Inl e \<Rightarrow> turn_failed Inl reused e l w
        | Inr ((status, body), s) \<Rightarrow>
          let l = l\<lparr>ln_pc := Some (p\<lparr>pc_conn := c\<lparr>c_in := s\<rparr>, pc_requests := pc_requests p + 1\<rparr>)\<rparr>;
              (l, w) = bpCloseAfterLocked l w
          in (Return (Inr (status, body)), l, w))))"

definition bp_single ::
  "byte \<Rightarrow> session_id \<Rightarrow> u64 \<Rightarrow> bytes \<Rightarrow> u32 \<Rightarrow> bpLane \<Rightarrow> world \<Rightarrow> (goerr + byte \<times> bytes) \<times> bpLane \<times> world" where
  "bp_single mode sid seq payload hint =
     attempts (bp_single_turn mode sid seq payload hint)
       (\<lambda>e. Inl (wrap_last ''BP request failed after reconnect'' e)) 2 None"

definition profileProbeTimeout :: int where
  "profileProbeTimeout = 2000000000"

definition probeBPProfile :: "string \<Rightarrow> chunkClientOptions \<Rightarrow> world \<Rightarrow> bool \<times> world" where
  "probeBPProfile serverAddr opts w = (case randomSessionID w of (Inl e, w) \<Rightarrow> (False, w)
     | (Inr sid, w) \<Rightarrow>
       let timeout = (if txnTimeout opts \<le> 0 \<or> txnTimeout opts > profileProbeTimeout
             then profileProbeTimeout else txnTimeout opts);
           lane = newBPLaneWithMask serverAddr (o_tcpBuffer opts) 1 timeout (o_headerMask opts) (o_coverProfile opts);
           payload = bytes_of ''BHP1'' @ [1, bpModeUpload] @ put32 0;
           (res, lane, w) = bp_single bpModeProbe sid 0 payload 0 lane w;
           ok = (case res of Inl e \<Rightarrow> False | Inr (status, body) \<Rightarrow> status = StatusOK \<and> body = payload)
       in (ok, snd (bpCloseLane lane w)))"

definition decodeBPData :: "bytes \<Rightarrow> goerr + bytes" where
  "decodeBPData body =
     (if length body < 4 then Inl (Msg ''short BP DATA body'')
      else let n = unat (get32 (take 4 body)) in
        if n > length body - 4 then Inl (Msg ''bad BP DATA length'')
        else Inr (take n (drop 4 body)))"

text \<open>The response loop of \<^verbatim>\<open>download\<close>: every response is read, whatever its status.\<close>

fun bp_read_batch ::
  "byte \<Rightarrow> bool \<Rightarrow> session_id \<Rightarrow> byte \<Rightarrow> u64 \<Rightarrow> nat \<Rightarrow> stream \<Rightarrow> bytes list \<Rightarrow> byte \<Rightarrow> batch" where
  "bp_read_batch hm clear sid mode offset 0 s out lastStatus = BatchDone out lastStatus s"
| "bp_read_batch hm clear sid mode offset (Suc n) s out lastStatus =
     (case readBPResponse s sid mode offset hm clear of Inl e \<Rightarrow> BatchBroken e
      | Inr ((status, body), s) \<Rightarrow>
        if status = StatusData then
          (case decodeBPData body of Inl e \<Rightarrow> BatchDiscard out status e
           | Inr d \<Rightarrow> bp_read_batch hm clear sid mode offset n s (if d \<noteq> [] then out @ [d] else out) status)
        else if status = StatusOK \<or> status = StatusWait \<or> status = StatusEOF
        then bp_read_batch hm clear sid mode offset n s out status
        else if status = StatusError then BatchDiscard out status (Msg (string_of body))
        else BatchDiscard out status (Msg (''unexpected BP download status '' @ dec (unat status))))"

definition bp_download_turn ::
  "session_id \<Rightarrow> u64 \<Rightarrow> int \<Rightarrow> int \<Rightarrow> bpLane \<Rightarrow> world \<Rightarrow> download_result turn \<times> bpLane \<times> world" where
  "bp_download_turn sid offset maxChunk count l w =
     (let batch = (count > 1);
          mode = (if batch then bpModeBatchDownload else bpModeDownload);
          payload = (if batch then put32 (word_of_int maxChunk) @ put16 (word_of_int count) else []);
          hint = (if batch then 0 else word_of_int maxChunk);
          responses = (if batch then count else 1) in
      case bpEnsureLocked l w of
        (Some e, l, w) \<Rightarrow>
          ((if isTransportTimeout (Some e) then Return ([], 0, Some e) else Continue e), l, w)
      | (None, l, w) \<Rightarrow>
        let p = the (ln_pc l); reused = (pc_requests p > 0);
            clear = cp_clear (ln_profile l);
            w = log_event (Requested (pc_id p) mode offset payload) w in
        (case writeBPRequest (pc_conn p) mode sid offset payload hint (ln_headerMask l) clear of
          (Some e, c) \<Rightarrow> turn_failed (\<lambda>e. ([], 0, Some e)) reused e l w
        | (None, c) \<Rightarrow>
          (case bp_read_batch (ln_headerMask l) clear sid mode offset (nat responses) (c_in c) [] StatusOK of
             BatchBroken e \<Rightarrow> turn_failed (\<lambda>e. ([], 0, Some e)) reused e l w
           | BatchDiscard out status e \<Rightarrow>
             (case bpDiscardLocked l w of (l, w) \<Rightarrow> (Return (out, status, Some e), l, w))
           | BatchDone out lastStatus s \<Rightarrow>
             let l = l\<lparr>ln_pc := Some (p\<lparr>pc_conn := c\<lparr>c_in := s\<rparr>, pc_requests := pc_requests p + 1\<rparr>)\<rparr>;
                 (l, w) = bpCloseAfterLocked l w
             in (Return (out, lastStatus, None), l, w))))"

definition bp_download ::
  "session_id \<Rightarrow> u64 \<Rightarrow> int \<Rightarrow> int \<Rightarrow> bpLane \<Rightarrow> world \<Rightarrow> download_result \<times> bpLane \<times> world" where
  "bp_download sid offset maxChunk count =
     attempts (bp_download_turn sid offset maxChunk count)
       (\<lambda>e. ([], 0, Some (wrap_last ''BP download request failed after reconnect'' e))) 2 None"

section \<open>The tunnel\<close>

record bpConn = tunnel +
  bp_lastAck :: u64

definition normalize_bp_options :: "chunkClientOptions \<Rightarrow> chunkClientOptions" where
  "normalize_bp_options o0 =
     (let o1 = (if minSize o0 < 32 then o0\<lparr>minSize := 32\<rparr> else o0);
          o1 = (if maxSize o1 < minSize o1 then o1\<lparr>maxSize := minSize o1\<rparr> else o1);
          o1 = (if maxSize o1 > 1048576 then o1\<lparr>maxSize := 1048576\<rparr> else o1);
          o1 = (if startSize o1 < minSize o1 \<or> startSize o1 > maxSize o1 then o1\<lparr>startSize := maxSize o1\<rparr> else o1);
          o1 = (if forceMaxStart o1 then o1\<lparr>startSize := maxSize o1\<rparr> else o1);
          o1 = (if txnTimeout o1 \<le> 0 then o1\<lparr>txnTimeout := 5000000000\<rparr> else o1);
          o1 = (if o_shrinkAfter o1 < 1 then o1\<lparr>o_shrinkAfter := 1\<rparr> else o1);
          o1 = (if o_maxPipeline o1 < 1 then o1\<lparr>o_maxPipeline := 1\<rparr> else o1);
          o1 = (if o_maxPipeline o1 > 256 then o1\<lparr>o_maxPipeline := 256\<rparr> else o1);
          o1 = (if o_minPipeline o1 < 1 then o1\<lparr>o_minPipeline := 1\<rparr> else o1)
      in if o_minPipeline o1 > o_maxPipeline o1 then o1\<lparr>o_minPipeline := o_maxPipeline o1\<rparr> else o1)"

definition build_bp_conn ::
  "string \<Rightarrow> chunkClientOptions \<Rightarrow> pathProfile \<Rightarrow> session_id \<Rightarrow> int \<Rightarrow> bpLane \<Rightarrow> bpConn" where
  "build_bp_conn serverAddr opts profile sid reconnect uploadLane =
     \<lparr>cc_sid = sid, cc_opts = opts, cc_uploadLane = uploadLane,
      cc_downloadLane = newBPLaneWithMask serverAddr (o_tcpBuffer opts) reconnect
        (txnTimeout opts) (o_headerMask opts) (o_coverProfile opts),
      cc_upSizer = tunnel_sizer ''BP upload'' opts (pp_upload profile),
      cc_downSizer = tunnel_sizer ''BP download'' opts (pp_download profile),
      cc_upOffset = 0, cc_readBuf = [], cc_downloadOffset = 0, cc_consumedOffset = 0,
      cc_eof = False, cc_pipeline = o_maxPipeline opts, cc_closed = False, cc_dead = False,
      bp_lastAck = 0\<rparr>"

text \<open>A registration exchange: the record answered OK, or the error of the method.\<close>

definition bp_register ::
  "string \<Rightarrow> session_id \<Rightarrow> u64 \<Rightarrow> bytes \<Rightarrow> bpLane \<Rightarrow> world \<Rightarrow> goerr option \<times> bpLane \<times> world" where
  "bp_register what sid seq payload l w = (case bp_single bpModeUpload sid seq payload 0 l w of
     (Inl e, l, w) \<Rightarrow> (Some e, bpCloseLane l w)
   | (Inr (status, body), l, w) \<Rightarrow>
       if status = StatusError then (Some (Msg (string_of body)), bpCloseLane l w)
       else if status \<noteq> StatusOK
       then (Some (Msg (''bad BP '' @ what @ '' response '' @ dec (unat status))), bpCloseLane l w)
       else (None, l, w))"

definition openBPTunnel ::
  "string \<Rightarrow> bytes \<Rightarrow> bytes \<Rightarrow> int \<Rightarrow> chunkClientOptions \<Rightarrow> int \<Rightarrow> profileState \<Rightarrow> world
   \<Rightarrow> (goerr + bpConn) \<times> profileState \<times> world" where
  "openBPTunnel serverAddr token targetHost targetPort opts0 now st w =
     (let opts = normalize_bp_options opts0;
          reconnect = (if o_reconnectEvery opts < 0 then 0 else o_reconnectEvery opts);
          (profile, st, w) = (if skipPathProbe opts
            then (\<lparr>pp_upload = startSize opts, pp_download = startSize opts, pp_pollers = 0,
                   pp_persistent = False, pp_at = now\<rparr>, st, w)
            else getPathProfile serverAddr token opts now st w);
          opts = (if \<not> skipPathProbe opts \<and> pp_pollers profile > pollers opts
                  then opts\<lparr>pollers := pp_pollers profile\<rparr> else opts)
      in case randomSessionID w of (Inl e, w) \<Rightarrow> (Inl e, st, w)
      | (Inr sid, w) \<Rightarrow>
        (case bp_register ''registration'' sid 0 [] (newBPLaneWithMask serverAddr (o_tcpBuffer opts) reconnect
              (txnTimeout opts) (o_headerMask opts) (o_coverProfile opts)) w of
           (Some e, lane, w) \<Rightarrow> (Inl e, st, w)
         | (None, lane, w) \<Rightarrow>
           (case encodeOpen token targetHost targetPort of
              Inl e \<Rightarrow> (Inl e, st, snd (bpCloseLane lane w))
            | Inr payload \<Rightarrow>
              (case bp_register ''OPEN'' sid 1 (bpOpenMagic @ payload) lane w of
                 (Some e, lane, w) \<Rightarrow> (Inl e, st, w)
               | (None, lane, w) \<Rightarrow> (Inr (build_bp_conn serverAddr opts profile sid reconnect lane), st, w)))))"

text \<open>The acknowledgement before a download: sent when something was consumed since the last one.\<close>

definition bp_ack :: "bpConn \<Rightarrow> world \<Rightarrow> goerr option \<times> bpConn \<times> world" where
  "bp_ack c w =
     (if cc_consumedOffset c > bp_lastAck c then
        (case bp_single bpModeACK (cc_sid c) (cc_consumedOffset c) [] 0 (cc_downloadLane c) w of
           (Inl e, lane, w) \<Rightarrow>
             (Some e, (let c = c\<lparr>cc_downloadLane := lane\<rparr> in
               if isTransportTimeout (Some e) then c\<lparr>cc_dead := True\<rparr> else c), w)
         | (Inr (status, body), lane, w) \<Rightarrow>
             let c = c\<lparr>cc_downloadLane := lane\<rparr> in
             if status = StatusError then (Some (Msg (string_of body)), c, w)
             else (None, c\<lparr>bp_lastAck := cc_consumedOffset c\<rparr>, w))
      else (None, c, w))"

definition bp_batch_count :: "bpConn \<Rightarrow> int" where
  "bp_batch_count c =
     (let count = cc_pipeline c;
          count = (if count < o_minPipeline (cc_opts c) then o_minPipeline (cc_opts c) else count)
      in if count > o_maxPipeline (cc_opts c) then o_maxPipeline (cc_opts c) else count)"

definition bp_fill_data :: "bpConn \<Rightarrow> int \<Rightarrow> bytes list \<Rightarrow> bpConn" where
  "bp_fill_data c chunk data =
     (let c = c\<lparr>cc_readBuf := appendChunkParts (cc_readBuf c) data,
               cc_downloadOffset := cc_downloadOffset c + word_of_nat (length (concat data))\<rparr>
      in if data \<noteq> [] then
           let c = c\<lparr>cc_downSizer := Success (cc_downSizer c) chunk\<rparr>
           in if cc_pipeline c < o_maxPipeline (cc_opts c) then c\<lparr>cc_pipeline := cc_pipeline c + 1\<rparr> else c
         else c)"

definition bp_fill_turn :: "bpConn \<Rightarrow> world \<Rightarrow> nat \<Rightarrow> fill_next \<times> bpConn \<times> world" where
  "bp_fill_turn c w k =
     (case bp_ack c w of
        (Some e, c, w) \<Rightarrow> (FillReturn (Some e), c, w)
      | (None, c, w) \<Rightarrow>
        let chunk = Current (cc_downSizer c) in
        (case bp_download (cc_sid c) (cc_downloadOffset c) chunk (bp_batch_count c) (cc_downloadLane c) w of
          ((data, status, Some e), lane, w) \<Rightarrow>
            let c = c\<lparr>cc_downloadLane := lane\<rparr> in
            if isTransportTimeout (Some e) then (FillReturn (Some e), c\<lparr>cc_dead := True\<rparr>, w)
            else (case FailureReason (cc_downSizer c) chunk (Some e) of ((old, nx), sz) \<Rightarrow>
              let c = c\<lparr>cc_downSizer := sz\<rparr> in
              if old = nx \<and> nx = minSize (cc_opts c) then (FillReturn (Some e), c, w)
              else (FillAgain k, c, w))
        | ((data, status, None), lane, w) \<Rightarrow>
            let c = bp_fill_data (c\<lparr>cc_downloadLane := lane\<rparr>) chunk data;
                c = (if status = StatusEOF then c\<lparr>cc_eof := True\<rparr> else c)
            in (FillAgain k, c, w)))"

definition bpFillReadBuffer :: "bpConn \<Rightarrow> world \<Rightarrow> (goerr option \<times> bpConn \<times> world) option" where
  "bpFillReadBuffer = fill_buffer bp_fill_turn"

definition bpRead :: "nat \<Rightarrow> bpConn \<Rightarrow> world \<Rightarrow> (bytes \<times> goerr option \<times> bpConn \<times> world) option" where
  "bpRead = read_conn bp_fill_turn"

definition bp_write_turn ::
  "bpConn \<Rightarrow> world \<Rightarrow> bytes \<Rightarrow> int \<Rightarrow> nat \<Rightarrow> write_next \<times> bpConn \<times> world" where
  "bp_write_turn c w p so_far k =
     (let size = Current (cc_upSizer c); n = nat (min size (int (length p))) in
      case bp_single bpModeUpload (cc_sid c) (cc_upOffset c + 2) (take n p) 0 (cc_uploadLane c) w of
        (Inl err, lane, w) \<Rightarrow>
          let c = c\<lparr>cc_uploadLane := lane\<rparr> in
          if isTransportTimeout (Some err) then (WriteReturn err, c\<lparr>cc_dead := True\<rparr>, w)
          else (case FailureReason (cc_upSizer c) size (Some err) of ((old, nx), sz) \<Rightarrow>
            let c = c\<lparr>cc_upSizer := sz\<rparr> in
            if old = nx \<and> nx = minSize (cc_opts c) then (WriteReturn err, c, w)
            else (WriteAgain p so_far 0, c, w))
      | (Inr (status, body), lane, w) \<Rightarrow>
          let c = c\<lparr>cc_uploadLane := lane\<rparr> in
          if status = StatusError then (WriteReturn (Msg (string_of body)), c, w)
          else if status \<noteq> StatusOK
          then (WriteReturn (Msg (''unexpected BP upload status '' @ dec (unat status))), c, w)
          else (WriteAgain (drop n p) (so_far + int n) 0,
                c\<lparr>cc_upOffset := cc_upOffset c + word_of_nat n, cc_upSizer := Success (cc_upSizer c) size\<rparr>, w))"

definition bpWrite :: "bytes \<Rightarrow> bpConn \<Rightarrow> world \<Rightarrow> (int \<times> goerr option \<times> bpConn \<times> world) option" where
  "bpWrite p c w = send_loop bp_write_turn c w p 0 0"

definition bpClose :: "bpConn \<Rightarrow> world \<Rightarrow> bpConn \<times> world" where
  "bpClose c w =
     (if cc_closed c then (c, w)
      else
        let c = c\<lparr>cc_closed := True\<rparr>;
            (down, w) = (if \<not> cc_dead c
              then snd (bp_single bpModeACK (cc_sid c) (cc_consumedOffset c) bpCloseMagic 0 (cc_downloadLane c) w)
              else (cc_downloadLane c, w));
            (up, w) = bpCloseLane (cc_uploadLane c) w;
            (down, w) = bpCloseLane down w
        in (c\<lparr>cc_uploadLane := up, cc_downloadLane := down\<rparr>, w))"

section \<open>One attempt\<close>

lemma bp_single_turn_contract:
  assumes "lane_ok l w" and "bp_single_turn mode sid seq payload hint l w = (t, l', w')"
  shows "lane_ok l' w' \<and> lane_step l w l' w' \<and> (requests w' = requests w \<or> requests w' = (mode, seq, payload) # requests w)
    \<and> (\<forall>e. t = Continue e \<longrightarrow> \<not> chain_timeout e \<and> ln_pc l' = None)"
proof -
  obtain r0 l1 w1 where en: "ensureLocked l w = (r0, l1, w1)" by (cases "ensureLocked l w") auto
  show ?thesis
  proof (rule turn_contract [OF assms(1) en])
    assume r: "r0 = None"
    with ensureLocked_step [OF assms(1) en] obtain p where p: "ln_pc l1 = Some p" by auto
    let ?w = "log_event (Requested (pc_id p) mode seq payload) w1"
    obtain a c where wr: "writeBPRequest (pc_conn p) mode sid seq payload hint (ln_headerMask l1) (cp_clear (ln_profile l1)) = (a, c)"
      by fastforce
    have "turn_end l1 ?w t l' w'"
    proof (cases "a = None \<and> (\<exists>v. readBPResponse (c_in c) sid mode seq (ln_headerMask l1) (cp_clear (ln_profile l1)) = Inr v)")
      case False
      then have "\<exists>e. turn_failed Inl (pc_requests p > 0) e l1 ?w = (t, l', w')"
        using wr en r p assms(2)
        by (cases a; cases "readBPResponse (c_in c) sid mode seq (ln_headerMask l1) (cp_clear (ln_profile l1))")
          (auto simp: bp_single_turn_def Let_def)
      with p show ?thesis by (blast intro: turn_end.failed)
    next
      case True
      with wr en r p assms(2) show ?thesis
        by (auto simp: bp_single_turn_def Let_def split: prod.splits intro!: turn_end.kept)
    qed
    with p show "turn_end l1 (log_event (Requested (pc_id (the (ln_pc l1))) mode seq payload) w1) t l' w'"
      by simp
  next
    fix e assume "r0 = Some e"
    with en assms(2) show "l' = l1 \<and> w' = w1 \<and> (\<forall>x. t = Continue x \<longrightarrow> \<not> chain_timeout x)"
      by (auto simp: bp_single_turn_def split: if_splits)
  qed
qed

interpretation bp_single_lane: lane_turn "bp_single_turn mode sid seq payload hint" "(mode, seq, payload)"
  for mode sid seq payload hint
  by unfold_locales (use bp_single_turn_contract in \<open>blast+\<close>)

definition bp_download_request :: "u64 \<Rightarrow> int \<Rightarrow> int \<Rightarrow> byte \<times> u64 \<times> bytes" where
  "bp_download_request offset maxChunk count =
     (if count > 1 then (bpModeBatchDownload, offset, put32 (word_of_int maxChunk) @ put16 (word_of_int count))
      else (bpModeDownload, offset, []))"

lemma bp_download_turn_contract:
  assumes "lane_ok l w" and "bp_download_turn sid offset mc cnt l w = (t, l', w')"
  shows "lane_ok l' w' \<and> lane_step l w l' w'
    \<and> (requests w' = requests w \<or> requests w' = bp_download_request offset mc cnt # requests w)
    \<and> (\<forall>e. t = Continue e \<longrightarrow> \<not> chain_timeout e \<and> ln_pc l' = None)"
proof -
  define mode where "mode = (if cnt > 1 then bpModeBatchDownload else bpModeDownload)"
  define pl where "pl = (if cnt > 1 then put32 (word_of_int mc) @ put16 (word_of_int cnt) else [])"
  define hint :: u32 where "hint = (if cnt > 1 then 0 else word_of_int mc)"
  define n where "n = nat (if cnt > 1 then cnt else 1)"
  have rq: "bp_download_request offset mc cnt = (mode, offset, pl)"
    by (simp add: bp_download_request_def mode_def pl_def)
  note t = assms(2) [unfolded bp_download_turn_def Let_def, folded mode_def pl_def hint_def n_def]
  obtain r0 l1 w1 where en: "ensureLocked l w = (r0, l1, w1)" by (cases "ensureLocked l w") auto
  show ?thesis unfolding rq
  proof (rule turn_contract [OF assms(1) en])
    assume r: "r0 = None"
    with ensureLocked_step [OF assms(1) en] obtain p where p: "ln_pc l1 = Some p" by auto
    let ?w = "log_event (Requested (pc_id p) mode offset pl) w1"
    obtain a c where wr: "writeBPRequest (pc_conn p) mode sid offset pl hint (ln_headerMask l1) (cp_clear (ln_profile l1)) = (a, c)"
      by fastforce
    have "turn_end l1 ?w t l' w'"
    proof (cases a)
      case (Some e)
      with wr en r p t have "turn_failed (\<lambda>e. ([], 0, Some e)) (pc_requests p > 0) e l1 ?w = (t, l', w')" by simp
      with p show ?thesis by (rule turn_end.failed)
    next
      case None
      show ?thesis
      proof (cases "bp_read_batch (ln_headerMask l1) (cp_clear (ln_profile l1)) sid mode offset n (c_in c) [] StatusOK")
        case (BatchBroken e)
        with None wr en r p t have "turn_failed (\<lambda>e. ([], 0, Some e)) (pc_requests p > 0) e l1 ?w = (t, l', w')" by simp
        with p show ?thesis by (rule turn_end.failed)
      next
        case (BatchDiscard out st e)
        with None wr en r p t show ?thesis by (auto split: prod.splits intro!: turn_end.dropped)
      next
        case (BatchDone out st s)
        with None wr en r p t show ?thesis by (auto split: prod.splits intro!: turn_end.kept)
      qed
    qed
    with p show "turn_end l1 (log_event (Requested (pc_id (the (ln_pc l1))) mode offset pl) w1) t l' w'"
      by simp
  next
    fix e assume "r0 = Some e"
    with en t show "l' = l1 \<and> w' = w1 \<and> (\<forall>x. t = Continue x \<longrightarrow> \<not> chain_timeout x)"
      by (auto split: if_splits)
  qed
qed

interpretation bp_download_lane: lane_turn "bp_download_turn sid offset mc cnt" "bp_download_request offset mc cnt"
  for sid offset mc cnt
  by unfold_locales (use bp_download_turn_contract in \<open>blast+\<close>)

lemma bp_single_keeps:
  "lane_ok l w \<Longrightarrow> bp_single m s q p h l w = (r, l', w') \<Longrightarrow>
   lane_ok l' w' \<and> lane_step l w l' w' \<and> sends w' \<le> sends w + 2
   \<and> (\<exists>k \<le> 2. requests w' = replicate k (m, q, p) @ requests w)"
  unfolding bp_single_def by (rule bp_single_lane.attempts_all)

lemma bp_download_keeps:
  "lane_ok l w \<Longrightarrow> bp_download s so mc cnt l w = (r, l', w') \<Longrightarrow>
   lane_ok l' w' \<and> lane_step l w l' w' \<and> sends w' \<le> sends w + 2
   \<and> (\<exists>k \<le> 2. requests w' = replicate k (bp_download_request so mc cnt) @ requests w)"
  unfolding bp_download_def by (rule bp_download_lane.attempts_all)

lemma bp_single_turn_answered:
  assumes "lane_ok l w" and "bp_single_turn m s q b h l w = (Return (Inr x), l', w')"
  shows "requests w' = (m, q, b) # requests w"
proof -
  obtain e l1 w1 where e: "ensureLocked l w = (e, l1, w1)" by (metis prod.collapse)
  let ?w2 = "log_event (Requested (pc_id (the (ln_pc l1))) m q b) w1"
  obtain l2 where "closeAfterLocked l2 ?w2 = (l', w')"
    using assms(2) e
    by (fastforce simp: bp_single_turn_def turn_failed_def Let_def
      split: option.splits prod.splits sum.splits if_splits)
  then have "requests w' = requests ?w2" using closeAfter_requests [of l2 ?w2] by simp
  moreover have "requests w1 = requests w" using ensureLocked_step [OF assms(1) e] by simp
  ultimately show ?thesis by simp
qed

lemma bp_single_answered:
  assumes "lane_ok l w" and "bp_single m sid q b h l w = (Inr x, l', w')"
  shows "sends w < sends w'"
  by (rule bp_single_lane.attempts_answered [OF _ _ assms(1) assms(2) [unfolded bp_single_def]])
    (auto intro: bp_single_turn_answered)

section \<open>The tunnel's invariant\<close>

text \<open>
  The common invariant; the pipeline stays at its maximum, because it starts there and, unlike
  \<^verbatim>\<open>chunkConn\<close>'s, no failure lowers it.
\<close>

definition bp_ok :: "bpConn \<Rightarrow> world \<Rightarrow> bool" where
  "bp_ok c w \<longleftrightarrow> tunnel_ok c w \<and> cc_pipeline c = o_maxPipeline (cc_opts c)
     \<and> 1 \<le> o_minPipeline (cc_opts c) \<and> o_minPipeline (cc_opts c) \<le> o_maxPipeline (cc_opts c)"

lemma bp_write_turn_step:
  assumes ok: "bp_ok c w" and p: "p \<noteq> []" and t: "bp_write_turn c w p sf mf = (nxt, c', w')"
  shows "bp_ok c' w' \<and> same_tunnel c w c' w' \<and> turn_sent bpModeUpload 2 c w p sf nxt c' w'"
proof -
  let ?n = "nat (min (Current (cc_upSizer c)) (int (length p)))"
  have tok: "tunnel_ok c w" and inv: "sizer_inv (cc_upSizer c)" and lk: "lane_ok (cc_uploadLane c) w"
    using ok by (simp_all add: bp_ok_def tunnel_ok_def)
  from inv have n: "0 < ?n" "?n \<le> length p" using p by (auto simp: sizer_inv_def Current_def)
  obtain r l1 w1 where s: "bp_single bpModeUpload (cc_sid c) (cc_upOffset c + 2) (take ?n p) 0 (cc_uploadLane c) w = (r, l1, w1)"
    by (metis prod.collapse)
  from bp_single_keeps [OF lk s] obtain k where k: "lane_ok l1 w1" "lane_step (cc_uploadLane c) w l1 w1"
    "requests w1 = replicate k (bpModeUpload, cc_upOffset c + 2, take ?n p) @ requests w" by auto
  have fin: "bp_ok c' w1" if "tunnel_ok c' w1"
    "c' = c\<lparr>cc_uploadLane := l1, cc_upSizer := z, cc_upOffset := ofs, cc_dead := d\<rparr>" for z ofs d
    using that ok by (simp add: bp_ok_def)
  show ?thesis
  proof (cases r)
    case (Inl e)
    obtain old nx z where f: "Failure (cc_upSizer c) (Current (cc_upSizer c)) = ((old, nx), z)" by (metis prod.collapse)
    note z = Failure_pair [OF inv f]
    have "\<exists>z d. c' = c\<lparr>cc_uploadLane := l1, cc_upSizer := z, cc_upOffset := cc_upOffset c, cc_dead := d\<rparr>
      \<and> sizer_inv z \<and> sz_min z = sz_min (cc_upSizer c) \<and> w' = w1
      \<and> (\<forall>p' sf' mf'. nxt = WriteAgain p' sf' mf' \<longrightarrow> p' = p \<and> sf' = sf)"
    proof (cases "isTransportTimeout (Some e)")
      case True
      with t s Inl inv show ?thesis
        by (intro exI [of _ "cc_upSizer c"] exI [of _ True]) (auto simp: bp_write_turn_def Let_def)
    next
      case False
      with t s Inl f z show ?thesis
        by (intro exI [of _ z] exI [of _ "cc_dead c"])
          (auto simp: bp_write_turn_def Let_def FailureReason_Failure split: if_splits)
    qed
    then obtain z d where c': "c' = c\<lparr>cc_uploadLane := l1, cc_upSizer := z, cc_upOffset := cc_upOffset c, cc_dead := d\<rparr>"
      and zi: "sizer_inv z" "sz_min z = sz_min (cc_upSizer c)" and w': "w' = w1"
      and nx: "\<forall>p' sf' mf'. nxt = WriteAgain p' sf' mf' \<longrightarrow> p' = p \<and> sf' = sf" by blast
    from upload_turn_rule [OF tok k n zi c', where nxt = nxt and sf = sf] nx fin [OF _ c'] w' show ?thesis
      by (cases nxt) simp_all
  next
    case (Inr sb)
    obtain st b where sb: "sb = (st, b)" by fastforce
    have "k \<noteq> 0" using bp_single_answered [OF lk s [unfolded Inr]] k(3) by (auto simp: sends_def)
    let ?sent = "c\<lparr>cc_uploadLane := l1, cc_upSizer := Success (cc_upSizer c) (Current (cc_upSizer c)),
      cc_upOffset := cc_upOffset c + word_of_nat ?n, cc_dead := cc_dead c\<rparr>"
    let ?not = "c\<lparr>cc_uploadLane := l1, cc_upSizer := cc_upSizer c, cc_upOffset := cc_upOffset c, cc_dead := cc_dead c\<rparr>"
    from t s Inr sb have cs: "c' = ?not \<and> w' = w1 \<and> (\<exists>e. nxt = WriteReturn e) \<or>
        c' = ?sent \<and> w' = w1 \<and> nxt = WriteAgain (drop ?n p) (sf + int ?n) 0"
      by (auto simp: bp_write_turn_def Let_def split: if_splits)
    note fr = Success_frame [OF inv, of "Current (cc_upSizer c)"]
    from cs show ?thesis
    proof (elim disjE conjE exE)
      fix e assume c': "c' = ?not" "w' = w1" "nxt = WriteReturn e"
      from upload_turn_rule [OF tok k n inv refl c'(1), where nxt = nxt and sf = sf] c' fin [OF _ c'(1)] show ?thesis by simp
    next
      assume c': "c' = ?sent" "w' = w1" "nxt = WriteAgain (drop ?n p) (sf + int ?n) 0"
      from upload_turn_rule [OF tok k n fr(1,2) c'(1), where nxt = nxt and sf = sf] c' fin [OF _ c'(1)] \<open>k \<noteq> 0\<close> show ?thesis by simp
    qed
  qed
qed

lemma bp_write_turn_progress:
  assumes ok: "bp_ok c w" and ad: "sz_adaptive (cc_upSizer c)" and p: "p \<noteq> []"
    and t: "bp_write_turn c w p sf mf = (WriteAgain p' sf' mf', c', w')"
  shows "sz_adaptive (cc_upSizer c') \<and> ((c', w', p', sf', mf'), (c, w, p, sf, mf)) \<in> write_measures"
proof -
  let ?s = "cc_upSizer c"
  let ?n = "nat (min (Current ?s) (int (length p)))"
  have inv: "sizer_inv ?s" and mn: "sz_min ?s = minSize (cc_opts c)"
    using ok by (simp_all add: bp_ok_def tunnel_ok_def)
  then have n: "0 < ?n" using p by (auto simp: sizer_inv_def Current_def)
  obtain r l1 w1 where s: "bp_single bpModeUpload (cc_sid c) (cc_upOffset c + 2) (take ?n p) 0 (cc_uploadLane c) w = (r, l1, w1)"
    by (metis prod.collapse)
  show ?thesis
  proof (cases r)
    case (Inr sb)
    with t s have "p' = drop ?n p" "cc_upSizer c' = Success ?s (Current ?s)"
      by (auto simp: bp_write_turn_def Let_def split: if_splits prod.splits)
    with n p Success_frame(4) [OF inv] ad show ?thesis by (simp add: write_rank_sent)
  next
    case (Inl e)
    obtain old nx sz where f: "Failure ?s (Current ?s) = ((old, nx), sz)" by (metis prod.collapse)
    from t s Inl f have c': "cc_upSizer c' = sz" "p' = p" and go: "\<not> (old = nx \<and> nx = minSize (cc_opts c))"
      by (auto simp: bp_write_turn_def Let_def FailureReason_Failure split: if_splits)
    from write_rank_failed [OF inv ad f [folded c'(1)]] go mn Failure_current [OF inv ad f] c'
    show ?thesis by auto
  qed
qed

lemma bp_write_turn_closed:
  assumes "\<not> sz_adaptive (cc_upSizer c)" and "Current (cc_upSizer c) \<noteq> minSize (cc_opts c)"
    and "ln_closed (cc_uploadLane c)" and "p \<noteq> []"
  shows "bp_write_turn c w p sf mf = (WriteAgain p sf 0, c, w)"
proof -
  have e: "ensureLocked (cc_uploadLane c) w = (Some ErrClosed, cc_uploadLane c, w)"
    using assms(3) by (simp add: ensureLocked_def)
  have st: "bp_single_turn m s q b h (cc_uploadLane c) w = (Continue ErrClosed, cc_uploadLane c, w)" for m s q b h
    by (simp add: bp_single_turn_def e)
  have sg: "bp_single m s q b h (cc_uploadLane c) w =
      (Inl (Wrap ''BP request failed after reconnect'' ErrClosed), cc_uploadLane c, w)" for m s q b h
    by (simp add: bp_single_def numeral_2_eq_2 st wrap_last_def)
  have f: "FailureReason (cc_upSizer c) x e = ((Current (cc_upSizer c), Current (cc_upSizer c)), cc_upSizer c)" for x e
    using assms(1) by (simp add: FailureReason_def Current_def Let_def)
  show ?thesis using assms(2) by (simp add: bp_write_turn_def Let_def sg f)
qed

interpretation bp_up: upload_turn bp_write_turn bp_ok bpModeUpload 2
  by unfold_locales (use bp_write_turn_step in blast, use bp_write_turn_progress in blast, rule bp_write_turn_closed)

section \<open>Reading\<close>

text \<open>The download lane moved, the connections of others did not.\<close>

lemma download_moved:
  assumes ok: "tunnel_ok c w" and l: "lane_ok l1 w1" "lane_step (cc_downloadLane c) w l1 w1"
  shows "tunnel_ok (c\<lparr>cc_downloadLane := l1\<rparr>) w1 \<and> others (c\<lparr>cc_downloadLane := l1\<rparr>) w1 = others c w"
proof -
  have lk: "lane_ok (cc_uploadLane c) w" "owned (cc_downloadLane c) \<inter> owned (cc_uploadLane c) = {}"
    using ok by (auto simp: tunnel_ok_def)
  from other_lane [OF l(2,1) lk] have u: "lane_ok (cc_uploadLane c) w1" "owned l1 \<inter> owned (cc_uploadLane c) = {}"
    "live (w_log w1) - owned (cc_uploadLane c) - owned l1 = others c w"
    unfolding others_def by (simp_all add: Diff_eq Int_ac)
  with ok l(1) show ?thesis by (auto simp: tunnel_ok_def others_def)
qed

lemma bp_ack_step:
  assumes ok: "bp_ok c w" and t: "bp_ack c w = (r, c', w')"
  shows "bp_ok c' w' \<and> others c' w' = others c w \<and> gained c c' []"
proof (cases "cc_consumedOffset c > bp_lastAck c")
  case False
  with t ok show ?thesis by (simp add: bp_ack_def gained_def)
next
  case True
  obtain res l1 w1 where s: "bp_single bpModeACK (cc_sid c) (cc_consumedOffset c) [] 0 (cc_downloadLane c) w = (res, l1, w1)"
    by (metis prod.collapse)
  have lk: "lane_ok (cc_downloadLane c) w" and tok: "tunnel_ok c w" using ok by (simp_all add: bp_ok_def tunnel_ok_def)
  from bp_single_keeps [OF lk s] have "lane_ok l1 w1" "lane_step (cc_downloadLane c) w l1 w1" by simp_all
  note m = download_moved [OF tok this]
  let ?c = "c\<lparr>cc_downloadLane := l1\<rparr>"
  from t s True have "w' = w1 \<and> (c' = ?c \<or> c' = ?c\<lparr>cc_dead := True\<rparr> \<or> c' = ?c\<lparr>bp_lastAck := cc_consumedOffset c\<rparr>)"
    by (auto simp: bp_ack_def Let_def split: sum.splits if_splits)
  with m ok show ?thesis by (auto simp: bp_ok_def gained_def tunnel_ok_def others_def)
qed

lemma bp_fill_data_step:
  assumes "bp_ok c w"
  shows "bp_ok (bp_fill_data c chunk data) w \<and> gained c (bp_fill_data c chunk data) (concat data)
    \<and> others (bp_fill_data c chunk data) w = others c w"
proof -
  have "sizer_inv (cc_downSizer c)" "cc_pipeline c = o_maxPipeline (cc_opts c)"
    using assms by (simp_all add: bp_ok_def tunnel_ok_def)
  with assms Success_frame [of "cc_downSizer c" chunk] show ?thesis
    by (auto simp: bp_fill_data_def bp_ok_def tunnel_ok_def gained_def others_def appendChunkParts_concat Let_def)
qed

lemma bp_fill_turn_step:
  assumes ok: "bp_ok c w" and t: "bp_fill_turn c w k = (nxt, c', w')"
  shows "bp_ok c' w' \<and> others c' w' = others c w \<and> (\<exists>d. gained c c' d)
    \<and> (nxt = FillReturn None \<longrightarrow> cc_readBuf c' \<noteq> [])"
proof -
  obtain r c1 w1 where a: "bp_ack c w = (r, c1, w1)" by (metis prod.collapse)
  note ack = bp_ack_step [OF ok a]
  show ?thesis
  proof (cases r)
    case (Some e)
    with t a have "nxt = FillReturn (Some e)" "c' = c1" "w' = w1" by (simp_all add: bp_fill_turn_def)
    with ack show ?thesis by auto
  next
    case None
    let ?chunk = "Current (cc_downSizer c1)"
    obtain data st err l2 w2 where s: "bp_download (cc_sid c1) (cc_downloadOffset c1) ?chunk (bp_batch_count c1)
      (cc_downloadLane c1) w1 = ((data, st, err), l2, w2)" by (metis prod.collapse)
    have lk: "lane_ok (cc_downloadLane c1) w1" and tok: "tunnel_ok c1 w1" using ack by (simp_all add: bp_ok_def tunnel_ok_def)
    from bp_download_keeps [OF lk s] have "lane_ok l2 w2" "lane_step (cc_downloadLane c1) w1 l2 w2" by simp_all
    note m = download_moved [OF tok this]
    let ?c = "c1\<lparr>cc_downloadLane := l2\<rparr>"
    have ok2: "bp_ok ?c w2" using m ack by (simp add: bp_ok_def)
    have g2: "gained c1 ?c []" by (simp add: gained_def)
    show ?thesis
    proof (cases err)
      case err: None
      let ?d = "bp_fill_data ?c ?chunk data"
      from t a None s err have c': "w' = w2" "c' = ?d \<or> c' = ?d\<lparr>cc_eof := True\<rparr>" "nxt = FillAgain k"
        by (auto simp: bp_fill_turn_def Let_def split: if_splits)
      note fd = bp_fill_data_step [OF ok2, of ?chunk data]
      have "bp_ok c' w2 \<and> others c' w2 = others ?c w2 \<and> gained ?c c' (concat data)"
        using c'(2) fd by (auto simp: bp_ok_def tunnel_ok_def others_def gained_def)
      with c'(1,3) m ack gained_trans [OF gained_trans [of c c1 "[]" ?c "[]"], of c' "concat data"] g2
      show ?thesis by auto
    next
      case (Some e)
      obtain old nx z where f: "Failure (cc_downSizer ?c) ?chunk = ((old, nx), z)" by (metis prod.collapse)
      have "sizer_inv (cc_downSizer ?c)" using ok2 by (simp add: bp_ok_def tunnel_ok_def)
      note z = Failure_pair [OF this f]
      from t a None s Some f have "w' = w2 \<and> (c' = ?c\<lparr>cc_dead := True\<rparr> \<or> c' = ?c\<lparr>cc_downSizer := z\<rparr>)
          \<and> nxt \<noteq> FillReturn None"
        by (auto simp: bp_fill_turn_def Let_def FailureReason_Failure split: if_splits)
      moreover have "bp_ok (?c\<lparr>cc_dead := True\<rparr>) w2 \<and> bp_ok (?c\<lparr>cc_downSizer := z\<rparr>) w2"
        using ok2 z by (simp add: bp_ok_def tunnel_ok_def)
      moreover have "gained c (?c\<lparr>cc_dead := True\<rparr>) []" "gained c (?c\<lparr>cc_downSizer := z\<rparr>) []"
        using ack by (simp_all add: gained_def)
      moreover have "others (?c\<lparr>cc_dead := True\<rparr>) w2 = others c w" "others (?c\<lparr>cc_downSizer := z\<rparr>) w2 = others c w"
        using m ack by (simp_all add: others_def)
      ultimately show ?thesis by auto
    qed
  qed
qed

interpretation bp_down: fill_turn_laws bp_fill_turn bp_ok
proof unfold_locales
  show "bp_ok c w \<Longrightarrow> bp_ok (consume n c) w" for c w n
    using consume_ok [of c w n] by (simp add: bp_ok_def) (simp add: consume_def)
qed (use bp_fill_turn_step in blast)

section \<open>Opening and closing\<close>

lemma normalize_bp_options_ok:
  assumes "minSize opts \<le> 1048576"
  shows "sized (normalize_bp_options opts) \<and> depth_ok (normalize_bp_options opts)
    \<and> o_minPipeline (normalize_bp_options opts) \<le> o_maxPipeline (normalize_bp_options opts)"
    (is "?P (normalize_bp_options opts)")
  unfolding normalize_bp_options_def
  supply s = let_rule [where P = ?P and J = sized]
  apply (rule let_rule [where P = ?P and J = "\<lambda>x. 32 \<le> minSize x \<and> minSize x \<le> 1048576"], use assms in simp)
  apply (rule let_rule [where P = ?P and J = "\<lambda>x. 32 \<le> minSize x \<and> minSize x \<le> 1048576 \<and> minSize x \<le> maxSize x"], simp)
  apply (rule s, simp add: sized_def, rule s, simp add: sized_def, rule s, simp add: sized_def)
  apply (rule s, simp add: sized_def, rule s, simp add: sized_def)
  apply (rule let_rule [where P = ?P and J = "\<lambda>x. sized x \<and> 1 \<le> o_maxPipeline x"], simp add: sized_def)
  apply (rule let_rule [where P = ?P and J = "\<lambda>x. sized x \<and> 1 \<le> o_maxPipeline x \<and> o_maxPipeline x \<le> 256"],
    simp add: sized_def)
  apply (rule let_rule [where P = ?P and J = "\<lambda>x. sized x \<and> depth_ok x"], simp add: sized_def depth_ok_def)
  apply (simp add: sized_def depth_ok_def)
  done

lemma bp_register_step:
  assumes "lane_ok l w" and "live (w_log w) - owned l = X" and "bp_register what sid seq p l w = (r, l', w')"
  shows "if r = None then lane_ok l' w' \<and> live (w_log w') - owned l' = X else live (w_log w') = X"
proof -
  obtain res l1 w1 where s: "bp_single bpModeUpload sid seq p 0 l w = (res, l1, w1)" by (metis prod.collapse)
  from bp_single_keeps [OF assms(1) s] assms(2) have k: "lane_ok l1 w1" "live (w_log w1) - owned l1 = X"
    by (simp_all add: lane_step_def)
  from lane_done [OF k] have "live (w_log (snd (closeLane l1 w1))) = X" .
  moreover from assms(3) s have "r = None \<and> l' = l1 \<and> w' = w1 \<or> r \<noteq> None \<and> w' = snd (closeLane l1 w1)"
    by (auto simp: bp_register_def split: sum.splits if_splits)
  ultimately show ?thesis using k by auto
qed

lemma build_bp_conn_ok:
  assumes "lane_ok lane w" and "sized opts" and "depth_ok opts" and "o_minPipeline opts \<le> o_maxPipeline opts"
  shows "bp_ok (build_bp_conn srv opts pr sid re lane) w
    \<and> others (build_bp_conn srv opts pr sid re lane) w = live (w_log w) - owned lane"
proof -
  let ?d = "newRequestLane srv (o_tcpBuffer opts) re (txnTimeout opts) (o_headerMask opts) (o_coverProfile opts)"
  have "world_ok w" using assms(1) by (simp add: lane_ok_def lane_own_def)
  then have "lane_ok ?d w" by (rule lane_ok_new)
  moreover have "owned ?d = {}" by (simp add: newRequestLane_def Let_def)
  moreover have "1 \<le> minSize opts" "minSize opts \<le> maxSize opts" using assms(2) by (simp_all add: sized_def)
  note tunnel_sizer_ok [OF this]
  ultimately show ?thesis using assms
    by (simp add: bp_ok_def tunnel_ok_def build_bp_conn_def depth_ok_def others_def)
qed

lemma openBPTunnel_post:
  assumes w: "world_ok w" and mn: "minSize opts0 \<le> 1048576"
    and o: "openBPTunnel srv token host port opts0 now st w = (r, st', w')"
  shows "case r of Inl e \<Rightarrow> live (w_log w') = live (w_log w)
    | Inr c \<Rightarrow> bp_ok c w' \<and> others c w' = live (w_log w) \<and> \<not> cc_closed c \<and> \<not> cc_dead c
        \<and> cc_readBuf c = [] \<and> cc_upOffset c = 0 \<and> cc_downloadOffset c = 0 \<and> cc_consumedOffset c = 0"
proof -
  let ?n = "normalize_bp_options opts0" and ?X = "live (w_log w)"
  let ?re = "if o_reconnectEvery ?n < 0 then 0 else o_reconnectEvery ?n"
  let ?first = "if skipPathProbe ?n
      then (\<lparr>pp_upload = startSize ?n, pp_download = startSize ?n, pp_pollers = 0,
             pp_persistent = False, pp_at = now\<rparr>, st, w)
      else getPathProfile srv token ?n now st w"
  obtain pr st1 w1 where f: "?first = (pr, st1, w1)" by (metis prod.collapse)
  have "quiet ?X w" using w by (simp add: quiet_def)
  with f getPathProfile_quiet [of ?X w srv token ?n now st] have q1: "quiet ?X w1" by (auto split: if_splits)
  define opts where "opts = (if \<not> skipPathProbe ?n \<and> pp_pollers pr > pollers ?n
                  then ?n\<lparr>pollers := pp_pollers pr\<rparr> else ?n)"
  have os: "sized opts" "depth_ok opts" "o_minPipeline opts \<le> o_maxPipeline opts"
    using normalize_bp_options_ok [OF mn] by (auto simp: opts_def sized_def depth_ok_def)
  obtain rs w2 where rs: "randomSessionID w1 = (rs, w2)" by fastforce
  then have q2: "quiet ?X w2" using q1 by (auto simp: randomSessionID_def take_rng_def split: sum.splits)
  let ?lane = "newRequestLane srv (o_tcpBuffer opts) ?re (txnTimeout opts) (o_headerMask opts) (o_coverProfile opts)"
  have lane: "lane_ok ?lane w2" "live (w_log w2) - owned ?lane = ?X" using q2
    by (simp_all add: quiet_def lane_ok_new) (simp add: newRequestLane_def Let_def)
  note o' = o [unfolded openBPTunnel_def bp_lane_ops, folded opts_def, unfolded Let_def f prod.case, folded opts_def,
      unfolded rs prod.case]
  show ?thesis
  proof (cases rs)
    case (Inl e)
    with o' q2 show ?thesis by (auto simp: quiet_def)
  next
    case (Inr sid)
    obtain r1 l3 w3 where r1: "bp_register ''registration'' sid 0 [] ?lane w2 = (r1, l3, w3)" by (metis prod.collapse)
    note s1 = bp_register_step [OF lane r1]
    show ?thesis
    proof (cases r1)
      case (Some e)
      with o' Inr r1 s1 show ?thesis by auto
    next
      case None
      with s1 have l3: "lane_ok l3 w3" "live (w_log w3) - owned l3 = ?X" by simp_all
      show ?thesis
      proof (cases "encodeOpen token host port")
        case (Inl e)
        with o' Inr r1 None have "r = Inl e" "w' = snd (closeLane l3 w3)" by simp_all
        with lane_done [OF l3] show ?thesis by simp
      next
        case pl: (Inr payload)
        obtain r2 l4 w4 where r2: "bp_register ''OPEN'' sid 1 (bpOpenMagic @ payload) l3 w3 = (r2, l4, w4)"
          by (metis prod.collapse)
        note s2 = bp_register_step [OF l3 r2]
        show ?thesis
        proof (cases r2)
          case (Some e)
          with o' Inr r1 None pl r2 s2 show ?thesis by auto
        next
          case ok: None
          with o' Inr r1 None pl r2 have r: "r = Inr (build_bp_conn srv opts pr sid ?re l4)" "w' = w4" by simp_all
          from s2 ok have l4: "lane_ok l4 w4" "live (w_log w4) - owned l4 = ?X" by simp_all
          from build_bp_conn_ok [OF l4(1) os, of srv pr sid ?re] l4(2) show ?thesis
            unfolding r by (simp add: build_bp_conn_def)
        qed
      qed
    qed
  qed
qed

lemma bpClose_step:
  assumes ok: "bp_ok c w" and "\<not> cc_closed c" and cl: "bpClose c w = (c', w')"
  shows "cc_closed c' \<and> live (w_log w') = others c w
    \<and> (\<exists>k \<le> 2. requests w' = replicate k (bpModeACK, cc_consumedOffset c, bpCloseMagic) @ requests w \<and> (cc_dead c \<longrightarrow> k = 0))"
proof -
  have tok: "tunnel_ok c w" and lk: "lane_ok (cc_downloadLane c) w" using ok by (simp_all add: bp_ok_def tunnel_ok_def)
  obtain dn w1 where d: "(if \<not> cc_dead c
      then snd (bp_single bpModeACK (cc_sid c) (cc_consumedOffset c) bpCloseMagic 0 (cc_downloadLane c) w)
      else (cc_downloadLane c, w)) = (dn, w1)" by fastforce
  have "\<exists>k \<le> 2. requests w1 = replicate k (bpModeACK, cc_consumedOffset c, bpCloseMagic) @ requests w
      \<and> (cc_dead c \<longrightarrow> k = 0) \<and> lane_ok dn w1 \<and> lane_step (cc_downloadLane c) w dn w1"
  proof (cases "cc_dead c")
    case True
    with d lk show ?thesis by (auto intro!: exI [of _ 0])
  next
    case False
    obtain r where "bp_single bpModeACK (cc_sid c) (cc_consumedOffset c) bpCloseMagic 0 (cc_downloadLane c) w = (r, dn, w1)"
      using d False by (metis prod.collapse)
    from bp_single_keeps [OF lk this] False show ?thesis by blast
  qed
  then obtain k where k: "k \<le> 2" "requests w1 = replicate k (bpModeACK, cc_consumedOffset c, bpCloseMagic) @ requests w"
    "cc_dead c \<longrightarrow> k = 0" and l1: "lane_ok dn w1" "lane_step (cc_downloadLane c) w dn w1" by blast
  from download_moved [OF tok l1] have m: "lane_ok (cc_uploadLane c) w1" "owned (cc_uploadLane c) \<inter> owned dn = {}"
    "live (w_log w1) - owned (cc_uploadLane c) - owned dn = others c w"
    by (simp_all add: tunnel_ok_def others_def)
  obtain up2 w2 where c2: "closeLane (cc_uploadLane c) w1 = (up2, w2)" by fastforce
  obtain dn2 w3 where c3: "closeLane dn w2 = (dn2, w3)" by fastforce
  note cb = close_both [OF m(1) l1(1) m(2) c2 c3]
  from assms(2) cl d c2 c3 have "c' = c\<lparr>cc_closed := True, cc_uploadLane := up2, cc_downloadLane := dn2\<rparr>" "w' = w3"
    by (cases "cc_dead c"; simp add: bpClose_def Let_def)+
  with cb m(3) k show ?thesis by auto
qed

text \<open>The calls an application makes on an open tunnel.\<close>

fun bp_conn_do :: "conn_call \<Rightarrow> bpConn \<times> world \<Rightarrow> (bpConn \<times> world) option" where
  "bp_conn_do (CallRead n) (c, w) = map_option (\<lambda>(b, e, c, w). (c, w)) (bpRead n c w)"
| "bp_conn_do (CallWrite p) (c, w) = map_option (\<lambda>(n, e, c, w). (c, w)) (bpWrite p c w)"

fun bp_conn_run :: "conn_call list \<Rightarrow> bpConn \<times> world \<Rightarrow> (bpConn \<times> world) option" where
  "bp_conn_run [] s = Some s"
| "bp_conn_run (x # xs) s = (case bp_conn_do x s of None \<Rightarrow> None | Some s \<Rightarrow> bp_conn_run xs s)"

lemma bp_conn_do_step:
  assumes "bp_ok c w" and "bp_conn_do x (c, w) = Some (c', w')"
  shows "bp_ok c' w' \<and> same_tunnel c w c' w'"
proof (cases x)
  case (CallRead n)
  with assms(2) obtain b e where "read_conn bp_fill_turn n c w = Some (b, e, c', w')" by (auto simp: bpRead_def)
  from bp_down.read_post [OF this assms(1)] show ?thesis by simp
next
  case (CallWrite p)
  with assms(2) obtain n e where "send_loop bp_write_turn c w p 0 0 = Some (n, e, c', w')" by (auto simp: bpWrite_def)
  from bp_up.send_all [OF this assms(1)] show ?thesis by simp
qed

lemma bp_conn_run_step:
  "bp_ok c w \<Longrightarrow> bp_conn_run xs (c, w) = Some (c', w') \<Longrightarrow> bp_ok c' w' \<and> same_tunnel c w c' w'"
proof (induction xs arbitrary: c w)
  case (Cons x xs)
  then obtain c1 w1 where s: "bp_conn_do x (c, w) = Some (c1, w1)" "bp_conn_run xs (c1, w1) = Some (c', w')"
    by (auto split: option.splits)
  from bp_conn_do_step [OF Cons.prems(1) s(1)] Cons.IH [OF _ s(2)] show ?case by (auto intro: same_tunnel_trans)
qed simp

section \<open>A server that answers\<close>

lemma writeAll_accepting_conn:
  assumes "accepting c" and "length b \<le> 2097400"
  shows "\<exists>c'. writeAll c b = (None, c') \<and> accepting c' \<and> c_in c' = c_in c \<and> c_out c' = c_out c @ b"
  using assms by (auto simp: writeAll.simps [of c b] conn_write_accepting)

lemma buffersWriteTo_accepting_conn:
  assumes "accepting c" and "length h \<le> 2097400" and "length b \<le> 2097400"
  shows "\<exists>c'. buffersWriteTo c h b = (None, c') \<and> accepting c' \<and> c_in c' = c_in c \<and> c_out c' = c_out c @ h @ b"
  using assms by (auto simp: buffersWriteTo_def conn_write_accepting)

lemma length_bp_header [simp]: "length (bp_header m s q n hm) = 29"
  by (simp add: bp_header_def)

lemma writeBPRequest_accepting:
  assumes "accepting c" and "length b \<le> MaxPayload"
  shows "\<exists>c'. writeBPRequest c m sid q b h hm clear = (None, c') \<and> accepting c' \<and> c_in c' = c_in c
    \<and> c_out c' = c_out c @ (if m = bpModeDownload then bp_header m sid q h hm
        else request_frame hm clear \<lparr>rq_mode = m, rq_session = sid, rq_seq = q, rq_payload = b\<rparr>)"
proof -
  have len: "length b \<le> 2097152" using assms(2) by (simp add: MaxPayload_def)
  have nil: "MaskInPlace [] sid m q False = []" by (metis length_0_conv length_MaskInPlace)
  have fr: "request_frame hm clear \<lparr>rq_mode = m, rq_session = sid, rq_seq = q, rq_payload = b\<rparr> =
      bp_header m sid q (word_of_nat (length b)) hm @ (if clear then b else MaskInPlace b sid m q False)"
    by (simp add: request_frame_def req_hdr_def req_body_def wire_payload_def request_header_def bp_header_def)
  note wa = writeAll_accepting_conn [OF assms(1), of "bp_header m sid q n hm @ x" for n x, simplified length_append length_bp_header]
    and bw = buffersWriteTo_accepting_conn [OF assms(1), of "bp_header m sid q n hm" for n, simplified length_bp_header]
  show ?thesis
  proof (cases "m = bpModeDownload")
    case True
    with wa [of "[]" h] bw [of "[]" h] nil show ?thesis
      by (cases clear) (simp_all add: writeBPRequest_def Let_def MaxPayload_def)
  next
    case False
    with wa [of "MaskInPlace b sid m q False" "word_of_nat (length b)"] bw [of b "word_of_nat (length b)"] len show ?thesis
      unfolding fr by (cases clear) (simp_all add: writeBPRequest_def Let_def MaxPayload_def)
  qed
qed

lemma readBPResponse_frame:
  assumes "st \<le> StatusEOF" and "st \<noteq> StatusError" and "length body \<le> MaxPayload"
  shows "readBPResponse (response_frame hm (st, wire_payload clear sid m q True body) @ r, e) sid m q hm clear
    = Inr ((st, body), (r, e))"
proof -
  let ?wb = "wire_payload clear sid m q True body"
  have "response_ok (st, ?wb)" using assms(1,3) by (simp add: response_ok_def)
  from response_lp.dec_whole [OF this]
  have "ReadResponseProfile (response_frame hm (st, ?wb) @ r, e) hm = Inr ((st, ?wb), (r, e))"
    by (simp add: response_whole)
  then show ?thesis using assms(2)
    by (auto simp: readBPResponse_def wire_payload_def dest: arg_cong [where f = length])
qed

lemma bp_single_exchange:
  assumes "ensureLocked l w = (None, l1, w1)" and "ln_pc l1 = Some p" and "accepting (pc_conn p)"
    and "length b \<le> MaxPayload" and "st \<le> StatusEOF" and "st \<noteq> StatusError" and "length body \<le> MaxPayload"
    and "c_in (pc_conn p) = (response_frame (ln_headerMask l1)
           (st, wire_payload (cp_clear (ln_profile l1)) sid m q True body) @ r, e)"
  shows "\<exists>c. accepting c \<and> c_in c = (r, e) \<and> bp_single m sid q b h l w =
    (case closeAfterLocked (l1\<lparr>ln_pc := Some (p\<lparr>pc_conn := c, pc_requests := pc_requests p + 1\<rparr>)\<rparr>)
       (log_event (Requested (pc_id p) m q b) w1) of (l, w) \<Rightarrow> (Inr (st, body), l, w))"
proof -
  obtain c where c: "writeBPRequest (pc_conn p) m sid q b h (ln_headerMask l1) (cp_clear (ln_profile l1)) = (None, c)"
    "accepting c" "c_in c = c_in (pc_conn p)"
    using writeBPRequest_accepting [OF assms(3,4), of m sid q h "ln_headerMask l1" "cp_clear (ln_profile l1)"] by blast
  have rd: "readBPResponse (c_in c) sid m q (ln_headerMask l1) (cp_clear (ln_profile l1)) = Inr ((st, body), (r, e))"
    unfolding c(3) assms(8) by (rule readBPResponse_frame [OF assms(5-7)])
  show ?thesis
    by (rule exI [of _ "c\<lparr>c_in := (r, e)\<rparr>"])
      (simp add: c(2) bp_single_def numeral_2_eq_2 bp_single_turn_def assms(1,2) c(1) rd Let_def split: prod.split)
qed

text \<open>A server that accepts a registration and an OPEN on every connection and then ends.\<close>

definition registering_conn :: conn where
  "registering_conn = open_conn\<lparr>c_in := (response_frame 0x80 (StatusOK, wire_payload False zero_sid bpModeUpload 0 True [])
     @ response_frame 0x80 (StatusOK, wire_payload False zero_sid bpModeUpload 1 True []) @ [], EOF)\<rparr>"

definition registering_world :: world where
  "registering_world = silent_world\<lparr>w_dials := \<lambda>_. Inr registering_conn\<rparr>"

lemma registering_world_ok [simp]: "world_ok registering_world"
  by (simp add: world_ok_def registering_world_def silent_world_def)

lemma normalize_bp_sample: "normalize_bp_options sample_options = sample_options"
  by (simp add: normalize_bp_options_def sample_options_def)

lemma registering_succeeds:
  "\<exists>c st' w'. openBPTunnel ''s:53'' [1] [2] 80 sample_options 0 empty_profile registering_world = (Inr c, st', w')
    \<and> sz_adaptive (cc_upSizer c)"
proof -
  let ?l = "newRequestLane ''s:53'' (o_tcpBuffer sample_options) (o_reconnectEvery sample_options)
      (txnTimeout sample_options) (o_headerMask sample_options) (o_coverProfile sample_options)"
  let ?w = "registering_world\<lparr>w_rngn := Suc 0\<rparr>"
  let ?p = "\<lparr>pc_id = 0, pc_conn = registering_conn, pc_requests = 0\<rparr>"
  have rs: "randomSessionID registering_world = (Inr zero_sid, ?w)"
    by (simp add: randomSessionID_def take_rng_def registering_world_def silent_world_def randRead_def zero_sid_def
        map_replicate_const)
  have lane: "ln_reconnectEvery ?l = 0" "ln_headerMask ?l = 0x80" "cp_clear (ln_profile ?l) = False" "ln_closed ?l = False"
    "ln_pc ?l = None" "cp_enabled (ln_profile ?l) = False"
    by (simp_all add: newRequestLane_def sample_options_def zero_profile_def Let_def)
  obtain w1 where en: "ensureLocked ?l ?w = (None, ?l\<lparr>ln_pc := Some ?p\<rparr>, w1)"
    using lane by (simp add: ensureLocked_def dialLane_def Let_def take_rng_def WritePreface_def
        registering_world_def silent_world_def)
  have acc: "accepting registering_conn" by (simp add: registering_conn_def)
  note ex = bp_single_exchange [where body = "[]" and e = EOF and h = 0 and m = bpModeUpload and sid = zero_sid and st = StatusOK]
  obtain c1 where c1: "accepting c1" "c_in c1 = (response_frame 0x80 (StatusOK, wire_payload False zero_sid bpModeUpload 1 True []) @ [], EOF)"
    and s1: "bp_single bpModeUpload zero_sid 0 [] 0 ?l ?w =
      (Inr (StatusOK, []), ?l\<lparr>ln_pc := Some \<lparr>pc_id = 0, pc_conn = c1, pc_requests = 1\<rparr>\<rparr>, log_event (Requested 0 bpModeUpload 0 []) w1)"
    using ex [OF en, of ?p "[]" 0 "response_frame 0x80 (StatusOK, wire_payload False zero_sid bpModeUpload 1 True []) @ []"]
      acc lane(1-3) by (auto simp: registering_conn_def closeAfterLocked_def status_defs)
  let ?l2 = "?l\<lparr>ln_pc := Some \<lparr>pc_id = 0, pc_conn = c1, pc_requests = 1\<rparr>\<rparr>"
  let ?w2 = "log_event (Requested 0 bpModeUpload 0 []) w1"
  obtain pl where pl: "encodeOpen [1] [2] 80 = Inr pl" "length (bpOpenMagic @ pl) \<le> MaxPayload"
    by (simp add: encodeOpen_def MaxPayload_def bpOpenMagic_def bytes_of_def)
  have en2: "ensureLocked ?l2 ?w2 = (None, ?l2, ?w2)" using lane by (simp add: ensureLocked_def)
  obtain l3 w3 where s2: "bp_single bpModeUpload zero_sid 1 (bpOpenMagic @ pl) 0 ?l2 ?w2 = (Inr (StatusOK, []), l3, w3)"
    using ex [OF en2, of _ "bpOpenMagic @ pl" 1 "[]"] c1 pl(2) lane(1-3)
    by (auto simp: closeAfterLocked_def status_defs)
  have sk: "skipPathProbe sample_options" "\<not> o_reconnectEvery sample_options < 0" by (simp_all add: sample_options_def)
  have "\<exists>c. openBPTunnel ''s:53'' [1] [2] 80 sample_options 0 empty_profile registering_world = (Inr c, empty_profile, w3)
      \<and> cc_upSizer c = tunnel_sizer ''BP upload'' sample_options (startSize sample_options)"
    by (simp add: openBPTunnel_def normalize_bp_sample Let_def sk rs bp_register_def s1 s2 pl(1) status_defs build_bp_conn_def)
  moreover have "1 \<le> minSize sample_options" "minSize sample_options \<le> maxSize sample_options" by simp_all
  note tunnel_sizer_ok [OF this, of "''BP upload''" "startSize sample_options"]
  ultimately show ?thesis by (auto simp: sample_options_def)
qed

text \<open>A batch response record: its length, then its data, masked at the batch's offset.\<close>

definition bp_data_frame :: "byte \<Rightarrow> bool \<Rightarrow> session_id \<Rightarrow> byte \<Rightarrow> u64 \<Rightarrow> bytes \<Rightarrow> bytes" where
  "bp_data_frame hm clear sid mode offset d = response_frame hm
     (StatusData, wire_payload clear sid mode offset True (put32 (word_of_nat (length d)) @ d))"

lemma decodeBPData_put:
  assumes "length d \<le> 1048576"
  shows "decodeBPData (put32 (word_of_nat (length d)) @ d) = Inr d"
proof -
  have "unat (word_of_nat (length d) :: u32) = length d" using assms by (simp add: unat_of_nat)
  then show ?thesis by (simp add: decodeBPData_def Let_def)
qed

lemma bp_read_batch_frames:
  assumes "\<forall>d \<in> set ds. length d \<le> 1048576"
  shows "bp_read_batch hm clear sid mode offset (length ds)
      (concat (map (bp_data_frame hm clear sid mode offset) ds) @ r, e) out st =
    BatchDone (out @ filter (\<lambda>d. d \<noteq> []) ds) (if ds = [] then st else StatusData) (r, e)"
  using assms
proof (induction ds arbitrary: out st)
  case (Cons d ds)
  let ?rest = "concat (map (bp_data_frame hm clear sid mode offset) ds) @ r"
  have d: "length d \<le> 1048576" using Cons.prems by simp
  then have "length (put32 (word_of_nat (length d)) @ d) \<le> MaxPayload" by (simp add: MaxPayload_def)
  from readBPResponse_frame [of StatusData, OF _ _ this, of hm clear sid mode offset ?rest e]
  have rd: "readBPResponse (bp_data_frame hm clear sid mode offset d @ ?rest, e) sid mode offset hm clear
      = Inr ((StatusData, put32 (word_of_nat (length d)) @ d), (?rest, e))"
    by (simp add: bp_data_frame_def status_defs)
  have "bp_read_batch hm clear sid mode offset (length (d # ds))
      (concat (map (bp_data_frame hm clear sid mode offset) (d # ds)) @ r, e) out st =
    bp_read_batch hm clear sid mode offset (length ds) (?rest, e) (if d \<noteq> [] then out @ [d] else out) StatusData"
    using rd by (simp add: decodeBPData_put [OF d])
  with Cons.IH [of "if d \<noteq> [] then out @ [d] else out" StatusData] Cons.prems show ?case by auto
qed simp

section \<open>Properties\<close>

text \<open>A BP record is a record of the binary wire: for every mode but the single download the
  writer produces exactly the frame that the server's request reader turns back into mode,
  session, sequence number and payload; the single download is a bare 29-byte header that
  carries the requested size where the payload length stands.\<close>

theorem bp_request_roundtrip:
  assumes "accepting w" and "length b \<le> MaxPayload" and "m \<le> ModeClose"
  shows "\<exists>w'. writeBPRequest w m sid q b hint hm clear = (None, w') \<and>
    (if m = bpModeDownload then c_out w' = c_out w @ (m XOR hm) # sid_bytes sid @ put64 q @ put32 hint
     else \<exists>frame. c_out w' = c_out w @ frame \<and>
       (\<forall>r e. ReadRequestProfileEncoding (frame @ r, e) hm clear =
          Inr (\<lparr>rq_mode = m, rq_session = sid, rq_seq = q, rq_payload = b\<rparr>, (r, e))))"
proof -
  let ?q = "\<lparr>rq_mode = m, rq_session = sid, rq_seq = q, rq_payload = b\<rparr>"
  have "request_ok ?q" using assms(2,3) by (simp add: request_ok_def)
  from request_lp.dec_whole [OF this]
  have "ReadRequestProfileEncoding (request_frame hm clear ?q @ r, e) hm clear = Inr (?q, (r, e))" for r e
    by (simp add: request_whole)
  with writeBPRequest_accepting [OF assms(1,2), of m sid q hint hm clear] show ?thesis
    by (auto simp: bp_header_def)
qed

theorem bp_request_roundtrip_witness:
  "\<exists>w'. writeBPRequest open_conn bpModeUpload (sid_of [1]) 2 [5, 6] 0 0xF8 False = (None, w') \<and>
    (\<exists>frame. c_out w' = c_out open_conn @ frame \<and>
       ReadRequestProfileEncoding (frame @ [9], EOF) 0xF8 False =
          Inr (\<lparr>rq_mode = bpModeUpload, rq_session = sid_of [1], rq_seq = 2, rq_payload = [5, 6]\<rparr>, ([9], EOF)))"
  using bp_request_roundtrip [of open_conn "[5, 6]" bpModeUpload "sid_of [1]" 2 0 "0xF8" False]
  by (auto simp: bp_modes MaxPayload_def ModeClose_def)

text \<open>A BP batch download returns the data of all its response records, in order: the
  server's non-empty parts, framed with their length and masked at the batch's offset, are the
  parts returned, and the status is the last one.\<close>

theorem bp_batch_in_order:
  assumes "lane_ok l w" and "ln_pc l = Some p" and "accepting (pc_conn p)"
    and "\<forall>d \<in> set parts. length d \<le> 1048576" and "1 < length parts"
    and "c_in (pc_conn p) = (concat (map (bp_data_frame (ln_headerMask l) (cp_clear (ln_profile l)) sid
           bpModeBatchDownload offset) parts) @ r, e)"
  shows "fst (bp_download sid offset mc (int (length parts)) l w) = (filter (\<lambda>d. d \<noteq> []) parts, StatusData, None)"
proof -
  let ?clear = "cp_clear (ln_profile l)" and ?hm = "ln_headerMask l"
  let ?pl = "put32 (word_of_int mc) @ put16 (word_of_int (int (length parts)))"
  obtain c where c: "writeBPRequest (pc_conn p) bpModeBatchDownload sid offset ?pl 0 ?hm ?clear = (None, c)"
    "c_in c = c_in (pc_conn p)"
    using writeBPRequest_accepting [OF assms(3), of ?pl bpModeBatchDownload sid offset 0 ?hm ?clear]
    by (auto simp: MaxPayload_def)
  have rb: "bp_read_batch ?hm ?clear sid bpModeBatchDownload offset (nat (int (length parts))) (c_in c) [] StatusOK
      = BatchDone (filter (\<lambda>d. d \<noteq> []) parts) StatusData (r, e)"
    using assms(5) unfolding c(2) assms(6) nat_int bp_read_batch_frames [OF assms(4)] by auto
  have "\<exists>l' w'. bp_download_turn sid offset mc (int (length parts)) l w =
      (Return (filter (\<lambda>d. d \<noteq> []) parts, StatusData, None), l', w')"
    using assms(5) c(1) rb
    by (simp add: bp_download_turn_def Let_def ensureLocked_keeps [OF assms(1,2)] assms(2) split: prod.split)
  then show ?thesis by (auto simp: bp_download_def numeral_2_eq_2)
qed

theorem bp_batch_in_order_witness:
  "fst (bp_download (sid_of []) 7 32 (int (length [[1], [], [2, 3 :: byte]]))
     (waiting_lane\<lparr>ln_pc := Some (waiting_pc\<lparr>pc_conn := open_conn\<lparr>c_in :=
        (concat (map (bp_data_frame 0 False (sid_of []) bpModeBatchDownload 7) [[1], [], [2, 3]]) @ [], EOF)\<rparr>\<rparr>)\<rparr>)
     waiting_world) = ([[1], [2, 3]], StatusData, None)"
proof -
  let ?p = "waiting_pc\<lparr>pc_conn := open_conn\<lparr>c_in :=
        (concat (map (bp_data_frame 0 False (sid_of []) bpModeBatchDownload 7) [[1], [], [2, 3]]) @ [], EOF)\<rparr>\<rparr>"
  let ?l = "waiting_lane\<lparr>ln_pc := Some ?p\<rparr>"
  have ok: "lane_ok ?l waiting_world"
    by (simp add: lane_ok_def lane_own_def quota_def world_ok_def waiting_lane_def waiting_world_def
      waiting_pc_def silent_world_def newRequestLane_def Let_def)
  have "ln_pc ?l = Some ?p" "accepting (pc_conn ?p)" "\<forall>d \<in> set [[1], [], [2, 3 :: byte]]. length d \<le> 1048576"
    "1 < length [[1], [], [2, 3 :: byte]]"
    "c_in (pc_conn ?p) = (concat (map (bp_data_frame (ln_headerMask ?l) (cp_clear (ln_profile ?l)) (sid_of [])
        bpModeBatchDownload 7) [[1], [], [2, 3]]) @ [], EOF)"
    by (simp_all add: waiting_lane_def newRequestLane_def zero_profile_def Let_def)
  from bp_batch_in_order [OF ok this, of 32] show ?thesis by simp
qed

text \<open>C15: A BP \<^verbatim>\<open>Write\<close> keeps the upload stream intact, its records numbered from 2
  on because registration and OPEN took 0 and 1; with adaptation on it always returns, with
  adaptation off and a size other than the minimum never on a closed lane.\<close>

theorem bp_upload_stream_consistent:
  assumes "bp_ok c w"
  shows "(\<forall>n err c' w'. bpWrite p c w = Some (n, err, c', w') \<longrightarrow>
      bp_ok c' w' \<and> 0 \<le> n \<and> n \<le> int (length p) \<and> (err = None \<longrightarrow> n = int (length p))
      \<and> cc_upOffset c' = cc_upOffset c + word_of_nat (nat n)
      \<and> (\<exists>reqs. requests w' = reqs @ requests w
          \<and> (\<forall>rq \<in> set reqs. carries bpModeUpload (cc_upOffset c + 2) p rq)
          \<and> (\<forall>i < nat n. sent_byte bpModeUpload (cc_upOffset c + 2) p reqs i)))
    \<and> (sz_adaptive (cc_upSizer c) \<longrightarrow> bpWrite p c w \<noteq> None)
    \<and> (\<not> sz_adaptive (cc_upSizer c) \<and> Current (cc_upSizer c) \<noteq> minSize (cc_opts c)
        \<and> ln_closed (cc_uploadLane c) \<and> p \<noteq> [] \<longrightarrow> bpWrite p c w = None)"
proof (intro conjI impI allI)
  fix n err c' w'
  assume "bpWrite p c w = Some (n, err, c', w')"
  from bp_up.send_all [OF this [unfolded bpWrite_def] assms]
  show "bp_ok c' w'" "0 \<le> n" "n \<le> int (length p)" "err = None \<Longrightarrow> n = int (length p)"
    "cc_upOffset c' = cc_upOffset c + word_of_nat (nat n)"
    "\<exists>reqs. requests w' = reqs @ requests w
          \<and> (\<forall>rq \<in> set reqs. carries bpModeUpload (cc_upOffset c + 2) p rq)
          \<and> (\<forall>i < nat n. sent_byte bpModeUpload (cc_upOffset c + 2) p reqs i)" by simp_all
next
  assume "sz_adaptive (cc_upSizer c)"
  from bp_up.loop_total [OF assms this, of p 0 0] show "bpWrite p c w \<noteq> None" by (auto simp: bpWrite_def)
next
  assume "\<not> sz_adaptive (cc_upSizer c) \<and> Current (cc_upSizer c) \<noteq> minSize (cc_opts c)
        \<and> ln_closed (cc_uploadLane c) \<and> p \<noteq> []"
  with bp_up.loop_stuck [of c w p 0 0] show "bpWrite p c w = None"
    by (cases "send_loop bp_write_turn c w p 0 0") (auto simp: bpWrite_def)
qed

theorem bp_upload_stream_consistent_witness:
  "\<exists>c st' w' n err c' w''. openBPTunnel ''s:53'' [1] [2] 80 sample_options 0 empty_profile registering_world = (Inr c, st', w')
    \<and> bpWrite [7, 8, 9] c w' = Some (n, err, c', w'') \<and> cc_upOffset c' = cc_upOffset c + word_of_nat (nat n)"
proof -
  obtain c st' w' where o: "openBPTunnel ''s:53'' [1] [2] 80 sample_options 0 empty_profile registering_world = (Inr c, st', w')"
    "sz_adaptive (cc_upSizer c)" using registering_succeeds by blast
  have mn: "minSize sample_options \<le> 1048576" by simp
  from openBPTunnel_post [OF registering_world_ok mn o(1)] have ok: "bp_ok c w'" by simp
  note up = bp_upload_stream_consistent [OF ok, of "[7, 8, 9]"]
  with o(2) obtain n err c' w'' where "bpWrite [7, 8, 9] c w' = Some (n, err, c', w'')" by auto
  with up o(1) show ?thesis by blast
qed

text \<open>A BP \<^verbatim>\<open>Read\<close> hands the stream on in order and keeps both offsets; and the
  download depth never changes, because it starts at its maximum and, unlike
  \<^verbatim>\<open>chunkConn\<close>'s, no failure lowers it, so that its growth is dead code.\<close>

theorem bp_read_keeps_stream:
  assumes "bp_ok c w" and "bpRead n c w = Some (b, e, c', w')"
  shows "bp_ok c' w' \<and> cc_pipeline c' = cc_pipeline c \<and> bp_batch_count c' = o_maxPipeline (cc_opts c)
    \<and> (\<exists>d. cc_readBuf c @ d = b @ cc_readBuf c'
        \<and> cc_downloadOffset c' = cc_downloadOffset c + word_of_nat (length d)
        \<and> cc_consumedOffset c' = cc_consumedOffset c + word_of_nat (length b))
    \<and> length b \<le> n \<and> (e \<noteq> None \<longrightarrow> b = []) \<and> (e = None \<longrightarrow> n \<noteq> 0 \<longrightarrow> b \<noteq> [])"
  using bp_down.read_post [OF assms(2) [unfolded bpRead_def] assms(1)] assms(1)
  by (auto simp: bp_ok_def same_tunnel_def bp_batch_count_def Let_def)

theorem bp_read_keeps_stream_witness:
  "\<exists>c st' w'. openBPTunnel ''s:53'' [1] [2] 80 sample_options 0 empty_profile registering_world = (Inr c, st', w')
    \<and> (\<exists>b e c' w''. bpRead 2 (c\<lparr>cc_readBuf := [4, 5, 6], cc_downloadOffset := cc_consumedOffset c + 3\<rparr>) w'
           = Some (b, e, c', w'') \<and> cc_consumedOffset c' = cc_consumedOffset c + word_of_nat (length b))"
proof -
  obtain c st' w' where o: "openBPTunnel ''s:53'' [1] [2] 80 sample_options 0 empty_profile registering_world = (Inr c, st', w')"
    "sz_adaptive (cc_upSizer c)" using registering_succeeds by blast
  have mn: "minSize sample_options \<le> 1048576" by simp
  from openBPTunnel_post [OF registering_world_ok mn o(1)] have ok: "bp_ok c w'" by simp
  let ?c = "c\<lparr>cc_readBuf := [4, 5, 6], cc_downloadOffset := cc_consumedOffset c + 3\<rparr>"
  have ok2: "bp_ok ?c w'" using ok by (simp add: bp_ok_def tunnel_ok_def)
  obtain b e c' w'' where r: "bpRead 2 ?c w' = Some (b, e, c', w'')" by (simp add: bpRead_def read_conn_def)
  have "cc_consumedOffset c' = cc_consumedOffset c + word_of_nat (length b)"
    using bp_read_keeps_stream [OF ok2 r] by auto
  with o r show ?thesis by blast
qed

text \<open>C16: The whole life of a BP tunnel leaks nothing: opening fails with the connections as
  they were, or the tunnel opened, after any reads and writes and a close, leaves them as they
  were; the farewell is sent at most twice, not at all after a timeout, and closing again
  changes nothing.\<close>

theorem bp_tunnel_life_leaks_nothing:
  assumes "world_ok w" and "minSize opts \<le> 1048576"
    and "openBPTunnel srv token host port opts now st w = (r, st', w1)"
  shows "case r of Inl e \<Rightarrow> live (w_log w1) = live (w_log w)
    | Inr c \<Rightarrow> \<forall>calls c2 w2 c3 w3.
        bp_conn_run calls (c, w1) = Some (c2, w2) \<and> bpClose c2 w2 = (c3, w3) \<longrightarrow>
        live (w_log w3) = live (w_log w) \<and> bpClose c3 w3 = (c3, w3)
        \<and> (\<exists>k \<le> 2. requests w3 = replicate k (bpModeACK, cc_consumedOffset c2, bpCloseMagic) @ requests w2
             \<and> (cc_dead c2 \<longrightarrow> k = 0))"
proof (cases r)
  case (Inl e)
  with openBPTunnel_post [OF assms] show ?thesis by simp
next
  case (Inr c)
  with openBPTunnel_post [OF assms] have o: "bp_ok c w1" "others c w1 = live (w_log w)" "\<not> cc_closed c" by simp_all
  have "live (w_log w3) = live (w_log w) \<and> bpClose c3 w3 = (c3, w3)
        \<and> (\<exists>k \<le> 2. requests w3 = replicate k (bpModeACK, cc_consumedOffset c2, bpCloseMagic) @ requests w2
             \<and> (cc_dead c2 \<longrightarrow> k = 0))"
    if run: "bp_conn_run calls (c, w1) = Some (c2, w2)" and cl: "bpClose c2 w2 = (c3, w3)" for calls c2 w2 c3 w3
  proof -
    from bp_conn_run_step [OF o(1) run] o have r: "bp_ok c2 w2" "others c2 w2 = live (w_log w)" "\<not> cc_closed c2"
      by (simp_all add: same_tunnel_def)
    from bpClose_step [OF r(1,3) cl] r(2) show ?thesis by (auto simp: bpClose_def)
  qed
  with Inr show ?thesis by auto
qed

theorem bp_tunnel_life_leaks_nothing_witness:
  "\<exists>c st' w' c2 w2. openBPTunnel ''s:53'' [1] [2] 80 sample_options 0 empty_profile registering_world = (Inr c, st', w')
    \<and> bp_conn_run [CallWrite [7, 8, 9], CallRead 0] (c, w') = Some (c2, w2)
    \<and> live (w_log (snd (bpClose c2 w2))) = {}"
proof -
  obtain c st' w' where o: "openBPTunnel ''s:53'' [1] [2] 80 sample_options 0 empty_profile registering_world = (Inr c, st', w')"
    "sz_adaptive (cc_upSizer c)" using registering_succeeds by blast
  have mn: "minSize sample_options \<le> 1048576" by simp
  from openBPTunnel_post [OF registering_world_ok mn o(1)] have ok: "bp_ok c w'" by simp
  obtain n err c2 w2 where "bpWrite [7, 8, 9] c w' = Some (n, err, c2, w2)"
    using bp_up.loop_total [OF ok o(2), of "[7, 8, 9]" 0 0] by (auto simp: bpWrite_def)
  then have r: "bp_conn_run [CallWrite [7, 8, 9], CallRead 0] (c, w') = Some (c2, w2)"
    by (simp add: bpRead_def read_conn_def)
  obtain c3 w3 where cl: "bpClose c2 w2 = (c3, w3)" by fastforce
  have "live (w_log w3) = live (w_log registering_world)"
    using conjunct1 [OF mp [OF spec [OF spec [OF spec [OF spec [OF spec [OF
      bp_tunnel_life_leaks_nothing [OF registering_world_ok mn o(1), unfolded sum.case]]]]]] conjI [OF r cl]]] .
  with o r cl show ?thesis by (auto simp: registering_world_def silent_world_def)
qed

end
