(* ===== verification/GoText.thy ===== *)
theory GoText
  imports Prelude
begin

text \<open>
  The string functions of Go's standard library that the text protocols of the client use:
  \<^verbatim>\<open>strings.Fields\<close>, \<^verbatim>\<open>TrimSpace\<close>, \<^verbatim>\<open>HasPrefix\<close>,
  \<^verbatim>\<open>Contains\<close>, \<^verbatim>\<open>ToLower\<close>, \<^verbatim>\<open>strconv.ParseUint\<close> and
  \<^verbatim>\<open>Atoi\<close>, and the searching and splitting functions of the HTTP front end. A Go string is its bytes; the functions that look at runes are written on
  the bytes of the UTF-8 encoding. The lead bytes of the white space runes never occur inside
  another rune, so looking for their encodings byte by byte finds what decoding finds.
\<close>

section \<open>Prefixes and substrings\<close>

definition HasPrefix :: "string \<Rightarrow> string \<Rightarrow> bool" where
  "HasPrefix s p \<longleftrightarrow> length p \<le> length s \<and> take (length p) s = p"

definition HasSuffix :: "string \<Rightarrow> string \<Rightarrow> bool" where
  "HasSuffix s p \<longleftrightarrow> length p \<le> length s \<and> drop (length s - length p) s = p"

fun Contains :: "string \<Rightarrow> string \<Rightarrow> bool" where
  "Contains [] p = (p = [])"
| "Contains (c # s) p = (HasPrefix (c # s) p \<or> Contains s p)"

lemma HasPrefix_append [simp]: "HasPrefix (p @ s) p"
  by (simp add: HasPrefix_def)

lemma HasPrefix_iff: "HasPrefix s p \<longleftrightarrow> (\<exists>r. s = p @ r)"
  by (metis HasPrefix_append HasPrefix_def append_take_drop_id)

lemma Contains_iff: "Contains s p \<longleftrightarrow> (\<exists>a b. s = a @ p @ b)"
proof (induction s)
  case (Cons c s)
  show ?case
  proof
    assume "Contains (c # s) p"
    then consider r where "c # s = p @ r" | "Contains s p" by (auto simp: HasPrefix_iff)
    then show "\<exists>a b. c # s = a @ p @ b"
    proof cases
      case (1 r)
      then show ?thesis by (intro exI [of _ "[]"] exI [of _ r]) simp
    next
      case 2
      with Cons obtain a b where "s = a @ p @ b" by blast
      then show ?thesis by (intro exI [of _ "c # a"] exI [of _ b]) simp
    qed
  next
    assume "\<exists>a b. c # s = a @ p @ b"
    then obtain a b where ab: "c # s = a @ p @ b" by blast
    show "Contains (c # s) p"
    proof (cases a)
      case Nil
      with ab have "c # s = p @ b" by simp
      then have "HasPrefix (c # s) p" by (simp only: HasPrefix_append)
      then show ?thesis by simp
    next
      case (Cons x a')
      with ab have "s = a' @ p @ b" by simp
      with \<open>Contains s p = _\<close> show ?thesis by auto
    qed
  qed
qed simp

section \<open>Case\<close>

definition lower_char :: "char \<Rightarrow> char" where
  "lower_char c = (let n = of_char c :: nat in if 65 \<le> n \<and> n \<le> 90 then char_of (n + 32) else c)"

text \<open>
  \<^verbatim>\<open>strings.ToLower\<close> as far as ASCII text in the result goes: of the runes beyond
  ASCII, only U+0130 and U+212A have an ASCII lower case, the letters i and k. The others are
  left as they are, where Go may change them into other runes beyond ASCII.
\<close>

fun ToLower :: "string \<Rightarrow> string" where
  "ToLower [] = []"
| "ToLower (c # s) =
     (if HasPrefix (c # s) [CHR 0xC4, CHR 0xB0] then CHR ''i'' # ToLower (drop 1 s)
      else if HasPrefix (c # s) [CHR 0xE2, CHR 0x84, CHR 0xAA] then CHR ''k'' # ToLower (drop 2 s)
      else lower_char c # ToLower s)"

section \<open>White space\<close>

text \<open>The encodings of the runes \<^verbatim>\<open>unicode.IsSpace\<close> accepts.\<close>

definition space_seqs :: "nat list list" where
  "space_seqs = [[9], [10], [11], [12], [13], [32], [0xC2, 0x85], [0xC2, 0xA0], [0xE1, 0x9A, 0x80]]
     @ map (\<lambda>k. [0xE2, 0x80, k]) [0x80..<0x8B]
     @ [[0xE2, 0x80, 0xA8], [0xE2, 0x80, 0xA9], [0xE2, 0x80, 0xAF], [0xE2, 0x81, 0x9F], [0xE3, 0x80, 0x80]]"

definition is_space :: "string \<Rightarrow> bool" where
  "is_space s \<longleftrightarrow> map of_char s \<in> set space_seqs"

text \<open>The width of the white space a string starts with, 0 for none.\<close>

definition space_len :: "string \<Rightarrow> nat" where
  "space_len s = (if is_space (take 1 s) then 1 else if is_space (take 2 s) then 2
     else if is_space (take 3 s) then 3 else 0)"

definition space_len_end :: "string \<Rightarrow> nat" where
  "space_len_end s = (if is_space (drop (length s - 1) s) then 1
     else if is_space (drop (length s - 2) s) then 2
     else if is_space (drop (length s - 3) s) then 3 else 0)"

lemma is_space_Nil [simp]: "\<not> is_space []"
  by (simp add: is_space_def space_seqs_def)

lemma space_len_Nil [simp]: "space_len [] = 0" "space_len_end [] = 0"
  by (simp_all add: space_len_def space_len_end_def)

function fields_from :: "string \<Rightarrow> string \<Rightarrow> string list" where
  "fields_from cur [] = (if cur = [] then [] else [cur])"
| "fields_from cur (c # s) =
     (if space_len (c # s) = 0 then fields_from (cur @ [c]) s
      else (if cur = [] then [] else [cur]) @ fields_from [] (drop (space_len (c # s)) (c # s)))"
  by pat_completeness auto
termination
  by (relation "measure (\<lambda>(cur, s). length s)") auto

declare fields_from.simps(2) [simp del]

definition Fields :: "string \<Rightarrow> string list" where
  "Fields s = fields_from [] s"

lemma trim_shorter:
  "0 < space_len s \<Longrightarrow> length s - space_len s < length s"
  "0 < space_len_end s \<Longrightarrow> length s - space_len_end s < length s"
  by (cases s; simp)+

function trim_left :: "string \<Rightarrow> string" where
  "trim_left s = (if space_len s = 0 then s else trim_left (drop (space_len s) s))"
  by pat_completeness auto
termination
  by (relation "measure length") (auto simp: trim_shorter)

function trim_right :: "string \<Rightarrow> string" where
  "trim_right s = (if space_len_end s = 0 then s else trim_right (take (length s - space_len_end s) s))"
  by pat_completeness auto
termination
  by (relation "measure length") (auto simp: trim_shorter)

declare trim_left.simps [simp del] trim_right.simps [simp del]

definition TrimSpace :: "string \<Rightarrow> string" where
  "TrimSpace s = trim_right (trim_left s)"

text \<open>A character no white space starts with, the printable ASCII ones among them.\<close>

definition plain :: "char \<Rightarrow> bool" where
  "plain c \<longleftrightarrow> (of_char c :: nat) \<notin> {9, 10, 11, 12, 13, 32, 0xC2, 0xE1, 0xE2, 0xE3}"

lemma is_space_head: "is_space (c # s) \<Longrightarrow> \<not> plain c"
  by (auto simp: is_space_def space_seqs_def plain_def)

lemma space_len_plain [simp]: "plain c \<Longrightarrow> space_len (c # s) = 0"
  using is_space_head by (auto simp: space_len_def)

lemma space_len_blank [simp]: "space_len (CHR '' '' # s) = 1"
  by (simp add: space_len_def is_space_def space_seqs_def)

lemma fields_from_plain:
  "list_all plain a \<Longrightarrow> fields_from cur (a @ s) = fields_from (cur @ a) s"
  by (induction a arbitrary: cur) (auto simp: fields_from.simps)

lemma fields_from_blank [simp]:
  "fields_from cur (CHR '' '' # s) = (if cur = [] then [] else [cur]) @ fields_from [] s"
  by (simp add: fields_from.simps(2))

lemma Fields_word:
  "list_all plain a \<Longrightarrow> a \<noteq> [] \<Longrightarrow> Fields (a @ CHR '' '' # s) = a # Fields s"
  by (simp add: Fields_def fields_from_plain)

lemma Fields_last: "list_all plain a \<Longrightarrow> a \<noteq> [] \<Longrightarrow> Fields a = [a]"
  using fields_from_plain [of a "[]" "[]"] by (simp add: Fields_def)

lemma trim_left_plain: "list_all plain s \<Longrightarrow> trim_left s = s"
  by (cases s) (simp_all add: trim_left.simps)

lemma is_space_plain: "list_all plain s \<Longrightarrow> \<not> is_space s"
  using is_space_head by (cases s) auto

lemma trim_right_plain: "list_all plain s \<Longrightarrow> trim_right s = s"
  by (subst trim_right.simps) (simp add: space_len_end_def is_space_plain list_all_def in_set_dropD)

lemma TrimSpace_plain: "list_all plain s \<Longrightarrow> TrimSpace s = s"
  by (simp add: TrimSpace_def trim_left_plain trim_right_plain)

lemma TrimSpace_line:
  assumes "list_all plain s"
  shows "TrimSpace (s @ [CHR 0x0A]) = s"
proof -
  have e: "is_space [CHR 0x0A]" by (simp add: is_space_def space_seqs_def)
  have r: "trim_right (s @ [CHR 0x0A]) = trim_right s"
    by (subst trim_right.simps) (simp add: space_len_end_def e)
  show ?thesis
  proof (cases s)
    case Nil
    have "space_len [CHR 0x0A] = 1" by (simp add: space_len_def e)
    then have "trim_left [CHR 0x0A] = []" by (simp add: trim_left.simps)
    then show ?thesis by (simp add: TrimSpace_def Nil trim_right.simps)
  next
    case (Cons c t)
    with assms have "trim_left (s @ [CHR 0x0A]) = s @ [CHR 0x0A]" by (simp add: trim_left.simps)
    with r assms show ?thesis by (simp add: TrimSpace_def trim_right_plain)
  qed
qed

section \<open>Numbers\<close>

text \<open>
  \<^verbatim>\<open>strconv\<close> errors: the text leaves out the quoted argument.
\<close>

definition syntax_error :: "string \<Rightarrow> goerr" where
  "syntax_error fn = Msg (''strconv.'' @ fn @ '': parsing: invalid syntax'')"

definition range_error :: "string \<Rightarrow> goerr" where
  "range_error fn = Msg (''strconv.'' @ fn @ '': parsing: value out of range'')"

definition digit_of :: "char \<Rightarrow> nat option" where
  "digit_of c = (let n = of_char c in if 48 \<le> n \<and> n \<le> 57 then Some (n - 48) else None)"

text \<open>The loop of \<^verbatim>\<open>strconv.ParseUint\<close>, base 10; \<open>mx\<close> is the largest value.\<close>

fun parse_digits :: "string \<Rightarrow> nat \<Rightarrow> nat \<Rightarrow> string \<Rightarrow> goerr + nat" where
  "parse_digits fn mx n [] = Inr n"
| "parse_digits fn mx n (c # s) = (case digit_of c of
     None \<Rightarrow> Inl (syntax_error fn)
   | Some d \<Rightarrow> if n * 10 + d > mx then Inl (range_error fn) else parse_digits fn mx (n * 10 + d) s)"

definition ParseUint :: "string \<Rightarrow> goerr + u64" where
  "ParseUint s = (if s = [] then Inl (syntax_error ''ParseUint'')
     else map_sum id word_of_nat (parse_digits ''ParseUint'' 18446744073709551615 0 s))"

definition Atoi :: "string \<Rightarrow> goerr + int" where
  "Atoi s = (let neg = (s \<noteq> [] \<and> hd s = CHR ''-'');
                 s' = (if s \<noteq> [] \<and> (hd s = CHR ''-'' \<or> hd s = CHR ''+'') then tl s else s)
     in if s' = [] then Inl (syntax_error ''Atoi'')
        else case parse_digits ''Atoi'' 18446744073709551615 0 s' of
          Inl e \<Rightarrow> Inl e
        | Inr n \<Rightarrow> if \<not> neg \<and> n \<ge> 9223372036854775808 \<or> neg \<and> n > 9223372036854775808
            then Inl (range_error ''Atoi'') else Inr (if neg then - int n else int n))"

lemma of_char_digit: "d < 10 \<Longrightarrow> of_char (digit d) = 48 + d"
  by (simp add: digit_def)

lemma digit_of_digit [simp]: "d < 10 \<Longrightarrow> digit_of (digit d) = Some d"
  by (simp add: digit_of_def of_char_digit Let_def)

lemma plain_digit [simp]: "d < 10 \<Longrightarrow> plain (digit d)"
  by (auto simp: plain_def of_char_digit)

lemma dec_not_Nil [simp]: "dec n \<noteq> []"
  by (subst dec.simps) simp

lemma plain_dec [simp]: "list_all plain (dec n)"
  by (induction n rule: dec.induct) (subst dec.simps, auto)

lemma digits_dec: "c \<in> set (dec n) \<Longrightarrow> \<exists>d < 10. c = digit d"
proof (induction n rule: dec.induct)
  case (1 n)
  then show ?case
    by (cases "n < 10") (auto simp: dec.simps [of n] intro: exI [of _ "n mod 10"])
qed

lemma parse_digits_append:
  "parse_digits fn mx n (a @ s) = (case parse_digits fn mx n a of Inl e \<Rightarrow> Inl e
     | Inr m \<Rightarrow> parse_digits fn mx m s)"
  by (induction a arbitrary: n) (auto split: option.split)

lemma parse_digits_dec: "k \<le> mx \<Longrightarrow> parse_digits fn mx 0 (dec k) = Inr k"
proof (induction k rule: dec.induct)
  case (1 k)
  show ?case
  proof (cases "k < 10")
    case True
    with "1.prems" show ?thesis by (subst dec.simps) simp
  next
    case False
    with "1" have "parse_digits fn mx 0 (dec (k div 10)) = Inr (k div 10)" by simp
    with False "1.prems" show ?thesis
      by (subst dec.simps) (simp add: parse_digits_append)
  qed
qed

text \<open>Decimal text is read back as the number it was printed from, up to the width of the type.\<close>

lemma ParseUint_dec [simp]: "k < 18446744073709551616 \<Longrightarrow> ParseUint (dec k) = Inr (word_of_nat k)"
  by (simp add: ParseUint_def parse_digits_dec)

lemma dec_no_sign: "hd (dec k) \<noteq> CHR ''-''" "hd (dec k) \<noteq> CHR ''+''"
proof -
  obtain d where "d < 10" "hd (dec k) = digit d" using digits_dec [OF hd_in_set [OF dec_not_Nil]] by blast
  then have "of_char (hd (dec k)) = 48 + d" by (simp add: of_char_digit)
  then show "hd (dec k) \<noteq> CHR ''-''" "hd (dec k) \<noteq> CHR ''+''" by auto
qed

lemma Atoi_dec [simp]: "k < 9223372036854775808 \<Longrightarrow> Atoi (dec k) = Inr (int k)"
  by (simp add: Atoi_def Let_def dec_no_sign parse_digits_dec)

section \<open>Searching and splitting\<close>

text \<open>\<^verbatim>\<open>strings.Index\<close> and \<^verbatim>\<open>bytes.Index\<close>, on whatever a text is made of.\<close>

fun Index :: "'a list \<Rightarrow> 'a list \<Rightarrow> nat option" where
  "Index [] p = (if p = [] then Some 0 else None)"
| "Index (c # s) p = (if take (length p) (c # s) = p then Some 0 else map_option Suc (Index s p))"

lemma Index_Some: "Index s p = Some i \<Longrightarrow> \<exists>r. s = take i s @ p @ r \<and> drop (i + length p) s = r \<and> i + length p \<le> length s"
proof (induction s p arbitrary: i rule: Index.induct)
  case (2 c s p)
  show ?case
  proof (cases "take (length p) (c # s) = p")
    case True
    with "2.prems" have "i = 0" by simp
    moreover have "c # s = p @ drop (length p) (c # s)" using True by (metis append_take_drop_id)
    moreover have "length p \<le> length (c # s)" using True by (metis length_take min.cobounded1)
    ultimately show ?thesis by simp
  next
    case False
    with "2.prems" obtain j where "Index s p = Some j" "i = Suc j" by auto
    with "2.IH" [OF False] show ?thesis by auto
  qed
qed (auto split: if_splits)

lemma Index_None: "Index s p = None \<longleftrightarrow> (\<nexists>a b. s = a @ p @ b)"
proof (induction s p rule: Index.induct)
  case (2 c s p)
  show ?case
  proof (cases "take (length p) (c # s) = p")
    case True
    then have "c # s = [] @ p @ drop (length p) (c # s)" by (metis append_Nil append_take_drop_id)
    with True show ?thesis by (metis Index.simps(2) option.distinct(1))
  next
    case False
    then have "(\<exists>a b. c # s = a @ p @ b) \<longleftrightarrow> (\<exists>a b. s = a @ p @ b)"
      by (metis append_Cons append_eq_Cons_conv append_eq_conv_conj)
    with False "2.IH" show ?thesis by simp
  qed
qed auto

text \<open>The first occurrence: no earlier one.\<close>

lemma Index_first: "Index s p = Some i \<Longrightarrow> j < i \<Longrightarrow> take (length p) (drop j s) \<noteq> p"
proof (induction s p arbitrary: i j rule: Index.induct)
  case (2 c s p)
  then have n: "take (length p) (c # s) \<noteq> p" by (cases "take (length p) (c # s) = p") auto
  with "2.prems" obtain k where "Index s p = Some k" "i = Suc k" by auto
  with "2.IH" [OF n] "2.prems" n show ?case by (cases j) auto
qed (auto split: if_splits)

lemma Index_iff:
  "Index s p = Some i \<longleftrightarrow> take (length p) (drop i s) = p \<and> i \<le> length s \<and> (\<forall>j < i. take (length p) (drop j s) \<noteq> p)"
proof (induction s p arbitrary: i rule: Index.induct)
  case (2 c s p)
  show ?case
  proof (cases "take (length p) (c # s) = p")
    case True
    then show ?thesis by (cases i) auto
  next
    case False
    with "2.IH" show ?thesis by (cases i) (auto simp: less_Suc_eq_0_disj)
  qed
qed auto

lemma take_drop_append: "i + k \<le> length a \<Longrightarrow> take k (drop i (a @ b)) = take k (drop i a)"
  by simp

lemma Index_append:
  assumes "Index a p = Some i"
  shows "Index (a @ b) p = Some i"
proof -
  from assms have l: "i + length p \<le> length a" using Index_Some by blast
  have e: "take (length p) (drop j (a @ b)) = take (length p) (drop j a)" if "j \<le> i" for j
    using that l by (intro take_drop_append) simp
  show ?thesis unfolding Index_iff
    using assms [unfolded Index_iff] e [OF order_refl] e [OF less_imp_le] l by (metis length_append trans_le_add1)
qed

lemma Index_within:
  assumes "Index (a @ b) p = Some i" and "i + length p \<le> length a"
  shows "Index a p = Some i"
proof -
  have e: "take (length p) (drop j (a @ b)) = take (length p) (drop j a)" if "j \<le> i" for j
    using that assms(2) by (intro take_drop_append) simp
  show ?thesis unfolding Index_iff
    using assms(1) [unfolded Index_iff] e [OF order_refl] e [OF less_imp_le] assms(2) by (metis add_leD1)
qed

lemma Index_beyond:
  assumes "Index (a @ b) p = Some i" and "length a < i + length p"
  shows "Index a p = None"
proof (rule ccontr)
  assume "Index a p \<noteq> None"
  then obtain k where k: "Index a p = Some k" by blast
  from Index_append [OF k, of b] assms(1) have "k = i" by simp
  with k assms(2) show False using Index_Some [OF k] by simp
qed

text \<open>\<^verbatim>\<open>strings.Split\<close> for a separator that is not empty, \<^verbatim>\<open>SplitN\<close> and \<^verbatim>\<open>Cut\<close>.\<close>

function Split :: "string \<Rightarrow> string \<Rightarrow> string list" where
  "Split s sep = (if sep = [] then [s]
     else case Index s sep of None \<Rightarrow> [s] | Some i \<Rightarrow> take i s # Split (drop (i + length sep) s) sep)"
  by pat_completeness auto
termination
proof (relation "measure (\<lambda>(s, sep). length s)", goal_cases)
  case (2 s sep i)
  with Index_Some [of s sep i] show ?case by (cases sep) auto
qed simp

declare Split.simps [simp del]

fun SplitN :: "string \<Rightarrow> string \<Rightarrow> nat \<Rightarrow> string list" where
  "SplitN s sep 0 = []"
| "SplitN s sep (Suc 0) = [s]"
| "SplitN s sep (Suc (Suc n)) = (case Index s sep of None \<Rightarrow> [s]
     | Some i \<Rightarrow> take i s # SplitN (drop (i + length sep) s) sep (Suc n))"

definition Cut :: "string \<Rightarrow> string \<Rightarrow> string \<times> string \<times> bool" where
  "Cut s sep = (case Index s sep of None \<Rightarrow> (s, [], False)
     | Some i \<Rightarrow> (take i s, drop (i + length sep) s, True))"

definition crlf :: string where "crlf = [CHR 0x0D, CHR 0x0A]"

definition index_byte :: "'a \<Rightarrow> 'a list \<Rightarrow> nat option" where
  "index_byte c s = (if c \<in> set s then Some (length (takeWhile (\<lambda>x. x \<noteq> c) s)) else None)"

definition last_index_byte :: "'a \<Rightarrow> 'a list \<Rightarrow> nat option" where
  "last_index_byte c s = map_option (\<lambda>i. length s - 1 - i) (index_byte c (rev s))"

definition TrimLeftSet :: "char set \<Rightarrow> string \<Rightarrow> string" where
  "TrimLeftSet cs s = dropWhile (\<lambda>c. c \<in> cs) s"

definition TrimRightSet :: "char set \<Rightarrow> string \<Rightarrow> string" where
  "TrimRightSet cs s = rev (dropWhile (\<lambda>c. c \<in> cs) (rev s))"

definition TrimSet :: "char set \<Rightarrow> string \<Rightarrow> string" where
  "TrimSet cs s = TrimRightSet cs (TrimLeftSet cs s)"

text \<open>
  \<^verbatim>\<open>strings.EqualFold(s, t)\<close> for a \<open>t\<close> of ASCII characters other than the letters
  k and s, to which no rune beyond ASCII folds.
\<close>

definition EqualFold :: "string \<Rightarrow> string \<Rightarrow> bool" where
  "EqualFold s t \<longleftrightarrow> map lower_char s = map lower_char t"

end
