(* ===== verification/XLane.thy ===== *)
theory XLane
  imports GoText XorFrame Lane Sizer
begin

text \<open>
  The request channel of \<^verbatim>\<open>internal/xorchunk/chunk.go\<close>: the transport's options and
  \<^verbatim>\<open>txnLane\<close>, which does exactly one framed UP/OK transaction per call, checks the
  request ID of the answer, and leaves every retry to its callers. It works in the same world
  as the lanes of the native transport; a request is logged with mode 0, its request ID as the
  sequence number, and its plaintext payload.
\<close>

section \<open>Options\<close>

definition NewOptions ::
  "int \<Rightarrow> int \<Rightarrow> int \<Rightarrow> bool \<Rightarrow> int \<Rightarrow> int \<Rightarrow> bool \<Rightarrow> int \<Rightarrow> int \<Rightarrow> int \<Rightarrow> int \<Rightarrow> int \<Rightarrow> xOptions" where
  "NewOptions start mn mx adaptive successes shrink logIt workers every delay timeout buffer =
     \<lparr>xo_startSize = start, xo_minSize = mn, xo_maxSize = mx,
      xo_uploadStartSize = 0, xo_downloadStartSize = 0, xo_uploadMaxSize = 0, xo_downloadMaxSize = 0,
      xo_adaptive = adaptive, xo_adaptSuccesses = successes, xo_shrinkAfter = shrink,
      xo_adaptLog = logIt, xo_pollers = workers, xo_reconnectEvery = every,
      xo_pollDelay = delay, xo_txnTimeout = timeout, xo_tcpBuffer = buffer,
      xo_headerMask = 0, xo_coverProfile = zero_profile\<rparr>"

definition WithPollers :: "int \<Rightarrow> xOptions \<Rightarrow> xOptions" where
  "WithPollers n opts = opts\<lparr>xo_pollers := n\<rparr>"

definition WithHeaderMask :: "byte \<Rightarrow> xOptions \<Rightarrow> xOptions" where
  "WithHeaderMask hm opts = opts\<lparr>xo_headerMask := hm, xo_coverProfile := zero_profile\<rparr>"

definition WithCoverProfile :: "Profile \<Rightarrow> xOptions \<Rightarrow> xOptions" where
  "WithCoverProfile p opts = opts\<lparr>xo_coverProfile := p, xo_headerMask := cp_headerMask p\<rparr>"

definition WithCalibratedChunks :: "int \<Rightarrow> int \<Rightarrow> xOptions \<Rightarrow> xOptions" where
  "WithCalibratedChunks up0 down0 opts =
     (let up = (if up0 < xo_minSize opts then xo_minSize opts else up0);
          down = (if down0 < xo_minSize opts then xo_minSize opts else down0);
          up = (if up > xo_maxSize opts then xo_maxSize opts else up);
          down = (if down > xo_maxSize opts then xo_maxSize opts else down)
      in opts\<lparr>xo_uploadStartSize := up, xo_downloadStartSize := down,
              xo_uploadMaxSize := up, xo_downloadMaxSize := down, xo_adaptive := False\<rparr>)"

definition wireToken :: "string \<Rightarrow> string" where
  "wireToken token = (if token = [] then ''-'' else token)"

section \<open>The lane\<close>

record txnLane =
  tx_serverAddr :: string
  tx_tcpBuffer :: int
  tx_reconnectEvery :: int
  tx_timeout :: int
  tx_headerMask :: byte
  tx_profile :: Profile
  tx_conn :: "(nat \<times> conn) option"
  tx_count :: int
  tx_closed :: bool

definition newTxnLane :: "string \<Rightarrow> int \<Rightarrow> int \<Rightarrow> int \<Rightarrow> byte \<Rightarrow> Profile \<Rightarrow> txnLane" where
  "newTxnLane serverAddr tcpBuffer reconnectEvery timeout headerMask coverProfile =
     \<lparr>tx_serverAddr = serverAddr, tx_tcpBuffer = tcpBuffer, tx_reconnectEvery = reconnectEvery,
      tx_timeout = timeout, tx_headerMask = headerMask, tx_profile = coverProfile,
      tx_conn = None, tx_count = 0, tx_closed = False\<rparr>"

definition tx_closeLocked :: "txnLane \<Rightarrow> world \<Rightarrow> txnLane \<times> world" where
  "tx_closeLocked l w = (case tx_conn l of None \<Rightarrow> (l\<lparr>tx_count := 0\<rparr>, w)
     | Some (k, c) \<Rightarrow> (l\<lparr>tx_conn := None, tx_count := 0\<rparr>, log_event (Closed k) w))"

definition tx_Close :: "txnLane \<Rightarrow> world \<Rightarrow> txnLane \<times> world" where
  "tx_Close l w = tx_closeLocked (l\<lparr>tx_closed := True\<rparr>) w"

text \<open>\<^verbatim>\<open>protocol.DialTCP\<close> and the preface, the tail of \<^verbatim>\<open>ensureConn\<close>.\<close>

definition tx_dial :: "txnLane \<Rightarrow> world \<Rightarrow> goerr option \<times> txnLane \<times> world" where
  "tx_dial l w =
     (let k = w_dialed w; w = w\<lparr>w_dialed := Suc k\<rparr> in
      case w_dials w k of Inl e \<Rightarrow> (Some e, l, w)
      | Inr c \<Rightarrow>
        let w = log_event (Dialed k) w;
            (g, w) = take_rng w;
            (err, c) = WritePreface c (tx_profile l) g in
        case err of Some e \<Rightarrow> (Some e, l, log_event (Closed k) w)
        | None \<Rightarrow> (None, l\<lparr>tx_conn := Some (k, c)\<rparr>, w))"

definition ensureConn :: "txnLane \<Rightarrow> world \<Rightarrow> goerr option \<times> txnLane \<times> world" where
  "ensureConn l w =
     (if tx_closed l then (Some ErrClosed, l, w)
      else if tx_conn l \<noteq> None \<and> (tx_reconnectEvery l \<le> 0 \<or> tx_count l < tx_reconnectEvery l)
      then (None, l, w)
      else (case tx_closeLocked l w of (l, w) \<Rightarrow> tx_dial l w))"

text \<open>
  The write of a frame. The unchecked write loop of \<^verbatim>\<open>internal/protocol\<close> may spin on a
  connection that takes nothing; the deadline \<^verbatim>\<open>Do\<close> has set makes the call that runs
  into it fail with a timeout.
\<close>

definition deadline_error :: goerr where
  "deadline_error = NetErr True ''i/o timeout''"

definition tx_send :: "conn \<Rightarrow> u32 \<Rightarrow> bytes \<Rightarrow> byte \<Rightarrow> goerr option \<times> conn" where
  "tx_send c requestID payload headerMask =
     (case WriteRequestFrameProfile c requestID payload headerMask of
        Some r \<Rightarrow> r | None \<Rightarrow> (Some deadline_error, c))"

text \<open>\<^verbatim>\<open>requestCounter.Add(1)\<close>\<close>

definition next_requestID :: "world \<Rightarrow> u32 \<times> world" where
  "next_requestID w = (w_requestCounter w + 1, w\<lparr>w_requestCounter := w_requestCounter w + 1\<rparr>)"

definition Do :: "bytes \<Rightarrow> txnLane \<Rightarrow> world \<Rightarrow> (goerr + bytes) \<times> txnLane \<times> world" where
  "Do payload l w = (case ensureConn l w of
     (Some e, l, w) \<Rightarrow> (Inl e, l, w)
   | (None, l, w) \<Rightarrow>
     let (k, c) = the (tx_conn l);
         (requestID, w) = next_requestID w;
         w = log_event (Requested k 0 (ucast requestID) payload) w in
     (case tx_send c requestID payload (tx_headerMask l) of
        (Some e, c) \<Rightarrow> (Inl e, tx_closeLocked l w)
      | (None, c) \<Rightarrow>
        (case ReadResponseFrameProfile (c_in c) (tx_headerMask l) of
           Inl e \<Rightarrow> (Inl e, tx_closeLocked l w)
         | Inr ((responseID, response), s) \<Rightarrow>
           if responseID \<noteq> requestID then (Inl (Msg ''request ID mismatch''), tx_closeLocked l w)
           else let l = l\<lparr>tx_conn := Some (k, c\<lparr>c_in := s\<rparr>), tx_count := tx_count l + 1\<rparr> in
             (Inr response,
              (if tx_reconnectEvery l > 0 \<and> tx_count l \<ge> tx_reconnectEvery l
               then tx_closeLocked l w else (l, w))))))"

text \<open>\<^verbatim>\<open>doControl\<close>: \<open>n\<close> tries left, then the last error, nil at first.\<close>

fun control_tries ::
  "nat \<Rightarrow> bytes \<Rightarrow> goerr option \<Rightarrow> txnLane \<Rightarrow> world \<Rightarrow> (goerr + bytes) \<times> txnLane \<times> world" where
  "control_tries 0 payload lastErr l w = ((case lastErr of None \<Rightarrow> Inr [] | Some e \<Rightarrow> Inl e), l, w)"
| "control_tries (Suc n) payload lastErr l w = (case Do payload l w of
     (Inr resp, l, w) \<Rightarrow> (Inr resp, l, w)
   | (Inl e, l, w) \<Rightarrow> control_tries n payload (Some e) l w)"

definition doControl :: "txnLane \<Rightarrow> bytes \<Rightarrow> world \<Rightarrow> (goerr + bytes) \<times> txnLane \<times> world" where
  "doControl lane payload w = control_tries 5 payload None lane w"

definition ProbeProfile :: "string \<Rightarrow> string \<Rightarrow> xOptions \<Rightarrow> world \<Rightarrow> bool \<times> world" where
  "ProbeProfile serverAddr token opts w =
     (let timeout = (if xo_txnTimeout opts \<le> 0 \<or> xo_txnTimeout opts > 2000000000
                     then 2000000000 else xo_txnTimeout opts);
          lane = newTxnLane serverAddr (xo_tcpBuffer opts) 1 timeout (xo_headerMask opts) (xo_coverProfile opts);
          (r, lane, w) = Do (bytes_of (''CPROBE '' @ wireToken token)) lane w;
          ok = (case r of Inl e \<Rightarrow> False
                | Inr resp \<Rightarrow> if string_of resp = ''PROBEOK'' then True
                    else xo_headerMask opts = 0 \<and> HasPrefix (string_of resp) ''ERR expected TUNNEL'')
      in (ok, snd (tx_Close lane w)))"

section \<open>What a transaction keeps\<close>

definition tx_owned :: "txnLane \<Rightarrow> nat set" where
  "tx_owned l = (case tx_conn l of None \<Rightarrow> {} | Some p \<Rightarrow> {fst p})"

lemma tx_owned_simps [simp]:
  "tx_conn l = None \<Longrightarrow> tx_owned l = {}" "tx_conn l = Some p \<Longrightarrow> tx_owned l = {fst p}"
  "tx_owned (l\<lparr>tx_count := n\<rparr>) = tx_owned l" "tx_owned (l\<lparr>tx_closed := b\<rparr>) = tx_owned l"
  by (simp_all add: tx_owned_def)

text \<open>
  The lane's connection is an open one, a closed lane has none; between transactions a
  connection has requests left before it must be replaced.
\<close>

definition txn_own :: "txnLane \<Rightarrow> world \<Rightarrow> bool" where
  "txn_own l w \<longleftrightarrow> world_ok w \<and> tx_owned l \<subseteq> live (w_log w) \<and> (tx_closed l \<longrightarrow> tx_conn l = None)
     \<and> 0 \<le> tx_count l"

definition txn_quota :: "txnLane \<Rightarrow> bool" where
  "txn_quota l \<longleftrightarrow> (if tx_conn l = None then tx_count l = 0
     else 0 < tx_reconnectEvery l \<longrightarrow> tx_count l < tx_reconnectEvery l)"

definition txn_ok :: "txnLane \<Rightarrow> world \<Rightarrow> bool" where
  "txn_ok l w \<longleftrightarrow> txn_own l w \<and> txn_quota l"

definition txn_step :: "txnLane \<Rightarrow> world \<Rightarrow> txnLane \<Rightarrow> world \<Rightarrow> bool" where
  "txn_step l w l' w' \<longleftrightarrow> live (w_log w') - tx_owned l' = live (w_log w) - tx_owned l
     \<and> tx_closed l' = tx_closed l \<and> tx_reconnectEvery l' = tx_reconnectEvery l
     \<and> tx_headerMask l' = tx_headerMask l \<and> tx_profile l' = tx_profile l \<and> w_dials w' = w_dials w"

lemma txn_step_refl [simp]: "txn_step l w l w"
  by (simp add: txn_step_def)

lemma txn_step_trans: "txn_step l w l1 w1 \<Longrightarrow> txn_step l1 w1 l2 w2 \<Longrightarrow> txn_step l w l2 w2"
  by (auto simp: txn_step_def)

lemma txn_ok_new [simp]: "txn_ok (newTxnLane a b re t hm p) w = world_ok w"
  by (auto simp: txn_ok_def txn_own_def txn_quota_def newTxnLane_def tx_owned_def)

lemma newTxnLane_sel [simp]:
  "tx_closed (newTxnLane a b re t hm p) = False" "tx_conn (newTxnLane a b re t hm p) = None"
  "tx_owned (newTxnLane a b re t hm p) = {}" "tx_reconnectEvery (newTxnLane a b re t hm p) = re"
  by (simp_all add: newTxnLane_def tx_owned_def)

lemma tx_closeLocked_step:
  assumes "txn_own l w" and "tx_closeLocked l w = (l', w')"
  shows "txn_ok l' w' \<and> txn_step l w l' w' \<and> tx_conn l' = None \<and> requests w' = requests w
    \<and> live (w_log w') = live (w_log w) - tx_owned l"
  using assms
  by (auto simp: tx_closeLocked_def txn_own_def txn_ok_def txn_quota_def txn_step_def world_ok_def
      split: option.splits)

lemma tx_Close_step:
  assumes "txn_ok l w" and "tx_Close l w = (l', w')"
  shows "txn_ok l' w' \<and> tx_closed l' \<and> tx_conn l' = None \<and> requests w' = requests w
    \<and> live (w_log w') = live (w_log w) - tx_owned l \<and> w_dials w' = w_dials w"
  using assms
  by (auto simp: tx_Close_def tx_closeLocked_def txn_own_def txn_ok_def txn_quota_def world_ok_def
      split: option.splits)

lemma tx_dial_step:
  assumes own: "txn_ok l w" and none: "tx_conn l = None" and "\<not> tx_closed l" and d: "tx_dial l w = (r, l', w')"
  shows "txn_own l' w' \<and> txn_step l w l' w' \<and> requests w' = requests w
    \<and> (r = None \<longrightarrow> tx_conn l' \<noteq> None \<and> tx_count l' = 0) \<and> (r \<noteq> None \<longrightarrow> l' = l)"
proof -
  have fresh: "w_dialed w \<notin> live (w_log w)" "\<And>k. k \<in> live (w_log w) \<Longrightarrow> k < Suc (w_dialed w)"
    using own by (auto simp: txn_ok_def txn_own_def world_ok_def less_Suc_eq)
  with assms show ?thesis
    by (auto simp: tx_dial_def txn_ok_def txn_own_def txn_quota_def world_ok_def txn_step_def take_rng_def Let_def
        split: sum.splits prod.splits option.splits)
qed

lemma ensureConn_step:
  assumes "txn_ok l w" and "ensureConn l w = (r, l', w')"
  shows "txn_own l' w' \<and> txn_step l w l' w' \<and> requests w' = requests w
    \<and> (r = None \<longrightarrow> tx_conn l' \<noteq> None) \<and> (r \<noteq> None \<longrightarrow> txn_ok l' w' \<and> tx_conn l' = None)"
proof (cases "tx_closed l \<or> tx_conn l \<noteq> None \<and> (tx_reconnectEvery l \<le> 0 \<or> tx_count l < tx_reconnectEvery l)")
  case True
  with assms show ?thesis by (auto simp: ensureConn_def txn_ok_def txn_own_def split: if_splits)
next
  case False
  obtain l1 w1 where c: "tx_closeLocked l w = (l1, w1)" by fastforce
  with assms(1) tx_closeLocked_step [of l w l1 w1]
  have s: "txn_ok l1 w1" "txn_step l w l1 w1" "tx_conn l1 = None" "requests w1 = requests w"
    by (auto simp: txn_ok_def)
  have opn: "\<not> tx_closed l1" using False s(2) by (simp add: txn_step_def)
  have d: "tx_dial l1 w1 = (r, l', w')" using False c assms(2) by (auto simp: ensureConn_def split: if_splits)
  from tx_dial_step [OF s(1,3) opn d] s show ?thesis
    by (auto intro: txn_step_trans simp: txn_ok_def)
qed

text \<open>In a state between transactions a connection at hand is used as it is.\<close>

lemma ensureConn_keeps: "txn_ok l w \<Longrightarrow> tx_conn l = Some p \<Longrightarrow> ensureConn l w = (None, l, w)"
  by (auto simp: txn_ok_def txn_own_def txn_quota_def ensureConn_def)

lemma txn_own_requested:
  assumes "txn_own l w" and "tx_conn l = Some (k, c)"
    and "w1 = log_event (Requested k m q b) (w\<lparr>w_requestCounter := n\<rparr>)"
  shows "txn_own l w1" "txn_step l w l w1" "requests w1 = (m, q, b) # requests w"
  using assms by (auto simp: txn_own_def world_ok_def txn_step_def requests_def log_event_def)

text \<open>One transaction: at most one request, an answer only to a request made.\<close>

lemma Do_step:
  assumes "txn_ok l w" and "Do payload l w = (r, l', w')"
  shows "txn_ok l' w' \<and> txn_step l w l' w'
    \<and> (requests w' = requests w \<and> (\<exists>e. r = Inl e) \<or> (\<exists>q. requests w' = (0, q, payload) # requests w))
    \<and> (tx_reconnectEvery l = 1 \<longrightarrow> tx_conn l' = None)"
proof -
  obtain r0 l1 w1 where en: "ensureConn l w = (r0, l1, w1)" by (cases "ensureConn l w") auto
  note e = ensureConn_step [OF assms(1) en]
  show ?thesis
  proof (cases r0)
    case (Some e)
    with en assms(2) e show ?thesis by (auto simp: Do_def)
  next
    case None
    with e obtain k c where c: "tx_conn l1 = Some (k, c)" by auto
    from None e have own: "txn_own l1 w1" and s1: "txn_step l w l1 w1" and q1: "requests w1 = requests w" by simp_all
    let ?id = "w_requestCounter w1 + 1"
    let ?w = "log_event (Requested k 0 (ucast ?id) payload) (w1\<lparr>w_requestCounter := ?id\<rparr>)"
    note rq = txn_own_requested [OF own c, where m = 0 and q = "ucast ?id" and b = payload and n = ?id, OF refl]
    have closes: "txn_ok l' w' \<and> txn_step l w l' w' \<and> requests w' = (0, ucast ?id, payload) # requests w
        \<and> tx_conn l' = None" if "tx_closeLocked l1 ?w = (l', w')"
      using tx_closeLocked_step [OF rq(1) that] rq s1 q1 by (auto intro: txn_step_trans)
    have answered: "txn_ok l' w' \<and> txn_step l w l' w' \<and> requests w' = (0, ucast ?id, payload) # requests w
        \<and> (tx_reconnectEvery l = 1 \<longrightarrow> tx_conn l' = None)"
      if "(let l = l1\<lparr>tx_conn := Some (k, c'), tx_count := tx_count l1 + 1\<rparr> in
             if tx_reconnectEvery l > 0 \<and> tx_count l \<ge> tx_reconnectEvery l
             then tx_closeLocked l ?w else (l, ?w)) = (l', w')" for c'
    proof -
      let ?l = "l1\<lparr>tx_conn := Some (k, c'), tx_count := tx_count l1 + 1\<rparr>"
      have own2: "txn_own ?l ?w" and s2: "txn_step l1 ?w ?l ?w"
        using rq(1) c by (auto simp: txn_own_def txn_step_def)
      note s3 = txn_step_trans [OF txn_step_trans [OF s1 rq(2)] s2]
      have pos: "0 \<le> tx_count l1" using own by (simp add: txn_own_def)
      show ?thesis
      proof (cases "tx_reconnectEvery ?l > 0 \<and> tx_count ?l \<ge> tx_reconnectEvery ?l")
        case True
        with that have cl: "tx_closeLocked ?l ?w = (l', w')" by simp
        from tx_closeLocked_step [OF own2 cl] s3 rq(3) q1 show ?thesis by (auto intro: txn_step_trans)
      next
        case False
        with that have "l' = ?l" "w' = ?w" by auto
        moreover have "txn_ok ?l ?w" using own2 False pos by (auto simp: txn_ok_def txn_quota_def)
        moreover have "tx_reconnectEvery l \<noteq> 1" using False pos s1 by (auto simp: txn_step_def)
        ultimately show ?thesis using s3 rq(3) q1 by simp
      qed
    qed
    show ?thesis
    proof (cases "tx_send c ?id payload (tx_headerMask l1)")
      case sd: (Pair a c1)
      show ?thesis
      proof (cases a)
        case (Some e)
        with sd None en c assms(2) have "tx_closeLocked l1 ?w = (l', w')"
          by (simp add: Do_def next_requestID_def Let_def)
        from closes [OF this] show ?thesis by auto
      next
        case None': None
        show ?thesis
        proof (cases "ReadResponseFrameProfile (c_in c1) (tx_headerMask l1)")
          case (Inl e)
          with sd None None' en c assms(2) have "tx_closeLocked l1 ?w = (l', w')"
            by (simp add: Do_def next_requestID_def Let_def)
          from closes [OF this] show ?thesis by auto
        next
          case (Inr v)
          obtain id resp st where v: "v = ((id, resp), st)" by (metis prod.collapse)
          show ?thesis
          proof (cases "id = ?id")
            case False
            with v Inr sd None None' en c assms(2) have "tx_closeLocked l1 ?w = (l', w')"
              by (simp add: Do_def next_requestID_def Let_def)
            from closes [OF this] show ?thesis by auto
          next
            case True
            with v Inr sd None None' en c assms(2)
            have "(let l = l1\<lparr>tx_conn := Some (k, c1\<lparr>c_in := st\<rparr>), tx_count := tx_count l1 + 1\<rparr> in
               if tx_reconnectEvery l > 0 \<and> tx_count l \<ge> tx_reconnectEvery l
               then tx_closeLocked l ?w else (l, ?w)) = (l', w')"
              by (simp add: Do_def next_requestID_def Let_def)
            from answered [OF this] show ?thesis by auto
          qed
        qed
      qed
    qed
  qed
qed

lemma Do_closed: "tx_closed l \<Longrightarrow> Do payload l w = (Inl ErrClosed, l, w)"
  by (simp add: Do_def ensureConn_def)

lemma control_tries_step:
  "txn_ok l w \<Longrightarrow> control_tries n payload e l w = (r, l', w') \<Longrightarrow>
   txn_ok l' w' \<and> txn_step l w l' w' \<and> (\<exists>qs. length qs \<le> n \<and> requests w' = map (\<lambda>q. (0, q, payload)) qs @ requests w)
   \<and> (tx_closed l \<longrightarrow> l' = l \<and> w' = w)"
proof (induction n arbitrary: e l w)
  case (Suc n)
  obtain r1 l1 w1 where d: "Do payload l w = (r1, l1, w1)" by (cases "Do payload l w") auto
  note s = Do_step [OF Suc.prems(1) d]
  from s obtain qs where qs: "length qs \<le> 1" "requests w1 = map (\<lambda>q. (0, q, payload)) qs @ requests w"
    by (metis (no_types, lifting) One_nat_def append_Cons append_Nil le_numeral_extra(4) length_Cons
        list.map(1,2) list.size(3) zero_le)
  show ?case
  proof (cases r1)
    case (Inr resp)
    with d s qs Suc.prems Do_closed [of l payload w] show ?thesis by (intro conjI exI [of _ qs]) auto
  next
    case (Inl x)
    with d Suc.prems have c: "control_tries n payload (Some x) l1 w1 = (r, l', w')" by simp
    from Suc.IH [OF _ c] s obtain qs' where ih: "txn_ok l' w'" "txn_step l1 w1 l' w'" "length qs' \<le> n"
      "requests w' = map (\<lambda>q. (0, q, payload)) qs' @ requests w1" "tx_closed l1 \<longrightarrow> l' = l1 \<and> w' = w1" by auto
    have "tx_closed l \<longrightarrow> l' = l \<and> w' = w" using ih(5) d Do_closed [of l payload w] by auto
    with ih s qs show ?thesis
      by (intro conjI exI [of _ "qs' @ qs"]) (auto intro: txn_step_trans)
  qed
qed simp

lemma doControl_step:
  "txn_ok l w \<Longrightarrow> doControl l payload w = (r, l', w') \<Longrightarrow>
   txn_ok l' w' \<and> txn_step l w l' w' \<and> (\<exists>qs. length qs \<le> 5 \<and> requests w' = map (\<lambda>q. (0, q, payload)) qs @ requests w)"
  unfolding doControl_def by (drule (1) control_tries_step) blast

text \<open>A probe leaves no connection behind.\<close>

lemma ProbeProfile_quiet:
  assumes "world_ok w" and "ProbeProfile srv token opts w = (ok, w')"
  shows "world_ok w' \<and> live (w_log w') = live (w_log w) \<and> w_dials w' = w_dials w"
proof -
  let ?t = "if xo_txnTimeout opts \<le> 0 \<or> xo_txnTimeout opts > 2000000000 then 2000000000 else xo_txnTimeout opts"
  let ?l = "newTxnLane srv (xo_tcpBuffer opts) 1 ?t (xo_headerMask opts) (xo_coverProfile opts)"
  obtain r l1 w1 where d: "Do (bytes_of (''CPROBE '' @ wireToken token)) ?l w = (r, l1, w1)"
    by (cases "Do (bytes_of (''CPROBE '' @ wireToken token)) ?l w") auto
  obtain l2 w2 where c: "tx_Close l1 w1 = (l2, w2)" by fastforce
  from d c assms(2) have w': "w' = w2" by (simp add: ProbeProfile_def Let_def)
  have s: "txn_ok l1 w1" "txn_step ?l w l1 w1" using Do_step [OF _ d] assms(1) by simp_all
  from tx_Close_step [OF s(1) c] s(2) w' show ?thesis by (auto simp: txn_step_def txn_ok_def txn_own_def)
qed

text \<open>A transaction on a connection at hand that takes the request and answers with a frame.\<close>

lemma xWriteAll_in: "contract_writer c (length b) \<Longrightarrow> xWriteAll c b = Some (r, c') \<Longrightarrow> c_in c' = c_in c"
  using xWriteAll_contract [of c b] writeAll_in [of c b r c'] by simp

lemma accepting_contract: "accepting c \<Longrightarrow> n \<le> 2097400 \<Longrightarrow> contract_writer c n"
  unfolding accepting_def contract_writer_def by (meson le_trans)

lemma tx_send_accepting:
  assumes "accepting c" and "length p \<le> MaxHandshake"
  shows "\<exists>c'. tx_send c i p hm = (None, c') \<and> c_out c' = c_out c @ xrequest_frame hm (i, 0, p) \<and> c_in c' = c_in c"
proof -
  obtain c' where w: "WriteRequestFrameProfile c i p hm = Some (None, c')"
    "c_out c' = c_out c @ xrequest_frame hm (i, 0, p)"
    using WriteRequestFrame_accepting [OF assms] by blast
  have "contract_writer c (length (xreq_header hm i 0 (word_of_nat (length p)) @ XorInPlace p))"
    using assms by (intro accepting_contract) (simp_all add: MaxHandshake_def)
  with w(1) assms(2) have "c_in c' = c_in c"
    by (intro xWriteAll_in) (simp_all add: WriteRequestFrameProfile_def)
  with w show ?thesis by (simp add: tx_send_def)
qed

lemma Do_exchange:
  assumes "txn_ok l w" and "tx_conn l = Some (k, c)" and "accepting c" and "length p \<le> MaxHandshake"
    and "length resp \<le> MaxHandshake" and "c_in c = (xresponse_frame (tx_headerMask l) (rid, resp) @ r, e)"
  defines "i \<equiv> w_requestCounter w + 1"
  defines "w1 \<equiv> log_event (Requested k 0 (ucast i) p) (w\<lparr>w_requestCounter := i\<rparr>)"
  shows "\<exists>c'. c_in c' = (r, e) \<and> c_out c' = c_out c @ xrequest_frame (tx_headerMask l) (i, 0, p) \<and>
    Do p l w = (if rid \<noteq> i then (Inl (Msg ''request ID mismatch''), tx_closeLocked l w1)
      else let l = l\<lparr>tx_conn := Some (k, c'), tx_count := tx_count l + 1\<rparr> in
        (Inr resp, (if tx_reconnectEvery l > 0 \<and> tx_count l \<ge> tx_reconnectEvery l
           then tx_closeLocked l w1 else (l, w1))))"
proof -
  obtain c1 where sd: "tx_send c i p (tx_headerMask l) = (None, c1)"
    "c_out c1 = c_out c @ xrequest_frame (tx_headerMask l) (i, 0, p)" "c_in c1 = c_in c"
    using tx_send_accepting [OF assms(3,4)] by blast
  have rd: "ReadResponseFrameProfile (c_in c1) (tx_headerMask l) = Inr ((rid, resp), (r, e))"
    using assms(5,6) xresponse_lp.dec_whole [of "(rid, resp)" "tx_headerMask l"] sd(3)
    by (simp add: xresponse_whole)
  from sd rd show ?thesis
    by (intro exI [of _ "c1\<lparr>c_in := (r, e)\<rparr>"])
      (simp add: Do_def ensureConn_keeps [OF assms(1,2)] assms(2) next_requestID_def Let_def i_def w1_def)
qed

section \<open>Histories\<close>

datatype txn_op = TxDo bytes | TxControl bytes | TxClose

fun txn_do :: "txn_op \<Rightarrow> txnLane \<times> world \<Rightarrow> txnLane \<times> world" where
  "txn_do (TxDo p) (l, w) = snd (Do p l w)"
| "txn_do (TxControl p) (l, w) = snd (doControl l p w)"
| "txn_do TxClose (l, w) = tx_Close l w"

definition txn_run :: "txn_op list \<Rightarrow> txnLane \<times> world \<Rightarrow> txnLane \<times> world" where
  "txn_run ops st = foldl (\<lambda>st op. txn_do op st) st ops"

fun txn_cost :: "txn_op \<Rightarrow> nat" where
  "txn_cost (TxDo p) = 1" | "txn_cost (TxControl p) = 5" | "txn_cost TxClose = 0"

definition txn_trace :: "txnLane \<Rightarrow> world \<Rightarrow> txnLane \<Rightarrow> world \<Rightarrow> bool" where
  "txn_trace l w l' w' \<longleftrightarrow> txn_ok l' w' \<and> live (w_log w') - tx_owned l' = live (w_log w) - tx_owned l
     \<and> tx_reconnectEvery l' = tx_reconnectEvery l \<and> (tx_closed l \<longrightarrow> tx_closed l' \<and> requests w' = requests w)
     \<and> (tx_reconnectEvery l = 1 \<longrightarrow> tx_conn l = None \<longrightarrow> tx_conn l' = None)"

lemma txn_trace_trans: "txn_trace l w l1 w1 \<Longrightarrow> txn_trace l1 w1 l2 w2 \<Longrightarrow> txn_trace l w l2 w2"
  by (auto simp: txn_trace_def)

lemma control_tries_single_use:
  "txn_ok l w \<Longrightarrow> tx_reconnectEvery l = 1 \<Longrightarrow> tx_conn l = None \<Longrightarrow>
   control_tries n p e l w = (r, l', w') \<Longrightarrow> tx_conn l' = None"
proof (induction n arbitrary: e l w)
  case (Suc n)
  obtain r1 l1 w1 where d: "Do p l w = (r1, l1, w1)" by (cases "Do p l w") auto
  from Do_step [OF Suc.prems(1) d] Suc.prems d Suc.IH show ?case
    by (cases r1) (auto simp: txn_step_def)
qed auto

lemma txn_do_trace:
  assumes "txn_ok l w" and "txn_do a (l, w) = (l', w')"
  shows "txn_trace l w l' w' \<and> sends w' \<le> sends w + txn_cost a"
proof (cases a)
  case (TxDo p)
  obtain r where d: "Do p l w = (r, l', w')" using assms(2) TxDo by (cases "Do p l w") auto
  from Do_step [OF assms(1) d] Do_closed [of l p w] d TxDo show ?thesis
    by (auto simp: txn_trace_def txn_step_def sends_def)
next
  case (TxControl p)
  obtain r where d: "doControl l p w = (r, l', w')" using assms(2) TxControl by (cases "doControl l p w") auto
  then have d': "control_tries 5 p None l w = (r, l', w')" by (simp add: doControl_def)
  from control_tries_step [OF assms(1) d'] control_tries_single_use [OF assms(1) _ _ d'] TxControl show ?thesis
    by (auto simp: txn_trace_def txn_step_def sends_def)
next
  case TxClose
  with assms(2) have c: "tx_Close l w = (l', w')" by simp
  then have "tx_reconnectEvery l' = tx_reconnectEvery l"
    by (auto simp: tx_Close_def tx_closeLocked_def split: option.splits)
  with tx_Close_step [OF assms(1) c] TxClose show ?thesis by (auto simp: txn_trace_def sends_def)
qed

lemma txn_run_trace:
  assumes "txn_ok l w" and "txn_run ops (l, w) = (l', w')"
  shows "txn_trace l w l' w' \<and> sends w' \<le> sends w + sum_list (map txn_cost ops)"
  using assms
proof (induction ops arbitrary: l w)
  case Nil
  then show ?case by (simp add: txn_run_def txn_trace_def)
next
  case (Cons a ops)
  obtain l1 w1 where a: "txn_do a (l, w) = (l1, w1)" by fastforce
  note s = txn_do_trace [OF Cons.prems(1) a]
  from s Cons.prems a Cons.IH [of l1 w1] show ?case
    by (auto simp: txn_run_def txn_trace_def)
qed

section \<open>Properties\<close>

text \<open>C25: One transaction of an X lane on a connection that takes the request and then
  delivers an OK frame: the request goes out as one UP frame with the next request ID; the
  answer is returned if and only if it carries that ID, and an answer with another ID costs the
  connection, so that no later request can be paired with a stale answer.\<close>

theorem x_transaction_pairs_answers:
  assumes "txn_ok l w" and "tx_conn l = Some (k, c)" and "accepting c" and "length p \<le> MaxHandshake"
    and "length resp \<le> MaxHandshake" and "c_in c = (xresponse_frame (tx_headerMask l) (rid, resp) @ r, e)"
    and "Do p l w = (res, l', w')"
  shows "requests w' = (0, ucast (w_requestCounter w + 1), p) # requests w
    \<and> res = (if rid = w_requestCounter w + 1 then Inr resp else Inl (Msg ''request ID mismatch''))
    \<and> (rid \<noteq> w_requestCounter w + 1 \<longrightarrow> tx_conn l' = None \<and> live (w_log w') = live (w_log w) - {k})
    \<and> (rid = w_requestCounter w + 1 \<and> tx_reconnectEvery l \<le> 0 \<longrightarrow> (\<exists>c'. tx_conn l' = Some (k, c')
        \<and> c_in c' = (r, e) \<and> c_out c' = c_out c @ xrequest_frame (tx_headerMask l) (rid, 0, p)))"
proof -
  let ?i = "w_requestCounter w + 1"
  let ?w = "log_event (Requested k 0 (ucast ?i) p) (w\<lparr>w_requestCounter := ?i\<rparr>)"
  have own: "txn_own l w" using assms(1) by (simp add: txn_ok_def)
  note rq = txn_own_requested [OF own assms(2), where m = 0 and q = "ucast ?i" and b = p and n = ?i, OF refl]
  obtain c' where c': "c_in c' = (r, e)" "c_out c' = c_out c @ xrequest_frame (tx_headerMask l) (?i, 0, p)"
    and d: "Do p l w = (if rid \<noteq> ?i then (Inl (Msg ''request ID mismatch''), tx_closeLocked l ?w)
      else let l = l\<lparr>tx_conn := Some (k, c'), tx_count := tx_count l + 1\<rparr> in
        (Inr resp, (if tx_reconnectEvery l > 0 \<and> tx_count l \<ge> tx_reconnectEvery l
           then tx_closeLocked l ?w else (l, ?w))))"
    using Do_exchange [OF assms(1-6)] by blast
  have q: "requests w' = (0, ucast ?i, p) # requests w"
    using d assms(7) rq(3)
    by (auto simp: Let_def tx_closeLocked_def requests_def log_event_def split: if_splits option.splits)
  show ?thesis
  proof (cases "rid = ?i")
    case True
    with d assms(7) q c' show ?thesis by (auto simp: Let_def)
  next
    case False
    with d assms(7) have cl: "tx_closeLocked l ?w = (l', w')" "res = Inl (Msg ''request ID mismatch'')" by auto
    from tx_closeLocked_step [OF rq(1) cl(1)] False q cl(2) assms(2) show ?thesis by simp
  qed
qed

definition answering_lane :: txnLane where
  "answering_lane = (newTxnLane ''s:53'' 0 0 1 0x40 zero_profile)\<lparr>tx_count := 1,
     tx_conn := Some (3, open_conn\<lparr>c_in := (xresponse_frame 0x40 (1, [7, 8]) @ [], EOF)\<rparr>)\<rparr>"

definition answering_world :: world where
  "answering_world = silent_world\<lparr>w_dialed := 4, w_log := [Dialed 3]\<rparr>"

lemma answering_ok: "txn_ok answering_lane answering_world"
  by (simp add: txn_ok_def txn_own_def txn_quota_def world_ok_def answering_lane_def answering_world_def
      newTxnLane_def)

theorem x_transaction_pairs_answers_witness:
  "\<exists>l' w'. Do [1] answering_lane answering_world = (Inr [7, 8], l', w')
    \<and> requests w' = [(0, 1, [1])]"
proof -
  obtain res l' w' where d: "Do [1] answering_lane answering_world = (res, l', w')"
    by (cases "Do [1] answering_lane answering_world") auto
  have "tx_conn answering_lane = Some (3, open_conn\<lparr>c_in := (xresponse_frame 0x40 (1, [7, 8]) @ [], EOF)\<rparr>)"
    "accepting (open_conn\<lparr>c_in := (xresponse_frame 0x40 (1, [7, 8]) @ [], EOF)\<rparr>)"
    "length [1 :: byte] \<le> MaxHandshake" "length [7, 8 :: byte] \<le> MaxHandshake"
    "c_in (open_conn\<lparr>c_in := (xresponse_frame 0x40 (1, [7, 8]) @ [], EOF)\<rparr>)
      = (xresponse_frame (tx_headerMask answering_lane) (1, [7, 8]) @ [], EOF)"
    by (simp_all add: answering_lane_def newTxnLane_def MaxHandshake_def)
  from x_transaction_pairs_answers [OF answering_ok this d] d show ?thesis
    by (simp add: answering_world_def silent_world_def requests_def)
qed

text \<open>Any history of an X lane leaks no connection and stays within its budget of
  requests: one per transaction and five per control exchange. A closed lane sends nothing, and
  a lane set to one request per connection never keeps a connection after a transaction.\<close>

theorem x_lane_never_leaks:
  assumes "world_ok w" and "txn_run ops (newTxnLane srv buf re tmo hm prof, w) = (l', w')"
  shows "log_ok (w_log w') \<and> live (w_log w') - tx_owned l' = live (w_log w)
    \<and> sends w' \<le> sends w + sum_list (map txn_cost ops)
    \<and> (re = 1 \<longrightarrow> tx_conn l' = None)
    \<and> (\<forall>ops2 l2 w2. tx_closed l' \<and> txn_run ops2 (l', w') = (l2, w2) \<longrightarrow> requests w2 = requests w' \<and> live (w_log w2) = live (w_log w))"
proof -
  let ?l = "newTxnLane srv buf re tmo hm prof"
  have ok: "txn_ok ?l w" using assms(1) by simp
  note t = txn_run_trace [OF ok assms(2)]
  have c: "requests w2 = requests w' \<and> live (w_log w2) = live (w_log w)"
    if "tx_closed l'" and r: "txn_run ops2 (l', w') = (l2, w2)" for ops2 l2 w2
  proof -
    have ok': "txn_ok l' w'" using t by (simp add: txn_trace_def)
    from txn_run_trace [OF ok' r] that(1) t show ?thesis
      by (auto simp: txn_trace_def txn_ok_def txn_own_def)
  qed
  from t show ?thesis by (auto simp: txn_trace_def txn_ok_def txn_own_def world_ok_def dest: c)
qed

theorem x_lane_never_leaks_witness:
  "\<exists>l' w'. txn_run [TxDo [1], TxControl [2], TxClose] (newTxnLane ''s:53'' 0 1 0 0 zero_profile, silent_world) = (l', w')
    \<and> live (w_log w') - tx_owned l' = {} \<and> sends w' \<le> 6 \<and> tx_conn l' = None"
proof -
  obtain l' w' where r: "txn_run [TxDo [1], TxControl [2], TxClose] (newTxnLane ''s:53'' 0 1 0 0 zero_profile, silent_world) = (l', w')"
    by fastforce
  have z: "live (w_log silent_world) = {}" "sends silent_world = 0"
    by (simp_all add: silent_world_def sends_def requests_def)
  from x_lane_never_leaks [OF silent_world_ok r] z have "live (w_log w') - tx_owned l' = {}" "sends w' \<le> 6" "tx_conn l' = None"
    by auto
  with r show ?thesis by blast
qed

end
