(* ===== verification/XCalibrate.thy ===== *)
theory XCalibrate
  imports XLane Calibrate
begin

text \<open>
  Start-up calibration of the X transport, \<^verbatim>\<open>internal/xorchunk/chunk.go\<close> from
  \<^verbatim>\<open>calibrationPattern\<close> to \<^verbatim>\<open>Calibrate\<close>. It is the ascending search of
  the native transport over another probe, another notion of timeout and a given resolution, so
  the search itself is that of theory \<^verbatim>\<open>Calibrate\<close>. The sustained throughput test that
  may follow is theory \<^verbatim>\<open>Sustained\<close>.
\<close>

section \<open>Timeouts\<close>

definition calibrationTimeout :: "xOptions \<Rightarrow> int" where
  "calibrationTimeout opts =
     (let t = xo_txnTimeout opts;
          t = (if t < 8000000000 then 8000000000 else t)
      in if t > 20000000000 then 20000000000 else t)"

text \<open>
  The type assertion looks at the error itself, not at its causes; the text decides for the
  others.
\<close>

definition isCalibrationTimeout :: "goerr option \<Rightarrow> bool" where
  "isCalibrationTimeout err = (case err of None \<Rightarrow> False
     | Some e \<Rightarrow> (case e of NetErr t s \<Rightarrow> t | _ \<Rightarrow> False)
         \<or> Contains (ToLower (err_text e)) ''i/o timeout'' \<or> Contains (ToLower (err_text e)) ''timeout'')"

section \<open>One probe\<close>

definition calibrationPattern :: "nat \<Rightarrow> bytes" where
  "calibrationPattern n = map (\<lambda>i. word_of_nat ((i * 31 + 17) mod 256)) [0..<n]"

definition calibrationBurstCount :: "int \<Rightarrow> int" where
  "calibrationBurstCount chunk = 1"

definition down_request :: "string \<Rightarrow> int \<Rightarrow> bytes" where
  "down_request token candidate = bytes_of (''CIPERFDW '' @ wireToken token @ '' '' @ dec_int candidate)"

definition up_request :: "string \<Rightarrow> int \<Rightarrow> bytes" where
  "up_request token candidate =
     bytes_of (''CIPERFUP '' @ wireToken token @ '' '' @ dec_int candidate @ '' '')
     @ calibrationPattern (nat candidate)"

text \<open>The loop over the burst: \<open>n\<close> transactions to go, \<open>total\<close> bytes so far.\<close>

fun burst_loop ::
  "nat \<Rightarrow> string \<Rightarrow> bool \<Rightarrow> int \<Rightarrow> int \<Rightarrow> txnLane \<Rightarrow> world \<Rightarrow> iperfProbeResult \<times> txnLane \<times> world" where
  "burst_loop 0 token down candidate acc l w = (probe_done acc, l, w)"
| "burst_loop (Suc n) token down candidate acc l w =
     (if down then
        (case Do (down_request token candidate) l w of
           (Inl e, l, w) \<Rightarrow> (probe_error acc e, l, w)
         | (Inr resp, l, w) \<Rightarrow>
           if resp \<noteq> calibrationPattern (nat candidate)
           then (probe_error acc (Msg (''X download validation failed len='' @ dec (length resp)
                   @ '' want='' @ dec_int candidate)), l, w)
           else burst_loop n token down candidate (acc + int (length resp)) l w)
      else
        (case Do (up_request token candidate) l w of
           (Inl e, l, w) \<Rightarrow> (probe_error acc e, l, w)
         | (Inr resp, l, w) \<Rightarrow>
           if string_of resp \<noteq> ''IPERFOK''
           then (probe_error acc (Msg (''X upload rejected: '' @ string_of resp)), l, w)
           else burst_loop n token down candidate (acc + candidate) l w))"

definition probeCalibrationSize ::
  "string \<Rightarrow> string \<Rightarrow> xOptions \<Rightarrow> bool \<Rightarrow> int \<Rightarrow> world \<Rightarrow> iperfProbeResult \<times> world" where
  "probeCalibrationSize serverAddr token opts down candidate w =
     (let lane = newTxnLane serverAddr (xo_tcpBuffer opts) 0 (calibrationTimeout opts)
            (xo_headerMask opts) (xo_coverProfile opts);
          (r, lane, w) = burst_loop (nat (calibrationBurstCount candidate)) token down candidate 0 lane w
      in (r, snd (tx_Close lane w)))"

definition confirmCalibrationResult ::
  "'w prober \<Rightarrow> int \<Rightarrow> iperfProbeResult \<Rightarrow> 'w \<Rightarrow> iperfProbeResult \<times> 'w" where
  "confirmCalibrationResult = confirm_result isCalibrationTimeout"

definition calibrateMaximum :: "'w prober \<Rightarrow> int \<Rightarrow> xOptions \<Rightarrow> 'w \<Rightarrow> int \<times> 'w" where
  "calibrateMaximum probe fine0 opts w =
     (let fine = (if fine0 < 1 then 32 else fine0) in
      ascend isCalibrationTimeout probe fine (xo_minSize opts) (xo_maxSize opts) 0
        (start_candidate (xo_minSize opts) (xo_maxSize opts)) w)"

section \<open>Persistence\<close>

definition minDurationX :: "int \<Rightarrow> int \<Rightarrow> int" where
  "minDurationX a b = (if a < b then a else b)"

fun xpersistent_loop :: "nat \<Rightarrow> string \<Rightarrow> txnLane \<Rightarrow> world \<Rightarrow> bool \<times> txnLane \<times> world" where
  "xpersistent_loop 0 token l w = (True, l, w)"
| "xpersistent_loop (Suc n) token l w = (case Do (bytes_of (''CPROBE '' @ wireToken token)) l w of
     (Inl e, l, w) \<Rightarrow> (False, l, w)
   | (Inr resp, l, w) \<Rightarrow>
     if string_of resp \<noteq> ''PROBEOK'' then (False, l, w) else xpersistent_loop n token l w)"

definition xprobePersistent :: "string \<Rightarrow> string \<Rightarrow> xOptions \<Rightarrow> world \<Rightarrow> bool \<times> world" where
  "xprobePersistent serverAddr token opts w =
     (let lane = newTxnLane serverAddr (xo_tcpBuffer opts) 0
            (minDurationX (calibrationTimeout opts) 2500000000) (xo_headerMask opts) (xo_coverProfile opts);
          (ok, lane, w) = xpersistent_loop 8 token lane w
      in (ok, snd (tx_Close lane w)))"

section \<open>The whole calibration\<close>

definition xNormalizeBounds :: "xOptions \<Rightarrow> xOptions" where
  "xNormalizeBounds opts =
     (let opts1 = (if xo_minSize opts < 32 then opts\<lparr>xo_minSize := 32\<rparr> else opts);
          opts1 = (if xo_maxSize opts1 < xo_minSize opts1 then opts1\<lparr>xo_maxSize := xo_minSize opts1\<rparr> else opts1)
      in if xo_maxSize opts1 > int MaxChunkPayload then opts1\<lparr>xo_maxSize := int MaxChunkPayload\<rparr> else opts1)"

definition xCalibrate ::
  "string \<Rightarrow> string \<Rightarrow> xOptions \<Rightarrow> int \<Rightarrow> world \<Rightarrow> (int \<times> int \<times> bool) \<times> world" where
  "xCalibrate serverAddr token opts0 fine w =
     (let opts = xNormalizeBounds opts0;
          (up, w) = calibrateMaximum (probeCalibrationSize serverAddr token opts False) fine opts w;
          (down, w) = calibrateMaximum (probeCalibrationSize serverAddr token opts True) fine opts w;
          (persistent, w) = xprobePersistent serverAddr token opts w
      in ((up, down, persistent), w))"

section \<open>Lemmas\<close>

lemma byte_mod: "(word_of_nat (k mod 256) :: byte) = word_of_nat k"
  by (simp only: word_unat_eq_iff unat_of_nat) simp

lemma calibrationPattern_eq: "calibrationPattern n = probePattern n"
  unfolding calibrationPattern_def probePattern_def pattern_byte_def byte_mod ..

text \<open>A run of \<open>n\<close> transactions keeps the lane and only adds its own requests to the log.\<close>

definition more_requests :: "world \<Rightarrow> world \<Rightarrow> bool" where
  "more_requests w w' \<longleftrightarrow> set (requests w) \<subseteq> set (requests w')"

lemma more_requests_refl [simp]: "more_requests w w"
  by (simp add: more_requests_def)

lemma more_requests_trans: "more_requests w w1 \<Longrightarrow> more_requests w1 w2 \<Longrightarrow> more_requests w w2"
  by (auto simp: more_requests_def)

definition txn_more :: "txnLane \<Rightarrow> world \<Rightarrow> txnLane \<Rightarrow> world \<Rightarrow> bool" where
  "txn_more l w l' w' \<longleftrightarrow> txn_ok l' w' \<and> txn_step l w l' w' \<and> more_requests w w'"

lemma txn_more_refl: "txn_ok l w \<Longrightarrow> txn_more l w l w"
  by (simp add: txn_more_def)

lemma txn_more_trans: "txn_more l w l1 w1 \<Longrightarrow> txn_more l1 w1 l2 w2 \<Longrightarrow> txn_more l w l2 w2"
  by (auto simp: txn_more_def intro: txn_step_trans more_requests_trans)

lemma Do_more: "txn_ok l w \<Longrightarrow> Do p l w = (r, l', w') \<Longrightarrow> txn_more l w l' w'"
  by (drule (1) Do_step) (auto simp: txn_more_def more_requests_def)

definition probe_request :: "string \<Rightarrow> bool \<Rightarrow> int \<Rightarrow> bytes" where
  "probe_request token down candidate =
     (if down then down_request token candidate else up_request token candidate)"

definition probed :: "string \<Rightarrow> bool \<Rightarrow> int \<Rightarrow> world \<Rightarrow> bool" where
  "probed token down candidate w \<longleftrightarrow> (\<exists>q. (0, q, probe_request token down candidate) \<in> set (requests w))"

lemma probed_more: "probed token down c w \<Longrightarrow> more_requests w w' \<Longrightarrow> probed token down c w'"
  by (auto simp: probed_def more_requests_def)

lemma Do_probed:
  "txn_ok l w \<Longrightarrow> Do (probe_request token down c) l w = (Inr resp, l', w') \<Longrightarrow> probed token down c w'"
  by (drule (1) Do_step) (auto simp: probed_def)

lemma burst_loop_one:
  "burst_loop (Suc 0) token down c acc l w = (case Do (probe_request token down c) l w of
     (Inl e, l, w) \<Rightarrow> (probe_error acc e, l, w)
   | (Inr resp, l, w) \<Rightarrow>
     ((if down
       then if resp \<noteq> calibrationPattern (nat c)
         then probe_error acc (Msg (''X download validation failed len='' @ dec (length resp) @ '' want='' @ dec_int c))
         else probe_done (acc + int (length resp))
       else if string_of resp \<noteq> ''IPERFOK''
         then probe_error acc (Msg (''X upload rejected: '' @ string_of resp))
         else probe_done (acc + c)), l, w))"
  by (auto simp: probe_request_def split: prod.split sum.split)

lemma tx_Close_quiet:
  assumes "quiet X w" and "txn_more (newTxnLane a b n t hm p) w l' w'"
  shows "quiet X (snd (tx_Close l' w')) \<and> more_requests w (snd (tx_Close l' w'))"
proof -
  obtain l2 w2 where c: "tx_Close l' w' = (l2, w2)" by fastforce
  have k: "txn_ok l' w'" "txn_step (newTxnLane a b n t hm p) w l' w'" "more_requests w w'"
    using assms(2) by (simp_all add: txn_more_def)
  from tx_Close_step [OF k(1) c]
  have s: "txn_ok l2 w2" "live (w_log w2) = live (w_log w') - tx_owned l'" "requests w2 = requests w'" by simp_all
  moreover have "live (w_log w') - tx_owned l' = X"
    using assms(1) k(2) by (simp add: txn_step_def quiet_def)
  ultimately show ?thesis using c k(3) by (simp add: quiet_def txn_ok_def txn_own_def more_requests_def)
qed

lemma probeCalibrationSize_step:
  assumes "quiet X w"
  shows "quiet X (snd (probeCalibrationSize srv token opts down c w))
    \<and> more_requests w (snd (probeCalibrationSize srv token opts down c w))
    \<and> (pr_ok (fst (probeCalibrationSize srv token opts down c w)) \<longrightarrow>
        probed token down c (snd (probeCalibrationSize srv token opts down c w)))"
proof -
  let ?l = "newTxnLane srv (xo_tcpBuffer opts) 0 (calibrationTimeout opts) (xo_headerMask opts) (xo_coverProfile opts)"
  obtain r l1 w1 where d: "Do (probe_request token down c) ?l w = (r, l1, w1)"
    by (cases "Do (probe_request token down c) ?l w") auto
  have ok: "txn_ok ?l w" using assms by (simp add: quiet_def)
  note q = tx_Close_quiet [OF assms Do_more [OF ok d]]
  obtain res where b: "burst_loop (Suc 0) token down c 0 ?l w = (res, l1, w1)"
    and res: "\<And>e. r = Inl e \<Longrightarrow> \<not> pr_ok res"
    unfolding burst_loop_one d by (cases r) (auto simp: probe_error_def)
  from b have p: "probeCalibrationSize srv token opts down c w = (res, snd (tx_Close l1 w1))"
    by (simp add: probeCalibrationSize_def calibrationBurstCount_def Let_def)
  have "pr_ok res \<longrightarrow> probed token down c (snd (tx_Close l1 w1))"
  proof
    assume "pr_ok res"
    with res obtain resp where "r = Inr resp" by (cases r) auto
    with d have "probed token down c w1" using Do_probed [OF ok] by blast
    moreover have "requests (snd (tx_Close l1 w1)) = requests w1"
      by (simp add: tx_Close_def tx_closeLocked_def split: option.split)
    ultimately show "probed token down c (snd (tx_Close l1 w1))" by (simp add: probed_def)
  qed
  with p q show ?thesis by simp
qed

text \<open>
  What the ascending search answers is the minimum or a size one of its runs passed at: a fact
  \<open>Q c\<close> that every passing run of \<open>c\<close> establishes and that later runs keep.
\<close>

lemma confirm_loop_proven:
  assumes keep: "\<And>c d w. I w \<Longrightarrow> Q d w \<Longrightarrow> Q d (snd (probe c w))"
    and est: "\<And>c w. I w \<Longrightarrow> pr_ok (fst (probe c w)) \<Longrightarrow> Q c (snd (probe c w))"
    and inv: "\<And>c w. I w \<Longrightarrow> I (snd (probe c w))"
  shows "I w \<Longrightarrow> (0 < ta_successes t \<longrightarrow> Q c w) \<Longrightarrow> \<not> pr_ok (ta_lastFailure t) \<Longrightarrow> \<not> pr_ok (ta_lastTimeout t) \<Longrightarrow>
    confirm_loop tmo probe c n t w = (t', w') \<Longrightarrow>
    I w' \<and> (0 < ta_successes t' \<longrightarrow> Q c w') \<and> \<not> pr_ok (ta_lastFailure t') \<and> \<not> pr_ok (ta_lastTimeout t')"
proof (induction n arbitrary: t w)
  case (Suc n)
  obtain r w1 where p: "probe c w = (r, w1)" by fastforce
  have i: "I w1" using inv [OF Suc.prems(1), of c] p by simp
  have k: "Q c w \<Longrightarrow> Q c w1" using keep [OF Suc.prems(1), of c c] p by simp
  have e: "pr_ok r \<Longrightarrow> Q c w1" using est [OF Suc.prems(1), of c] p by simp
  show ?case
  proof (cases "ta_successes t < 2 \<and> ta_failures t < 2")
    case True
    have "(0 < ta_successes (observe tmo r t) \<longrightarrow> Q c w1) \<and> \<not> pr_ok (ta_lastFailure (observe tmo r t))
      \<and> \<not> pr_ok (ta_lastTimeout (observe tmo r t))"
      using Suc.prems k e by (auto simp: observe_def)
    with Suc.IH [OF i, of "observe tmo r t"] Suc.prems(5) True p show ?thesis by simp
  next
    case False
    with Suc.prems show ?thesis by auto
  qed
qed auto

lemma confirm_result_proven:
  assumes keep: "\<And>c d w. I w \<Longrightarrow> Q d w \<Longrightarrow> Q d (snd (probe c w))"
    and est: "\<And>c w. I w \<Longrightarrow> pr_ok (fst (probe c w)) \<Longrightarrow> Q c (snd (probe c w))"
    and inv: "\<And>c w. I w \<Longrightarrow> I (snd (probe c w))"
    and "I w" and "pr_ok r \<Longrightarrow> Q c w" and "confirm_result tmo probe c r w = (r', w')"
  shows "I w' \<and> (pr_ok r' \<longrightarrow> Q c w')"
proof -
  obtain t' where l: "confirm_loop tmo probe c 2 (observe tmo r new_tally) w = (t', w')" and r': "r' = decide t'"
    using assms(6) by (auto simp: confirm_result_def calibrationDecisionAttempts_def split: prod.splits)
  have "(0 < ta_successes (observe tmo r new_tally) \<longrightarrow> Q c w)"
    "\<not> pr_ok (ta_lastFailure (observe tmo r new_tally))" "\<not> pr_ok (ta_lastTimeout (observe tmo r new_tally))"
    using assms(5) by (auto simp: observe_def new_tally_def zero_result_def)
  from confirm_loop_proven [of I Q probe, OF keep est inv \<open>I w\<close> this l] r' show ?thesis
    by (auto simp: decide_def split: if_splits)
qed

lemma refine_proven:
  assumes keep: "\<And>c d w. I w \<Longrightarrow> Q d w \<Longrightarrow> Q d (snd (probe c w))"
    and est: "\<And>c w. I w \<Longrightarrow> pr_ok (fst (probe c w)) \<Longrightarrow> Q c (snd (probe c w))"
    and inv: "\<And>c w. I w \<Longrightarrow> I (snd (probe c w))"
    and "I w" and "Q good w" and "refine tmo probe fine good bad w = (x, w')"
  shows "I w' \<and> Q x w'"
  using assms
proof (induction tmo probe fine good bad w arbitrary: x w' rule: refine.induct)
  case (1 tmo probe fine good bad w)
  let ?n = "good + (bad - good) sdiv 2"
  obtain r w1 where p: "probe ?n w = (r, w1)" by fastforce
  obtain r2 w2 where q: "confirm_result tmo probe ?n r w1 = (r2, w2)" by fastforce
  have i1: "I w1" and g1: "Q good w1" and n1: "pr_ok r \<Longrightarrow> Q ?n w1"
    using "1.prems"(3) [OF "1.prems"(4), of ?n] "1.prems"(1) [OF "1.prems"(4,5), of ?n]
      "1.prems"(2) [OF "1.prems"(4), of ?n] p by simp_all
  from confirm_result_proven [of I Q probe, OF "1.prems"(1-3) i1 n1 q]
  have i2: "I w2" and n2: "pr_ok r2 \<Longrightarrow> Q ?n w2" by simp_all
  have g2: "Q good w2"
  proof -
    have "(\<lambda>w. I w \<and> Q good w) (snd (confirm_result tmo probe ?n r w1))"
      by (rule confirm_result_keeps) (use "1.prems"(1,3) i1 g1 in auto)
    with q show ?thesis by simp
  qed
  note s = refine.simps [of tmo probe fine good bad w]
  show ?case
  proof (cases "bad - good > fine \<and> \<not> (?n \<le> good \<or> ?n \<ge> bad)")
    case False
    with "1.prems" show ?thesis by (auto simp: s Let_def simp del: sdiv_pos split: if_splits)
  next
    case True
    then have c: "bad - good > fine" "\<not> (?n \<le> good \<or> ?n \<ge> bad)" by (simp_all only: de_Morgan_disj simp_thms)
    from "1.IH"(1) [OF c(1) refl c(2) p [symmetric] q [symmetric] _ "1.prems"(1-3) i2 n2]
      "1.IH"(2) [OF c(1) refl c(2) p [symmetric] q [symmetric] _ _ "1.prems"(1-3) i2 g2]
      "1.prems"(6) c p q i2 g2
    show ?thesis by (auto simp: s Let_def simp del: sdiv_pos split: if_splits)
  qed
qed

lemma ascend_proven:
  assumes keep: "\<And>c d w. I w \<Longrightarrow> Q d w \<Longrightarrow> Q d (snd (probe c w))"
    and est: "\<And>c w. I w \<Longrightarrow> pr_ok (fst (probe c w)) \<Longrightarrow> Q c (snd (probe c w))"
    and inv: "\<And>c w. I w \<Longrightarrow> I (snd (probe c w))"
    and "I w" and "good \<noteq> 0 \<Longrightarrow> Q good w" and "c \<le> mx" and "ascend tmo probe fine mn mx good c w = (x, w')"
  shows "I w' \<and> (x = mn \<or> Q x w')"
  using assms
proof (induction tmo probe fine mn mx good c w arbitrary: x w' rule: ascend.induct)
  case (1 tmo probe fine mn mx good c w)
  obtain r0 w1 where p: "probe c w = (r0, w1)" by fastforce
  obtain r w2 where q: "(if pr_ok r0 then (r0, w1) else confirm_result tmo probe c r0 w1) = (r, w2)" by fastforce
  have i1: "I w1" and g1: "good \<noteq> 0 \<Longrightarrow> Q good w1" and n1: "pr_ok r0 \<Longrightarrow> Q c w1"
    using "1.prems"(3) [OF "1.prems"(4), of c] "1.prems"(1) [OF "1.prems"(4), of good c]
      "1.prems"(2) [OF "1.prems"(4), of c] "1.prems"(5) p by simp_all
  have i2: "I w2" and n2: "pr_ok r \<Longrightarrow> Q c w2"
    using confirm_result_proven [where I = I and Q = Q and probe = probe and tmo = tmo and c = c and w = w1
        and r = r0 and r' = r and w' = w2, OF "1.prems"(1-3) i1 n1] i1 n1 q by (auto split: if_splits)
  have g2: "good \<noteq> 0 \<Longrightarrow> Q good w2"
  proof -
    assume g: "good \<noteq> 0"
    have "(\<lambda>w. I w \<and> Q good w) (snd (confirm_result tmo probe c r0 w1))"
      by (rule confirm_result_keeps) (use "1.prems"(1,3) i1 g1 g in auto)
    with q g1 g show "Q good w2" by (auto split: if_splits)
  qed
  note s = ascend.simps [of tmo probe fine mn mx good c w]
  show ?case
  proof (cases "pr_ok r")
    case True
    show ?thesis
    proof (cases "next_up mn mx c")
      case None
      have "(if mx \<le> c then mx else c) = c" using "1.prems"(6) by simp
      with p q True None i2 n2 "1.prems"(7) show ?thesis by (simp add: s del: if_cancel)
    next
      case (Some n)
      with p q True "1.prems"(7) have a: "ascend tmo probe fine mn mx c n w2 = (x, w')" by (simp add: s)
      from "1.IH" [OF p [symmetric] q [symmetric] True Some "1.prems"(1-3) i2 n2 [OF True] _ a]
        next_up_bounds [OF Some] show ?thesis by simp
    qed
  next
    case False
    show ?thesis
    proof (cases "tmo (pr_err r) \<or> good = 0")
      case True
      with p q False i2 g2 "1.prems"(7) show ?thesis by (auto simp: s split: if_splits)
    next
      case False
      with p q \<open>\<not> pr_ok r\<close> "1.prems"(7) have "refine tmo probe fine good c w2 = (x, w')" by (simp add: s)
      from refine_proven [of I Q probe, OF "1.prems"(1-3) i2 _ this] g2 False show ?thesis by simp
    qed
  qed
qed

lemma calibrateMaximum_proven:
  assumes "quiet X w" and "xo_minSize opts \<le> xo_maxSize opts"
    and "calibrateMaximum (probeCalibrationSize srv token opts down) fine opts w = (x, w')"
  shows "quiet X w' \<and> more_requests w w' \<and> xo_minSize opts \<le> x \<and> x \<le> xo_maxSize opts
    \<and> (x = xo_minSize opts \<or> probed token down x w')"
proof -
  let ?probe = "probeCalibrationSize srv token opts down" and ?f = "if fine < 1 then 32 else fine"
  let ?c = "start_candidate (xo_minSize opts) (xo_maxSize opts)"
  let ?I = "\<lambda>v. quiet X v \<and> more_requests w v"
  note c = start_candidate_bounds [OF assms(2)]
  have a: "ascend isCalibrationTimeout ?probe ?f (xo_minSize opts) (xo_maxSize opts) 0 ?c w = (x, w')"
    using assms(3) by (simp add: calibrateMaximum_def Let_def)
  note st = probeCalibrationSize_step [where srv = srv and token = token and opts = opts and down = down and X = X]
  have "?I w' \<and> (x = xo_minSize opts \<or> probed token down x w')"
  proof (rule ascend_proven [where I = ?I and Q = "probed token down", OF _ _ _ _ _ _ a])
    show "probed token down d (snd (?probe c v))" if "?I v" "probed token down d v" for c d v
      using that st [of v c] probed_more by blast
    show "probed token down c (snd (?probe c v))" if "?I v" "pr_ok (fst (?probe c v))" for c v
      using that st [of v c] by blast
    show "?I (snd (?probe c v))" if "?I v" for c v
      using that st [of v c] more_requests_trans by blast
  qed (use assms(1) c in auto)
  moreover from ascend_bounds [of "xo_minSize opts" ?c "xo_maxSize opts" 0 isCalibrationTimeout ?probe ?f w] c a
  have "xo_minSize opts \<le> x \<and> x \<le> xo_maxSize opts" by simp
  ultimately show ?thesis by simp
qed

lemma xpersistent_loop_more:
  "txn_ok l w \<Longrightarrow> xpersistent_loop n token l w = (ok, l', w') \<Longrightarrow> txn_more l w l' w'"
proof (induction n arbitrary: l w)
  case (Suc n)
  obtain r l1 w1 where d: "Do (bytes_of (''CPROBE '' @ wireToken token)) l w = (r, l1, w1)"
    by (cases "Do (bytes_of (''CPROBE '' @ wireToken token)) l w") auto
  note m = Do_more [OF Suc.prems(1) d]
  then have ok1: "txn_ok l1 w1" by (simp add: txn_more_def)
  from d Suc.prems(2) have "(l', w') = (l1, w1) \<or> xpersistent_loop n token l1 w1 = (ok, l', w')"
    by (cases r) (auto split: if_splits)
  with m Suc.IH [OF ok1] show ?case by (auto intro: txn_more_trans)
qed (simp add: txn_more_refl)

lemma xprobePersistent_quiet:
  assumes "quiet X w"
  shows "quiet X (snd (xprobePersistent srv token opts w)) \<and> more_requests w (snd (xprobePersistent srv token opts w))"
proof -
  let ?l = "newTxnLane srv (xo_tcpBuffer opts) 0 (minDurationX (calibrationTimeout opts) 2500000000)
    (xo_headerMask opts) (xo_coverProfile opts)"
  obtain ok l1 w1 where d: "xpersistent_loop 8 token ?l w = (ok, l1, w1)"
    by (cases "xpersistent_loop 8 token ?l w") auto
  have "txn_ok ?l w" using assms by (simp add: quiet_def)
  from tx_Close_quiet [OF assms xpersistent_loop_more [OF this d]] d show ?thesis
    by (simp add: xprobePersistent_def Let_def)
qed

lemma xNormalizeBounds_ok:
  "xo_minSize opts \<le> int MaxChunkPayload \<Longrightarrow> 32 \<le> xo_minSize (xNormalizeBounds opts)
    \<and> xo_minSize (xNormalizeBounds opts) \<le> xo_maxSize (xNormalizeBounds opts)
    \<and> xo_maxSize (xNormalizeBounds opts) \<le> int MaxChunkPayload"
  by (auto simp: xNormalizeBounds_def Let_def MaxChunkPayload_def)

text \<open>With adaptation off nothing moves the size.\<close>

lemma fixed_sizer:
  "\<not> xs_adaptive s \<Longrightarrow> sizer_run xSuccess (\<lambda>s a. snd (xFailure s a)) s evs = s"
proof (induction evs)
  case (Cons ev evs)
  have "xSuccess s a = s" "snd (xFailure s a) = s" for a
    using Cons.prems by (simp_all add: xSuccess_def xFailure_def Let_def)
  with Cons show ?case by (cases ev) (simp_all add: sizer_run_def)
qed (simp add: sizer_run_def)

section \<open>Properties\<close>



text \<open>X calibration finds the limit of a carrier to the resolution asked for, also when a
  fitting record is lost now and then; a resolution below one byte means 32.\<close>

theorem x_calibration_finds_limit:
  assumes "limit_path isCalibrationTimeout L probe" and "32 \<le> xo_minSize opts" and "xo_minSize opts \<le> xo_maxSize opts"
  shows "(let x = fst (calibrateMaximum probe fine opts w); d = (if fine < 1 then 32 else fine) in
    (xo_minSize opts \<le> L \<longrightarrow> x \<le> L \<and> (L < x + d \<or> x = xo_maxSize opts)) \<and> (L < xo_minSize opts \<longrightarrow> x = xo_minSize opts))"
  using ascending_limit [OF assms(1) _ assms(2,3), of "if fine < 1 then 32 else fine" w]
  by (simp add: calibrateMaximum_def Let_def)

lemma xsample_sizes [simp]: "xo_minSize sample_xoptions = 32" "xo_maxSize sample_xoptions = 4096"
  by (simp_all add: sample_xoptions_def)

theorem x_calibration_finds_limit_witness:
  "let x = fst (calibrateMaximum sample_path 1 sample_xoptions 0) in x \<le> 1500 \<and> (1500 < x + 1 \<or> x = 4096)"
proof -
  have "limit_path isCalibrationTimeout 1500 sample_path"
    by (auto simp: limit_path_def sample_path_def probe_done_def probe_error_def isCalibrationTimeout_def
        HasPrefix_def lower_char_def Let_def)
  from x_calibration_finds_limit [OF this, of sample_xoptions 1 0] show ?thesis by (auto simp: Let_def)
qed

end
