(* ===== verification/XTunnel.thy ===== *)
theory XTunnel
  imports XLane Tunnel
begin

text \<open>
  The tunnel of \<^verbatim>\<open>internal/xorchunk/chunk.go\<close>: \<^verbatim>\<open>Open\<close>,
  \<^verbatim>\<open>Write\<close>, the pull workers, the reordering \<^verbatim>\<open>Read\<close> and
  \<^verbatim>\<open>Close\<close>. The goroutines are a step relation: each step is what one of them does
  between two points where another one may get in the way, so a run is a schedule together with
  whatever the network answers. A worker is its phase, the channel of results is a bounded list,
  the context is a flag, and the maps and counters shared under mutexes or atomics are fields of
  one record.
\<close>

section \<open>Data\<close>

record chunkResult =
  cr_seq :: u64
  cr_data :: bytes
  cr_final :: u64
  cr_eof :: bool
  cr_err :: "goerr option"

definition zero_chunkResult :: "u64 \<Rightarrow> chunkResult" where
  "zero_chunkResult seq = \<lparr>cr_seq = seq, cr_data = [], cr_final = 0, cr_eof = False, cr_err = None\<rparr>"

text \<open>
  Where a pull worker stands: at the head of its loop; about to ask for the rest of record
  \<open>seq\<close> with its local variables \<open>offset\<close>, \<open>assembled\<close> and the failure count; in the
  transaction, with the size limit and the acknowledgement it read for it; about to hand over a
  result, after which it ends or starts again; ended.
\<close>

datatype worker =
    Top
  | Pulling u64 int bytes nat
  | Asking u64 int bytes nat int u64
  | Offering chunkResult bool
  | Stopped

record xconn =
  xc_serverAddr :: string
  xc_token :: string
  xc_sid :: string
  xc_opts :: xOptions
  xc_pushLane :: txnLane
  xc_pullLanes :: "txnLane list"
  xc_upSizer :: xSizer
  xc_downSizer :: xSizer
  xc_serverMax :: int
  xc_cancelled :: bool
  xc_once :: bool
  xc_upSeq :: u64
  xc_claim :: u64
  xc_ack :: u64
  xc_results :: "chunkResult list"
  xc_resultsClosed :: bool
  xc_workers :: "worker list"
  xc_pending :: "u64 \<Rightarrow> bytes option"
  xc_nextRead :: u64
  xc_current :: bytes
  xc_currentSeq :: u64
  xc_finalKnown :: bool
  xc_finalSeq :: u64
  xc_terminalErr :: "goerr option"

section \<open>Open\<close>

fun hex_encode :: "bytes \<Rightarrow> string" where
  "hex_encode [] = []"
| "hex_encode (b # bs) = hex_digit (unat b div 16) # hex_digit (unat b mod 16) # hex_encode bs"

definition xRandomSessionID :: "world \<Rightarrow> (goerr + string) \<times> world" where
  "xRandomSessionID w = (case take_rng w of (g, w) \<Rightarrow>
     (case randRead g 16 of Inl e \<Rightarrow> (Inl e, w) | Inr b \<Rightarrow> (Inr (hex_encode b), w)))"

definition xNormalizeOptions :: "xOptions \<Rightarrow> xOptions" where
  "xNormalizeOptions opts0 =
     (let o1 = (if xo_minSize opts0 < 32 then opts0\<lparr>xo_minSize := 32\<rparr> else opts0);
          o1 = (if xo_maxSize o1 < xo_minSize o1 then o1\<lparr>xo_maxSize := xo_minSize o1\<rparr> else o1);
          o1 = (if xo_maxSize o1 > int MaxChunkPayload then o1\<lparr>xo_maxSize := int MaxChunkPayload\<rparr> else o1);
          o1 = (if xo_startSize o1 < xo_minSize o1 then o1\<lparr>xo_startSize := xo_minSize o1\<rparr> else o1);
          o1 = (if xo_startSize o1 > xo_maxSize o1 then o1\<lparr>xo_startSize := xo_maxSize o1\<rparr> else o1);
          o1 = (if xo_adaptSuccesses o1 < 1 then o1\<lparr>xo_adaptSuccesses := 64\<rparr> else o1);
          o1 = (if xo_pollers o1 < 1 then o1\<lparr>xo_pollers := 1\<rparr> else o1);
          o1 = (if xo_pollers o1 > 128 then o1\<lparr>xo_pollers := 128\<rparr> else o1)
      in if xo_txnTimeout o1 \<le> 0 then o1\<lparr>xo_txnTimeout := 5000000000\<rparr> else o1)"

definition new_xlane :: "string \<Rightarrow> xOptions \<Rightarrow> txnLane" where
  "new_xlane serverAddr opts = newTxnLane serverAddr (xo_tcpBuffer opts) (xo_reconnectEvery opts)
     (xo_txnTimeout opts) (xo_headerMask opts) (xo_coverProfile opts)"

text \<open>The answer to \<^verbatim>\<open>COPEN\<close>: the server's maximum, or the error of \<^verbatim>\<open>Open\<close>.\<close>

definition parse_opened :: "bytes \<Rightarrow> goerr + int" where
  "parse_opened resp =
     (let fs = Fields (string_of resp) in
      if length fs \<noteq> 2 \<or> fs ! 0 \<noteq> ''OPENED'' then Inl (Msg (string_of resp))
      else case Atoi (fs ! 1) of
        Inl e \<Rightarrow> Inl (Msg ''bad OPENED response'')
      | Inr n \<Rightarrow> if n < 32 then Inl (Msg ''bad OPENED response'') else Inr n)"

text \<open>A sizer under a server maximum below the client's.\<close>

definition cap_sizer :: "int \<Rightarrow> xSizer \<Rightarrow> xSizer" where
  "cap_sizer serverMax s =
     (let s = s\<lparr>xs_max := serverMax\<rparr> in
      if xs_current s > serverMax then s\<lparr>xs_current := serverMax\<rparr> else s)"

definition build_xconn ::
  "string \<Rightarrow> string \<Rightarrow> string \<Rightarrow> xOptions \<Rightarrow> txnLane \<Rightarrow> int \<Rightarrow> xconn" where
  "build_xconn serverAddr token sid opts pushLane serverMax =
     (let up = xNewAdaptiveSizer ''upload'' (xo_uploadStartSize opts) (xo_uploadMaxSize opts) opts;
          down = xNewAdaptiveSizer ''download'' (xo_downloadStartSize opts) (xo_downloadMaxSize opts) opts;
          capped = serverMax < xo_maxSize opts
      in \<lparr>xc_serverAddr = serverAddr, xc_token = token, xc_sid = sid,
          xc_opts = (if capped then opts\<lparr>xo_maxSize := serverMax\<rparr> else opts),
          xc_pushLane = pushLane,
          xc_pullLanes = replicate (nat (xo_pollers opts)) (new_xlane serverAddr opts),
          xc_upSizer = (if capped then cap_sizer serverMax up else up),
          xc_downSizer = (if capped then cap_sizer serverMax down else down),
          xc_serverMax = serverMax, xc_cancelled = False, xc_once = False, xc_upSeq = 0, xc_claim = 0,
          xc_ack = - 1, xc_results = [], xc_resultsClosed = False,
          xc_workers = replicate (nat (xo_pollers opts)) Top, xc_pending = (\<lambda>_. None),
          xc_nextRead = 0, xc_current = [], xc_currentSeq = 0, xc_finalKnown = False, xc_finalSeq = 0,
          xc_terminalErr = None\<rparr>)"

definition xOpen ::
  "string \<Rightarrow> string \<Rightarrow> string \<Rightarrow> int \<Rightarrow> xOptions \<Rightarrow> world \<Rightarrow> (goerr + xconn) \<times> world" where
  "xOpen serverAddr token targetHost targetPort opts0 w =
     (let opts = xNormalizeOptions opts0 in
      case xRandomSessionID w of (Inl e, w) \<Rightarrow> (Inl e, w)
      | (Inr sid, w) \<Rightarrow>
        (case doControl (new_xlane serverAddr opts)
            (bytes_of (''COPEN '' @ wireToken token @ '' '' @ sid @ '' '' @ targetHost @ '' '' @ dec_int targetPort)) w of
           (Inl e, lane, w) \<Rightarrow> (Inl e, snd (tx_Close lane w))
         | (Inr resp, lane, w) \<Rightarrow>
           (case parse_opened resp of
              Inl e \<Rightarrow> (Inl e, snd (tx_Close lane w))
            | Inr serverMax \<Rightarrow> (Inr (build_xconn serverAddr token sid opts lane serverMax), w))))"

section \<open>Write\<close>

definition parseAck :: "bytes \<Rightarrow> u64 \<Rightarrow> goerr + int" where
  "parseAck resp expectedSeq =
     (let fs = Fields (string_of resp) in
      if length fs \<noteq> 3 \<or> fs ! 0 \<noteq> ''ACK'' then Inl (Msg ''bad CPUSH response'')
      else case ParseUint (fs ! 1) of
        Inl e \<Rightarrow> Inl (Msg ''bad CPUSH sequence'')
      | Inr seq \<Rightarrow>
        if seq \<noteq> expectedSeq then Inl (Msg ''bad CPUSH sequence'')
        else case Atoi (fs ! 2) of
          Inl e \<Rightarrow> Inl (Msg ''bad CPUSH length'')
        | Inr n \<Rightarrow> if n \<le> 0 then Inl (Msg ''bad CPUSH length'') else Inr n)"

definition push_payload :: "string \<Rightarrow> string \<Rightarrow> u64 \<Rightarrow> bytes \<Rightarrow> bytes" where
  "push_payload token sid seq b =
     bytes_of (''CPUSH '' @ wireToken token @ '' '' @ sid @ '' '' @ dec (unat seq) @ '' '') @ b"

text \<open>The failure count after a failed transaction of the given size.\<close>

definition count_failure :: "xOptions \<Rightarrow> int \<Rightarrow> int \<Rightarrow> nat \<Rightarrow> nat" where
  "count_failure opts old nxt fails =
     (if \<not> xo_adaptive opts \<or> nxt = old \<and> nxt = xo_minSize opts then Suc fails else 0)"

definition push_turn :: "xconn \<Rightarrow> world \<Rightarrow> bytes \<Rightarrow> int \<Rightarrow> nat \<Rightarrow> write_next \<times> xconn \<times> world" where
  "push_turn c w p so_far fails =
     (let sz = xCurrent (xc_upSizer c);
          n = (if int (length p) < sz then int (length p) else sz);
          seq = xc_upSeq c
      in case Do (push_payload (xc_token c) (xc_sid c) seq (take (nat n) p)) (xc_pushLane c) w of
        (Inl e, lane, w) \<Rightarrow>
          let ((old, nxt), s) = xFailure (xc_upSizer c) sz;
              c = c\<lparr>xc_pushLane := lane, xc_upSizer := s\<rparr>;
              fails = count_failure (xc_opts c) old nxt fails
          in ((if fails \<ge> 8
               then WriteReturn (Wrap ((if \<not> xo_adaptive (xc_opts c)
                      then ''upload failed repeatedly at fixed calibrated chunk ''
                      else ''upload failed at minimum chunk '') @ dec_int nxt) e)
               else WriteAgain p so_far fails), c, w)
      | (Inr resp, lane, w) \<Rightarrow>
          let c = c\<lparr>xc_pushLane := lane\<rparr> in
          if HasPrefix (string_of resp) ''ERR '' then (WriteReturn (Msg (string_of resp)), c, w)
          else case parseAck resp seq of
            Inl e \<Rightarrow> (WriteReturn e, c, w)
          | Inr accepted \<Rightarrow>
            if accepted > int (length p)
            then (WriteReturn (Msg (''server ACK length '' @ dec_int accepted @ '' exceeds pending write ''
                    @ dec (length p))), c, w)
            else (WriteAgain (drop (nat accepted) p) (so_far + accepted) 0,
                  c\<lparr>xc_upSeq := xc_upSeq c + 1, xc_upSizer := xSuccess (xc_upSizer c) sz\<rparr>, w))"

definition xWrite :: "bytes \<Rightarrow> xconn \<Rightarrow> world \<Rightarrow> (int \<times> goerr option \<times> xconn \<times> world) option" where
  "xWrite p c w = send_loop push_turn c w p 0 0"

section \<open>Pull workers\<close>

text \<open>
  The fields of a DATA answer end at the first three blanks; the loop of the source takes them
  one by one.
\<close>

fun data_fields :: "nat \<Rightarrow> bytes \<Rightarrow> bytes \<Rightarrow> (bytes list \<times> bytes) option" where
  "data_fields 0 cur rest = Some ([], cur @ rest)"
| "data_fields (Suc n) cur [] = None"
| "data_fields (Suc n) cur (b # rest) =
     (if b = byte_of_char (CHR '' '') then map_option (\<lambda>(fs, r). (cur # fs, r)) (data_fields n [] rest)
      else data_fields (Suc n) (cur @ [b]) rest)"

definition parseDataResponse :: "bytes \<Rightarrow> goerr + (u64 \<times> int \<times> int \<times> bytes)" where
  "parseDataResponse resp =
     (if length resp < 6 \<or> string_of (take 5 resp) \<noteq> ''DATA '' then Inl (Msg ''not DATA'')
      else case data_fields 3 [] (drop 5 resp) of
        None \<Rightarrow> Inl (Msg ''bad DATA response'')
      | Some (fs, data) \<Rightarrow>
        (case ParseUint (string_of (fs ! 0)) of Inl e \<Rightarrow> Inl e
         | Inr seq \<Rightarrow>
           (case Atoi (string_of (fs ! 1)) of
              Inl e \<Rightarrow> Inl (Msg ''bad DATA offset'')
            | Inr offset \<Rightarrow>
              if offset < 0 then Inl (Msg ''bad DATA offset'')
              else (case Atoi (string_of (fs ! 2)) of
                 Inl e \<Rightarrow> Inl (Msg ''bad DATA total'')
               | Inr len \<Rightarrow> if len < 0 then Inl (Msg ''bad DATA total'')
                   else Inr (seq, offset, len, data)))))"

text \<open>\<^verbatim>\<open>%d\<close> of the \<^verbatim>\<open>int64\<close> whose bits are kept in \<open>xc_ack\<close>.\<close>

definition pull_payload :: "string \<Rightarrow> string \<Rightarrow> u64 \<Rightarrow> u64 \<Rightarrow> int \<Rightarrow> int \<Rightarrow> bytes" where
  "pull_payload token sid ack seq offset limit =
     bytes_of (''CPULL '' @ wireToken token @ '' '' @ sid @ '' '' @ dec_int (sint ack) @ '' ''
       @ dec (unat seq) @ '' '' @ dec_int offset @ '' '' @ dec_int limit)"

definition pull_error :: "u64 \<Rightarrow> goerr \<Rightarrow> worker" where
  "pull_error seq e = Offering ((zero_chunkResult seq)\<lparr>cr_err := Some e\<rparr>) True"

text \<open>What a worker makes of the outcome of its transaction.\<close>

definition pull_reply ::
  "xconn \<Rightarrow> u64 \<Rightarrow> int \<Rightarrow> bytes \<Rightarrow> nat \<Rightarrow> int \<Rightarrow> goerr + bytes \<Rightarrow> worker \<times> xSizer" where
  "pull_reply c seq offset assembled fails limit r = (case r of
     Inl e \<Rightarrow>
       let ((old, nxt), s) = xFailure (xc_downSizer c) limit;
           fails = count_failure (xc_opts c) old nxt fails
       in ((if fails \<ge> 8
            then pull_error seq (Wrap ((if \<not> xo_adaptive (xc_opts c)
                   then ''download failed repeatedly at fixed calibrated chunk ''
                   else ''download failed at minimum chunk '') @ dec_int nxt) e)
            else Pulling seq offset assembled fails), s)
   | Inr resp \<Rightarrow>
       let t = string_of resp; s = xc_downSizer c in
       if t = ''WAIT'' then (Pulling seq offset assembled fails, s)
       else if HasPrefix t ''ERR '' then (pull_error seq (Msg t), s)
       else if HasPrefix t ''EOF '' then
         (case ParseUint (TrimSpace (drop 4 t)) of
            Inl e \<Rightarrow> (pull_error seq e, s)
          | Inr n \<Rightarrow> (Offering ((zero_chunkResult seq)\<lparr>cr_eof := True, cr_final := n\<rparr>) False, s))
       else (case parseDataResponse resp of
            Inl e \<Rightarrow> (pull_error seq e, s)
          | Inr (gotSeq, gotOffset, len, fragment) \<Rightarrow>
            if gotSeq \<noteq> seq \<or> gotOffset \<noteq> offset then (pull_error seq (Msg ''DATA position mismatch''), s)
            else if len > xc_serverMax c \<or> len < offset + int (length fragment) \<or> fragment = []
            then (pull_error seq (Msg ''invalid DATA fragment size''), s)
            else
              let assembled = assembled @ fragment;
                  offset = offset + int (length fragment);
                  s = xSuccess s limit
              in ((if offset = len then Offering ((zero_chunkResult seq)\<lparr>cr_data := assembled\<rparr>) False
                   else Pulling seq offset assembled 0), s)))"

section \<open>Read\<close>

text \<open>One turn of the loop of \<^verbatim>\<open>Read\<close> into \<open>n\<close> bytes: a return, another turn, or blocked.\<close>

datatype read_next = ReadReturn bytes "goerr option" | ReadAgain | ReadBlocked

definition read_turn :: "nat \<Rightarrow> xconn \<Rightarrow> read_next \<times> xconn" where
  "read_turn n c =
     (if xc_current c \<noteq> [] then
        let b = take n (xc_current c);
            c = c\<lparr>xc_current := drop n (xc_current c)\<rparr>;
            c = (if xc_current c = []
                 then c\<lparr>xc_nextRead := xc_nextRead c + 1, xc_ack := xc_currentSeq c\<rparr> else c)
        in (ReadReturn b None, c)
      else if xc_terminalErr c \<noteq> None then (ReadReturn [] (xc_terminalErr c), c)
      else if xc_finalKnown c \<and> xc_nextRead c \<ge> xc_finalSeq c then (ReadReturn [] (Some EOF), c)
      else case xc_pending c (xc_nextRead c) of
        Some data \<Rightarrow>
          (ReadAgain, c\<lparr>xc_pending := (xc_pending c)(xc_nextRead c := None), xc_current := data,
             xc_currentSeq := xc_nextRead c\<rparr>)
      | None \<Rightarrow>
        (case xc_results c of
           [] \<Rightarrow> if xc_resultsClosed c then (ReadReturn [] (Some EOF), c) else (ReadBlocked, c)
         | r # rs \<Rightarrow>
           let c = c\<lparr>xc_results := rs\<rparr> in
           if cr_err r \<noteq> None then (ReadReturn [] (cr_err r), c\<lparr>xc_terminalErr := cr_err r\<rparr>)
           else if cr_eof r then
             (ReadAgain, if \<not> xc_finalKnown c \<or> cr_final r < xc_finalSeq c
                then c\<lparr>xc_finalKnown := True, xc_finalSeq := cr_final r\<rparr> else c)
           else if cr_seq r < xc_nextRead c then (ReadAgain, c)
           else (ReadAgain, c\<lparr>xc_pending := (xc_pending c)(cr_seq r := Some (cr_data r))\<rparr>)))"

section \<open>Close\<close>

fun close_lanes :: "txnLane list \<Rightarrow> world \<Rightarrow> txnLane list \<times> world" where
  "close_lanes [] w = ([], w)"
| "close_lanes (l # ls) w =
     (let (l, w) = tx_Close l w; (ls, w) = close_lanes ls w in (l # ls, w))"

text \<open>\<^verbatim>\<open>Close\<close> up to its wait for the workers.\<close>

definition xClose :: "xconn \<Rightarrow> world \<Rightarrow> xconn \<times> world" where
  "xClose c w =
     (if xc_once c then (c, w)
      else
        let c = c\<lparr>xc_once := True, xc_cancelled := True\<rparr>;
            lane = newTxnLane (xc_serverAddr c) (xo_tcpBuffer (xc_opts c)) 1 (xo_txnTimeout (xc_opts c))
              (xo_headerMask (xc_opts c)) (xo_coverProfile (xc_opts c));
            (_, lane, w) = doControl lane (bytes_of (''CCLOSE '' @ wireToken (xc_token c) @ '' '' @ xc_sid c)) w;
            (_, w) = tx_Close lane w;
            (push, w) = tx_Close (xc_pushLane c) w;
            (pulls, w) = close_lanes (xc_pullLanes c) w
        in (c\<lparr>xc_pushLane := push, xc_pullLanes := pulls\<rparr>, w))"

section \<open>Lanes side by side\<close>

text \<open>The lanes of a tunnel are in order and own different connections.\<close>

definition lanes_ok :: "txnLane list \<Rightarrow> world \<Rightarrow> bool" where
  "lanes_ok ls w \<longleftrightarrow> (\<forall>l \<in> set ls. txn_ok l w)
     \<and> (\<forall>i < length ls. \<forall>j < length ls. i \<noteq> j \<longrightarrow> tx_owned (ls ! i) \<inter> tx_owned (ls ! j) = {})"

definition all_owned :: "txnLane list \<Rightarrow> nat set" where
  "all_owned ls = \<Union> (tx_owned ` set ls)"

lemma txn_ok_owned: "txn_ok l w \<Longrightarrow> tx_owned l \<subseteq> live (w_log w)"
  by (simp add: txn_ok_def txn_own_def)

lemma all_owned_live: "lanes_ok ls w \<Longrightarrow> all_owned ls \<subseteq> live (w_log w)"
  using txn_ok_owned by (fastforce simp: lanes_ok_def all_owned_def)

lemma in_all_owned: "x \<in> all_owned ls \<longleftrightarrow> (\<exists>i < length ls. x \<in> tx_owned (ls ! i))"
  unfolding all_owned_def by (metis UN_iff in_set_conv_nth)

text \<open>What one lane does leaves the others as they were.\<close>

lemma lanes_step:
  assumes ok: "lanes_ok ls w" and i: "i < length ls"
    and l': "txn_ok l' w'" and st: "live (w_log w') - tx_owned l' = live (w_log w) - tx_owned (ls ! i)"
  shows "lanes_ok (ls[i := l']) w' \<and> live (w_log w') - all_owned (ls[i := l']) = live (w_log w) - all_owned ls"
proof -
  have keep: "tx_owned (ls ! j) \<inter> tx_owned l' = {} \<and> txn_ok (ls ! j) w'" if j: "j < length ls" "j \<noteq> i" for j
  proof -
    have okj: "txn_ok (ls ! j) w" using ok j by (auto simp: lanes_ok_def)
    have "tx_owned (ls ! j) \<inter> tx_owned (ls ! i) = {}" using ok i j by (simp add: lanes_ok_def)
    with txn_ok_owned [OF okj] have "tx_owned (ls ! j) \<subseteq> live (w_log w) - tx_owned (ls ! i)" by blast
    then have sub: "tx_owned (ls ! j) \<subseteq> live (w_log w') - tx_owned l'" using st by simp
    have "world_ok w'" using l' by (simp add: txn_ok_def txn_own_def)
    with okj sub show ?thesis by (auto simp: txn_ok_def txn_own_def)
  qed
  have "lanes_ok (ls[i := l']) w'"
    unfolding lanes_ok_def
  proof (intro conjI ballI allI impI)
    fix l assume "l \<in> set (ls[i := l'])"
    then obtain j where "j < length ls" "l = ls[i := l'] ! j" by (auto simp: in_set_conv_nth)
    with keep [of j] l' i show "txn_ok l w'" by (cases "j = i") auto
  next
    fix a b assume "a < length (ls[i := l'])" "b < length (ls[i := l'])" "a \<noteq> b"
    with keep ok show "tx_owned (ls[i := l'] ! a) \<inter> tx_owned (ls[i := l'] ! b) = {}"
      by (cases "a = i"; cases "b = i") (auto simp: lanes_ok_def Int_commute)
  qed
  moreover have "live (w_log w') - all_owned (ls[i := l']) = live (w_log w) - all_owned ls"
  proof -
    have "all_owned (ls[i := l']) = tx_owned l' \<union> (\<Union>j \<in> {..<length ls} - {i}. tx_owned (ls ! j))"
      using i by (fastforce simp: in_all_owned nth_list_update split: if_splits)
    moreover have "all_owned ls = tx_owned (ls ! i) \<union> (\<Union>j \<in> {..<length ls} - {i}. tx_owned (ls ! j))"
      using i by (fastforce simp: in_all_owned)
    ultimately show ?thesis using st by auto
  qed
  ultimately show ?thesis by simp
qed

lemma lanes_ok_Cons:
  "lanes_ok (l # ls) w \<longleftrightarrow> txn_ok l w \<and> lanes_ok ls w \<and> tx_owned l \<inter> all_owned ls = {}"
proof
  assume a: "lanes_ok (l # ls) w"
  then have d: "\<And>i j. i < Suc (length ls) \<Longrightarrow> j < Suc (length ls) \<Longrightarrow> i \<noteq> j \<Longrightarrow>
      tx_owned ((l # ls) ! i) \<inter> tx_owned ((l # ls) ! j) = {}" by (simp add: lanes_ok_def)
  have "tx_owned l \<inter> all_owned ls = {}" using d [of 0 "Suc j" for j] by (fastforce simp: in_all_owned)
  moreover have "lanes_ok ls w" using a d [of "Suc i" "Suc j" for i j] by (auto simp: lanes_ok_def)
  ultimately show "txn_ok l w \<and> lanes_ok ls w \<and> tx_owned l \<inter> all_owned ls = {}"
    using a by (simp add: lanes_ok_def)
next
  assume a: "txn_ok l w \<and> lanes_ok ls w \<and> tx_owned l \<inter> all_owned ls = {}"
  show "lanes_ok (l # ls) w"
    unfolding lanes_ok_def
  proof (intro conjI ballI allI impI)
    fix x assume "x \<in> set (l # ls)"
    with a show "txn_ok x w" by (auto simp: lanes_ok_def)
  next
    fix i j assume "i < length (l # ls)" "j < length (l # ls)" "i \<noteq> j"
    with a show "tx_owned ((l # ls) ! i) \<inter> tx_owned ((l # ls) ! j) = {}"
      by (cases i; cases j) (fastforce simp: lanes_ok_def in_all_owned)+
  qed
qed

lemma all_owned_Cons [simp]: "all_owned (l # ls) = tx_owned l \<union> all_owned ls" "all_owned [] = {}"
  by (auto simp: all_owned_def)

lemma fresh_lanes: "world_ok w \<Longrightarrow> lanes_ok (replicate n (new_xlane a opts)) w \<and> all_owned (replicate n (new_xlane a opts)) = {}"
  by (induction n) (simp_all add: lanes_ok_Cons new_xlane_def, simp_all add: lanes_ok_def)

text \<open>Closing lanes closes their connections and nothing else.\<close>

lemma tx_Close_lanes:
  assumes "lanes_ok (l # ls) w" and "tx_Close l w = (l', w')"
  shows "lanes_ok (l' # ls) w' \<and> tx_closed l' \<and> tx_owned l' = {} \<and> live (w_log w') = live (w_log w) - tx_owned l
    \<and> requests w' = requests w"
proof -
  have "txn_ok l w" using assms(1) by (simp add: lanes_ok_Cons)
  note c = tx_Close_step [OF this assms(2)]
  then have "live (w_log w') - tx_owned l' = live (w_log w) - tx_owned ((l # ls) ! 0)" by simp
  from lanes_step [OF assms(1) _ _ this] c show ?thesis by simp
qed

lemma close_lanes_step:
  assumes "lanes_ok ls w" and "close_lanes ls w = (ls', w')"
  shows "lanes_ok ls' w' \<and> (\<forall>l \<in> set ls'. tx_closed l) \<and> all_owned ls' = {} \<and> length ls' = length ls
    \<and> live (w_log w') = live (w_log w) - all_owned ls \<and> requests w' = requests w"
  using assms
proof (induction ls arbitrary: w ls' w')
  case (Cons l ls)
  obtain l1 w1 where c: "tx_Close l w = (l1, w1)" by fastforce
  obtain ls2 w2 where r: "close_lanes ls w1 = (ls2, w2)" by fastforce
  from Cons.prems(2) c r have e: "ls' = l1 # ls2" "w' = w2" by simp_all
  note s = tx_Close_lanes [OF Cons.prems(1) c]
  then have "lanes_ok ls w1" by (simp add: lanes_ok_Cons)
  note ih = Cons.IH [OF this r]
  have "txn_ok l1 w1" "tx_owned l1 = {}" using s by (simp_all add: lanes_ok_Cons)
  moreover have "world_ok w2" if "ls2 \<noteq> []" using ih that by (cases ls2) (auto simp: lanes_ok_Cons txn_ok_def txn_own_def)
  moreover have "w2 = w1" if "ls2 = []" using r ih that by simp
  ultimately have "txn_ok l1 w2" by (cases "ls2 = []") (auto simp: txn_ok_def txn_own_def)
  with s ih e show ?case by (auto simp: lanes_ok_Cons)
qed simp

section \<open>The invariant of the connections\<close>

definition xlanes :: "xconn \<Rightarrow> txnLane list" where
  "xlanes c = xc_pushLane c # xc_pullLanes c"

definition xc_ok :: "xconn \<Rightarrow> world \<Rightarrow> bool" where
  "xc_ok c w \<longleftrightarrow> lanes_ok (xlanes c) w \<and> length (xc_workers c) = length (xc_pullLanes c)
     \<and> (xc_once c \<longrightarrow> xc_cancelled c \<and> (\<forall>l \<in> set (xlanes c). tx_closed l \<and> tx_owned l = {}))
     \<and> (xc_resultsClosed c \<longrightarrow> xc_once c)"

text \<open>The connections open in the world that are not this tunnel's.\<close>

definition xothers :: "xconn \<Rightarrow> world \<Rightarrow> nat set" where
  "xothers c w = live (w_log w) - all_owned (xlanes c)"

lemma closed_lane_stays:
  assumes "tx_closed l" and "Do p l w = (r, l', w')"
  shows "l' = l \<and> w' = w \<and> r = Inl ErrClosed"
  using assms by (simp add: Do_closed)

text \<open>One of the lanes does a transaction.\<close>

lemma xc_ok_push:
  assumes "xc_ok c w" and "Do p (xc_pushLane c) w = (r, l, w')"
  shows "xc_ok (c\<lparr>xc_pushLane := l\<rparr>) w' \<and> xothers (c\<lparr>xc_pushLane := l\<rparr>) w' = xothers c w"
proof -
  have ls: "lanes_ok (xlanes c) w" and ok: "txn_ok (xc_pushLane c) w"
    using assms(1) by (simp_all add: xc_ok_def xlanes_def lanes_ok_Cons)
  note d = Do_step [OF ok assms(2)]
  then have "live (w_log w') - tx_owned l = live (w_log w) - tx_owned (xlanes c ! 0)"
    by (simp add: txn_step_def xlanes_def)
  from lanes_step [OF ls _ conjunct1 [OF d] this]
  have "lanes_ok (l # xc_pullLanes c) w'" "live (w_log w') - all_owned (l # xc_pullLanes c) = xothers c w"
    by (simp_all add: xlanes_def xothers_def)
  moreover have "xc_once c \<Longrightarrow> l = xc_pushLane c"
    using assms closed_lane_stays [OF _ assms(2)] by (simp add: xc_ok_def xlanes_def)
  ultimately show ?thesis using assms(1) by (auto simp: xc_ok_def xlanes_def xothers_def)
qed

lemma xc_ok_pull:
  assumes "xc_ok c w" and "i < length (xc_pullLanes c)" and "Do p (xc_pullLanes c ! i) w = (r, l, w')"
  shows "xc_ok (c\<lparr>xc_pullLanes := (xc_pullLanes c)[i := l]\<rparr>) w'
    \<and> xothers (c\<lparr>xc_pullLanes := (xc_pullLanes c)[i := l]\<rparr>) w' = xothers c w"
proof -
  have ls: "lanes_ok (xlanes c) w" and ok: "txn_ok (xc_pullLanes c ! i) w"
    using assms(1,2) by (auto simp: xc_ok_def xlanes_def lanes_ok_def)
  note d = Do_step [OF ok assms(3)]
  then have "live (w_log w') - tx_owned l = live (w_log w) - tx_owned (xlanes c ! Suc i)"
    by (simp add: txn_step_def xlanes_def)
  from lanes_step [OF ls _ conjunct1 [OF d] this] assms(2)
  have "lanes_ok (xc_pushLane c # (xc_pullLanes c)[i := l]) w'"
    "live (w_log w') - all_owned (xc_pushLane c # (xc_pullLanes c)[i := l]) = xothers c w"
    by (simp_all add: xlanes_def xothers_def)
  moreover have "xc_once c \<Longrightarrow> l = xc_pullLanes c ! i"
    using assms closed_lane_stays [OF _ assms(3)] by (simp add: xc_ok_def xlanes_def)
  ultimately show ?thesis using assms(1,2) by (auto simp: xc_ok_def xlanes_def xothers_def)
qed

text \<open>Fields that hold no lane do not matter.\<close>

lemma xc_ok_frame:
  assumes "xc_pushLane c' = xc_pushLane c" and "xc_pullLanes c' = xc_pullLanes c"
    and "length (xc_workers c') = length (xc_workers c)" and "xc_once c' = xc_once c"
    and "xc_cancelled c' = xc_cancelled c" and "xc_resultsClosed c' = xc_resultsClosed c"
  shows "xc_ok c' w = xc_ok c w \<and> xothers c' w = xothers c w"
  using assms by (simp add: xc_ok_def xothers_def xlanes_def)

lemma build_xconn_ok:
  assumes "txn_ok lane w"
  shows "xc_ok (build_xconn srv token sid opts lane mx) w \<and> xothers (build_xconn srv token sid opts lane mx) w = live (w_log w) - tx_owned lane"
proof -
  have "world_ok w" using assms by (simp add: txn_ok_def txn_own_def)
  from fresh_lanes [OF this, of "nat (xo_pollers opts)" srv opts] assms show ?thesis
    by (simp add: xc_ok_def xothers_def xlanes_def build_xconn_def Let_def lanes_ok_Cons)
qed

text \<open>Opening fails with nothing left open, or its lane is the only one with a connection.\<close>

lemma xOpen_step:
  assumes "world_ok w" and "xOpen srv token host port opts w = (r, w')"
  shows "case r of Inl e \<Rightarrow> live (w_log w') = live (w_log w)
    | Inr c \<Rightarrow> xc_ok c w' \<and> xothers c w' = live (w_log w) \<and> \<not> xc_once c
        \<and> (\<exists>sid lane mx. 32 \<le> mx \<and> c = build_xconn srv token sid (xNormalizeOptions opts) lane mx)"
proof -
  let ?o = "xNormalizeOptions opts"
  obtain r1 w1 where s: "xRandomSessionID w = (r1, w1)" by fastforce
  then have w1: "world_ok w1" "live (w_log w1) = live (w_log w)"
    using assms(1) by (auto simp: xRandomSessionID_def take_rng_def world_ok_def split: sum.splits)
  show ?thesis
  proof (cases r1)
    case (Inl e)
    with s assms(2) w1 show ?thesis by (auto simp: xOpen_def Let_def)
  next
    case (Inr sid)
    let ?p = "bytes_of (''COPEN '' @ wireToken token @ '' '' @ sid @ '' '' @ host @ '' '' @ dec_int port)"
    obtain r2 l2 w2 where d: "doControl (new_xlane srv ?o) ?p w1 = (r2, l2, w2)" by (metis prod.collapse)
    have "txn_ok (new_xlane srv ?o) w1" using w1 by (simp add: new_xlane_def)
    from doControl_step [OF this d] w1 have k: "txn_ok l2 w2" "live (w_log w2) - tx_owned l2 = live (w_log w)"
      by (simp_all add: txn_step_def new_xlane_def)
    obtain l3 w3 where c: "tx_Close l2 w2 = (l3, w3)" by fastforce
    from tx_Close_step [OF k(1) c] k(2) have cl: "live (w_log w3) = live (w_log w)" by simp
    show ?thesis
    proof (cases "\<exists>mx. \<exists>resp. r2 = Inr resp \<and> parse_opened resp = Inr mx")
      case True
      then obtain mx resp where mx: "r2 = Inr resp" "parse_opened resp = Inr mx" by blast
      then have "32 \<le> mx" by (auto simp: parse_opened_def Let_def split: if_splits sum.splits)
      moreover from mx d s Inr assms(2) have "r = Inr (build_xconn srv token sid ?o l2 mx)" "w' = w2"
        by (simp_all add: xOpen_def Let_def)
      moreover have "\<not> xc_once (build_xconn srv token sid ?o l2 mx)" by (simp add: build_xconn_def Let_def)
      ultimately show ?thesis using build_xconn_ok [OF k(1), of srv token sid ?o mx] k(2) by auto
    next
      case False
      with d s Inr assms(2) c have "\<exists>e. r = Inl e" "w' = w3"
        by (auto simp: xOpen_def Let_def split: sum.splits)
      with cl show ?thesis by auto
    qed
  qed
qed

end
