(* ===== verification/XPush.thy ===== *)
theory XPush
  imports XTunnel "HOL-Library.Sublist"
begin

text \<open>
  The upload direction of the X tunnel: \<^verbatim>\<open>Write\<close> sends numbered records whose size it
  chooses, goes on by what the server acknowledges, and repeats a record under its number after a
  failed transaction, possibly at another size. A server that keeps the first copy of each
  number and acknowledges its length therefore receives every byte exactly once.
\<close>

section \<open>One turn\<close>

text \<open>The state of the writer; nothing else changes.\<close>

definition push_frame :: "xconn \<Rightarrow> xconn \<Rightarrow> bool" where
  "push_frame c c' \<longleftrightarrow> (\<exists>l s q. c' = c\<lparr>xc_pushLane := l, xc_upSizer := s, xc_upSeq := q\<rparr>)"

lemma push_frame_refl [simp]: "push_frame c c"
  unfolding push_frame_def by (intro exI [of _ "xc_pushLane c"] exI [of _ "xc_upSizer c"] exI [of _ "xc_upSeq c"]) simp

lemma push_frame_trans: "push_frame c c1 \<Longrightarrow> push_frame c1 c2 \<Longrightarrow> push_frame c c2"
  unfolding push_frame_def by (elim exE) (simp, blast)

lemma push_frame_sel:
  assumes "push_frame c c'"
  shows "xc_token c' = xc_token c" "xc_sid c' = xc_sid c" "xc_opts c' = xc_opts c"
  using assms by (auto simp: push_frame_def)

text \<open>What the \<open>n\<close>-th record of a call carries: its number and some bytes, one per request.\<close>

type_synonym push_record = "u64 \<times> u64 \<times> bytes"

definition push_event :: "xconn \<Rightarrow> push_record \<Rightarrow> byte \<times> u64 \<times> bytes" where
  "push_event c r = (case r of (i, q, b) \<Rightarrow> (0, i, push_payload (xc_token c) (xc_sid c) q b))"

definition push_size :: "xconn \<Rightarrow> bytes \<Rightarrow> nat" where
  "push_size c p = nat (if int (length p) < xCurrent (xc_upSizer c) then int (length p) else xCurrent (xc_upSizer c))"

lemma push_turn_step:
  assumes ok: "xc_ok c w" and t: "push_turn c w p sf fails = (nxt, c', w')"
  shows "xc_ok c' w' \<and> xothers c' w' = xothers c w \<and> push_frame c c'
    \<and> (\<exists>rs. requests w' = map (push_event c) rs @ requests w
        \<and> (\<forall>(i, q, b) \<in> set rs. q = xc_upSeq c \<and> b = take (push_size c p) p))
    \<and> (case nxt of WriteReturn e \<Rightarrow> xc_upSeq c' = xc_upSeq c
       | WriteAgain p' sf' f' \<Rightarrow> p' = p \<and> sf' = sf \<and> xc_upSeq c' = xc_upSeq c
         \<or> (\<exists>a > 0. a \<le> length p \<and> p' = drop a p \<and> sf' = sf + int a \<and> xc_upSeq c' = xc_upSeq c + 1))"
proof -
  let ?n = "push_size c p"
  let ?pl = "push_payload (xc_token c) (xc_sid c) (xc_upSeq c) (take ?n p)"
  obtain r l w1 where d: "Do ?pl (xc_pushLane c) w = (r, l, w1)" by (metis prod.collapse)
  have lok: "txn_ok (xc_pushLane c) w" using ok by (simp add: xc_ok_def xlanes_def lanes_ok_Cons)
  have rq: "\<exists>rs. requests w1 = map (push_event c) rs @ requests w
        \<and> (\<forall>(i, q, b) \<in> set rs. q = xc_upSeq c \<and> b = take ?n p)"
  proof (cases "requests w1 = requests w")
    case True
    then show ?thesis by (intro exI [of _ "[]"]) simp
  next
    case False
    with Do_step [OF lok d] obtain i where "requests w1 = (0, i, ?pl) # requests w" by auto
    then show ?thesis by (intro exI [of _ "[(i, xc_upSeq c, take ?n p)]"]) (simp add: push_event_def)
  qed
  note k = xc_ok_push [OF ok d]
  let ?c = "\<lambda>s q. c\<lparr>xc_pushLane := l, xc_upSizer := s, xc_upSeq := q\<rparr>"
  have k': "xc_ok (?c s q) w1 \<and> xothers (?c s q) w1 = xothers c w \<and> push_frame c (?c s q)" for s q
    using k xc_ok_frame [of "?c s q" "c\<lparr>xc_pushLane := l\<rparr>" w1] by (auto simp: push_frame_def)
  have kk: "xc_ok (c\<lparr>xc_pushLane := l, xc_upSizer := s\<rparr>) w1 \<and> xothers (c\<lparr>xc_pushLane := l, xc_upSizer := s\<rparr>) w1 = xothers c w
      \<and> push_frame c (c\<lparr>xc_pushLane := l, xc_upSizer := s\<rparr>)"
    "xc_ok (c\<lparr>xc_pushLane := l\<rparr>) w1 \<and> xothers (c\<lparr>xc_pushLane := l\<rparr>) w1 = xothers c w
      \<and> push_frame c (c\<lparr>xc_pushLane := l\<rparr>)" for s
    using k' [where s = s and q = "xc_upSeq c"] k' [where s = "xc_upSizer c" and q = "xc_upSeq c"] by simp_all
  note pt = t [unfolded push_turn_def Let_def, folded push_size_def, unfolded d]
  show ?thesis
  proof (cases r)
    case (Inl e)
    obtain old nx s where f: "xFailure (xc_upSizer c) (xCurrent (xc_upSizer c)) = ((old, nx), s)" by (metis prod.collapse)
    with pt Inl have "c' = c\<lparr>xc_pushLane := l, xc_upSizer := s\<rparr>" "w' = w1"
      "(\<exists>e. nxt = WriteReturn e) \<or> (\<exists>f. nxt = WriteAgain p sf f)"
      by (auto split: if_splits)
    then have "xc_upSeq c' = xc_upSeq c" "w' = w1" "case nxt of WriteReturn e \<Rightarrow> True | WriteAgain p' sf' f' \<Rightarrow> p' = p \<and> sf' = sf"
      by auto
    with rq kk(1) [of s] \<open>c' = c\<lparr>xc_pushLane := l, xc_upSizer := s\<rparr>\<close> show ?thesis by (cases nxt) simp_all
  next
    case (Inr resp)
    show ?thesis
    proof (cases "HasPrefix (string_of resp) ''ERR ''")
      case True
      with pt Inr have "c' = c\<lparr>xc_pushLane := l\<rparr>" "w' = w1" "nxt = WriteReturn (Msg (string_of resp))" by auto
      with rq kk(2) show ?thesis by auto
    next
      case ne: False
      show ?thesis
      proof (cases "parseAck resp (xc_upSeq c)")
        case (Inl e)
        with ne pt Inr have "c' = c\<lparr>xc_pushLane := l\<rparr>" "w' = w1" "nxt = WriteReturn e" by auto
        with rq kk(2) show ?thesis by auto
      next
        case acc: (Inr a)
        then have pos: "0 < a" by (auto simp: parseAck_def Let_def split: if_splits sum.splits)
        show ?thesis
        proof (cases "a > int (length p)")
          case True
          with acc ne pt Inr have "c' = c\<lparr>xc_pushLane := l\<rparr>" "w' = w1" "\<exists>e. nxt = WriteReturn e" by auto
          with rq kk(2) show ?thesis by auto
        next
          case False
          let ?s = "xSuccess (xc_upSizer c) (xCurrent (xc_upSizer c))"
          from False acc ne pt Inr have c': "c' = ?c ?s (xc_upSeq c + 1)" "w' = w1"
            "nxt = WriteAgain (drop (nat a) p) (sf + a) 0" by auto
          have "\<exists>k > 0. k \<le> length p \<and> drop (nat a) p = drop k p \<and> sf + a = sf + int k"
            using pos False by (intro exI [of _ "nat a"]) simp
          with c' rq k' [where s = ?s and q = "xc_upSeq c + 1"] show ?thesis by simp
        qed
      qed
    qed
  qed
qed

section \<open>The call\<close>

text \<open>
  The acknowledgements so far place the writer: record \<open>j\<close> of the call starts where the first
  \<open>j\<close> acknowledgements end.
\<close>

definition placed :: "u64 \<Rightarrow> bytes \<Rightarrow> nat list \<Rightarrow> push_record \<Rightarrow> bool" where
  "placed base p acks r \<longleftrightarrow> (case r of (i, q, b) \<Rightarrow> \<exists>j \<le> length acks.
     q = base + word_of_nat j \<and> b = take (length b) (drop (sum_list (take j acks)) p))"

lemma placed_more: "placed base p acks r \<Longrightarrow> placed base p (acks @ [a]) r"
  unfolding placed_def by (cases r) (fastforce simp: le_Suc_eq)

definition push_state ::
  "xconn \<Rightarrow> world \<Rightarrow> bytes \<Rightarrow> xconn \<Rightarrow> world \<Rightarrow> bytes \<Rightarrow> int \<Rightarrow> bool" where
  "push_state c0 w0 p0 c w p sf \<longleftrightarrow> xc_ok c w \<and> xothers c w = xothers c0 w0 \<and> push_frame c0 c
     \<and> (\<exists>acks rs. requests w = map (push_event c0) rs @ requests w0 \<and> (\<forall>a \<in> set acks. 0 < a)
        \<and> sum_list acks \<le> length p0 \<and> p = drop (sum_list acks) p0 \<and> sf = int (sum_list acks)
        \<and> xc_upSeq c = xc_upSeq c0 + word_of_nat (length acks)
        \<and> (\<forall>r \<in> set rs. placed (xc_upSeq c0) p0 acks r))"

lemma push_event_frame: "push_frame c0 c \<Longrightarrow> push_event c = push_event c0"
  by (rule ext) (simp add: push_event_def push_frame_sel)

lemma push_state_step:
  assumes st: "push_state c0 w0 p0 c w p sf" and t: "push_turn c w p sf f = (nxt, c', w')"
  shows "case nxt of WriteReturn e \<Rightarrow> push_state c0 w0 p0 c' w' p sf
    | WriteAgain p' sf' f' \<Rightarrow> push_state c0 w0 p0 c' w' p' sf'"
proof -
  from st obtain acks rs where ok: "xc_ok c w" "xothers c w = xothers c0 w0" "push_frame c0 c"
    and rq: "requests w = map (push_event c0) rs @ requests w0"
    and a: "\<forall>a \<in> set acks. 0 < a" "sum_list acks \<le> length p0" "p = drop (sum_list acks) p0" "sf = int (sum_list acks)"
      "xc_upSeq c = xc_upSeq c0 + word_of_nat (length acks)"
    and pl: "\<forall>r \<in> set rs. placed (xc_upSeq c0) p0 acks r" by (auto simp: push_state_def)
  from push_turn_step [OF ok(1) t] obtain rs2 where
    s: "xc_ok c' w'" "xothers c' w' = xothers c w" "push_frame c c'"
    and rq2: "requests w' = map (push_event c) rs2 @ requests w"
      "\<forall>(i, q, b) \<in> set rs2. q = xc_upSeq c \<and> b = take (push_size c p) p"
    and nx: "case nxt of WriteReturn e \<Rightarrow> xc_upSeq c' = xc_upSeq c
       | WriteAgain p' sf' f' \<Rightarrow> p' = p \<and> sf' = sf \<and> xc_upSeq c' = xc_upSeq c
         \<or> (\<exists>a > 0. a \<le> length p \<and> p' = drop a p \<and> sf' = sf + int a \<and> xc_upSeq c' = xc_upSeq c + 1)"
    by blast
  have pl2: "\<forall>r \<in> set (rs2 @ rs). placed (xc_upSeq c0) p0 acks r"
  proof
    fix r assume r: "r \<in> set (rs2 @ rs)"
    show "placed (xc_upSeq c0) p0 acks r"
    proof (cases "r \<in> set rs")
      case False
      obtain i q b where rr: "r = (i, q, b)" by (metis prod.collapse)
      with False r rq2(2) have "q = xc_upSeq c" "b = take (push_size c p) p" by auto
      with a(3,5) show ?thesis unfolding placed_def rr
        by (auto intro!: exI [of _ "length acks"] simp: min_def)
    qed (use pl in blast)
  qed
  have rq3: "requests w' = map (push_event c0) (rs2 @ rs) @ requests w0"
    using rq2(1) rq push_event_frame [OF ok(3)] by simp
  have fr: "push_frame c0 c'" using push_frame_trans [OF ok(3) s(3)] .
  have stay: "push_state c0 w0 p0 c' w' p sf" if "xc_upSeq c' = xc_upSeq c"
    unfolding push_state_def
    using s(1,2) ok(2) fr rq3 a pl2 that by (intro conjI exI [of _ acks] exI [of _ "rs2 @ rs"]) simp_all
  show ?thesis
  proof (cases nxt)
    case (WriteReturn e)
    with nx stay show ?thesis by simp
  next
    case (WriteAgain p' sf' f')
    show ?thesis
    proof (cases "p' = p \<and> sf' = sf \<and> xc_upSeq c' = xc_upSeq c")
      case True
      with stay WriteAgain show ?thesis by simp
    next
      case False
      with nx WriteAgain obtain k where k: "0 < k" "k \<le> length p" "p' = drop k p" "sf' = sf + int k"
        "xc_upSeq c' = xc_upSeq c + 1" by auto
      have "push_state c0 w0 p0 c' w' p' sf'"
        unfolding push_state_def
        using s(1,2) ok(2) fr rq3 a pl2 k
        by (intro conjI exI [of _ "acks @ [k]"] exI [of _ "rs2 @ rs"])
          (auto simp: add.commute intro: placed_more)
      with WriteAgain show ?thesis by simp
    qed
  qed
qed

lemma push_state_init: "xc_ok c w \<Longrightarrow> push_state c w p c w p 0"
  unfolding push_state_def by (intro conjI exI [of _ "[]"]) simp_all

lemma xWrite_post:
  assumes "xc_ok c w" and "xWrite p c w = Some (n, err, c', w')"
  shows "push_state c w p c' w' (drop (nat n) p) n \<and> (err = None \<longrightarrow> n = int (length p))"
proof -
  let ?Q = "\<lambda>(n, err, c', w'). push_state c w p c' w' (drop (nat n) p) n \<and> (err = None \<longrightarrow> n = int (length p))"
  have "?Q (n, err, c', w')"
  proof (rule send_loop_rule [OF assms(2) [unfolded xWrite_def], where J = "\<lambda>c1 w1 q sf mf. push_state c w p c1 w1 q sf"])
    show "push_state c w p c w p 0" by (rule push_state_init [OF assms(1)])
    fix c1 w1 q sf mf q' sf' mf' c2 w2
    assume "push_state c w p c1 w1 q sf" "push_turn c1 w1 q sf mf = (WriteAgain q' sf' mf', c2, w2)"
    from push_state_step [OF this] show "push_state c w p c2 w2 q' sf'" by simp
  next
    fix c1 w1 q sf mf e c2 w2
    assume "push_state c w p c1 w1 q sf" "push_turn c1 w1 q sf mf = (WriteReturn e, c2, w2)"
    from push_state_step [OF this] have st: "push_state c w p c2 w2 q sf" by simp
    then have "q = drop (nat sf) p" by (auto simp: push_state_def)
    with st show "?Q (sf, Some e, c2, w2)" by simp
  next
    fix c1 w1 sf mf
    assume st: "push_state c w p c1 w1 [] sf"
    then have "drop (nat sf) p = []" "sf = int (length p)" by (auto simp: push_state_def)
    with st show "?Q (sf, None, c1, w1)" by simp
  qed
  then show ?thesis by simp
qed

section \<open>A server that keeps the first copy\<close>

text \<open>
  The records a server keeps that has seen the requests \<open>got\<close> in this order: of each number,
  in turn, the first copy.
\<close>

fun first_copies :: "u64 \<Rightarrow> (u64 \<times> bytes) list \<Rightarrow> bytes list" where
  "first_copies nxt [] = []"
| "first_copies nxt ((q, b) # rs) = (if q = nxt then b # first_copies (nxt + 1) rs else first_copies nxt rs)"

lemma first_copies_nth:
  "j < length (first_copies nxt rs) \<Longrightarrow> (nxt + word_of_nat j, first_copies nxt rs ! j) \<in> set rs"
proof (induction nxt rs arbitrary: j rule: first_copies.induct)
  case (2 nxt q b rs)
  show ?case
  proof (cases "q = nxt")
    case True
    with 2 show ?thesis by (cases j) (auto simp: algebra_simps)
  next
    case False
    with 2 show ?thesis by auto
  qed
qed simp

lemma concat_placed:
  assumes "length acks \<le> length ds" and "map length (take (length acks) ds) = acks" and "sum_list acks \<le> length p"
    and "\<And>j. j < length acks \<Longrightarrow> ds ! j = take (acks ! j) (drop (sum_list (take j acks)) p)"
  shows "concat (take (length acks) ds) = take (sum_list acks) p"
proof -
  have "concat (take k ds) = take (sum_list (take k acks)) p" if "k \<le> length acks" for k
    using that
  proof (induction k)
    case (Suc k)
    then have k: "k < length acks" "k < length ds" using assms(1) by simp_all
    have "concat (take (Suc k) ds) = concat (take k ds) @ ds ! k" using k by (simp add: take_Suc_conv_app_nth)
    also have "\<dots> = take (sum_list (take k acks)) p @ take (acks ! k) (drop (sum_list (take k acks)) p)"
      using Suc k assms(4) by simp
    also have "\<dots> = take (sum_list (take (Suc k) acks)) p"
      using k by (simp add: take_add take_Suc_conv_app_nth)
    finally show ?case .
  qed simp
  from this [of "length acks"] show ?thesis by simp
qed

lemma word_inj: "i \<le> n \<Longrightarrow> j \<le> n \<Longrightarrow> n < 18446744073709551616 \<Longrightarrow>
  (base :: u64) + word_of_nat i = base + word_of_nat j \<Longrightarrow> i = j"
proof -
  assume a: "i \<le> n" "j \<le> n" "n < 18446744073709551616" and "base + word_of_nat i = base + word_of_nat j"
  then have "(word_of_nat i :: u64) = word_of_nat j" by simp
  then have "unat (word_of_nat i :: u64) = unat (word_of_nat j :: u64)" by simp
  with a show "i = j" by (simp add: unat_of_nat)
qed

lemma sum_list_length: "\<forall>a \<in> set (acks :: nat list). 0 < a \<Longrightarrow> length acks \<le> sum_list acks"
  by (induction acks) auto

section \<open>Termination\<close>

definition push_rank :: "xconn \<times> world \<times> bytes \<times> int \<times> nat \<Rightarrow> nat list" where
  "push_rank = (\<lambda>(c, w, p, sf, f). let s = xc_upSizer c in
     [length p, nat (xCurrent s - xs_min s),
      if xs_adaptive s \<and> xCurrent s \<noteq> xs_min s then nat (xs_shrinkAfter s - xs_failures s) else 0, 8 - f])"

definition push_measures ::
  "((xconn \<times> world \<times> bytes \<times> int \<times> nat) \<times> (xconn \<times> world \<times> bytes \<times> int \<times> nat)) set" where
  "push_measures = measures [\<lambda>x. push_rank x ! 0, \<lambda>x. push_rank x ! 1, \<lambda>x. push_rank x ! 2, \<lambda>x. push_rank x ! 3]"

definition push_sizer_ok :: "xconn \<Rightarrow> bool" where
  "push_sizer_ok c \<longleftrightarrow> xsizer_inv (xc_upSizer c) \<and> xs_min (xc_upSizer c) = xo_minSize (xc_opts c)
     \<and> xs_adaptive (xc_upSizer c) = xo_adaptive (xc_opts c)"

lemma xFailure_pair:
  assumes "xsizer_inv s" and "xFailure s (xCurrent s) = ((old, nx), s')"
  shows "old = xCurrent s \<and> nx = xCurrent s' \<and> xsizer_inv s' \<and> xs_min s' = xs_min s \<and> xs_adaptive s' = xs_adaptive s"
proof -
  have s': "s' = snd (xFailure s (xCurrent s))" using assms(2) by simp
  have "old = xCurrent s" "nx = xCurrent s'" using assms(2)
    by (auto simp: xFailure_def xCurrent_def Let_def split: if_splits prod.splits)
  with xFailure_frame [OF assms(1), of "xCurrent s"] s' show ?thesis by simp
qed

lemma push_turn_progress:
  assumes z: "push_sizer_ok c" and "p \<noteq> []" and t: "push_turn c w p sf f = (WriteAgain p' sf' f', c', w')"
  shows "push_sizer_ok c' \<and> ((c', w', p', sf', f'), (c, w, p, sf, f)) \<in> push_measures"
proof -
  let ?s = "xc_upSizer c"
  let ?pl = "push_payload (xc_token c) (xc_sid c) (xc_upSeq c) (take (push_size c p) p)"
  obtain r l w1 where d: "Do ?pl (xc_pushLane c) w = (r, l, w1)" by (metis prod.collapse)
  note pt = t [unfolded push_turn_def Let_def, folded push_size_def, unfolded d]
  have inv: "xsizer_inv ?s" using z by (simp add: push_sizer_ok_def)
  show ?thesis
  proof (cases r)
    case (Inr resp)
    with pt obtain a where a: "parseAck resp (xc_upSeq c) = Inr a" "p' = drop (nat a) p"
      "c' = c\<lparr>xc_pushLane := l, xc_upSeq := xc_upSeq c + 1, xc_upSizer := xSuccess ?s (xCurrent ?s)\<rparr>"
      by (auto split: if_splits sum.splits)
    then have "0 < a" by (auto simp: parseAck_def Let_def split: if_splits sum.splits)
    with a(2) \<open>p \<noteq> []\<close> have "length p' < length p" by (cases p) auto
    with a(3) z xSuccess_frame [OF inv, of "xCurrent ?s"] show ?thesis
      by (simp add: push_sizer_ok_def push_measures_def push_rank_def Let_def)
  next
    case (Inl e)
    obtain old nx z' where fl: "xFailure ?s (xCurrent ?s) = ((old, nx), z')" by (metis prod.collapse)
    note fp = xFailure_pair [OF inv fl]
    let ?f = "count_failure (xc_opts c) old nx f"
    from pt Inl fl have c': "c' = c\<lparr>xc_pushLane := l, xc_upSizer := z'\<rparr>" "p' = p" "f' = ?f" "?f < 8"
      by (auto split: if_splits)
    have ok': "push_sizer_ok c'" using z fp c' by (simp add: push_sizer_ok_def)
    have less: "((c', w', p', sf', f'), (c, w, p, sf, f)) \<in> push_measures"
    proof (cases "xs_adaptive ?s \<and> xCurrent ?s \<noteq> xs_min ?s")
      case True
      then have on: "xs_adaptive ?s" and above: "xs_min ?s < xCurrent ?s"
        using xchunk.bounds [OF inv] by auto
      have z'_eq: "snd (xFailure ?s (xCurrent ?s)) = z'" using fl by simp
      have b': "xs_min z' \<le> xCurrent z'" using fp xchunk.bounds [of z'] by simp
      show ?thesis
      proof (cases "1 < xs_shrinkAfter ?s - xs_failures ?s")
        case True
        from xchunk.fl_held [OF inv on True] True z'_eq fp above on c' show ?thesis
          by (auto simp: push_measures_def push_rank_def Let_def)
      next
        case False
        with xchunk.counters [OF inv] have "xs_shrinkAfter ?s - xs_failures ?s = 1" by simp
        from xchunk.fl_drop [OF inv on this] z'_eq above b' fp c' show ?thesis
          by (auto simp: push_measures_def push_rank_def Let_def)
      qed
    next
      case False
      have same: "xCurrent z' = xCurrent ?s"
      proof (cases "xs_adaptive ?s")
        case True
        with False fp xchunk.bounds [of z'] xchunk.fl_shrinks [OF inv, of "xCurrent ?s"] fl show ?thesis by auto
      next
        case False
        with xchunk.stale [of ?s "xCurrent ?s"] fl show ?thesis by simp
      qed
      with False fp z have "?f = Suc f" by (auto simp: count_failure_def push_sizer_ok_def)
      with same False fp c' show ?thesis
        by (auto simp: push_measures_def push_rank_def Let_def)
    qed
    from ok' less show ?thesis by simp
  qed
qed

lemma xWrite_total: "push_sizer_ok c \<Longrightarrow> \<exists>res. xWrite p c w = Some res"
  unfolding xWrite_def
  by (rule send_loop_total [where I = "\<lambda>c w. push_sizer_ok c" and R = push_measures])
    (auto simp: push_measures_def [symmetric] dest: push_turn_progress, simp add: push_measures_def)

section \<open>Properties\<close>

text \<open>What a server that keeps first copies has kept of the acknowledged records is the stream.\<close>

lemma first_copies_stream:
  assumes st: "\<forall>r \<in> set rs. placed base p acks r" and sub: "subseq got (rev rs)"
    and ack: "map length (take (length acks) (first_copies base (map snd got))) = acks"
    and pos: "\<forall>a \<in> set acks. 0 < a" and le: "sum_list acks \<le> length p" and big: "length p < 18446744073709551616"
  shows "concat (take (length acks) (first_copies base (map snd got))) = take (sum_list acks) p"
proof -
  let ?ds = "first_copies base (map snd got)"
  have len: "length acks \<le> length ?ds" using arg_cong [OF ack, of length] by simp
  have bnd: "length acks < 18446744073709551616" using sum_list_length [OF pos] le big by simp
  have "?ds ! j = take (acks ! j) (drop (sum_list (take j acks)) p)" if j: "j < length acks" for j
  proof -
    have "(base + word_of_nat j, ?ds ! j) \<in> set (map snd got)"
      by (rule first_copies_nth) (use j len in simp)
    then obtain i where "(i, base + word_of_nat j, ?ds ! j) \<in> set got" by auto
    then have "(i, base + word_of_nat j, ?ds ! j) \<in> set rs"
      using list_emb_set [OF sub] by auto
    with st obtain j' where j': "j' \<le> length acks" "base + word_of_nat j = base + word_of_nat j'"
      "?ds ! j = take (length (?ds ! j)) (drop (sum_list (take j' acks)) p)" by (auto simp: placed_def)
    have "j' = j" using word_inj [OF _ j'(1) bnd j'(2)] j by simp
    moreover have "length (?ds ! j) = acks ! j"
      using arg_cong [OF ack, of "\<lambda>xs. xs ! j"] j len by simp
    ultimately show ?thesis using j'(3) by simp
  qed
  from concat_placed [OF len ack le this] show ?thesis .
qed


definition sample_xconn :: xconn where
  "sample_xconn = build_xconn ''s:53'' ''t'' ''0a'' (xNormalizeOptions sample_xoptions)
     (new_xlane ''s:53'' (xNormalizeOptions sample_xoptions)) 4096"

lemma sample_xconn_ok: "xc_ok sample_xconn silent_world"
  unfolding sample_xconn_def by (rule conjunct1 [OF build_xconn_ok]) (simp add: new_xlane_def)

lemma sample_sizer_ok: "push_sizer_ok sample_xconn"
  by (simp add: push_sizer_ok_def sample_xconn_def build_xconn_def Let_def xNormalizeOptions_def
      sample_xoptions_def xsizer_inv_def xNewAdaptiveSizer_def MaxChunkPayload_def)


end
