(* ===== verification/XPull.thy ===== *)
theory XPull
  imports XPush
begin

text \<open>
  The download direction of the X tunnel as a transition system: the pull workers, the reader,
  the writer and \<^verbatim>\<open>Close\<close> as actions on the tunnel and the world, in any order. A
  worker claims the next record number, asks for its bytes piece by piece, and hands the
  assembled record over a bounded channel; the reader puts the records in order. Whatever the
  schedule and the failures, what \<^verbatim>\<open>Read\<close> returns is the stream the server has, from
  its beginning, and \<^verbatim>\<open>io.EOF\<close> comes after all of it.
\<close>

section \<open>Steps\<close>

datatype action = Go nat | GiveUp nat | ReadTurn nat | WriteCall bytes | CloseCall | Drain

text \<open>What a step shows: an answer to a worker, a return of a call, or nothing.\<close>

datatype xobs =
    Tau
  | Replied u64 int "goerr + bytes"
  | Returned bytes "goerr option"
  | Wrote bytes int "goerr option"

definition after_offer :: "bool \<Rightarrow> worker" where
  "after_offer stop = (if stop then Stopped else Top)"

definition set_worker :: "nat \<Rightarrow> worker \<Rightarrow> xconn \<Rightarrow> xconn" where
  "set_worker i ph c = c\<lparr>xc_workers := (xc_workers c)[i := ph]\<rparr>"

definition results_cap :: "xconn \<Rightarrow> nat" where
  "results_cap c = nat (xo_pollers (xc_opts c) * 4)"

text \<open>
  The next move of worker \<open>i\<close>, if it has one: the source's \<^verbatim>\<open>select\<close> on the context,
  the claim, the reads of size limit and acknowledgement, the transaction with what the worker
  makes of its outcome, and the send to the channel, which waits while the channel is full.
\<close>

definition worker_step :: "nat \<Rightarrow> xconn \<Rightarrow> world \<Rightarrow> (xobs \<times> xconn \<times> world) option" where
  "worker_step i c w =
     (if i < length (xc_workers c) then
        (case xc_workers c ! i of
           Top \<Rightarrow> Some (Tau, (if xc_cancelled c then set_worker i Stopped c
             else set_worker i (Pulling (xc_claim c) 0 [] 0) (c\<lparr>xc_claim := xc_claim c + 1\<rparr>)), w)
         | Pulling seq offset assembled fails \<Rightarrow>
             Some (Tau, set_worker i (if xc_cancelled c then Stopped
               else Asking seq offset assembled fails (xCurrent (xc_downSizer c)) (xc_ack c)) c, w)
         | Asking seq offset assembled fails limit ack \<Rightarrow>
             (case Do (pull_payload (xc_token c) (xc_sid c) ack seq offset limit) (xc_pullLanes c ! i) w of
                (r, lane, w) \<Rightarrow>
                  (case pull_reply c seq offset assembled fails limit r of (ph, s) \<Rightarrow>
                    Some (Replied seq offset r,
                      set_worker i ph (c\<lparr>xc_pullLanes := (xc_pullLanes c)[i := lane], xc_downSizer := s\<rparr>), w)))
         | Offering r stop \<Rightarrow>
             if length (xc_results c) < results_cap c
             then Some (Tau, set_worker i (after_offer stop) (c\<lparr>xc_results := xc_results c @ [r]\<rparr>), w)
             else None
         | Stopped \<Rightarrow> None)
      else None)"

text \<open>The \<^verbatim>\<open>ctx.Done()\<close> branch of a send.\<close>

definition give_up :: "nat \<Rightarrow> xconn \<Rightarrow> world \<Rightarrow> (xobs \<times> xconn \<times> world) option" where
  "give_up i c w =
     (if i < length (xc_workers c) \<and> xc_cancelled c then
        (case xc_workers c ! i of
           Offering r stop \<Rightarrow> Some (Tau, set_worker i (after_offer stop) c, w)
         | _ \<Rightarrow> None)
      else None)"

definition read_step :: "nat \<Rightarrow> xconn \<Rightarrow> world \<Rightarrow> (xobs \<times> xconn \<times> world) option" where
  "read_step n c w = (case read_turn n c of
     (ReadReturn b e, c) \<Rightarrow> Some (Returned b e, c, w)
   | (ReadAgain, c) \<Rightarrow> Some (Tau, c, w)
   | (ReadBlocked, c) \<Rightarrow> None)"

text \<open>The end of \<^verbatim>\<open>Close\<close>: all workers have ended, the channel is closed.\<close>

definition drain :: "xconn \<Rightarrow> world \<Rightarrow> (xobs \<times> xconn \<times> world) option" where
  "drain c w =
     (if xc_once c \<and> \<not> xc_resultsClosed c \<and> list_all (\<lambda>ph. ph = Stopped) (xc_workers c)
      then Some (Tau, c\<lparr>xc_resultsClosed := True\<rparr>, w) else None)"

fun xstep :: "action \<Rightarrow> xconn \<Rightarrow> world \<Rightarrow> (xobs \<times> xconn \<times> world) option" where
  "xstep (Go i) c w = worker_step i c w"
| "xstep (GiveUp i) c w = give_up i c w"
| "xstep (ReadTurn n) c w = read_step n c w"
| "xstep (WriteCall p) c w = map_option (\<lambda>(n, e, c, w). (Wrote p n e, c, w)) (xWrite p c w)"
| "xstep CloseCall c w = Some (Tau, xClose c w)"
| "xstep Drain c w = drain c w"

inductive xrun :: "xconn \<Rightarrow> world \<Rightarrow> xobs list \<Rightarrow> xconn \<Rightarrow> world \<Rightarrow> bool" where
  xrun_start: "xrun c w [] c w"
| xrun_step: "xrun c w obs c1 w1 \<Longrightarrow> xstep a c1 w1 = Some (ob, c2, w2) \<Longrightarrow> xrun c w (obs @ [ob]) c2 w2"

inductive_cases xrun_snocE: "xrun c w (obs @ [ob]) c' w'"

text \<open>The bytes all calls of \<^verbatim>\<open>Read\<close> returned so far.\<close>

definition obs_bytes :: "xobs \<Rightarrow> bytes" where
  "obs_bytes ob = (case ob of Returned b e \<Rightarrow> b | _ \<Rightarrow> [])"

definition received :: "xobs list \<Rightarrow> bytes" where
  "received obs = concat (map obs_bytes obs)"

lemma received_simps [simp]: "received [] = []" "received (obs @ [ob]) = received obs @ obs_bytes ob"
  by (simp_all add: received_def)

section \<open>A server with a fixed list of records\<close>

definition data_answer :: "u64 \<Rightarrow> int \<Rightarrow> nat \<Rightarrow> bytes \<Rightarrow> bytes" where
  "data_answer seq offset len fragment =
     bytes_of (''DATA '' @ dec (unat seq) @ '' '' @ dec (nat offset) @ '' '' @ dec len @ '' '') @ fragment"

definition eof_answer :: "nat \<Rightarrow> bytes" where
  "eof_answer n = bytes_of (''EOF '' @ dec n)"

text \<open>
  The answers to a request for record \<open>seq\<close> from \<open>offset\<close> on that agree with the records
  \<open>D\<close>: wait, refuse, a piece of the record, or the end of the stream for a record beyond it.
\<close>

definition agrees :: "bytes list \<Rightarrow> u64 \<Rightarrow> int \<Rightarrow> bytes \<Rightarrow> bool" where
  "agrees D seq offset resp \<longleftrightarrow> resp = bytes_of ''WAIT'' \<or> (\<exists>t. resp = bytes_of (''ERR '' @ t))
     \<or> resp = eof_answer (length D) \<and> length D \<le> unat seq
     \<or> (\<exists>k > 0. unat seq < length D \<and> nat offset + k \<le> length (D ! unat seq)
         \<and> resp = data_answer seq offset (length (D ! unat seq)) (take k (drop (nat offset) (D ! unat seq))))"

definition honest :: "bytes list \<Rightarrow> xobs \<Rightarrow> bool" where
  "honest D ob \<longleftrightarrow> (case ob of Replied seq offset (Inr resp) \<Rightarrow> agrees D seq offset resp | _ \<Rightarrow> True)"

text \<open>Records are not empty, and numbers and lengths fit Go's integers.\<close>

definition records_ok :: "bytes list \<Rightarrow> bool" where
  "records_ok D \<longleftrightarrow> [] \<notin> set D \<and> length D < 18446744073709551616 \<and> (\<forall>d \<in> set D. length d < 9223372036854775808)"

lemma byte_blank_plain: "plain c \<Longrightarrow> byte_of_char c \<noteq> byte_of_char (CHR '' '')"
proof
  assume p: "plain c" and "byte_of_char c = byte_of_char (CHR '' '')"
  then have "char_of_byte (byte_of_char c) = CHR '' ''" by (simp only: char_of_byte_of_char)
  with p show False by (simp add: plain_def)
qed

lemma data_fields_word:
  "list_all plain s \<Longrightarrow> data_fields (Suc n) cur (bytes_of (s @ '' '') @ rest) =
    map_option (\<lambda>(fs, r). ((cur @ bytes_of s) # fs, r)) (data_fields n [] rest)"
proof (induction s arbitrary: cur)
  case Nil
  then show ?case by (simp add: bytes_of_def)
next
  case (Cons c s)
  then show ?case using byte_blank_plain [of c] by (simp add: bytes_of_def)
qed

text \<open>What the server's answers parse to.\<close>

lemma parse_data_answer:
  assumes "0 \<le> offset" and "offset < 9223372036854775808" and "len < 9223372036854775808"
  shows "parseDataResponse (data_answer seq offset len fragment) = Inr (seq, offset, int len, fragment)"
proof -
  let ?a = "dec (unat seq)" and ?b = "dec (nat offset)" and ?c = "dec len"
  have e: "data_answer seq offset len fragment =
      bytes_of ''DATA '' @ bytes_of (?a @ '' '') @ bytes_of (?b @ '' '') @ bytes_of (?c @ '' '') @ fragment"
    by (simp add: data_answer_def bytes_of_def)
  have f: "data_fields 3 [] (bytes_of (?a @ '' '') @ bytes_of (?b @ '' '') @ bytes_of (?c @ '' '') @ fragment)
      = Some ([bytes_of ?a, bytes_of ?b, bytes_of ?c], fragment)"
    unfolding numeral_3_eq_3 data_fields_word [OF plain_dec] by simp
  have l: "length (bytes_of ''DATA '') = 5" by simp
  have h: "take 5 (data_answer seq offset len fragment) = bytes_of ''DATA ''"
    "drop 5 (data_answer seq offset len fragment) =
      bytes_of (?a @ '' '') @ bytes_of (?b @ '' '') @ bytes_of (?c @ '' '') @ fragment"
    unfolding e by (simp_all only: append_eq_conv_conj l [symmetric] take_append drop_append, simp_all)
  have n: "\<not> length (data_answer seq offset len fragment) < 6" unfolding e by simp
  have u: "unat seq < 18446744073709551616" by simp
  have o: "nat offset < 9223372036854775808" using assms by simp
  show ?thesis
    unfolding parseDataResponse_def h f
    using n assms ParseUint_dec [OF u] Atoi_dec [OF o] Atoi_dec [OF assms(3)] by simp
qed

lemma data_answer_text:
  "string_of (data_answer seq offset len fragment) \<noteq> ''WAIT''"
  "\<not> HasPrefix (string_of (data_answer seq offset len fragment)) ''ERR ''"
  "\<not> HasPrefix (string_of (data_answer seq offset len fragment)) ''EOF ''"
  by (auto simp: data_answer_def string_of_def bytes_of_def comp_def HasPrefix_def)

lemma eof_answer_text:
  "string_of (eof_answer n) \<noteq> ''WAIT''" "\<not> HasPrefix (string_of (eof_answer n)) ''ERR ''"
  "HasPrefix (string_of (eof_answer n)) ''EOF ''" "drop 4 (string_of (eof_answer n)) = dec n"
  by (auto simp: eof_answer_def HasPrefix_def)

section \<open>The invariant of the stream\<close>

definition result_ok :: "bytes list \<Rightarrow> chunkResult \<Rightarrow> bool" where
  "result_ok D r \<longleftrightarrow> cr_err r \<noteq> Some EOF \<and> (cr_err r \<noteq> None \<or> (if cr_eof r then cr_final r = word_of_nat (length D)
     else unat (cr_seq r) < length D \<and> cr_data r = D ! unat (cr_seq r)))"

text \<open>What a worker has of its record is the record's beginning.\<close>

definition piece_ok :: "bytes list \<Rightarrow> u64 \<Rightarrow> int \<Rightarrow> bytes \<Rightarrow> bool" where
  "piece_ok D seq offset assembled \<longleftrightarrow> offset = int (length assembled)
     \<and> (assembled \<noteq> [] \<longrightarrow> unat seq < length D \<and> assembled = take (length assembled) (D ! unat seq))"

fun worker_ok :: "bytes list \<Rightarrow> worker \<Rightarrow> bool" where
  "worker_ok D (Pulling seq offset assembled fails) = piece_ok D seq offset assembled"
| "worker_ok D (Asking seq offset assembled fails limit ack) = piece_ok D seq offset assembled"
| "worker_ok D (Offering r stop) = result_ok D r"
| "worker_ok D Top = True"
| "worker_ok D Stopped = True"

text \<open>
  The reader: the records before \<open>nextRead\<close> were handed on completely and the rest of the
  current one is still to come.
\<close>

definition reader_ok :: "bytes list \<Rightarrow> bytes \<Rightarrow> xconn \<Rightarrow> bool" where
  "reader_ok D out c \<longleftrightarrow> unat (xc_nextRead c) \<le> length D \<and> xc_ack c = xc_nextRead c - 1
     \<and> (\<forall>q d. xc_pending c q = Some d \<longrightarrow> unat q < length D \<and> d = D ! unat q)
     \<and> (xc_finalKnown c \<longrightarrow> xc_finalSeq c = word_of_nat (length D)) \<and> xc_terminalErr c \<noteq> Some EOF
     \<and> (if xc_current c = [] then out = concat (take (unat (xc_nextRead c)) D)
        else xc_currentSeq c = xc_nextRead c \<and> unat (xc_nextRead c) < length D
          \<and> (\<exists>pre. D ! unat (xc_nextRead c) = pre @ xc_current c \<and> out = concat (take (unat (xc_nextRead c)) D) @ pre))"

definition stream_ok :: "bytes list \<Rightarrow> bytes \<Rightarrow> xconn \<Rightarrow> bool" where
  "stream_ok D out c \<longleftrightarrow> reader_ok D out c \<and> (\<forall>ph \<in> set (xc_workers c). worker_ok D ph)
     \<and> (\<forall>r \<in> set (xc_results c). result_ok D r)"

lemma piece_ok_start [simp]: "piece_ok D seq 0 []"
  by (simp add: piece_ok_def)

lemma piece_bound:
  assumes "records_ok D" and "piece_ok D seq offset a"
  shows "0 \<le> offset \<and> offset < 9223372036854775808"
proof (cases "a = []")
  case False
  with assms have s: "unat seq < length D" "a = take (length a) (D ! unat seq)" "offset = int (length a)"
    by (auto simp: piece_ok_def)
  then have "length a \<le> length (D ! unat seq)" by (metis length_take min.cobounded1)
  also have "\<dots> < 9223372036854775808" using assms(1) s(1) by (auto simp: records_ok_def)
  finally show ?thesis using s(3) by simp
qed (use assms(2) in \<open>simp add: piece_ok_def\<close>)

text \<open>An honest answer leaves the worker with the beginning of its record, or with all of it.\<close>

lemma pull_reply_ok:
  assumes D: "records_ok D" and p: "piece_ok D seq offset a"
    and h: "honest D (Replied seq offset r)" and ph: "pull_reply c seq offset a f limit r = (ph, s)"
  shows "worker_ok D ph"
proof (cases r)
  case (Inl e)
  with ph p show ?thesis
    by (auto simp: pull_reply_def pull_error_def zero_chunkResult_def result_ok_def Let_def split: prod.splits if_splits)
next
  case (Inr resp)
  with h have "agrees D seq offset resp" by (simp add: honest_def)
  then consider "resp = bytes_of ''WAIT''" | t where "resp = bytes_of (''ERR '' @ t)"
    | "resp = eof_answer (length D)"
    | k where "0 < k" "unat seq < length D" "nat offset + k \<le> length (D ! unat seq)"
        "resp = data_answer seq offset (length (D ! unat seq)) (take k (drop (nat offset) (D ! unat seq)))"
    by (auto simp: agrees_def)
  then show ?thesis
  proof cases
    case 1
    with Inr ph p show ?thesis by (auto simp: pull_reply_def)
  next
    case (2 t)
    then have "string_of resp = ''ERR '' @ t" by simp
    with Inr ph show ?thesis
      by (auto simp: pull_reply_def pull_error_def zero_chunkResult_def result_ok_def Let_def HasPrefix_def split: if_splits)
  next
    case 3
    have "ParseUint (TrimSpace (dec (length D))) = Inr (word_of_nat (length D))"
      using D by (simp add: TrimSpace_plain records_ok_def)
    with 3 Inr ph eof_answer_text [of "length D"] show ?thesis
      by (auto simp: pull_reply_def zero_chunkResult_def result_ok_def Let_def)
  next
    case (4 k)
    let ?d = "D ! unat seq"
    define g where "g = take k (drop (nat offset) ?d)"
    have resp: "resp = data_answer seq offset (length ?d) g" using 4(4) by (simp add: g_def)
    have len: "length ?d < 9223372036854775808" using D 4(2) by (auto simp: records_ok_def)
    note b = piece_bound [OF D p]
    have parsed: "parseDataResponse resp = Inr (seq, offset, int (length ?d), g)"
      unfolding resp by (rule parse_data_answer) (use b len in auto)
    note tt = data_answer_text [of seq offset "length ?d" g, folded resp]
    have off: "nat offset = length a" using p by (auto simp: piece_ok_def)
    have a: "a = take (length a) ?d" using p by (cases "a = []") (auto simp: piece_ok_def)
    have fl: "length g = k" using 4(3) by (simp add: g_def)
    have joined: "a @ g = take (length a + k) ?d"
      using arg_cong [OF a, of "\<lambda>x. x @ g"] off by (simp add: take_add g_def)
    have np: "piece_ok D seq (offset + int (length g)) (a @ g)"
      using joined off b fl 4(2,3) p by (simp add: piece_ok_def)
    have res: "result_ok D ((zero_chunkResult seq)\<lparr>cr_data := a @ g\<rparr>)"
      if "offset + int (length g) = int (length ?d)"
    proof -
      have "length a + k = length ?d" using that fl off b by linarith
      with joined 4(2) show ?thesis by (simp add: result_ok_def zero_chunkResult_def)
    qed
    have err: "worker_ok D (pull_error seq (Msg x))" for x
      by (simp add: pull_error_def zero_chunkResult_def result_ok_def)
    from ph have "ph = (if int (length ?d) > xc_serverMax c \<or> int (length ?d) < offset + int (length g) \<or> g = []
        then pull_error seq (Msg ''invalid DATA fragment size'')
        else if offset + int (length g) = int (length ?d)
        then Offering ((zero_chunkResult seq)\<lparr>cr_data := a @ g\<rparr>) False
        else Pulling seq (offset + int (length g)) (a @ g) 0)"
      unfolding Inr pull_reply_def by (auto simp: tt parsed Let_def split: if_splits)
    then show ?thesis using err np res by (simp split: if_splits)
  qed
qed

lemma nat_of_final:
  assumes "records_ok D"
  shows "unat (word_of_nat (length D) :: u64) = length D"
  using assms by (simp add: records_ok_def unat_of_nat)

lemma take_Suc_concat:
  "n < length D \<Longrightarrow> concat (take (Suc n) D) = concat (take n D) @ D ! n"
  by (simp add: take_Suc_conv_app_nth)

text \<open>One turn of the reader.\<close>

definition turn_bytes :: "read_next \<Rightarrow> bytes" where
  "turn_bytes nx = (case nx of ReadReturn b e \<Rightarrow> b | _ \<Rightarrow> [])"

lemma read_turn_ok:
  assumes D: "records_ok D" and ok: "stream_ok D out c" and t: "read_turn n c = (nx, c')"
  shows "stream_ok D (out @ turn_bytes nx) c'
    \<and> (\<forall>b. nx = ReadReturn b (Some EOF) \<longrightarrow> b = [] \<and> (xc_resultsClosed c \<or> out = concat D))"
proof -
  have r: "reader_ok D out c" and q: "\<And>x. x \<in> set (xc_results c) \<Longrightarrow> result_ok D x"
    and wk: "\<forall>ph \<in> set (xc_workers c). worker_ok D ph" using ok by (auto simp: stream_ok_def)
  have fin: "unat (word_of_nat (length D) :: u64) = length D" by (rule nat_of_final [OF D])
  show ?thesis
  proof (cases "xc_current c = []")
    case False
    with r obtain pre where cur: "xc_currentSeq c = xc_nextRead c" "unat (xc_nextRead c) < length D"
      "D ! unat (xc_nextRead c) = pre @ xc_current c" "out = concat (take (unat (xc_nextRead c)) D) @ pre"
      by (auto simp: reader_ok_def)
    have suc: "unat (xc_nextRead c + 1) = Suc (unat (xc_nextRead c))"
      using iffD1 [OF unat_add_lem, of "xc_nextRead c" 1] cur(2) D by (simp add: records_ok_def)
    from False t have nx: "nx = ReadReturn (take n (xc_current c)) None"
      and c': "c' = (if drop n (xc_current c) = []
        then c\<lparr>xc_current := [], xc_nextRead := xc_nextRead c + 1, xc_ack := xc_currentSeq c\<rparr>
        else c\<lparr>xc_current := drop n (xc_current c)\<rparr>)" by (auto simp: read_turn_def Let_def)
    show ?thesis
    proof (cases "drop n (xc_current c) = []")
      case True
      then have "take n (xc_current c) = xc_current c" by (metis append_Nil2 append_take_drop_id)
      with True c' nx cur suc r wk q take_Suc_concat [OF cur(2)] show ?thesis
        by (auto simp: stream_ok_def reader_ok_def turn_bytes_def)
    next
      case False
      have "D ! unat (xc_nextRead c) = (pre @ take n (xc_current c)) @ drop n (xc_current c)"
        using cur(3) by simp
      with False c' nx cur(1,2,4) r wk q show ?thesis
        by (auto simp: stream_ok_def reader_ok_def turn_bytes_def)
    qed
  next
    case emp: True
    with r have out: "out = concat (take (unat (xc_nextRead c)) D)" by (simp add: reader_ok_def)
    show ?thesis
    proof (cases "xc_terminalErr c \<noteq> None \<or> xc_finalKnown c \<and> xc_nextRead c \<ge> xc_finalSeq c")
      case True
      have all: "out = concat D" if "xc_finalKnown c" "xc_nextRead c \<ge> xc_finalSeq c"
        using that r out fin by (simp add: reader_ok_def word_le_nat_alt)
      have te: "xc_terminalErr c \<noteq> Some EOF" using r by (simp add: reader_ok_def)
      from True emp t have "c' = c" "nx = ReadReturn [] (if xc_terminalErr c \<noteq> None then xc_terminalErr c else Some EOF)"
        by (auto simp: read_turn_def split: if_splits)
      with True all te ok show ?thesis by (auto simp: turn_bytes_def)
    next
      case go: False
      show ?thesis
      proof (cases "xc_pending c (xc_nextRead c)")
        case (Some d)
        with r have d: "unat (xc_nextRead c) < length D" "d = D ! unat (xc_nextRead c)" by (auto simp: reader_ok_def)
        with D have "d \<noteq> []" by (metis nth_mem records_ok_def)
        from Some go emp t have nx: "nx = ReadAgain"
          and c': "c' = c\<lparr>xc_pending := (xc_pending c)(xc_nextRead c := None), xc_current := d, xc_currentSeq := xc_nextRead c\<rparr>"
          by (auto simp: read_turn_def)
        have "reader_ok D out c'"
          using r out d \<open>d \<noteq> []\<close> by (auto simp: reader_ok_def c')
        with wk q nx show ?thesis by (simp add: stream_ok_def turn_bytes_def c')
      next
        case nopend: None
        show ?thesis
        proof (cases "xc_results c")
          case Nil
          with nopend go emp t ok show ?thesis by (auto simp: read_turn_def turn_bytes_def split: if_splits)
        next
          case (Cons x xs)
          with q have x: "result_ok D x" "\<And>y. y \<in> set xs \<Longrightarrow> result_ok D y" by simp_all
          have keep: "reader_ok D out (c\<lparr>xc_results := xs\<rparr>)" using r by (simp add: reader_ok_def)
          show ?thesis
          proof (cases "cr_err x")
            case (Some e)
            with Cons nopend go emp t have "nx = ReadReturn [] (Some e)" "c' = c\<lparr>xc_results := xs, xc_terminalErr := Some e\<rparr>"
              by (auto simp: read_turn_def Let_def)
            with x Some wk r show ?thesis by (auto simp: stream_ok_def reader_ok_def turn_bytes_def result_ok_def)
          next
            case None
            show ?thesis
            proof (cases "cr_eof x")
              case True
              with x None have f: "cr_final x = word_of_nat (length D)" by (simp add: result_ok_def)
              from True None Cons nopend go emp t have "nx = ReadAgain"
                "c' = (if \<not> xc_finalKnown c \<or> cr_final x < xc_finalSeq c
                  then c\<lparr>xc_results := xs, xc_finalKnown := True, xc_finalSeq := cr_final x\<rparr> else c\<lparr>xc_results := xs\<rparr>)"
                by (auto simp: read_turn_def Let_def split: if_splits)
              with f x wk r show ?thesis by (auto simp: stream_ok_def reader_ok_def turn_bytes_def)
            next
              case False
              with x None have f: "unat (cr_seq x) < length D" "cr_data x = D ! unat (cr_seq x)"
                by (simp_all add: result_ok_def)
              from False None Cons nopend go emp t have "nx = ReadAgain"
                "c' = (if cr_seq x < xc_nextRead c then c\<lparr>xc_results := xs\<rparr>
                  else c\<lparr>xc_results := xs, xc_pending := (xc_pending c)(cr_seq x := Some (cr_data x))\<rparr>)"
                by (auto simp: read_turn_def Let_def split: if_splits)
              with f x wk r show ?thesis by (auto simp: stream_ok_def reader_ok_def turn_bytes_def)
            qed
          qed
        qed
      qed
    qed
  qed
qed

text \<open>One move of a worker.\<close>

lemma set_worker_ok:
  "\<forall>ph \<in> set (xc_workers c). worker_ok D ph \<Longrightarrow> worker_ok D ph' \<Longrightarrow>
   \<forall>ph \<in> set (xc_workers (set_worker i ph' c)). worker_ok D ph"
  by (auto simp: set_worker_def dest: set_update_subset_insert [THEN subsetD])

lemma set_worker_sel [simp]:
  "xc_results (set_worker i ph c) = xc_results c" "reader_ok D out (set_worker i ph c) = reader_ok D out c"
  "xc_resultsClosed (set_worker i ph c) = xc_resultsClosed c" "xc_once (set_worker i ph c) = xc_once c"
  by (simp_all add: set_worker_def reader_ok_def)

lemma reader_ok_frame [simp]:
  "reader_ok D out (c\<lparr>xc_claim := q\<rparr>) = reader_ok D out c"
  "reader_ok D out (c\<lparr>xc_results := rs\<rparr>) = reader_ok D out c"
  "reader_ok D out (c\<lparr>xc_resultsClosed := b\<rparr>) = reader_ok D out c"
  "reader_ok D out (c\<lparr>xc_pullLanes := ls, xc_downSizer := z\<rparr>) = reader_ok D out c"
  "reader_ok D out (c\<lparr>xc_pushLane := l, xc_upSizer := z, xc_upSeq := q\<rparr>) = reader_ok D out c"
  "reader_ok D out (c\<lparr>xc_once := b, xc_cancelled := b', xc_pushLane := l, xc_pullLanes := ls\<rparr>) = reader_ok D out c"
  by (simp_all add: reader_ok_def)

lemma worker_step_ok:
  assumes D: "records_ok D" and ok: "stream_ok D out c" and t: "worker_step i c w = Some (ob, c', w')"
    and h: "honest D ob"
  shows "stream_ok D out c' \<and> obs_bytes ob = [] \<and> (\<forall>b e. ob \<noteq> Returned b e) \<and> xc_resultsClosed c' = xc_resultsClosed c"
proof -
  have i: "i < length (xc_workers c)" using t by (simp add: worker_step_def split: if_splits)
  have wk: "\<forall>ph \<in> set (xc_workers c). worker_ok D ph" and r: "reader_ok D out c"
    and q: "\<forall>x \<in> set (xc_results c). result_ok D x" using ok by (auto simp: stream_ok_def)
  have ph: "worker_ok D (xc_workers c ! i)" using wk i by simp
  show ?thesis
  proof (cases "xc_workers c ! i")
    case Top
    with i t have c': "ob = Tau" "c' = (if xc_cancelled c then set_worker i Stopped c
             else set_worker i (Pulling (xc_claim c) 0 [] 0) (c\<lparr>xc_claim := xc_claim c + 1\<rparr>))"
      by (simp_all add: worker_step_def)
    have "\<forall>ph \<in> set (xc_workers (c\<lparr>xc_claim := xc_claim c + 1\<rparr>)). worker_ok D ph" using wk by simp
    from set_worker_ok [OF this, of "Pulling (xc_claim c) 0 [] 0" i] set_worker_ok [OF wk, of Stopped i] c' r q
    show ?thesis by (simp add: stream_ok_def obs_bytes_def)
  next
    case (Pulling s o1 a f)
    with i t have c': "ob = Tau" "c' = set_worker i (if xc_cancelled c then Stopped
               else Asking s o1 a f (xCurrent (xc_downSizer c)) (xc_ack c)) c"
      by (simp_all add: worker_step_def)
    have "worker_ok D (if xc_cancelled c then Stopped else Asking s o1 a f (xCurrent (xc_downSizer c)) (xc_ack c))"
      using ph Pulling by simp
    from set_worker_ok [OF wk this, of i] c' r q show ?thesis by (simp add: stream_ok_def obs_bytes_def)
  next
    case (Asking s o1 a f limit ack)
    obtain x lane w1 where d: "Do (pull_payload (xc_token c) (xc_sid c) ack s o1 limit) (xc_pullLanes c ! i) w = (x, lane, w1)"
      by (metis prod.collapse)
    obtain ph' z where pr: "pull_reply c s o1 a f limit x = (ph', z)" by fastforce
    from Asking d pr i t have c': "ob = Replied s o1 x"
      "c' = set_worker i ph' (c\<lparr>xc_pullLanes := (xc_pullLanes c)[i := lane], xc_downSizer := z\<rparr>)"
      by (simp_all add: worker_step_def)
    have "worker_ok D ph'" using pull_reply_ok [OF D _ _ pr] ph Asking h c'(1) by simp
    from set_worker_ok [OF _ this, of "c\<lparr>xc_pullLanes := (xc_pullLanes c)[i := lane], xc_downSizer := z\<rparr>" i] wk c' r q
    show ?thesis by (simp add: stream_ok_def obs_bytes_def)
  next
    case (Offering x stop)
    with i t have c': "ob = Tau" "c' = set_worker i (after_offer stop) (c\<lparr>xc_results := xc_results c @ [x]\<rparr>)"
      by (auto simp: worker_step_def split: if_splits)
    have "worker_ok D (after_offer stop)" by (simp add: after_offer_def)
    from set_worker_ok [OF _ this, of "c\<lparr>xc_results := xc_results c @ [x]\<rparr>" i] wk c' r q ph Offering
    show ?thesis by (auto simp: stream_ok_def obs_bytes_def)
  next
    case Stopped
    with i t show ?thesis by (simp add: worker_step_def)
  qed
qed

lemma xClose_stream:
  "stream_ok D out (fst (xClose c w)) = stream_ok D out c \<and> xc_resultsClosed (fst (xClose c w)) = xc_resultsClosed c"
  by (auto simp: xClose_def Let_def stream_ok_def reader_ok_def split: prod.split)

lemma push_frame_stream:
  assumes "push_frame c c'"
  shows "stream_ok D out c' = stream_ok D out c \<and> xc_resultsClosed c' = xc_resultsClosed c"
proof -
  from assms obtain l s q where "c' = c\<lparr>xc_pushLane := l, xc_upSizer := s, xc_upSeq := q\<rparr>" by (auto simp: push_frame_def)
  then show ?thesis by (simp add: stream_ok_def)
qed

section \<open>The connections over a run\<close>

lemma xClose_conns:
  assumes "xc_ok c w" and "xClose c w = (c', w')"
  shows "xc_ok c' w' \<and> xothers c' w' = xothers c w \<and> xc_once c' \<and> xc_cancelled c'"
proof (cases "xc_once c")
  case True
  with assms show ?thesis by (auto simp: xClose_def xc_ok_def)
next
  case False
  let ?l = "newTxnLane (xc_serverAddr c) (xo_tcpBuffer (xc_opts c)) 1 (xo_txnTimeout (xc_opts c))
    (xo_headerMask (xc_opts c)) (xo_coverProfile (xc_opts c))"
  let ?p = "bytes_of (''CCLOSE '' @ wireToken (xc_token c) @ '' '' @ xc_sid c)"
  obtain r l1 w1 where d: "doControl ?l ?p w = (r, l1, w1)" by (metis prod.collapse)
  obtain l2 w2 where c1: "tx_Close l1 w1 = (l2, w2)" by fastforce
  obtain push w3 where c2: "tx_Close (xc_pushLane c) w2 = (push, w3)" by fastforce
  obtain pulls w4 where c3: "close_lanes (xc_pullLanes c) w3 = (pulls, w4)" by fastforce
  from False d c1 c2 c3 assms(2) have
    c': "c' = c\<lparr>xc_once := True, xc_cancelled := True, xc_pushLane := push, xc_pullLanes := pulls\<rparr>" "w' = w4"
    by (auto simp: xClose_def Let_def)
  have ls: "lanes_ok (xlanes c) w" using assms(1) by (simp add: xc_ok_def)
  then have wok: "world_ok w" by (simp add: xlanes_def lanes_ok_Cons txn_ok_def txn_own_def)
  have l0: "txn_ok ?l w" using wok by simp
  have ls0: "lanes_ok (?l # xlanes c) w" using ls l0 by (simp add: lanes_ok_Cons)
  note st = doControl_step [OF l0 d]
  then have "live (w_log w1) - tx_owned l1 = live (w_log w) - tx_owned ((?l # xlanes c) ! 0)" by (simp add: txn_step_def)
  from lanes_step [OF ls0 _ conjunct1 [OF st] this]
  have s1: "lanes_ok (l1 # xlanes c) w1" "live (w_log w1) - tx_owned l1 - all_owned (xlanes c) = xothers c w"
    by (auto simp: xothers_def)
  from tx_Close_lanes [OF s1(1) c1]
  have s2: "lanes_ok (xlanes c) w2" "live (w_log w2) - all_owned (xlanes c) = xothers c w"
    using s1(2) by (auto simp: lanes_ok_Cons)
  from tx_Close_lanes [OF s2(1) [unfolded xlanes_def] c2]
  have s3: "lanes_ok (push # xc_pullLanes c) w3" "tx_closed push" "tx_owned push = {}"
    "live (w_log w3) - all_owned (xc_pullLanes c) = xothers c w" using s2(2) by (auto simp: xlanes_def)
  then have "lanes_ok (xc_pullLanes c) w3" "txn_ok push w3" by (simp_all add: lanes_ok_Cons)
  from close_lanes_step [OF this(1) c3] s3(4)
  have s4: "lanes_ok pulls w4" "\<forall>l \<in> set pulls. tx_closed l" "all_owned pulls = {}" "length pulls = length (xc_pullLanes c)"
    "live (w_log w4) = xothers c w" by auto
  have "world_ok w4"
  proof (cases "pulls = []")
    case True
    then have "w4 = w3" using c3 s4(4) by simp
    with \<open>txn_ok push w3\<close> show ?thesis by (simp add: txn_ok_def txn_own_def)
  next
    case False
    with s4(1) show ?thesis by (cases pulls) (auto simp: lanes_ok_Cons txn_ok_def txn_own_def)
  qed
  with \<open>txn_ok push w3\<close> s3(3) have "txn_ok push w4" by (simp add: txn_ok_def txn_own_def)
  with s3 s4 c' assms(1) show ?thesis
    by (auto simp: xc_ok_def xlanes_def xothers_def lanes_ok_Cons all_owned_def)
qed

lemma set_worker_conns [simp]:
  "xc_ok (set_worker j ph d) v = xc_ok d v" "xothers (set_worker j ph d) v = xothers d v"
  "xc_cancelled (set_worker j ph d) = xc_cancelled d"
  using xc_ok_frame [of "set_worker j ph d" d v] by (simp_all add: set_worker_def)

lemma worker_step_conns:
  assumes "xc_ok c w" and "worker_step i c w = Some (ob, c', w')"
  shows "xc_ok c' w' \<and> xothers c' w' = xothers c w \<and> xc_once c' = xc_once c \<and> xc_cancelled c' = xc_cancelled c"
proof -
  have i: "i < length (xc_workers c)" using assms(2) by (simp add: worker_step_def split: if_splits)
  show ?thesis
  proof (cases "xc_workers c ! i")
    case (Asking s o1 a f limit ack)
    obtain x lane w1 where d: "Do (pull_payload (xc_token c) (xc_sid c) ack s o1 limit) (xc_pullLanes c ! i) w = (x, lane, w1)"
      by (metis prod.collapse)
    obtain ph' z where pr: "pull_reply c s o1 a f limit x = (ph', z)" by fastforce
    have i': "i < length (xc_pullLanes c)" using i assms(1) by (simp add: xc_ok_def)
    let ?c = "c\<lparr>xc_pullLanes := (xc_pullLanes c)[i := lane]\<rparr>"
    from Asking d pr i assms(2) have c': "c' = set_worker i ph' (?c\<lparr>xc_downSizer := z\<rparr>)" "w' = w1"
      by (simp_all add: worker_step_def)
    have "xc_ok (?c\<lparr>xc_downSizer := z\<rparr>) w1 = xc_ok ?c w1 \<and> xothers (?c\<lparr>xc_downSizer := z\<rparr>) w1 = xothers ?c w1"
      by (rule xc_ok_frame) simp_all
    with xc_ok_pull [OF assms(1) i' d] c' show ?thesis by simp
  next
    case Top
    have "xc_ok (c\<lparr>xc_claim := q\<rparr>) w = xc_ok c w \<and> xothers (c\<lparr>xc_claim := q\<rparr>) w = xothers c w" for q
      by (rule xc_ok_frame) simp_all
    with Top assms i show ?thesis by (auto simp: worker_step_def split: if_splits)
  next
    case (Offering r stop)
    have "xc_ok (c\<lparr>xc_results := q\<rparr>) w = xc_ok c w \<and> xothers (c\<lparr>xc_results := q\<rparr>) w = xothers c w" for q
      by (rule xc_ok_frame) simp_all
    with Offering assms i show ?thesis by (auto simp: worker_step_def split: if_splits)
  qed (use assms i in \<open>auto simp: worker_step_def split: if_splits\<close>)
qed

lemma read_turn_conns:
  assumes "xc_ok c w" and "read_turn n c = (nx, c')"
  shows "xc_ok c' w \<and> xothers c' w = xothers c w \<and> xc_once c' = xc_once c \<and> xc_cancelled c' = xc_cancelled c
    \<and> xc_workers c' = xc_workers c \<and> xc_claim c' = xc_claim c \<and> xc_resultsClosed c' = xc_resultsClosed c"
proof -
  have f: "xc_pushLane c' = xc_pushLane c" "xc_pullLanes c' = xc_pullLanes c" "xc_workers c' = xc_workers c"
    "xc_once c' = xc_once c" "xc_cancelled c' = xc_cancelled c" "xc_resultsClosed c' = xc_resultsClosed c"
    "xc_claim c' = xc_claim c"
    using assms(2) by (auto simp: read_turn_def Let_def split: if_splits option.splits list.splits)
  with xc_ok_frame [of c' c w] assms(1) show ?thesis by simp
qed

lemma push_frame_flags:
  "push_frame c c' \<Longrightarrow> xc_once c' = xc_once c \<and> xc_cancelled c' = xc_cancelled c \<and> xc_workers c' = xc_workers c
    \<and> xc_claim c' = xc_claim c \<and> xc_results c' = xc_results c \<and> xc_pending c' = xc_pending c
    \<and> xc_nextRead c' = xc_nextRead c \<and> xc_current c' = xc_current c \<and> xc_terminalErr c' = xc_terminalErr c
    \<and> xc_opts c' = xc_opts c \<and> xc_resultsClosed c' = xc_resultsClosed c"
  by (auto simp: push_frame_def)

lemma xstep_conns:
  assumes "xc_ok c w" and "xstep a c w = Some (ob, c', w')"
  shows "xc_ok c' w' \<and> xothers c' w' = xothers c w \<and> (xc_once c \<longrightarrow> xc_once c')"
proof (cases a)
  case (Go i)
  with worker_step_conns [OF assms(1)] assms(2) show ?thesis by simp
next
  case (GiveUp i)
  with assms show ?thesis by (auto simp: give_up_def split: if_splits worker.splits)
next
  case (ReadTurn n)
  with read_turn_conns [OF assms(1)] assms(2) show ?thesis
    by (auto simp: read_step_def split: prod.splits read_next.splits)
next
  case (WriteCall p)
  then obtain n e where wr: "xWrite p c w = Some (n, e, c', w')" using assms(2) by auto
  from xWrite_post [OF assms(1) wr] push_frame_flags [of c c'] show ?thesis by (auto simp: push_state_def)
next
  case CloseCall
  with assms(2) have "xClose c w = (c', w')" by simp
  from xClose_conns [OF assms(1) this] show ?thesis by simp
next
  case Drain
  have "xc_ok (c\<lparr>xc_resultsClosed := True\<rparr>) w \<and> xothers (c\<lparr>xc_resultsClosed := True\<rparr>) w = xothers c w"
    if "xc_once c" using assms(1) that by (simp add: xc_ok_def xothers_def xlanes_def)
  with Drain assms show ?thesis by (auto simp: drain_def split: if_splits)
qed

section \<open>The stream over a run\<close>

lemma xstep_stream:
  assumes D: "records_ok D" and ok: "stream_ok D out c" and co: "xc_ok c w"
    and t: "xstep a c w = Some (ob, c', w')" and h: "honest D ob"
  shows "stream_ok D (out @ obs_bytes ob) c' \<and> (xc_resultsClosed c \<longrightarrow> xc_resultsClosed c')
    \<and> (\<forall>b. ob = Returned b (Some EOF) \<longrightarrow> b = [] \<and> (xc_resultsClosed c \<or> out = concat D))"
proof (cases a)
  case (Go i)
  with worker_step_ok [OF D ok _ h] t show ?thesis by auto
next
  case (GiveUp i)
  then obtain stop where c': "ob = Tau" "c' = set_worker i (after_offer stop) c"
    using t by (auto simp: give_up_def split: if_splits worker.splits)
  have "\<forall>ph \<in> set (xc_workers c). worker_ok D ph" using ok by (simp add: stream_ok_def)
  from set_worker_ok [OF this, of "after_offer stop" i] c' ok show ?thesis
    by (simp add: stream_ok_def obs_bytes_def after_offer_def)
next
  case (ReadTurn n)
  obtain nx c1 where r: "read_turn n c = (nx, c1)" by fastforce
  with ReadTurn t have "c' = c1" "ob = (case nx of ReadReturn b e \<Rightarrow> Returned b e | _ \<Rightarrow> Tau)"
    by (auto simp: read_step_def split: read_next.splits)
  with read_turn_ok [OF D ok r] read_turn_conns [OF co r] show ?thesis
    by (auto simp: obs_bytes_def turn_bytes_def split: read_next.splits)
next
  case (WriteCall p)
  then obtain n e where wr: "xWrite p c w = Some (n, e, c', w')" and ob: "ob = Wrote p n e" using t by auto
  from xWrite_post [OF co wr] have "push_frame c c'" by (simp add: push_state_def)
  from push_frame_stream [OF this] ok ob show ?thesis by (simp add: obs_bytes_def)
next
  case CloseCall
  with t have "c' = fst (xClose c w)" "ob = Tau" by auto
  with xClose_stream [of D out c w] ok show ?thesis by (simp add: obs_bytes_def)
next
  case Drain
  with t ok show ?thesis by (auto simp: drain_def obs_bytes_def stream_ok_def split: if_splits)
qed

lemma stream_prefix:
  assumes "stream_ok D out c"
  shows "prefix out (concat D) \<and> prefix (concat (take (unat (xc_ack c + 1)) D)) out"
proof -
  let ?n = "unat (xc_nextRead c)"
  have r: "reader_ok D out c" using assms by (simp add: stream_ok_def)
  have p: "prefix (concat (take k D)) (concat D)" for k
    by (metis append_take_drop_id concat_append prefixI)
  have a: "xc_ack c + 1 = xc_nextRead c" using r by (simp add: reader_ok_def)
  show ?thesis
  proof (cases "xc_current c = []")
    case True
    with r p [of ?n] a show ?thesis by (simp add: reader_ok_def)
  next
    case False
    with r obtain pre where e: "D ! ?n = pre @ xc_current c" "out = concat (take ?n D) @ pre" "?n < length D"
      by (auto simp: reader_ok_def)
    then have "prefix out (concat (take (Suc ?n) D))" by (simp add: take_Suc_concat)
    then have "prefix out (concat D)" using p [of "Suc ?n"] by (rule prefix_order.trans)
    with e a show ?thesis by simp
  qed
qed

lemma build_xconn_stream:
  "stream_ok D [] (build_xconn srv token sid opts lane mx) \<and> \<not> xc_resultsClosed (build_xconn srv token sid opts lane mx)
    \<and> \<not> xc_cancelled (build_xconn srv token sid opts lane mx)"
  by (auto simp: stream_ok_def reader_ok_def build_xconn_def Let_def)

lemma xrun_stream:
  assumes "xrun c w obs c' w'" and D: "records_ok D" and "xc_ok c w" and "stream_ok D [] c" and "\<not> xc_resultsClosed c"
    and "\<forall>ob \<in> set obs. honest D ob"
  shows "xc_ok c' w' \<and> xothers c' w' = xothers c w \<and> stream_ok D (received obs) c'
    \<and> ((\<exists>b. Returned b (Some EOF) \<in> set obs) \<longrightarrow> xc_resultsClosed c' \<or> received obs = concat D)"
  using assms
proof (induction rule: xrun.induct)
  case (xrun_step c w obs c1 w1 a ob c2 w2)
  then have ih: "xc_ok c1 w1" "xothers c1 w1 = xothers c w" "stream_ok D (received obs) c1"
    "(\<exists>b. Returned b (Some EOF) \<in> set obs) \<longrightarrow> xc_resultsClosed c1 \<or> received obs = concat D" and h: "honest D ob" by simp_all
  note s = xstep_stream [OF D ih(3,1) xrun_step.hyps(2) h]
  note cn = xstep_conns [OF ih(1) xrun_step.hyps(2)]
  have pre: "prefix (received obs @ obs_bytes ob) (concat D)" using stream_prefix [of D _ c2] s by simp
  have "xc_resultsClosed c2 \<or> received obs @ obs_bytes ob = concat D"
    if "Returned b (Some EOF) \<in> set (obs @ [ob])" for b
  proof (cases "Returned b (Some EOF) \<in> set obs")
    case True
    with ih(4) s pre show ?thesis by auto
  next
    case False
    with that have "ob = Returned b (Some EOF)" by simp
    with s show ?thesis by (auto simp: obs_bytes_def)
  qed
  with s cn ih(2) show ?case by auto
qed (auto simp: received_def)

section \<open>Order\<close>

text \<open>C1: X download is in order and complete, under every interleaving of the pull workers,
  the reader, the writer and \<^verbatim>\<open>Close\<close> and with any failures in between: if the
  answers the workers get agree with the server's records, then what all calls of
  \<^verbatim>\<open>Read\<close> returned is a prefix of the records in order; \<^verbatim>\<open>io.EOF\<close> on a
  tunnel that was not closed comes only after all of it; and the acknowledgement the workers
  send names only records handed over completely.\<close>

theorem x_download_in_order:
  assumes "world_ok w" and "records_ok D" and "xOpen srv token host port opts w = (Inr c, w1)"
    and "xrun c w1 obs c' w'" and "\<forall>ob \<in> set obs. honest D ob"
  shows "prefix (received obs) (concat D)
    \<and> ((\<exists>b. Returned b (Some EOF) \<in> set obs) \<and> \<not> xc_once c' \<longrightarrow> received obs = concat D)
    \<and> prefix (concat (take (unat (xc_ack c' + 1)) D)) (received obs)"
proof -
  from xOpen_step [OF assms(1,3)] obtain sid lane mx where
    c: "xc_ok c w1" "c = build_xconn srv token sid (xNormalizeOptions opts) lane mx" by auto
  with build_xconn_stream [of D srv token sid "xNormalizeOptions opts" lane mx]
  have s: "stream_ok D [] c" "\<not> xc_resultsClosed c" by simp_all
  note r = xrun_stream [OF assms(4,2) c(1) s assms(5)]
  then have "xc_resultsClosed c' \<longrightarrow> xc_once c'" by (simp add: xc_ok_def)
  with r stream_prefix [of D "received obs" c'] show ?thesis by auto
qed

text \<open>A transaction that dials, for lanes with one request per connection.\<close>

lemma Do_first:
  assumes "world_ok w" and l: "l = newTxnLane a b 1 t hm prof" and "\<not> cp_enabled prof"
    and d: "w_dials w (w_dialed w) = Inr c" "accepting c" and "length p \<le> MaxHandshake" "length resp \<le> MaxHandshake"
    and ci: "c_in c = (xresponse_frame hm (w_requestCounter w + 1, resp) @ [], e)"
  shows "\<exists>w'. Do p l w = (Inr resp, l, w') \<and> w_dials w' = w_dials w \<and> w_dialed w' = Suc (w_dialed w)
    \<and> w_requestCounter w' = w_requestCounter w + 1 \<and> world_ok w'"
proof -
  let ?k = "w_dialed w"
  let ?l1 = "l\<lparr>tx_conn := Some (?k, c)\<rparr>"
  let ?w1 = "log_event (Dialed ?k) (w\<lparr>w_dialed := Suc ?k\<rparr>)\<lparr>w_rngn := Suc (w_rngn w)\<rparr>"
  have ok: "txn_ok l w" using assms(1) l by simp
  have en: "ensureConn l w = (None, ?l1, ?w1)"
    using d(1) assms(3) unfolding l
    by (simp add: ensureConn_def tx_closeLocked_def tx_dial_def take_rng_def WritePreface_def newTxnLane_def Let_def)
  have ok1: "txn_ok ?l1 ?w1"
    using ensureConn_step [OF ok en] unfolding l by (simp add: txn_ok_def txn_quota_def newTxnLane_def)
  have c1: "tx_conn ?l1 = Some (?k, c)" by simp
  have "Do p l w = Do p ?l1 ?w1" unfolding Do_def en ensureConn_keeps [OF ok1 c1] by simp
  moreover have "\<exists>c'. Do p ?l1 ?w1 = (Inr resp, tx_closeLocked (?l1\<lparr>tx_conn := Some (?k, c'), tx_count := tx_count ?l1 + 1\<rparr>)
      (log_event (Requested ?k 0 (ucast (w_requestCounter w + 1)) p) (?w1\<lparr>w_requestCounter := w_requestCounter w + 1\<rparr>)))"
    using Do_exchange [OF ok1 c1 d(2) assms(6,7), of "w_requestCounter ?w1 + 1" "[]" e] ci
    unfolding l by (auto simp: newTxnLane_def log_event_def)
  ultimately obtain c' where x: "Do p l w = (Inr resp, tx_closeLocked (?l1\<lparr>tx_conn := Some (?k, c'), tx_count := tx_count ?l1 + 1\<rparr>)
      (log_event (Requested ?k 0 (ucast (w_requestCounter w + 1)) p) (?w1\<lparr>w_requestCounter := w_requestCounter w + 1\<rparr>)))" by auto
  obtain r2 l2 w2 where "Do p l w = (r2, l2, w2)" by (metis prod.collapse)
  with x have r: "Do p l w = (Inr resp, l2, w2)" by simp
  with Do_step [OF ok r] have "world_ok w2" by (simp add: txn_ok_def txn_own_def)
  with x r show ?thesis unfolding l by (auto simp: tx_closeLocked_def newTxnLane_def log_event_def)
qed

lemma doControl_first: "Do p l w = (Inr r, l', w') \<Longrightarrow> doControl l p w = (Inr r, l', w')"
  by (simp add: doControl_def eval_nat_numeral)

definition opening_xworld :: world where
  "opening_xworld = silent_world\<lparr>w_dials := \<lambda>k. Inr (open_conn\<lparr>c_in :=
     ((if k = 0 then xresponse_frame 0x80 (1, bytes_of ''OPENED 4096'')
       else xresponse_frame 0x80 (2, data_answer 0 0 3 [7, 8, 9])) @ [], EOF)\<rparr>)\<rparr>"

definition opened_xconn :: xconn where
  "opened_xconn = build_xconn ''s:53'' ''t'' (hex_encode (replicate 16 0)) (xNormalizeOptions sample_xoptions)
     (new_xlane ''s:53'' (xNormalizeOptions sample_xoptions)) 4096"

lemma sample_normal [simp]: "xNormalizeOptions sample_xoptions = sample_xoptions"
  by (simp add: xNormalizeOptions_def sample_xoptions_def MaxChunkPayload_def Let_def)

lemma new_sample_lane: "new_xlane a sample_xoptions = newTxnLane a 0 1 5000000000 0x80 zero_profile"
  by (simp add: new_xlane_def sample_xoptions_def)

lemma parse_4096: "parse_opened (bytes_of ''OPENED 4096'') = Inr 4096"
proof -
  have "''OPENED 4096'' = ''OPENED'' @ CHR '' '' # dec 4096"
    by (simp add: dec.simps digit_def char_of_def bit_0)
  then have "Fields ''OPENED 4096'' = [''OPENED'', dec 4096]"
    using Fields_word [of "''OPENED''" "dec 4096"] Fields_last [OF plain_dec, of 4096] by (simp add: plain_def)
  then show ?thesis by (simp add: parse_opened_def)
qed

lemma opened_xworld:
  "\<exists>w. xOpen ''s:53'' ''t'' ''h'' 80 sample_xoptions opening_xworld = (Inr opened_xconn, w) \<and> world_ok w
     \<and> w_dials w = w_dials opening_xworld \<and> w_dialed w = 1 \<and> w_requestCounter w = 1"
proof -
  let ?w = "opening_xworld\<lparr>w_rngn := 1\<rparr>"
  let ?p = "bytes_of (''COPEN '' @ wireToken ''t'' @ '' '' @ hex_encode (replicate 16 0) @ '' '' @ ''h'' @ '' '' @ dec_int 80)"
  have sid: "xRandomSessionID opening_xworld = (Inr (hex_encode (replicate 16 0)), ?w)"
    by (simp add: xRandomSessionID_def take_rng_def randRead_def opening_xworld_def silent_world_def
        map_replicate_trivial)
  have ok: "world_ok ?w" by (simp add: opening_xworld_def silent_world_def world_ok_def)
  have hl: "length (hex_encode b) = 2 * length b" for b by (induction b) auto
  let ?c = "open_conn\<lparr>c_in := (xresponse_frame 0x80 (1, bytes_of ''OPENED 4096'') @ [], EOF)\<rparr>"
  have "length ?p \<le> MaxHandshake" "length (bytes_of ''OPENED 4096'') \<le> MaxHandshake"
    by (simp_all add: hl wireToken_def MaxHandshake_def dec_int_def dec.simps)
  moreover have "w_dials ?w (w_dialed ?w) = Inr ?c" "accepting ?c" "\<not> cp_enabled zero_profile"
    "c_in ?c = (xresponse_frame 0x80 (w_requestCounter ?w + 1, bytes_of ''OPENED 4096'') @ [], EOF)"
    by (simp_all add: opening_xworld_def silent_world_def zero_profile_def)
  ultimately obtain w' where d: "Do ?p (new_xlane ''s:53'' sample_xoptions) ?w = (Inr (bytes_of ''OPENED 4096''), new_xlane ''s:53'' sample_xoptions, w')"
    "w_dials w' = w_dials ?w" "w_dialed w' = Suc (w_dialed ?w)" "w_requestCounter w' = w_requestCounter ?w + 1" "world_ok w'"
    using Do_first [OF ok new_sample_lane] by blast
  have "doControl (new_xlane ''s:53'' sample_xoptions) ?p ?w
      = (Inr (bytes_of ''OPENED 4096''), new_xlane ''s:53'' sample_xoptions, w')"
    by (rule doControl_first [OF d(1)])
  with d sid parse_4096 show ?thesis
    by (simp add: xOpen_def opened_xconn_def opening_xworld_def silent_world_def)
qed

lemma opened_sel [simp]:
  "xc_workers opened_xconn = [Top, Top]" "xc_cancelled opened_xconn = False" "xc_claim opened_xconn = 0"
  "xc_results opened_xconn = []" "xc_pending opened_xconn = (\<lambda>_. None)" "xc_nextRead opened_xconn = 0"
  "xc_current opened_xconn = []" "xc_terminalErr opened_xconn = None" "xc_finalKnown opened_xconn = False"
  "results_cap opened_xconn = 8" "xc_serverMax opened_xconn = 4096" "xc_resultsClosed opened_xconn = False"
  "xc_token opened_xconn = ''t''" "xc_opts opened_xconn = sample_xoptions"
  "xc_pullLanes opened_xconn = replicate 2 (new_xlane ''s:53'' sample_xoptions)" "xc_once opened_xconn = False"
  by (simp_all add: opened_xconn_def build_xconn_def results_cap_def Let_def,
      simp_all add: sample_xoptions_def eval_nat_numeral)

lemma sample_reply:
  "xc_serverMax c = 4096 \<Longrightarrow> pull_reply c 0 0 [] 0 limit (Inr (data_answer 0 0 3 [7, 8, 9])) =
   (Offering ((zero_chunkResult 0)\<lparr>cr_data := [7, 8, 9]\<rparr>) False, xSuccess (xc_downSizer c) limit)"
  using parse_data_answer [of 0 3 0 "[7, 8, 9]"] data_answer_text [of 0 0 3 "[7, 8, 9]"]
  by (simp add: pull_reply_def Let_def)

lemma length_dec_le: "length (dec n) \<le> Suc n"
proof (induction n rule: dec.induct)
  case (1 n)
  show ?case
  proof (cases "n < 10")
    case False
    with 1 have "length (dec (n div 10)) \<le> Suc (n div 10)" by simp
    also have "\<dots> \<le> n" using False by simp
    finally show ?thesis using False by (simp add: dec.simps [of n])
  qed (simp add: dec.simps [of n])
qed

lemma sample_run:
  assumes w: "world_ok w" "w_dials w = w_dials opening_xworld" "w_dialed w = 1" "w_requestCounter w = 1"
  shows "\<exists>c' w'. xrun opened_xconn w [Tau, Tau, Replied 0 0 (Inr (data_answer 0 0 3 [7, 8, 9])), Tau, Tau, Tau,
    Returned [7, 8] None] c' w'"
proof -
  let ?c0 = opened_xconn and ?s = "xc_downSizer opened_xconn"
  let ?lim = "xCurrent ?s" and ?ack = "xc_ack opened_xconn"
  let ?r = "(zero_chunkResult 0)\<lparr>cr_data := [7, 8, 9]\<rparr>"
  let ?c1 = "set_worker 0 (Pulling 0 0 [] 0) (?c0\<lparr>xc_claim := 1\<rparr>)"
  let ?c2 = "set_worker 0 (Asking 0 0 [] 0 ?lim ?ack) ?c1"
  let ?l = "new_xlane ''s:53'' sample_xoptions" and ?p = "pull_payload ''t'' (xc_sid ?c0) ?ack 0 0 ?lim"
  let ?cn = "open_conn\<lparr>c_in := (xresponse_frame 0x80 (2, data_answer 0 0 3 [7, 8, 9]) @ [], EOF)\<rparr>"
  have s1: "xstep (Go 0) ?c0 w = Some (Tau, ?c1, w)" by (simp add: worker_step_def)
  have s2: "xstep (Go 0) ?c1 w = Some (Tau, ?c2, w)" by (simp add: worker_step_def set_worker_def)
  have hl: "length (hex_encode b) = 2 * length b" for b by (induction b) auto
  have lim: "?lim = 64" "xc_sid ?c0 = hex_encode (replicate 16 0)" "?ack = - 1"
    by (simp_all add: opened_xconn_def build_xconn_def Let_def,
        simp_all add: sample_xoptions_def xNewAdaptiveSizer_def xCurrent_def Let_def)
  have "length ?p \<le> MaxHandshake"
    using length_dec_le [of 64] length_dec_le [of 0] length_dec_le [of 1]
    by (simp add: pull_payload_def hl lim wireToken_def dec_int_def MaxHandshake_def)
  moreover have "length (data_answer 0 0 3 [7, 8, 9]) \<le> MaxHandshake"
    using length_dec_le [of 3] length_dec_le [of 0] by (simp add: data_answer_def MaxHandshake_def)
  moreover have "w_dials w (w_dialed w) = Inr ?cn" "accepting ?cn" "\<not> cp_enabled zero_profile"
    "c_in ?cn = (xresponse_frame 0x80 (w_requestCounter w + 1, data_answer 0 0 3 [7, 8, 9]) @ [], EOF)"
    using w by (simp_all add: opening_xworld_def zero_profile_def)
  ultimately obtain w' where d: "Do ?p ?l w = (Inr (data_answer 0 0 3 [7, 8, 9]), ?l, w')"
    using Do_first [OF w(1) new_sample_lane] by blast
  let ?c3 = "set_worker 0 (Offering ?r False) (?c2\<lparr>xc_pullLanes := (xc_pullLanes ?c2)[0 := ?l], xc_downSizer := xSuccess ?s ?lim\<rparr>)"
  have pr: "pull_reply ?c2 0 0 [] 0 ?lim (Inr (data_answer 0 0 3 [7, 8, 9])) = (Offering ?r False, xSuccess ?s ?lim)"
    using sample_reply [of ?c2 ?lim] by (simp add: set_worker_def)
  have s3: "xstep (Go 0) ?c2 w = Some (Replied 0 0 (Inr (data_answer 0 0 3 [7, 8, 9])), ?c3, w')"
    using pr d by (simp add: worker_step_def) (simp add: set_worker_def)
  have f3: "xc_workers ?c3 ! 0 = Offering ?r False" "0 < length (xc_workers ?c3)" "xc_results ?c3 = []" "results_cap ?c3 = 8"
    "xc_current ?c3 = []" "xc_terminalErr ?c3 = None" "xc_finalKnown ?c3 = False" "xc_pending ?c3 = (\<lambda>_. None)" "xc_nextRead ?c3 = 0"
    using opened_sel(10) by (simp_all add: set_worker_def results_cap_def del: opened_sel(10))
  define c3 where "c3 = ?c3"
  note f = f3 [folded c3_def]
  let ?c4 = "set_worker 0 Top (c3\<lparr>xc_results := [?r]\<rparr>)"
  have s4: "xstep (Go 0) c3 w' = Some (Tau, ?c4, w')"
    using f by (simp add: worker_step_def after_offer_def)
  let ?c5 = "?c4\<lparr>xc_results := [], xc_pending := (\<lambda>_. None)(0 := Some [7, 8, 9])\<rparr>"
  have s5: "xstep (ReadTurn 2) ?c4 w' = Some (Tau, ?c5, w')"
    using f by (simp add: read_step_def read_turn_def set_worker_def zero_chunkResult_def)
  let ?c6 = "?c5\<lparr>xc_pending := ((\<lambda>_. None)(0 := Some [7, 8, 9]))(0 := None), xc_current := [7, 8, 9], xc_currentSeq := 0\<rparr>"
  have s6: "xstep (ReadTurn 2) ?c5 w' = Some (Tau, ?c6, w')"
    using f by (simp add: read_step_def read_turn_def set_worker_def)
  have s7: "xstep (ReadTurn 2) ?c6 w' = Some (Returned [7, 8] None, ?c6\<lparr>xc_current := [9]\<rparr>, w')"
    using f by (simp add: read_step_def read_turn_def set_worker_def)
  from xrun_step [OF xrun_step [OF xrun_step [OF xrun_step [OF xrun_step [OF xrun_step [OF xrun_step [OF xrun_start s1]
    s2] s3 [folded c3_def]] s4] s5] s6] s7]
  show ?thesis by (auto simp only: append.simps)
qed

theorem x_download_in_order_witness:
  "\<exists>c w obs c' w'. xOpen ''s:53'' ''t'' ''h'' 80 sample_xoptions opening_xworld = (Inr c, w)
    \<and> xrun c w obs c' w' \<and> received obs = [7, 8] \<and> prefix [7, 8] (concat [[7, 8, 9 :: byte]])"
proof -
  obtain w where o: "xOpen ''s:53'' ''t'' ''h'' 80 sample_xoptions opening_xworld = (Inr opened_xconn, w)"
    and w: "world_ok w" "w_dials w = w_dials opening_xworld" "w_dialed w = 1" "w_requestCounter w = 1"
    using opened_xworld by blast
  let ?a = "data_answer 0 0 3 [7, 8, 9]"
  let ?obs = "[Tau, Tau, Replied 0 0 (Inr ?a), Tau, Tau, Tau, Returned [7, 8] None]"
  obtain c' w' where r: "xrun opened_xconn w ?obs c' w'" using sample_run [OF w] by blast
  have ok: "world_ok opening_xworld" by (simp add: opening_xworld_def silent_world_def world_ok_def)
  have D: "records_ok [[7, 8, 9]]" by (simp add: records_ok_def)
  have "agrees [[7, 8, 9]] 0 0 ?a"
    unfolding agrees_def by (intro disjI2 exI [of _ 3]) (simp add: numeral_3_eq_3)
  then have h: "\<forall>ob \<in> set ?obs. honest [[7, 8, 9]] ob" by (simp add: honest_def)
  have "received ?obs = [7, 8]" by (simp add: received_def obs_bytes_def)
  with x_download_in_order [OF ok D o r h] o r show ?thesis by (metis (no_types, lifting))
qed

end
