(* ===== verification/WireSelect.thy ===== *)
theory WireSelect
  imports BpTunnel XCalibrate XPull "HOL-Library.Multiset"
begin

text \<open>
  \<^verbatim>\<open>wireselect.go\<close>: which wire and which header mask to use. The candidates are
  tried by up to sixteen goroutines at a time, modelled as a transition system over launches,
  probes, receptions from the result channel and the final return; a probe is one step, taken at
  some moment between its launch and the reception of its result. An operation of the selector
  takes the schedule of the detection it may run as an argument and has no result for a schedule
  that leaves the detection unfinished.
\<close>

section \<open>Choices and candidates\<close>

definition WireBinary :: string where "WireBinary = ''b''"
definition WireBP :: string where "WireBP = ''bp''"
definition WireXOR :: string where "WireXOR = ''x''"
definition WireAuto :: string where "WireAuto = ''auto''"

lemmas wires = WireBinary_def WireBP_def WireXOR_def WireAuto_def

record wireChoice =
  wc_mode :: string
  wc_mask :: byte
  wc_cover :: Profile

definition direct :: "string \<Rightarrow> byte \<Rightarrow> wireChoice" where
  "direct w hm = \<lparr>wc_mode = w, wc_mask = hm, wc_cover = zero_profile\<rparr>"

definition forcedClearChoice :: "string \<Rightarrow> byte \<Rightarrow> wireChoice" where
  "forcedClearChoice w headerMask =
     (let i = (if headerMask = 0x25 then 0x0065 else 0x0000 :: u16);
          profile = \<lparr>cp_enabled = True, cp_id = i, cp_padding = 0, cp_headerMask = headerMask,
            cp_xor = False, cp_clear = True\<rparr>
      in \<lparr>wc_mode = w, wc_mask = cp_headerMask profile, wc_cover = profile\<rparr>)"

definition validBinaryHeaderMask :: "byte \<Rightarrow> bool" where
  "validBinaryHeaderMask hm \<longleftrightarrow> hm AND 0x07 = 0"

definition validXORHeaderMask :: "byte \<Rightarrow> bool" where
  "validXORHeaderMask hm \<longleftrightarrow> (byte_of_char (CHR ''U'') XOR hm) AND 0x07 \<ge> 5"

record wireSelector =
  ws_configured :: string
  ws_resolved :: wireChoice
  ws_hasChoice :: bool
  ws_serverAddr :: string
  ws_token :: string
  ws_binOpts :: chunkClientOptions
  ws_xorOpts :: xOptions
  ws_probeDelay :: int
  ws_probeThreads :: int
  ws_forceClear :: bool
  ws_candidateOverride :: "wireChoice list option"
  ws_probeOverride :: "(wireChoice \<Rightarrow> bool) option"

definition newWireSelector ::
  "string \<Rightarrow> string \<Rightarrow> string \<Rightarrow> chunkClientOptions \<Rightarrow> xOptions \<Rightarrow> int \<Rightarrow> int \<Rightarrow> bool \<Rightarrow> wireSelector" where
  "newWireSelector configured serverAddr token binOpts xorOpts probeDelay probeThreads forceClear =
     \<lparr>ws_configured = configured, ws_resolved = direct [] 0, ws_hasChoice = False,
      ws_serverAddr = serverAddr, ws_token = token, ws_binOpts = binOpts, ws_xorOpts = xorOpts,
      ws_probeDelay = probeDelay, ws_probeThreads = probeThreads, ws_forceClear = forceClear,
      ws_candidateOverride = None, ws_probeOverride = None\<rparr>"

definition mask_candidates :: "bool \<Rightarrow> bool \<Rightarrow> bool \<Rightarrow> nat \<Rightarrow> wireChoice list" where
  "mask_candidates wantB wantBP wantX n =
     (let hm = word_of_nat n in
      (if validBinaryHeaderMask hm then
         (if wantB then [direct WireBinary hm] else []) @ (if wantBP then [direct WireBP hm] else [])
       else [])
      @ (if wantX \<and> validXORHeaderMask hm then [direct WireXOR hm] else []))"

definition profileCandidates :: "wireSelector \<Rightarrow> wireChoice list" where
  "profileCandidates s =
     (let cfg = ws_configured s in
      if ws_forceClear s then
        (if cfg = WireBinary then [forcedClearChoice WireBinary 0, forcedClearChoice WireBinary 0x25]
         else if cfg = WireBP then [forcedClearChoice WireBP 0, forcedClearChoice WireBP 0x25]
         else if cfg = WireAuto then
           [forcedClearChoice WireBinary 0, forcedClearChoice WireBP 0,
            forcedClearChoice WireBinary 0x25, forcedClearChoice WireBP 0x25]
         else [])
      else
        let wantB = (cfg = WireAuto \<or> cfg = WireBinary);
            wantBP = (cfg = WireAuto \<or> cfg = WireBP);
            wantX = (cfg = WireAuto \<or> cfg = WireXOR)
        in concat (map (mask_candidates wantB wantBP wantX) [0..<256]))"

section \<open>One probe\<close>

definition bin_choice :: "wireChoice \<Rightarrow> chunkClientOptions \<Rightarrow> chunkClientOptions" where
  "bin_choice choice opts = opts\<lparr>o_headerMask := wc_mask choice, o_coverProfile := wc_cover choice\<rparr>"

definition xor_choice :: "wireChoice \<Rightarrow> xOptions \<Rightarrow> xOptions" where
  "xor_choice choice opts = (if cp_enabled (wc_cover choice) then WithCoverProfile (wc_cover choice) opts
     else WithHeaderMask (wc_mask choice) opts)"

definition sel_probe :: "wireSelector \<Rightarrow> wireChoice \<Rightarrow> world \<Rightarrow> bool \<times> world" where
  "sel_probe s choice w =
     (if wc_mode choice = WireXOR then
        ProbeProfile (ws_serverAddr s) (ws_token s) (xor_choice choice (ws_xorOpts s)) w
      else if wc_mode choice = WireBP then
        let opts = bin_choice choice (ws_binOpts s);
            opts = (if txnTimeout opts \<le> 0 \<or> txnTimeout opts > profileProbeTimeout
                    then opts\<lparr>txnTimeout := profileProbeTimeout\<rparr> else opts)
        in probeBPProfile (ws_serverAddr s) opts w
      else
        let opts = (bin_choice choice (ws_binOpts s))\<lparr>skipPathProbe := True, minSize := 32, startSize := 32, maxSize := 32\<rparr>;
            opts = (if txnTimeout opts \<le> 0 \<or> txnTimeout opts > profileProbeTimeout
                    then opts\<lparr>txnTimeout := profileProbeTimeout\<rparr> else opts)
        in probeOne (ws_serverAddr s) (bytes_of (ws_token s)) opts ProbeKeepalive 0 w)"

text \<open>The body of the goroutine up to its send.\<close>

definition run_probe :: "wireSelector \<Rightarrow> wireChoice \<Rightarrow> world \<Rightarrow> bool \<times> world" where
  "run_probe s choice w = (case ws_probeOverride s of Some f \<Rightarrow> (f choice, w) | None \<Rightarrow> sel_probe s choice w)"

section \<open>Detection\<close>

datatype outcome = Looking | Selected wireChoice | NoneValid

record detection =
  dt_next :: nat
  dt_inflight :: nat
  dt_completed :: nat
  dt_running :: "wireChoice list"
  dt_results :: "(wireChoice \<times> bool) list"
  dt_outcome :: outcome

datatype detect_action = Launch | RunProbe nat | Receive | Finish

text \<open>What a step shows: the verdict of a probe, or nothing.\<close>

type_synonym verdict = "wireChoice \<times> bool"

definition detect_start :: detection where
  "detect_start = \<lparr>dt_next = 0, dt_inflight = 0, dt_completed = 0, dt_running = [], dt_results = [],
     dt_outcome = Looking\<rparr>"

fun detect_step ::
  "(wireChoice \<Rightarrow> 'w \<Rightarrow> bool \<times> 'w) \<Rightarrow> wireChoice list \<Rightarrow> nat \<Rightarrow> detect_action \<Rightarrow> detection \<Rightarrow> 'w
   \<Rightarrow> (verdict list \<times> detection \<times> 'w) option" where
  "detect_step probe cs threads Launch d w =
     (if dt_outcome d = Looking \<and> dt_next d < length cs \<and> dt_inflight d < threads
      then Some ([], d\<lparr>dt_next := dt_next d + 1, dt_inflight := dt_inflight d + 1,
             dt_running := dt_running d @ [cs ! dt_next d]\<rparr>, w)
      else None)"
| "detect_step probe cs threads (RunProbe i) d w =
     (if i < length (dt_running d) \<and> length (dt_results d) < threads
      then let c = dt_running d ! i; (ok, w) = probe c w
           in Some ([(c, ok)], d\<lparr>dt_running := take i (dt_running d) @ drop (Suc i) (dt_running d),
                dt_results := dt_results d @ [(c, ok)]\<rparr>, w)
      else None)"
| "detect_step probe cs threads Receive d w =
     (case dt_results d of
        (c, ok) # rs \<Rightarrow>
          if dt_outcome d = Looking
          then Some ([], d\<lparr>dt_results := rs, dt_inflight := dt_inflight d - 1,
                 dt_completed := dt_completed d + 1, dt_outcome := (if ok then Selected c else Looking)\<rparr>, w)
          else None
      | [] \<Rightarrow> None)"
| "detect_step probe cs threads Finish d w =
     (if dt_outcome d = Looking \<and> \<not> dt_next d < length cs \<and> \<not> dt_inflight d > 0
      then Some ([], d\<lparr>dt_outcome := NoneValid\<rparr>, w) else None)"

primrec detect_run ::
  "(wireChoice \<Rightarrow> 'w \<Rightarrow> bool \<times> 'w) \<Rightarrow> wireChoice list \<Rightarrow> nat \<Rightarrow> detect_action list \<Rightarrow> detection \<Rightarrow> 'w
   \<Rightarrow> (verdict list \<times> detection \<times> 'w) option" where
  "detect_run probe cs threads [] d w = Some ([], d, w)"
| "detect_run probe cs threads (a # as) d w =
     (case detect_step probe cs threads a d w of None \<Rightarrow> None
      | Some (vs, d, w) \<Rightarrow>
        (case detect_run probe cs threads as d w of None \<Rightarrow> None
         | Some (vs', d, w) \<Rightarrow> Some (vs @ vs', d, w)))"

definition probe_threads :: "wireSelector \<Rightarrow> nat" where
  "probe_threads s = nat (let n = ws_probeThreads s; n = (if n < 1 then 1 else n) in if n > 16 then 16 else n)"

definition candidates :: "wireSelector \<Rightarrow> wireChoice list" where
  "candidates s = (case ws_candidateOverride s of Some cs \<Rightarrow> cs | None \<Rightarrow> profileCandidates s)"

text \<open>\<open>Some None\<close>: finished without a validated candidate; \<open>None\<close>: the schedule ends too early.\<close>

definition detectLocked :: "detect_action list \<Rightarrow> wireSelector \<Rightarrow> world \<Rightarrow> (wireChoice option \<times> world) option" where
  "detectLocked as s w =
     (case detect_run (run_probe s) (candidates s) (probe_threads s) as detect_start w of
        None \<Rightarrow> None
      | Some (vs, d, w) \<Rightarrow>
        (case dt_outcome d of Looking \<Rightarrow> None | Selected c \<Rightarrow> Some (Some c, w) | NoneValid \<Rightarrow> Some (None, w)))"

section \<open>The operations of the selector\<close>

definition fix_choice :: "wireChoice \<Rightarrow> wireSelector \<Rightarrow> wireSelector" where
  "fix_choice c s = s\<lparr>ws_resolved := c, ws_hasChoice := True\<rparr>"

definition resolveOnly ::
  "detect_action list \<Rightarrow> wireSelector \<Rightarrow> world \<Rightarrow> ((goerr + wireChoice) \<times> wireSelector \<times> world) option" where
  "resolveOnly as s w =
     (if ws_hasChoice s then Some (Inr (ws_resolved s), s, w)
      else map_option (\<lambda>(found, w). case found of
          None \<Rightarrow> (Inl (Msg ''no validated DragonTCP wire/header profile''), s, w)
        | Some c \<Rightarrow> (Inr c, fix_choice c s, w)) (detectLocked as s w))"

text \<open>The choice for this attempt only, when nothing was validated.\<close>

definition fallback_choice :: "wireSelector \<Rightarrow> wireChoice" where
  "fallback_choice s =
     (if ws_forceClear s \<and> profileCandidates s \<noteq> [] then hd (profileCandidates s)
      else if ws_configured s = WireBP then direct WireBP 0
      else if ws_configured s = WireXOR then direct WireXOR 0
      else direct WireBinary 0)"

definition sel_mode ::
  "detect_action list \<Rightarrow> wireSelector \<Rightarrow> world \<Rightarrow> (wireChoice \<times> wireSelector \<times> world) option" where
  "sel_mode as s w =
     (if ws_hasChoice s then Some (ws_resolved s, s, w)
      else map_option (\<lambda>(found, w). case found of
          Some c \<Rightarrow> (c, fix_choice c s, w)
        | None \<Rightarrow> (fallback_choice s, s, w)) (detectLocked as s w))"

text \<open>What \<^verbatim>\<open>prepare\<close> does with a choice at hand.\<close>

definition calibrate_choice ::
  "int \<Rightarrow> wireChoice \<Rightarrow> wireSelector \<Rightarrow> profileState \<Rightarrow> world \<Rightarrow> wireSelector \<times> profileState \<times> world" where
  "calibrate_choice now choice s st w =
     (if wc_mode choice = WireXOR then
        let xopts = xor_choice choice (ws_xorOpts s);
            ((up, down, persistent), w) = xCalibrate (ws_serverAddr s) (ws_token s) xopts calibrationFineResolution w;
            safeChunk = min up down;
            workers = CalculateParallelWorkers safeChunk;
            xopts = (if workers > xo_pollers xopts then WithPollers workers xopts else xopts);
            xopts = WithCalibratedChunks up down xopts
        in (s\<lparr>ws_xorOpts := xopts\<rparr>, st, w)
      else
        let (profile, st, w) = getPathProfile (ws_serverAddr s) (bytes_of (ws_token s))
              (bin_choice choice (ws_binOpts s)) now st w
        in (s, st, w))"

definition prepare ::
  "detect_action list \<Rightarrow> int \<Rightarrow> wireSelector \<Rightarrow> profileState \<Rightarrow> world
   \<Rightarrow> ((goerr + wireChoice) \<times> wireSelector \<times> profileState \<times> world) option" where
  "prepare as now s st w =
     map_option (\<lambda>(r, s, w). case r of
         Inl e \<Rightarrow> (Inl (Msg ''DragonTCP authentication/wire validation failed''), s, st, w)
       | Inr choice \<Rightarrow> (case calibrate_choice now choice s st w of (s, st, w) \<Rightarrow> (Inr choice, s, st, w)))
       (resolveOnly as s w)"

datatype carrier = BinaryCarrier chunkConn | BPCarrier bpConn | XORCarrier xconn

definition open_choice ::
  "wireChoice \<Rightarrow> string \<Rightarrow> int \<Rightarrow> int \<Rightarrow> wireSelector \<Rightarrow> profileState \<Rightarrow> world
   \<Rightarrow> (goerr + carrier) \<times> profileState \<times> world" where
  "open_choice choice host port now s st w =
     (if wc_mode choice = WireBP then
        (case openBPTunnel (ws_serverAddr s) (bytes_of (ws_token s)) (bytes_of host) port
            (bin_choice choice (ws_binOpts s)) now st w of (r, st, w) \<Rightarrow> (map_sum id BPCarrier r, st, w))
      else if wc_mode choice = WireXOR then
        (case xOpen (ws_serverAddr s) (ws_token s) host port (xor_choice choice (ws_xorOpts s)) w of
           (r, w) \<Rightarrow> (map_sum id XORCarrier r, st, w))
      else
        (case openChunkTunnel (ws_serverAddr s) (bytes_of (ws_token s)) (bytes_of host) port
            (bin_choice choice (ws_binOpts s)) now st w of (r, st, w) \<Rightarrow> (map_sum id BinaryCarrier r, st, w)))"

definition sel_dial ::
  "detect_action list \<Rightarrow> string \<Rightarrow> int \<Rightarrow> int \<Rightarrow> wireSelector \<Rightarrow> profileState \<Rightarrow> world
   \<Rightarrow> ((goerr + carrier) \<times> wireSelector \<times> profileState \<times> world) option" where
  "sel_dial as host port now s st w =
     map_option (\<lambda>(choice, s, w). case open_choice choice host port now s st w of (r, st, w) \<Rightarrow> (r, s, st, w))
       (sel_mode as s w)"

section \<open>The masks\<close>

lemma low_bits_xor: "(a XOR b) AND 7 = (a AND 7) XOR (b AND 7)" for a b :: byte
  by (rule bit.conj_xor_distrib2)

lemma below_cases: "unat x < n \<Longrightarrow> x \<in> word_of_nat ` {..<n}" for x :: "'a::len word"
  by (intro image_eqI [of _ _ "unat x"]) simp_all

lemma low_bits_cases: "hm AND 7 \<in> {0, 1, 2, 3, 4, 5, 6, 7 :: byte}"
proof -
  have "unat (hm AND 7) < 8"
    using word_and_le1 [of hm 7] by (simp add: word_le_nat_alt)
  from below_cases [OF this] show ?thesis by (simp add: lessThan_nat_numeral lessThan_Suc insert_commute)
qed

lemma modes_cases: "m \<le> ModeClose \<longleftrightarrow> m \<in> {0, 1, 2, 3, 4}"
proof
  assume "m \<le> ModeClose"
  then have "unat m < 5" by (simp add: ModeClose_def word_le_nat_alt)
  from below_cases [OF this] show "m \<in> {0, 1, 2, 3, 4}"
    by (simp add: lessThan_nat_numeral lessThan_Suc insert_commute)
qed (auto simp: ModeClose_def)

text \<open>The valid masks are those under which every request mode stays a mode of the binary family.\<close>

lemma validBinaryHeaderMask_iff:
  "validBinaryHeaderMask hm \<longleftrightarrow> (\<forall>m \<le> ModeClose. (m XOR hm) AND 7 = m)"
proof
  assume v: "validBinaryHeaderMask hm"
  show "\<forall>m \<le> ModeClose. (m XOR hm) AND 7 = m"
    using v by (auto simp: validBinaryHeaderMask_def low_bits_xor modes_cases)
next
  assume a: "\<forall>m \<le> ModeClose. (m XOR hm) AND 7 = m"
  have "(0 XOR hm) AND 7 = 0" by (rule a [rule_format]) simp
  then show "validBinaryHeaderMask hm" by (simp add: validBinaryHeaderMask_def)
qed

lemma validBinaryHeaderMask_least:
  assumes "\<forall>m \<le> ModeClose. (m XOR hm) AND 7 \<le> ModeClose"
  shows "validBinaryHeaderMask hm"
proof -
  define k where "k = hm AND 7"
  then have k: "hm AND 7 = k" "k \<in> {0, 1, 2, 3, 4, 5, 6, 7}" using low_bits_cases [of hm] by simp_all
  have a: "(m AND 7) XOR k \<le> ModeClose" if "m \<in> {0, 1, 2, 3, 4}" for m
    using assms that by (simp only: low_bits_xor k(1) modes_cases [symmetric])
  from k(2) a [of 0] a [of 1] a [of 4] have "k = 0" by (auto simp: ModeClose_def)
  with k(1) show ?thesis by (simp add: validBinaryHeaderMask_def)
qed

lemma set_mask_candidates:
  "c \<in> set (concat (map (mask_candidates wantB wantBP wantX) [0..<256])) \<longleftrightarrow>
    (\<exists>hm. (validBinaryHeaderMask hm \<and> (wantB \<and> c = direct WireBinary hm \<or> wantBP \<and> c = direct WireBP hm))
      \<or> (wantX \<and> validXORHeaderMask hm \<and> c = direct WireXOR hm))" (is "?l \<longleftrightarrow> ?r")
proof -
  have e: "(\<exists>n \<in> {0..<256}. P (word_of_nat n :: byte)) \<longleftrightarrow> (\<exists>hm. P hm)" for P
  proof
    assume "\<exists>hm. P hm"
    then obtain hm where "P hm" by blast
    then show "\<exists>n \<in> {0..<256}. P (word_of_nat n :: byte)"
      using unsigned_less [of hm] by (intro bexI [of _ "unat hm"]) simp_all
  qed blast
  have "?l \<longleftrightarrow> (\<exists>n \<in> {0..<256}. c \<in> set (mask_candidates wantB wantBP wantX n))" by simp
  also have "\<dots> \<longleftrightarrow> ?r"
    unfolding mask_candidates_def Let_def e [symmetric] by (rule bex_cong) auto
  finally show ?thesis .
qed

section \<open>What detection keeps\<close>

lemma detect_run_rule:
  assumes start: "P [] d w"
    and step: "\<And>vs a d w vs' d' w'. P vs d w \<Longrightarrow> detect_step probe cs n a d w = Some (vs', d', w') \<Longrightarrow> P (vs @ vs') d' w'"
    and run: "detect_run probe cs n as d w = Some (vs, d', w')"
  shows "P vs d' w'"
proof -
  have "P (us @ vs) d' w'" if "P us d w" "detect_run probe cs n as d w = Some (vs, d', w')" for us vs as d w
    using that
  proof (induction as arbitrary: us vs d w)
    case (Cons a as)
    from Cons.prems(2) obtain v1 d1 w1 v2 where s: "detect_step probe cs n a d w = Some (v1, d1, w1)"
      and r: "detect_run probe cs n as d1 w1 = Some (v2, d', w')" and v: "vs = v1 @ v2"
      by (auto split: option.splits)
    from Cons.IH [OF step [OF Cons.prems(1) s] r] v show ?case by simp
  qed simp
  from this [OF start run] show ?thesis by simp
qed

text \<open>
  The verdicts so far are those received, then those still in the channel; what was launched has
  a verdict or is running; the channel has room for every running goroutine.
\<close>

definition received_ok :: "wireChoice list \<Rightarrow> detection \<Rightarrow> verdict list \<Rightarrow> bool" where
  "received_ok cs d rc \<longleftrightarrow> (case dt_outcome d of
      Looking \<Rightarrow> dt_inflight d = length (dt_running d) + length (dt_results d)
        \<and> dt_completed d = length rc \<and> (\<forall>v \<in> set rc. \<not> snd v)
    | Selected c \<Rightarrow> (\<exists>pre. rc = pre @ [(c, True)] \<and> (\<forall>v \<in> set pre. \<not> snd v))
    | NoneValid \<Rightarrow> dt_next d = length cs \<and> dt_running d = [] \<and> dt_results d = [] \<and> (\<forall>v \<in> set rc. \<not> snd v))"

definition detect_ok :: "wireChoice list \<Rightarrow> nat \<Rightarrow> verdict list \<Rightarrow> detection \<Rightarrow> bool" where
  "detect_ok cs n vs d \<longleftrightarrow> dt_next d \<le> length cs
     \<and> length (dt_running d) + length (dt_results d) \<le> n
     \<and> mset (map fst vs) + mset (dt_running d) = mset (take (dt_next d) cs)
     \<and> (\<exists>rc. vs = rc @ dt_results d \<and> received_ok cs d rc)"

lemma detect_ok_start: "detect_ok cs n [] detect_start"
  by (simp add: detect_ok_def detect_start_def received_ok_def)

lemma mset_remove_at: "i < length xs \<Longrightarrow> mset xs = add_mset (xs ! i) (mset (take i xs @ drop (Suc i) xs))"
  by (metis id_take_nth_drop mset.simps(2) mset_append union_mset_add_mset_right)

lemma detect_ok_launch:
  assumes "detect_ok cs n vs d" and "dt_outcome d = Looking" "dt_next d < length cs" "dt_inflight d < n"
  shows "detect_ok cs n vs (d\<lparr>dt_next := dt_next d + 1, dt_inflight := dt_inflight d + 1,
    dt_running := dt_running d @ [cs ! dt_next d]\<rparr>)"
proof -
  have "mset (take (Suc (dt_next d)) cs) = mset (take (dt_next d) cs) + {#cs ! dt_next d#}"
    using assms(3) by (simp add: take_Suc_conv_app_nth)
  with assms show ?thesis by (auto simp: detect_ok_def received_ok_def)
qed

lemma detect_ok_probed:
  assumes "detect_ok cs n vs d" and m: "mset (dt_running d) = add_mset c (mset rest)"
  shows "detect_ok cs n (vs @ [(c, b)]) (d\<lparr>dt_running := rest, dt_results := dt_results d @ [(c, b)]\<rparr>)"
proof -
  have len: "length (dt_running d) = Suc (length rest)" using m by (metis size_add_mset size_mset)
  then have ne: "dt_running d \<noteq> []" by auto
  from assms(1) obtain rc where rc: "vs = rc @ dt_results d" "received_ok cs d rc"
    by (auto simp: detect_ok_def)
  from rc(2) len ne have "received_ok cs (d\<lparr>dt_running := rest, dt_results := dt_results d @ [(c, b)]\<rparr>) rc"
    by (cases "dt_outcome d") (simp_all add: received_ok_def)
  with rc(1) assms len show ?thesis by (simp add: detect_ok_def)
qed

lemma detect_ok_received:
  assumes "detect_ok cs n vs d" and "dt_results d = (c, b) # rs" "dt_outcome d = Looking"
  shows "detect_ok cs n vs (d\<lparr>dt_results := rs, dt_inflight := dt_inflight d - 1,
    dt_completed := dt_completed d + 1, dt_outcome := (if b then Selected c else Looking)\<rparr>)" (is "detect_ok _ _ _ ?d")
proof -
  from assms obtain rc where rc: "vs = rc @ (c, b) # rs" "received_ok cs d rc"
    by (auto simp: detect_ok_def)
  then have "vs = (rc @ [(c, b)]) @ dt_results ?d" "received_ok cs ?d (rc @ [(c, b)])"
    using assms(2,3) by (simp_all add: received_ok_def)
  then have "\<exists>rc. vs = rc @ dt_results ?d \<and> received_ok cs ?d rc" by blast
  with assms show ?thesis by (simp add: detect_ok_def)
qed

lemma detect_ok_step:
  assumes ok: "detect_ok cs n vs d" and s: "detect_step probe cs n a d w = Some (vs', d', w')"
  shows "detect_ok cs n (vs @ vs') d'"
proof (cases a)
  case Launch
  with s ok show ?thesis by (auto simp del: One_nat_def split: if_splits intro: detect_ok_launch)
next
  case (RunProbe i)
  define rest where "rest = take i (dt_running d) @ drop (Suc i) (dt_running d)"
  from s RunProbe obtain b where l: "i < length (dt_running d)" "vs' = [(dt_running d ! i, b)]"
    "d' = d\<lparr>dt_running := rest, dt_results := dt_results d @ [(dt_running d ! i, b)]\<rparr>"
    by (auto simp: Let_def rest_def split: if_splits prod.splits)
  from detect_ok_probed [OF ok mset_remove_at [OF l(1), folded rest_def], of b] l show ?thesis by simp
next
  case Receive
  with s obtain c b rs where l: "dt_results d = (c, b) # rs" "dt_outcome d = Looking" "vs' = []"
    "d' = d\<lparr>dt_results := rs, dt_inflight := dt_inflight d - 1, dt_completed := dt_completed d + 1,
       dt_outcome := (if b then Selected c else Looking)\<rparr>"
    by (simp split: list.splits if_splits prod.splits)
  with detect_ok_received [OF ok l(1,2)] show ?thesis by simp
next
  case Finish
  with s ok show ?thesis by (auto simp: detect_ok_def received_ok_def split: if_splits)
qed

text \<open>Every step uses up some of the work there is.\<close>

definition detect_work :: "wireChoice list \<Rightarrow> detection \<Rightarrow> nat" where
  "detect_work cs d = 3 * (length cs - dt_next d) + 2 * length (dt_running d) + length (dt_results d)
     + (if dt_outcome d = Looking then 1 else 0)"

lemma detect_work_step:
  "detect_step probe cs n a d w = Some (vs, d', w') \<Longrightarrow> detect_work cs d' < detect_work cs d"
  by (cases a) (auto simp: detect_work_def Let_def split: if_splits prod.splits list.splits)

lemma detect_run_length:
  "detect_run probe cs n as d w = Some (vs, d', w') \<Longrightarrow> length as + detect_work cs d' \<le> detect_work cs d"
proof (induction as arbitrary: d w vs)
  case (Cons a as)
  then obtain v1 d1 w1 v2 where s: "detect_step probe cs n a d w = Some (v1, d1, w1)"
    and r: "detect_run probe cs n as d1 w1 = Some (v2, d', w')"
    by (auto split: option.splits)
  from detect_work_step [OF s] Cons.IH [OF r] show ?case by simp
qed simp

lemma detect_progress:
  assumes ok: "detect_ok cs n vs d" and "0 < n" and "dt_outcome d = Looking"
  shows "\<exists>a res. detect_step probe cs n a d w = Some res"
proof (cases "dt_running d")
  case (Cons c rest)
  with ok have "length (dt_results d) < n" by (auto simp: detect_ok_def)
  with Cons show ?thesis by (intro exI [of _ "RunProbe 0"]) (auto split: prod.splits)
next
  case Nil
  show ?thesis
  proof (cases "dt_results d")
    case (Cons v rs)
    with assms(3) show ?thesis by (intro exI [of _ Receive]) (cases v, auto)
  next
    case Nil2: Nil
    with Nil ok assms(3) have "dt_inflight d = 0" by (auto simp: detect_ok_def received_ok_def)
    with assms show ?thesis
      by (cases "dt_next d < length cs") (auto intro: exI [of _ Launch] exI [of _ Finish])
  qed
qed

lemma probe_threads_bounds: "0 < probe_threads s" "probe_threads s \<le> 16"
  by (auto simp: probe_threads_def Let_def)

text \<open>With one goroutine at a time the candidates are tried in order.\<close>

definition detect_order :: "wireChoice list \<Rightarrow> verdict list \<Rightarrow> detection \<Rightarrow> bool" where
  "detect_order cs vs d \<longleftrightarrow> map fst vs @ dt_running d = take (dt_next d) cs
     \<and> (dt_outcome d \<noteq> Looking \<longrightarrow> dt_running d = [] \<and> dt_results d = [])"

lemma detect_order_step:
  assumes "detect_ok cs 1 vs d" and "detect_order cs vs d" and s: "detect_step probe cs 1 a d w = Some (vs', d', w')"
  shows "detect_order cs (vs @ vs') d'"
proof (cases a)
  case Launch
  with s have l: "dt_outcome d = Looking" "dt_next d < length cs" "vs' = []"
    "d' = d\<lparr>dt_next := dt_next d + 1, dt_inflight := dt_inflight d + 1, dt_running := dt_running d @ [cs ! dt_next d]\<rparr>"
    by (auto split: if_splits)
  have "take (Suc (dt_next d)) cs = take (dt_next d) cs @ [cs ! dt_next d]"
    by (rule take_Suc_conv_app_nth [OF l(2)])
  with l assms(2) show ?thesis by (simp add: detect_order_def)
next
  case (RunProbe i)
  with s obtain b where l: "i < length (dt_running d)" "length (dt_results d) < 1" "vs' = [(dt_running d ! i, b)]"
    "d' = d\<lparr>dt_running := take i (dt_running d) @ drop (Suc i) (dt_running d), dt_results := dt_results d @ [(dt_running d ! i, b)]\<rparr>"
    by (auto simp: Let_def split: if_splits prod.splits)
  have "length (dt_running d) \<le> 1" using assms(1) by (simp add: detect_ok_def)
  with l(1) obtain c where "dt_running d = [c]" "i = 0" by (cases "dt_running d") auto
  with l assms(2) show ?thesis by (auto simp: detect_order_def)
next
  case Receive
  with s obtain c b rs where l: "dt_results d = (c, b) # rs" "dt_outcome d = Looking" "vs' = []"
    "d' = d\<lparr>dt_results := rs, dt_inflight := dt_inflight d - 1, dt_completed := dt_completed d + 1,
       dt_outcome := (if b then Selected c else Looking)\<rparr>"
    by (simp split: list.splits if_splits prod.splits)
  moreover have "rs = []" "dt_running d = []" using assms(1) l(1) by (simp_all add: detect_ok_def)
  ultimately show ?thesis using assms(2) by (auto simp: detect_order_def)
next
  case Finish
  with s assms show ?thesis by (auto simp: detect_order_def detect_ok_def received_ok_def split: if_splits)
qed

lemma detect_run_order:
  assumes "detect_run probe cs 1 as detect_start w = Some (vs, d, w')"
  shows "detect_ok cs 1 vs d \<and> detect_order cs vs d"
proof (rule detect_run_rule [where P = "\<lambda>vs d w. detect_ok cs 1 vs d \<and> detect_order cs vs d", OF _ _ assms])
  show "detect_ok cs 1 [] detect_start \<and> detect_order cs [] detect_start"
    by (rule conjI [OF detect_ok_start]) (simp add: detect_order_def detect_start_def)
next
  fix vs a d w vs' d' w'
  assume k: "detect_ok cs 1 vs d \<and> detect_order cs vs d" and s: "detect_step probe cs 1 a d w = Some (vs', d', w')"
  from detect_ok_step [OF _ s] detect_order_step [OF _ _ s] k
  show "detect_ok cs 1 (vs @ vs') d' \<and> detect_order cs (vs @ vs') d'" by blast
qed

section \<open>What the selector keeps of the world\<close>

lemma probeBPProfile_quiet:
  assumes "quiet X w"
  shows "quiet X (snd (probeBPProfile srv opts w))"
proof -
  obtain r w1 where r: "randomSessionID w = (r, w1)" by fastforce
  from randomSessionID_step [OF r] assms have q1: "quiet X w1" by simp
  show ?thesis
  proof (cases r)
    case (Inl e)
    with r q1 show ?thesis by (simp add: probeBPProfile_def)
  next
    case (Inr sid)
    define t where "t = (if txnTimeout opts \<le> 0 \<or> txnTimeout opts > profileProbeTimeout
      then profileProbeTimeout else txnTimeout opts)"
    let ?l = "newRequestLane srv (o_tcpBuffer opts) 1 t (o_headerMask opts) (o_coverProfile opts)"
    let ?p = "bytes_of ''BHP1'' @ [1, bpModeUpload] @ put32 0"
    have ok: "lane_ok ?l w1" using q1 by (simp add: lane_ok_new quiet_def)
    obtain res l3 w3 where s: "bp_single bpModeProbe sid 0 ?p 0 ?l w1 = (res, l3, w3)" by (metis prod.collapse)
    from bp_single_keeps [OF ok s] have k: "lane_ok l3 w3" "lane_step ?l w1 l3 w3" by simp_all
    from lane_close_quiet [OF q1 k] have "quiet X (snd (closeLane l3 w3))" .
    with r Inr s show ?thesis by (simp add: probeBPProfile_def t_def [symmetric] Let_def)
  qed
qed

lemma ProbeProfile_keeps: "quiet X w \<Longrightarrow> quiet X (snd (ProbeProfile srv token opts w))"
  using ProbeProfile_quiet [of w srv token opts "fst (ProbeProfile srv token opts w)" "snd (ProbeProfile srv token opts w)"]
  by (simp add: quiet_def)

lemma run_probe_quiet: "quiet X w \<Longrightarrow> quiet X (snd (run_probe s c w))"
  by (simp add: run_probe_def sel_probe_def Let_def ProbeProfile_keeps probeBPProfile_quiet probeOne_quiet split: option.split)

lemma detect_step_keeps:
  assumes "\<And>c w. P w \<Longrightarrow> P (snd (probe c w))" and "P w" and "detect_step probe cs n a d w = Some (vs, d', w')"
  shows "P w'"
  using assms(2,3) assms(1) [of w]
  by (cases a) (auto simp: Let_def split: if_splits prod.splits list.splits, metis snd_conv)

lemma detect_run_keeps:
  assumes "\<And>c w. P w \<Longrightarrow> P (snd (probe c w))"
  shows "P w \<Longrightarrow> detect_run probe cs n as d w = Some (vs, d', w') \<Longrightarrow> P w'"
proof (induction as arbitrary: d w vs)
  case (Cons a as)
  then obtain v1 d1 w1 v2 where s: "detect_step probe cs n a d w = Some (v1, d1, w1)"
    and r: "detect_run probe cs n as d1 w1 = Some (v2, d', w')"
    by (auto split: option.splits)
  from detect_step_keeps [where P = P, OF assms Cons.prems(1) s] Cons.IH [OF _ r] show ?case by blast
qed simp

lemma detectLocked_cases:
  assumes "detectLocked as s w = Some (found, w')"
  obtains vs d where "detect_run (run_probe s) (candidates s) (probe_threads s) as detect_start w = Some (vs, d, w')"
    "dt_outcome d = (case found of None \<Rightarrow> NoneValid | Some c \<Rightarrow> Selected c)"
  using assms by (auto simp: detectLocked_def split: option.splits outcome.splits)

lemma detectLocked_quiet: "quiet X w \<Longrightarrow> detectLocked as s w = Some (found, w') \<Longrightarrow> quiet X w'"
  by (erule detectLocked_cases) (rule detect_run_keeps [where P = "quiet X", OF run_probe_quiet])

lemma resolveOnly_quiet: "quiet X w \<Longrightarrow> resolveOnly as s w = Some (r, s', w') \<Longrightarrow> quiet X w'"
  by (auto simp: resolveOnly_def split: if_splits option.splits dest: detectLocked_quiet)

lemma sel_mode_quiet: "quiet X w \<Longrightarrow> sel_mode as s w = Some (c, s', w') \<Longrightarrow> quiet X w'"
  by (auto simp: sel_mode_def split: if_splits option.splits dest: detectLocked_quiet)

lemma xCalibrate_quiet:
  assumes "quiet X w" and "xo_minSize opts \<le> int MaxChunkPayload"
  shows "quiet X (snd (xCalibrate srv token opts fine w))"
proof -
  let ?o = "xNormalizeBounds opts"
  obtain up w1 where u: "calibrateMaximum (probeCalibrationSize srv token ?o False) fine ?o w = (up, w1)" by fastforce
  obtain dn w2 where d: "calibrateMaximum (probeCalibrationSize srv token ?o True) fine ?o w1 = (dn, w2)" by fastforce
  have b: "xo_minSize ?o \<le> xo_maxSize ?o" using xNormalizeBounds_ok [OF assms(2)] by simp
  from calibrateMaximum_proven [OF assms(1) b u] have "quiet X w1" by simp
  from calibrateMaximum_proven [OF this b d] have "quiet X w2" by simp
  from xprobePersistent_quiet [OF this, of srv token ?o] u d show ?thesis
    by (auto simp: xCalibrate_def Let_def split: prod.splits)
qed

lemma calibrate_choice_quiet:
  assumes "quiet X w" and "xo_minSize (ws_xorOpts s) \<le> int MaxChunkPayload"
    and c: "calibrate_choice now choice s st w = (s', st', w')"
  shows "quiet X w'"
proof (cases "wc_mode choice = WireXOR")
  case True
  have "xo_minSize (xor_choice choice (ws_xorOpts s)) \<le> int MaxChunkPayload"
    using assms(2) by (simp add: xor_choice_def WithCoverProfile_def WithHeaderMask_def)
  from xCalibrate_quiet [OF assms(1) this, of "ws_serverAddr s" "ws_token s" calibrationFineResolution] c True show ?thesis
    by (auto simp: calibrate_choice_def Let_def split: prod.splits)
next
  case False
  from getPathProfile_quiet [OF assms(1), of "ws_serverAddr s" "bytes_of (ws_token s)" "bin_choice choice (ws_binOpts s)" now st]
    c False show ?thesis
    by (auto simp: calibrate_choice_def Let_def split: prod.splits)
qed

lemma prepare_cases:
  assumes "prepare as now s st w = Some (r, s', st', w')"
  obtains e where "resolveOnly as s w = Some (Inl e, s', w')" "st' = st" "\<exists>e. r = Inl e"
  | c s1 w1 where "resolveOnly as s w = Some (Inr c, s1, w1)" "calibrate_choice now c s1 st w1 = (s', st', w')" "r = Inr c"
proof -
  from assms obtain m where m: "resolveOnly as s w = Some m" by (auto simp: prepare_def)
  obtain r1 s1 w1 where e: "m = (r1, s1, w1)" by (metis prod.collapse)
  show ?thesis
  proof (cases r1)
    case (Inl x)
    with assms m e show ?thesis by (intro that(1) [of x]) (auto simp: prepare_def)
  next
    case (Inr c)
    obtain s2 st2 w2 where "calibrate_choice now c s1 st w1 = (s2, st2, w2)" by (metis prod.collapse)
    with Inr assms m e show ?thesis by (intro that(2) [of c s1 w1]) (auto simp: prepare_def)
  qed
qed

lemma prepare_quiet:
  assumes "quiet X w" and "xo_minSize (ws_xorOpts s) \<le> int MaxChunkPayload" and "prepare as now s st w = Some (r, s', st', w')"
  shows "quiet X w'"
proof -
  obtain r1 s1 w1 where r: "resolveOnly as s w = Some (r1, s1, w1)"
    using assms(3) by (auto simp: prepare_def)
  from resolveOnly_quiet [OF assms(1) r] have q: "quiet X w1" .
  have x: "ws_xorOpts s1 = ws_xorOpts s"
    using r by (auto simp: resolveOnly_def fix_choice_def split: if_splits option.splits)
  show ?thesis
  proof (cases r1)
    case (Inl e)
    with r q assms(3) show ?thesis by (simp add: prepare_def)
  next
    case (Inr c)
    obtain s2 st2 w2 where c: "calibrate_choice now c s1 st w1 = (s2, st2, w2)" by (metis prod.collapse)
    from calibrate_choice_quiet [OF q _ c] x assms(2) Inr c r assms(3) show ?thesis by (simp add: prepare_def)
  qed
qed

section \<open>The wire that was opened\<close>

fun carrier_ok :: "carrier \<Rightarrow> world \<Rightarrow> bool" where
  "carrier_ok (BinaryCarrier c) w = conn_ok c w"
| "carrier_ok (BPCarrier c) w = bp_ok c w"
| "carrier_ok (XORCarrier c) w = xc_ok c w"

text \<open>The connections open in the world that are not the carrier's.\<close>

fun carrier_others :: "carrier \<Rightarrow> world \<Rightarrow> nat set" where
  "carrier_others (BinaryCarrier c) w = others c w"
| "carrier_others (BPCarrier c) w = others c w"
| "carrier_others (XORCarrier c) w = xothers c w"

fun carrier_wire :: "carrier \<Rightarrow> string" where
  "carrier_wire (BinaryCarrier c) = WireBinary"
| "carrier_wire (BPCarrier c) = WireBP"
| "carrier_wire (XORCarrier c) = WireXOR"

definition wire_of :: "wireChoice \<Rightarrow> string" where
  "wire_of c = (if wc_mode c = WireBP \<or> wc_mode c = WireXOR then wc_mode c else WireBinary)"

lemma open_choice_wire: "open_choice choice host port now s st w = (Inr c, st', w') \<Longrightarrow> carrier_wire c = wire_of choice"
  by (auto simp: open_choice_def wire_of_def wires map_sum_def split: if_splits prod.splits sum.splits)

lemma open_choice_sound:
  assumes q: "quiet X w" and mn: "minSize (ws_binOpts s) \<le> 1048576"
    and o: "open_choice choice host port now s st w = (r, st', w')"
  shows "case r of Inl e \<Rightarrow> live (w_log w') = X
    | Inr c \<Rightarrow> carrier_ok c w' \<and> carrier_others c w' = X"
proof -
  let ?b = "bin_choice choice (ws_binOpts s)" and ?x = "xor_choice choice (ws_xorOpts s)"
  have mn': "minSize ?b \<le> 1048576" using mn by (simp add: bin_choice_def)
  have w: "world_ok w" "live (w_log w) = X" using q by (simp_all add: quiet_def)
  consider "wc_mode choice = WireBP" | "wc_mode choice = WireXOR" | "wc_mode choice \<noteq> WireBP" "wc_mode choice \<noteq> WireXOR" by blast
  then show ?thesis
  proof cases
    case 1
    obtain r1 st1 w1 where p: "openBPTunnel (ws_serverAddr s) (bytes_of (ws_token s)) (bytes_of host) port ?b now st w = (r1, st1, w1)"
      by (metis prod.collapse)
    from openBPTunnel_post [OF w(1) mn' p] o p 1 w(2) show ?thesis
      by (cases r1) (auto simp: open_choice_def)
  next
    case 2
    obtain r1 w1 where p: "xOpen (ws_serverAddr s) (ws_token s) host port ?x w = (r1, w1)" by fastforce
    have "WireXOR \<noteq> WireBP" by (simp add: wires)
    with xOpen_step [OF w(1) p] o p 2 w(2) show ?thesis
      by (cases r1) (auto simp: open_choice_def)
  next
    case 3
    obtain r1 st1 w1 where p: "openChunkTunnel (ws_serverAddr s) (bytes_of (ws_token s)) (bytes_of host) port ?b now st w = (r1, st1, w1)"
      by (metis prod.collapse)
    from openChunkTunnel_post [OF w(1) mn' p] o p 3 w(2) show ?thesis
      by (cases r1) (auto simp: open_choice_def open_post_def others_def)
  qed
qed

section \<open>Histories of a selector\<close>

datatype sel_op =
    Resolve "detect_action list"
  | Prepare "detect_action list" int
  | Dial "detect_action list" string int int

text \<open>One operation; the carriers it opened come with the new state.\<close>

fun sel_do ::
  "sel_op \<Rightarrow> wireSelector \<Rightarrow> profileState \<Rightarrow> world
   \<Rightarrow> (carrier list \<times> wireSelector \<times> profileState \<times> world) option" where
  "sel_do (Resolve as) s st w = map_option (\<lambda>(r, s, w). ([], s, st, w)) (resolveOnly as s w)"
| "sel_do (Prepare as now) s st w = map_option (\<lambda>(r, s, st, w). ([], s, st, w)) (prepare as now s st w)"
| "sel_do (Dial as host port now) s st w = map_option (\<lambda>(r, s, st, w).
     ((case r of Inl e \<Rightarrow> [] | Inr c \<Rightarrow> [c]), s, st, w)) (sel_dial as host port now s st w)"

fun sel_run ::
  "sel_op list \<Rightarrow> wireSelector \<Rightarrow> profileState \<Rightarrow> world
   \<Rightarrow> (carrier list \<times> wireSelector \<times> profileState \<times> world) option" where
  "sel_run [] s st w = Some ([], s, st, w)"
| "sel_run (a # as) s st w = (case sel_do a s st w of None \<Rightarrow> None
     | Some (cs, s, st, w) \<Rightarrow> map_option (\<lambda>(cs', s, st, w). (cs @ cs', s, st, w)) (sel_run as s st w))"

text \<open>What no operation changes, and the choice once there is one.\<close>

definition sel_config :: "wireSelector \<Rightarrow> string \<times> bool \<times> wireChoice list option \<times> (wireChoice \<Rightarrow> bool) option \<times> int" where
  "sel_config s = (ws_configured s, ws_forceClear s, ws_candidateOverride s, ws_probeOverride s, ws_probeThreads s)"

definition sel_step :: "wireSelector \<Rightarrow> wireSelector \<Rightarrow> bool" where
  "sel_step s s' \<longleftrightarrow> sel_config s' = sel_config s
     \<and> (ws_hasChoice s \<longrightarrow> ws_hasChoice s' \<and> ws_resolved s' = ws_resolved s)
     \<and> (\<not> ws_hasChoice s \<and> ws_hasChoice s' \<longrightarrow> ws_resolved s' \<in> set (candidates s))"

lemma sel_config_candidates: "sel_config s' = sel_config s \<Longrightarrow> candidates s' = candidates s"
  by (simp add: sel_config_def candidates_def profileCandidates_def split: option.split)

lemma sel_step_refl [simp]: "sel_step s s"
  by (simp add: sel_step_def)

lemma sel_step_trans: "sel_step s s1 \<Longrightarrow> sel_step s1 s2 \<Longrightarrow> sel_step s s2"
  by (auto simp: sel_step_def dest: sel_config_candidates)

lemma sel_step_xorOpts [simp]: "sel_step s (s'\<lparr>ws_xorOpts := x\<rparr>) = sel_step s s'"
  by (simp add: sel_step_def sel_config_def)

lemma detect_run_ok: "detect_run probe cs n as detect_start w = Some (vs, d, w') \<Longrightarrow> detect_ok cs n vs d"
  by (rule detect_run_rule [where P = "\<lambda>vs d w. detect_ok cs n vs d", OF detect_ok_start detect_ok_step])

lemma detect_ok_selected:
  assumes "detect_ok cs n vs d" and "dt_outcome d = Selected c"
  shows "(c, True) \<in> set vs \<and> c \<in> set cs"
proof -
  from assms obtain pre where v: "vs = (pre @ [(c, True)]) @ dt_results d"
    by (auto simp: detect_ok_def received_ok_def)
  then have "c \<in># mset (map fst vs) + mset (dt_running d)" by simp
  also have "mset (map fst vs) + mset (dt_running d) = mset (take (dt_next d) cs)"
    using assms(1) by (simp add: detect_ok_def)
  finally show ?thesis using v by (auto dest: in_set_takeD)
qed

lemma detectLocked_candidate: "detectLocked as s w = Some (Some c, w') \<Longrightarrow> c \<in> set (candidates s)"
  by (erule detectLocked_cases) (auto dest!: detect_run_ok dest: detect_ok_selected)

lemma sel_step_fix: "\<not> ws_hasChoice s \<Longrightarrow> c \<in> set (candidates s) \<Longrightarrow> sel_step s (fix_choice c s)"
  by (simp add: sel_step_def fix_choice_def sel_config_def)

lemma resolveOnly_found:
  assumes "resolveOnly as s w = Some (Inr c, s', w')"
  shows "ws_hasChoice s' \<and> ws_resolved s' = c \<and> ws_binOpts s' = ws_binOpts s \<and> ws_serverAddr s' = ws_serverAddr s
    \<and> ws_token s' = ws_token s \<and> ws_xorOpts s' = ws_xorOpts s"
proof (cases "ws_hasChoice s")
  case True
  with assms show ?thesis by (auto simp: resolveOnly_def)
next
  case False
  show ?thesis
  proof (cases "detectLocked as s w")
    case None
    with False assms show ?thesis by (simp add: resolveOnly_def)
  next
    case (Some m)
    with False assms show ?thesis by (cases m, cases "fst m") (auto simp: resolveOnly_def fix_choice_def)
  qed
qed

lemma resolveOnly_sel: "resolveOnly as s w = Some (r, s', w') \<Longrightarrow> sel_step s s'"
  by (auto simp: resolveOnly_def split: if_splits option.splits dest: detectLocked_candidate intro: sel_step_fix)

lemma sel_mode_cases:
  assumes "sel_mode as s w = Some (c, s', w')"
  obtains "ws_hasChoice s" "c = ws_resolved s" "s' = s"
  | "\<not> ws_hasChoice s" "c \<in> set (candidates s)" "s' = fix_choice c s" "detectLocked as s w = Some (Some c, w')"
  | "\<not> ws_hasChoice s" "s' = s" "detectLocked as s w = Some (None, w')" "c = fallback_choice s"
proof (cases "ws_hasChoice s")
  case True
  then show ?thesis using assms by (intro that(1)) (auto simp: sel_mode_def)
next
  case False
  have "detectLocked as s w \<noteq> None" using False assms by (cases "detectLocked as s w") (simp_all add: sel_mode_def)
  then obtain found w1 where f: "detectLocked as s w = Some (found, w1)" by (metis not_None_eq surj_pair)
  show ?thesis
  proof (cases found)
    case None
    with f False assms show ?thesis by (intro that(3)) (auto simp: sel_mode_def)
  next
    case (Some x)
    with f False assms detectLocked_candidate [of as s w x w1] show ?thesis by (intro that(2)) (auto simp: sel_mode_def)
  qed
qed

lemma sel_mode_sel: "sel_mode as s w = Some (c, s', w') \<Longrightarrow> sel_step s s' \<and> (ws_hasChoice s' \<longrightarrow> c = ws_resolved s')"
  by (erule sel_mode_cases) (simp_all add: sel_step_fix, simp add: fix_choice_def)

lemma sel_dial_cases:
  assumes "sel_dial as host port now s st w = Some (r, s', st', w')"
  obtains c w1 where "sel_mode as s w = Some (c, s', w1)" "open_choice c host port now s' st w1 = (r, st', w')"
proof -
  from assms obtain m where m: "sel_mode as s w = Some m" by (auto simp: sel_dial_def)
  obtain c s1 w1 where e: "m = (c, s1, w1)" by (metis prod.collapse)
  obtain r1 st1 w2 where o: "open_choice c host port now s1 st w1 = (r1, st1, w2)" by (metis prod.collapse)
  from that m e o assms show ?thesis by (simp add: sel_dial_def)
qed

lemma calibrate_choice_sel: "calibrate_choice now c s st w = (s', st', w') \<Longrightarrow> sel_step s s'"
  by (auto simp: calibrate_choice_def Let_def split: if_splits prod.splits)

lemma sel_do_step:
  assumes d: "sel_do a s st w = Some (cs, s', st', w')"
  shows "sel_step s s' \<and> (ws_hasChoice s' \<longrightarrow> (\<forall>c \<in> set cs. carrier_wire c = wire_of (ws_resolved s')))"
proof (cases a)
  case (Resolve as)
  with d show ?thesis by (auto dest: resolveOnly_sel)
next
  case (Prepare as now)
  with d obtain r where p: "prepare as now s st w = Some (r, s', st', w')" and cs: "cs = []" by auto
  then obtain r1 s1 w1 where r: "resolveOnly as s w = Some (r1, s1, w1)" by (auto simp: prepare_def)
  from resolveOnly_sel [OF r] have s1: "sel_step s s1" .
  show ?thesis
  proof (cases r1)
    case (Inl e)
    with p r s1 cs show ?thesis by (simp add: prepare_def)
  next
    case (Inr c)
    obtain s2 st2 w2 where c: "calibrate_choice now c s1 st w1 = (s2, st2, w2)" by (metis prod.collapse)
    from calibrate_choice_sel [OF c] s1 p r Inr c cs show ?thesis
      by (auto simp: prepare_def intro: sel_step_trans)
  qed
next
  case (Dial as host port now)
  with d obtain r where p: "sel_dial as host port now s st w = Some (r, s', st', w')"
    and cs: "cs = (case r of Inl e \<Rightarrow> [] | Inr c \<Rightarrow> [c])" by auto
  from p obtain c w1 where m: "sel_mode as s w = Some (c, s', w1)"
    and o: "open_choice c host port now s' st w1 = (r, st', w')" by (rule sel_dial_cases)
  from sel_mode_sel [OF m] open_choice_wire [of c host port now s' st w1 _ st' w'] o cs show ?thesis
    by (cases r) auto
qed

lemma sel_run_step:
  "sel_run as s st w = Some (cs, s', st', w') \<Longrightarrow>
   sel_step s s' \<and> (ws_hasChoice s \<longrightarrow> (\<forall>c \<in> set cs. carrier_wire c = wire_of (ws_resolved s)))"
proof (induction as arbitrary: s st w cs)
  case (Cons a as)
  from Cons.prems obtain cs1 s1 st1 w1 where d: "sel_do a s st w = Some (cs1, s1, st1, w1)"
    by (auto split: option.splits)
  with Cons.prems obtain cs2 where r: "sel_run as s1 st1 w1 = Some (cs2, s', st', w')" and cs: "cs = cs1 @ cs2"
    by auto
  from sel_do_step [OF d] Cons.IH [OF r] have t: "sel_step s s1" "sel_step s1 s'"
    "ws_hasChoice s1 \<longrightarrow> (\<forall>c \<in> set (cs1 @ cs2). carrier_wire c = wire_of (ws_resolved s1))" by auto
  moreover have "ws_hasChoice s \<longrightarrow> ws_hasChoice s1 \<and> ws_resolved s1 = ws_resolved s" using t(1) by (simp add: sel_step_def)
  ultimately show ?case using cs by (auto intro: sel_step_trans)
qed simp

section \<open>Opening after preparing\<close>

definition in_range :: "chunkClientOptions \<Rightarrow> bool" where
  "in_range opts \<longleftrightarrow> 32 \<le> minSize opts \<and> minSize opts \<le> maxSize opts \<and> maxSize opts \<le> 1048576 \<and> 1 \<le> o_shrinkAfter opts"

text \<open>What the cache key reads is not changed by the normalisation of options in range.\<close>

definition same_key :: "chunkClientOptions \<Rightarrow> chunkClientOptions \<Rightarrow> bool" where
  "same_key opts x \<longleftrightarrow> minSize x = minSize opts \<and> maxSize x = maxSize opts \<and> o_headerMask x = o_headerMask opts
     \<and> o_coverProfile x = o_coverProfile opts \<and> forceMaxStart x = forceMaxStart opts
     \<and> o_shrinkAfter x = o_shrinkAfter opts \<and> o_shrinkStep x = o_shrinkStep opts
     \<and> skipPathProbe x = skipPathProbe opts"

lemma same_key_path: "same_key opts x \<Longrightarrow> path_key srv token x = path_key srv token opts"
  by (simp add: same_key_def path_key_def)

lemma same_key_normalize:
  assumes "in_range opts"
  shows "same_key opts (normalize_options opts)"
  unfolding normalize_options_def
  supply k = let_rule [where P = "same_key opts" and J = "same_key opts"]
  by (rule k, use assms in \<open>simp add: same_key_def in_range_def\<close>)+ (simp add: same_key_def)

lemma same_key_normalize_bp:
  assumes "in_range opts"
  shows "same_key opts (normalize_bp_options opts)"
  unfolding normalize_bp_options_def
  supply k = let_rule [where P = "same_key opts" and J = "same_key opts"]
  by (rule k, use assms in \<open>simp add: same_key_def in_range_def\<close>)+ (simp add: same_key_def)

lemma cached_profile:
  "ps_key st = path_key srv token opts \<Longrightarrow> now - pp_at (ps_p st) < 1800000000000 \<Longrightarrow>
   getPathProfile srv token opts now st w = (ps_p st, st, w)"
  by (simp add: getPathProfile_def)

lemma getPathProfile_stored:
  "getPathProfile srv token opts now st w = (p, st', w') \<Longrightarrow> ps_key st' = path_key srv token opts \<and> p = ps_p st'
    \<and> (ps_key st \<noteq> path_key srv token opts \<longrightarrow> pp_at (ps_p st') = now)"
  by (auto simp: getPathProfile_def Let_def split: if_splits prod.splits)

lemma sends_close [simp]: "sends (snd (closeLane l w)) = sends w"
  by (auto simp: closeLane_def discardLocked_def sends_def requests_def log_event_def split: option.split)

lemma sends_sid: "randomSessionID w = (r, w') \<Longrightarrow> sends w' = sends w \<and> (world_ok w \<longrightarrow> world_ok w')"
  by (auto simp: randomSessionID_def take_rng_def sends_def requests_def world_ok_def split: sum.splits)

lemma openChunkTunnel_sends:
  assumes w: "world_ok w" and o: "openChunkTunnel srv token host port opts0 now st w = (r, st', w')"
    and c: "skipPathProbe (normalize_options opts0) \<or> getPathProfile srv token (normalize_options opts0) now st w = (p, st, w)"
  shows "sends w' \<le> sends w + 2 \<and> st' = st"
proof -
  let ?n = "normalize_options opts0"
  define pr where "pr = (if skipPathProbe ?n
      then \<lparr>pp_upload = if forceMaxStart ?n then maxSize ?n else minSize ?n,
             pp_download = if forceMaxStart ?n then maxSize ?n else minSize ?n, pp_pollers = 0,
             pp_persistent = False, pp_at = now\<rparr> else p)"
  have f: "(if skipPathProbe ?n
      then (\<lparr>pp_upload = if forceMaxStart ?n then maxSize ?n else minSize ?n,
             pp_download = if forceMaxStart ?n then maxSize ?n else minSize ?n, pp_pollers = 0,
             pp_persistent = False, pp_at = now\<rparr>, st, w)
      else getPathProfile srv token ?n now st w) = (pr, st, w)" using c by (auto simp: pr_def)
  define opts where "opts = (if \<not> skipPathProbe ?n \<and> pp_pollers pr > pollers ?n
                  then ?n\<lparr>pollers := pp_pollers pr\<rparr> else ?n)"
  obtain rs w2 where rs: "randomSessionID w = (rs, w2)" by fastforce
  from sends_sid [OF rs] w have s2: "sends w2 = sends w" "world_ok w2" by simp_all
  let ?lane = "newRequestLane srv (o_tcpBuffer opts) (o_reconnectEvery opts) (txnTimeout opts)
      (o_headerMask opts) (o_coverProfile opts)"
  have lane: "lane_ok ?lane w2" using s2 by (simp add: lane_ok_new)
  note o' = o [unfolded openChunkTunnel_def, folded opts_def, unfolded Let_def f prod.case, folded opts_def, unfolded rs prod.case]
  show ?thesis
  proof (cases "(\<exists>e. rs = Inl e) \<or> (\<exists>e. encodeOpen token host port = Inl e)")
    case True
    with o' s2 show ?thesis by (auto split: sum.splits)
  next
    case False
    then obtain sid payload where e: "rs = Inr sid" "encodeOpen token host port = Inr payload"
      by (metis sum.exhaust)
    obtain res l3 w3 where s: "single ModeOpen sid 0 payload ?lane w2 = (res, l3, w3)" by (metis prod.collapse)
    from single_keeps [OF lane s] s2 have "sends w3 \<le> sends w + 2" by simp
    with o' e s show ?thesis by (auto simp: Let_def split: sum.splits prod.splits if_splits)
  qed
qed

lemma bp_register_sends:
  assumes "lane_ok l w" and "bp_register what sid seq p l w = (r, l', w')"
  shows "sends w' \<le> sends w + 2 \<and> (r = None \<longrightarrow> lane_ok l' w')"
proof -
  obtain res l1 w1 where s: "bp_single bpModeUpload sid seq p 0 l w = (res, l1, w1)" by (metis prod.collapse)
  from bp_single_keeps [OF assms(1) s] have k: "sends w1 \<le> sends w + 2" "lane_ok l1 w1" by simp_all
  from assms(2) s have "r = None \<and> l' = l1 \<and> w' = w1 \<or> r \<noteq> None \<and> w' = snd (closeLane l1 w1)"
    by (auto simp: bp_register_def split: sum.splits if_splits)
  with k show ?thesis by auto
qed

lemma openBPTunnel_sends:
  assumes w: "world_ok w" and o: "openBPTunnel srv token host port opts0 now st w = (r, st', w')"
    and c: "skipPathProbe (normalize_bp_options opts0) \<or> getPathProfile srv token (normalize_bp_options opts0) now st w = (p, st, w)"
  shows "sends w' \<le> sends w + 4 \<and> st' = st"
proof -
  let ?n = "normalize_bp_options opts0"
  let ?re = "if o_reconnectEvery ?n < 0 then 0 else o_reconnectEvery ?n"
  define pr where "pr = (if skipPathProbe ?n
      then \<lparr>pp_upload = startSize ?n, pp_download = startSize ?n, pp_pollers = 0,
             pp_persistent = False, pp_at = now\<rparr> else p)"
  have f: "(if skipPathProbe ?n
      then (\<lparr>pp_upload = startSize ?n, pp_download = startSize ?n, pp_pollers = 0,
             pp_persistent = False, pp_at = now\<rparr>, st, w)
      else getPathProfile srv token ?n now st w) = (pr, st, w)" using c by (auto simp: pr_def)
  define opts where "opts = (if \<not> skipPathProbe ?n \<and> pp_pollers pr > pollers ?n
                  then ?n\<lparr>pollers := pp_pollers pr\<rparr> else ?n)"
  obtain rs w2 where rs: "randomSessionID w = (rs, w2)" by fastforce
  from sends_sid [OF rs] w have s2: "sends w2 = sends w" "world_ok w2" by simp_all
  let ?lane = "newRequestLane srv (o_tcpBuffer opts) ?re (txnTimeout opts) (o_headerMask opts) (o_coverProfile opts)"
  have lane: "lane_ok ?lane w2" using s2 by (simp add: lane_ok_new)
  note o' = o [unfolded openBPTunnel_def bp_lane_ops, folded opts_def, unfolded Let_def f prod.case, folded opts_def,
      unfolded rs prod.case]
  show ?thesis
  proof (cases rs)
    case (Inl e)
    with o' s2 show ?thesis by auto
  next
    case (Inr sid)
    obtain r1 l3 w3 where r1: "bp_register ''registration'' sid 0 [] ?lane w2 = (r1, l3, w3)" by (metis prod.collapse)
    note s1 = bp_register_sends [OF lane r1]
    show ?thesis
    proof (cases "r1 = None \<and> (\<exists>payload. encodeOpen token host port = Inr payload)")
      case False
      with o' Inr r1 s1 s2 show ?thesis by (cases r1) (auto split: sum.splits)
    next
      case True
      then obtain payload where e: "r1 = None" "encodeOpen token host port = Inr payload" by blast
      obtain r2 l4 w4 where r2: "bp_register ''OPEN'' sid 1 (bpOpenMagic @ payload) l3 w3 = (r2, l4, w4)"
        by (metis prod.collapse)
      from bp_register_sends [OF _ r2] s1 e have "sends w4 \<le> sends w + 4" using s2 by simp
      with o' Inr r1 e r2 show ?thesis by (auto split: option.splits)
    qed
  qed
qed

lemma sends_tx_Close: "sends (snd (tx_Close l w)) = sends w"
  by (auto simp: tx_Close_def tx_closeLocked_def sends_def requests_def log_event_def split: option.split prod.split)

lemma xOpen_sends:
  assumes "world_ok w" and o: "xOpen srv token host port opts w = (r, w')"
  shows "sends w' \<le> sends w + 5"
proof -
  let ?o = "xNormalizeOptions opts"
  obtain r1 w1 where s: "xRandomSessionID w = (r1, w1)" by fastforce
  then have w1: "world_ok w1" "sends w1 = sends w"
    using assms(1) by (auto simp: xRandomSessionID_def take_rng_def world_ok_def sends_def requests_def split: sum.splits)
  show ?thesis
  proof (cases r1)
    case (Inl e)
    with s o w1 show ?thesis by (auto simp: xOpen_def Let_def)
  next
    case (Inr sid)
    let ?p = "bytes_of (''COPEN '' @ wireToken token @ '' '' @ sid @ '' '' @ host @ '' '' @ dec_int port)"
    obtain r2 l2 w2 where d: "doControl (new_xlane srv ?o) ?p w1 = (r2, l2, w2)" by (metis prod.collapse)
    have "txn_ok (new_xlane srv ?o) w1" using w1 by (simp add: new_xlane_def)
    from doControl_step [OF this d] w1 have k: "sends w2 \<le> sends w + 5" by (auto simp: sends_def)
    from d s Inr o have "w' = w2 \<or> w' = snd (tx_Close l2 w2)"
      by (auto simp: xOpen_def Let_def split: sum.splits)
    with k show ?thesis by (auto simp: sends_tx_Close)
  qed
qed

section \<open>The properties\<close>

definition sample_selector :: "string \<Rightarrow> int \<Rightarrow> bool \<Rightarrow> wireSelector" where
  "sample_selector cfg threads clear =
     (newWireSelector cfg ''s:53'' ''t'' sample_options sample_xoptions 0 threads clear)
       \<lparr>ws_candidateOverride := (if clear then None else Some [direct WireBinary 8, direct WireXOR 0x80]),
        ws_probeOverride := Some (\<lambda>c. wc_mode c = WireXOR \<or> wc_mask c = 0x25)\<rparr>"

lemma sample_selector_sel [simp]:
  "ws_configured (sample_selector cfg n b) = cfg" "ws_forceClear (sample_selector cfg n b) = b"
  "ws_hasChoice (sample_selector cfg n b) = False" "ws_probeThreads (sample_selector cfg n b) = n"
  "ws_candidateOverride (sample_selector cfg n b) = (if b then None else Some [direct WireBinary 8, direct WireXOR 0x80])"
  "ws_probeOverride (sample_selector cfg n b) = Some (\<lambda>c. wc_mode c = WireXOR \<or> wc_mask c = 0x25)"
  "ws_serverAddr (sample_selector cfg n b) = ''s:53''" "ws_token (sample_selector cfg n b) = ''t''"
  "ws_binOpts (sample_selector cfg n b) = sample_options" "ws_xorOpts (sample_selector cfg n b) = sample_xoptions"
  by (simp_all add: sample_selector_def newWireSelector_def)

text \<open>Wires cannot be confused. Every candidate without a cover preface has a mask under
  which the low three bits of the first byte of any request tell the wire: the request mode, 0 to
  4, for B and BP, and 5 to 7 for X. No other mask of the binary wires has this, no valid mask of
  a configured wire is left out, and automatic detection has 160 candidates.\<close>

theorem wire_masks_unambiguous:
  assumes "\<not> ws_forceClear s" and "ws_candidateOverride s = None" and "c \<in> set (candidates s)"
  shows "(wc_mode c = WireXOR \<longrightarrow> (\<forall>f. hd (xrequest_frame (wc_mask c) f) AND 7 \<ge> 5))
    \<and> (wc_mode c \<noteq> WireXOR \<longrightarrow> (\<forall>m \<le> ModeClose. \<forall>sid q n. hd (request_header m sid q n (wc_mask c)) AND 7 = m
          \<and> hd (bp_header m sid q n (wc_mask c)) AND 7 = m))
    \<and> \<not> cp_enabled (wc_cover c)
    \<and> (\<forall>hm. (\<forall>m \<le> ModeClose. (m XOR hm) AND 7 \<le> ModeClose) \<and> ws_configured s \<in> {WireAuto, WireBinary}
          \<longrightarrow> direct WireBinary hm \<in> set (candidates s))
    \<and> (ws_configured s = WireAuto \<longrightarrow> length (candidates s) = 160)"
proof -
  let ?w = "\<lambda>x. ws_configured s = WireAuto \<or> ws_configured s = x"
  have cs: "candidates s = concat (map (mask_candidates (?w WireBinary) (?w WireBP) (?w WireXOR)) [0..<256])"
    using assms(1,2) by (simp add: candidates_def profileCandidates_def Let_def)
  have l: "length (concat (map (mask_candidates True True True) [0..<256])) = 160" by code_simp
  have len: "ws_configured s = WireAuto \<longrightarrow> length (candidates s) = 160"
  proof
    assume a: "ws_configured s = WireAuto"
    show "length (candidates s) = 160" by (simp only: cs a simp_thms l)
  qed
  from assms(3) obtain hm where hm: "validBinaryHeaderMask hm \<and> (c = direct WireBinary hm \<or> c = direct WireBP hm)
      \<or> validXORHeaderMask hm \<and> c = direct WireXOR hm"
    unfolding cs set_mask_candidates by blast
  have d: "WireBinary \<noteq> WireXOR" "WireBP \<noteq> WireXOR" by (simp_all add: wires)
  have x: "hd (xrequest_frame hm f) = byte_of_char (CHR ''U'') XOR hm" for f
    by (simp add: xrequest_frame_def xreq_hdr_def xreq_header_def)
  have b: "hd (request_header m sid q n hm) = m XOR hm" "hd (bp_header m sid q n hm) = m XOR hm" for m sid q n
    by (simp_all add: request_header_def bp_header_def)
  have "direct WireBinary hm' \<in> set (candidates s)"
    if "\<forall>m \<le> ModeClose. (m XOR hm') AND 7 \<le> ModeClose" "ws_configured s \<in> {WireAuto, WireBinary}" for hm'
    unfolding cs set_mask_candidates using validBinaryHeaderMask_least [OF that(1)] that(2) by auto
  then show ?thesis using hm len d
    by (auto simp: direct_def x b validXORHeaderMask_def validBinaryHeaderMask_iff zero_profile_def)
qed

theorem wire_masks_unambiguous_witness:
  "hd (xrequest_frame 0 (1, 0, [7])) AND 7 \<ge> (5 :: byte) \<and> direct WireBinary 8 \<in> set (candidates
    (newWireSelector WireAuto ''s:53'' ''t'' sample_options sample_xoptions 0 1 False))"
proof -
  let ?s = "newWireSelector WireAuto ''s:53'' ''t'' sample_options sample_xoptions 0 1 False"
  have n: "\<not> ws_forceClear ?s" "ws_candidateOverride ?s = None" "ws_configured ?s = WireAuto"
    by (simp_all add: newWireSelector_def)
  have "candidates ?s = concat (map (mask_candidates True True True) [0..<256])"
    using n by (simp add: candidates_def profileCandidates_def Let_def)
  moreover have "validXORHeaderMask 0" by code_simp
  ultimately have "direct WireXOR 0 \<in> set (candidates ?s)" using set_mask_candidates by auto
  from wire_masks_unambiguous [OF n(1,2) this] have
    "\<forall>f. hd (xrequest_frame 0 f) AND 7 \<ge> 5"
    "(\<forall>m \<le> ModeClose. (m XOR 8) AND 7 \<le> ModeClose) \<longrightarrow> direct WireBinary 8 \<in> set (candidates ?s)"
    using n(3) by (auto simp: direct_def)
  moreover have "\<forall>m \<le> ModeClose. (m XOR 8) AND 7 \<le> ModeClose" by (auto simp: modes_cases)
  ultimately show ?thesis by blast
qed

text \<open>C17: Wire detection is sound, complete and returns, whatever the order in which up to
  sixteen concurrent probes end: a schedule has at most three steps per candidate and one more;
  while detection is looking some step is possible, so no goroutine is ever stuck, also after the
  return; a selected candidate was validated by its own probe; and the answer that there is none
  comes only after every candidate was probed exactly once and failed. With one thread the
  candidates are tried in order and the first valid one is selected.\<close>

theorem wire_detection_sound:
  assumes "detect_run (run_probe s) (candidates s) (probe_threads s) as detect_start w = Some (vs, d, w')"
  shows "length as \<le> 3 * length (candidates s) + 1
    \<and> length (dt_running d) + length (dt_results d) \<le> probe_threads s \<and> probe_threads s \<le> 16
    \<and> (dt_outcome d = Looking \<longrightarrow> (\<exists>a res. detect_step (run_probe s) (candidates s) (probe_threads s) a d w' = Some res))
    \<and> (\<forall>c. dt_outcome d = Selected c \<longrightarrow> c \<in> set (candidates s) \<and> (c, True) \<in> set vs)
    \<and> (dt_outcome d = NoneValid \<longrightarrow> mset vs = mset (map (\<lambda>c. (c, False)) (candidates s)))
    \<and> (\<forall>c. probe_threads s = 1 \<and> dt_outcome d = Selected c \<longrightarrow>
         (\<exists>pre post. candidates s = pre @ c # post \<and> vs = map (\<lambda>c. (c, False)) pre @ [(c, True)]))"
proof (intro conjI allI impI)
  let ?n = "probe_threads s" and ?cs = "candidates s"
  note ok = detect_run_ok [OF assms]
  show "length as \<le> 3 * length ?cs + 1"
    using detect_run_length [OF assms] by (simp add: detect_work_def detect_start_def)
  show "length (dt_running d) + length (dt_results d) \<le> ?n" using ok by (simp add: detect_ok_def)
  show "?n \<le> 16" by (rule probe_threads_bounds)
  show "\<exists>a res. detect_step (run_probe s) ?cs ?n a d w' = Some res" if "dt_outcome d = Looking"
    by (rule detect_progress [OF ok probe_threads_bounds(1) that])
  show "c \<in> set ?cs" "(c, True) \<in> set vs" if "dt_outcome d = Selected c" for c
    using detect_ok_selected [OF ok that] by simp_all
  have neg: "us = map (\<lambda>c. (c, False)) (map fst us)" if "\<forall>v \<in> set us. \<not> snd v" for us :: "verdict list"
    using that by (induction us) auto
  show "mset vs = mset (map (\<lambda>c. (c, False)) ?cs)" if "dt_outcome d = NoneValid"
  proof -
    have n: "\<forall>v \<in> set vs. \<not> snd v" "mset (map fst vs) = mset ?cs"
      using ok that by (auto simp: detect_ok_def received_ok_def)
    have "mset vs = image_mset (\<lambda>c. (c, False)) (mset (map fst vs))" 
      unfolding mset_map [symmetric] by (rule arg_cong [OF neg [OF n(1)]])
    also have "\<dots> = mset (map (\<lambda>c. (c, False)) ?cs)" unfolding n(2) by simp
    finally show ?thesis .
  qed
  show "\<exists>pre post. ?cs = pre @ c # post \<and> vs = map (\<lambda>c. (c, False)) pre @ [(c, True)]"
    if "?n = 1 \<and> dt_outcome d = Selected c" for c
  proof -
    have "detect_run (run_probe s) ?cs 1 as detect_start w = Some (vs, d, w')" using assms that by simp
    note detect_run_order [OF this]
    with that obtain pre where "vs = pre @ [(c, True)]" "\<forall>v \<in> set pre. \<not> snd v"
      and o: "map fst vs = take (dt_next d) ?cs"
      by (auto simp: detect_ok_def received_ok_def detect_order_def)
    then have v: "vs = map (\<lambda>c. (c, False)) (map fst pre) @ [(c, True)]" and t: "take (dt_next d) ?cs = map fst pre @ [c]"
      using neg [of pre] by simp_all
    have "?cs = map fst pre @ c # drop (dt_next d) ?cs"
      using append_take_drop_id [of "dt_next d" ?cs] unfolding t by simp
    with v have "vs = map (\<lambda>c. (c, False)) (map fst pre) @ [(c, True)] \<and> ?cs = map fst pre @ c # drop (dt_next d) ?cs" by blast
    then show ?thesis by blast
  qed
qed

theorem wire_detection_sound_witness:
  "\<exists>vs d. detect_run (run_probe (sample_selector WireAuto 2 False)) [direct WireBinary 8, direct WireXOR 0x80] 2
      [Launch, Launch, RunProbe 1, Receive, RunProbe 0] detect_start silent_world = Some (vs, d, silent_world)
    \<and> dt_outcome d = Selected (direct WireXOR 0x80) \<and> (direct WireXOR 0x80, True) \<in> set vs"
proof -
  let ?s = "sample_selector WireAuto 2 False"
  have c: "candidates ?s = [direct WireBinary 8, direct WireXOR 0x80]" by (simp add: candidates_def)
  have t: "probe_threads ?s = 2" by (simp add: probe_threads_def)
  have "\<exists>vs d. detect_run (run_probe ?s) (candidates ?s) (probe_threads ?s)
      [Launch, Launch, RunProbe 1, Receive, RunProbe 0] detect_start silent_world = Some (vs, d, silent_world)
    \<and> dt_outcome d = Selected (direct WireXOR 0x80)"
    unfolding c t by (simp add: detect_start_def run_probe_def direct_def wires Let_def)
  with wire_detection_sound [of ?s "[Launch, Launch, RunProbe 1, Receive, RunProbe 0]" silent_world _ _ silent_world] c t
  show ?thesis by (metis (no_types, lifting))
qed

text \<open>The choice is made once. Over any history of resolving, preparing and dialing, a
  choice that was made stays, every carrier opened from then on speaks its wire, and it is one of
  the candidates; a failed detection leaves the selector as it was.\<close>

theorem wire_choice_sticks:
  assumes "sel_run as s st w = Some (cs1, s1, st1, w1)" and "sel_run as2 s1 st1 w1 = Some (cs2, s2, st2, w2)"
  shows "(ws_hasChoice s1 \<longrightarrow> ws_hasChoice s2 \<and> ws_resolved s2 = ws_resolved s1
        \<and> (\<forall>c \<in> set cs2. carrier_wire c = wire_of (ws_resolved s1)))
    \<and> (\<not> ws_hasChoice s \<and> ws_hasChoice s2 \<longrightarrow> ws_resolved s2 \<in> set (candidates s))
    \<and> (\<forall>acts w'. \<not> ws_hasChoice s \<and> detectLocked acts s w = Some (None, w') \<longrightarrow>
         (\<exists>e. resolveOnly acts s w = Some (Inl e, s, w')) \<and> (\<exists>c. sel_mode acts s w = Some (c, s, w')))"
proof (intro conjI)
  note r1 = sel_run_step [OF assms(1)] and r2 = sel_run_step [OF assms(2)]
  show "ws_hasChoice s1 \<longrightarrow> ws_hasChoice s2 \<and> ws_resolved s2 = ws_resolved s1
        \<and> (\<forall>c \<in> set cs2. carrier_wire c = wire_of (ws_resolved s1))"
    using r2 by (auto simp: sel_step_def)
  have "sel_step s s2" using r1 r2 sel_step_trans by blast
  then show "\<not> ws_hasChoice s \<and> ws_hasChoice s2 \<longrightarrow> ws_resolved s2 \<in> set (candidates s)"
    by (simp add: sel_step_def)
qed (simp add: resolveOnly_def sel_mode_def)

lemma sample_resolves:
  "resolveOnly [Launch, RunProbe 0, Receive, Launch, RunProbe 0, Receive] (sample_selector WireAuto 1 False) w
     = Some (Inr (direct WireXOR 0x80), fix_choice (direct WireXOR 0x80) (sample_selector WireAuto 1 False), w)"
proof -
  let ?s = "sample_selector WireAuto 1 False"
  have c: "candidates ?s = [direct WireBinary 8, direct WireXOR 0x80]" by (simp add: candidates_def)
  have t: "probe_threads ?s = 1" by (simp add: probe_threads_def)
  show ?thesis unfolding resolveOnly_def detectLocked_def c t
    by (simp add: detect_start_def run_probe_def direct_def wires Let_def)
qed

theorem wire_choice_sticks_witness:
  "\<exists>s. sel_run [Resolve [Launch, RunProbe 0, Receive, Launch, RunProbe 0, Receive]] (sample_selector WireAuto 1 False)
      empty_profile silent_world = Some ([], s, empty_profile, silent_world)
    \<and> sel_run [Resolve []] s empty_profile silent_world = Some ([], s, empty_profile, silent_world)
    \<and> ws_resolved s = direct WireXOR 0x80 \<and> ws_resolved s \<in> set (candidates (sample_selector WireAuto 1 False))"
proof -
  let ?s = "fix_choice (direct WireXOR 0x80) (sample_selector WireAuto 1 False)"
  have r: "ws_hasChoice ?s" "ws_resolved ?s = direct WireXOR 0x80" by (simp_all add: fix_choice_def)
  have r1: "sel_run [Resolve [Launch, RunProbe 0, Receive, Launch, RunProbe 0, Receive]] (sample_selector WireAuto 1 False)
      empty_profile silent_world = Some ([], ?s, empty_profile, silent_world)"
    by (simp add: sample_resolves)
  have r2: "sel_run [Resolve []] ?s empty_profile silent_world = Some ([], ?s, empty_profile, silent_world)"
    using r(1) by (simp add: resolveOnly_def)
  from wire_choice_sticks [OF r1 r2] r1 r2 r show ?thesis by auto
qed

lemma candidates_mode:
  assumes "ws_candidateOverride s = None" and "c \<in> set (candidates s)"
  shows "ws_configured s = WireAuto \<or> wc_mode c = ws_configured s"
  using assms
  by (auto simp: candidates_def profileCandidates_def mask_candidates_def direct_def forcedClearChoice_def Let_def split: if_splits)

lemma forced_candidates:
  assumes "ws_forceClear s" and "ws_configured s \<in> {WireBinary, WireBP, WireAuto}"
  shows "set (profileCandidates s) \<subseteq> {c. \<exists>hm \<in> {0, 0x25}. \<exists>m \<in> {WireBinary, WireBP}. c = forcedClearChoice m hm
      \<and> (ws_configured s \<noteq> WireAuto \<longrightarrow> m = ws_configured s)}"
    and "profileCandidates s \<noteq> []"
  using assms by (auto simp: profileCandidates_def Let_def wires)

text \<open>C31: A forced clear payload is never given up. With \<^verbatim>\<open>--force-clear-payload\<close> and a
  wire that the command line allows with it, every choice the selector answers, found or fallen
  back to, is a B or BP profile whose cover preface announces a clear payload and the mask in use,
  whatever the probes say.\<close>

theorem forced_clear_is_clear:
  assumes "ws_forceClear s" and "ws_configured s \<in> {WireBinary, WireBP, WireAuto}" and "ws_candidateOverride s = None"
    and "\<not> ws_hasChoice s" and "sel_mode as s w = Some (c, s', w')"
  shows "cp_enabled (wc_cover c) \<and> cp_clear (wc_cover c) \<and> \<not> cp_xor (wc_cover c)
    \<and> cp_headerMask (wc_cover c) = wc_mask c \<and> wc_mask c \<in> {0, 0x25} \<and> wc_mode c \<in> {WireBinary, WireBP}
    \<and> (ws_configured s \<noteq> WireAuto \<longrightarrow> wc_mode c = ws_configured s)"
proof -
  have cs: "candidates s = profileCandidates s" using assms(3) by (simp add: candidates_def)
  note e = forced_candidates(1) [OF assms(1,2)] and ne = forced_candidates(2) [OF assms(1,2)]
  have "c \<in> set (profileCandidates s)" using assms(5)
    by (cases rule: sel_mode_cases) (use assms(1,4) cs ne in \<open>auto simp: fallback_choice_def\<close>)
  with e show ?thesis by (auto simp: forcedClearChoice_def Let_def)
qed

theorem forced_clear_is_clear_witness:
  "\<exists>c s'. sel_mode [Launch, RunProbe 0, Receive, Launch, RunProbe 0, Receive] (sample_selector WireBP 1 True) silent_world
      = Some (c, s', silent_world) \<and> cp_clear (wc_cover c) \<and> wc_mask c \<in> {0, 0x25} \<and> wc_mode c = WireBP"
proof -
  let ?s = "sample_selector WireBP 1 True" and ?as = "[Launch, RunProbe 0, Receive, Launch, RunProbe 0, Receive]"
  have pc: "profileCandidates ?s = [forcedClearChoice WireBP 0, forcedClearChoice WireBP 0x25]"
    by (simp add: profileCandidates_def Let_def wires)
  have c: "candidates ?s = [forcedClearChoice WireBP 0, forcedClearChoice WireBP 0x25]"
    using pc by (simp add: candidates_def)
  have t: "probe_threads ?s = 1" by (simp add: probe_threads_def)
  have m: "sel_mode ?as ?s silent_world = Some (forcedClearChoice WireBP 0x25, fix_choice (forcedClearChoice WireBP 0x25) ?s, silent_world)"
    unfolding sel_mode_def detectLocked_def c t
    by (simp add: detect_start_def run_probe_def forcedClearChoice_def wires Let_def)
  from forced_clear_is_clear [OF _ _ _ _ m] m show ?thesis by (simp add: wires)
qed

text \<open>C18: Dialing leaks nothing. With the detection it may need included, a dial that fails leaves
  exactly the connections open that were open before, and one that succeeds adds exactly those of
  the carrier, whose own invariant holds; the carrier speaks the wire that was chosen.\<close>

theorem dial_leaks_nothing:
  assumes "world_ok w" and "minSize (ws_binOpts s) \<le> 1048576"
    and "sel_dial as host port now s st w = Some (r, s', st', w')"
  shows "(\<forall>e. r = Inl e \<longrightarrow> live (w_log w') = live (w_log w))
    \<and> (\<forall>c. r = Inr c \<longrightarrow> carrier_ok c w' \<and> carrier_others c w' = live (w_log w)
        \<and> (ws_hasChoice s \<longrightarrow> s' = s) \<and> (ws_hasChoice s' \<longrightarrow> carrier_wire c = wire_of (ws_resolved s')))"
proof -
  from assms(3) obtain c w1 where m: "sel_mode as s w = Some (c, s', w1)"
    and o: "open_choice c host port now s' st w1 = (r, st', w')" by (rule sel_dial_cases)
  have "quiet (live (w_log w)) w" using assms(1) by (simp add: quiet_def)
  from sel_mode_quiet [OF this m] have q: "quiet (live (w_log w)) w1" .
  have b: "minSize (ws_binOpts s') \<le> 1048576" "ws_hasChoice s \<longrightarrow> s' = s"
    using m assms(2) by (auto elim!: sel_mode_cases simp: fix_choice_def)
  from open_choice_sound [OF q b(1) o] open_choice_wire [of c host port now s' st w1 _ st' w'] o
    sel_mode_sel [OF m] b(2) show ?thesis
    by (cases r) auto
qed

lemma xor_choice_sample: "xor_choice (direct WireXOR 0x80) sample_xoptions = sample_xoptions"
  by (simp add: xor_choice_def direct_def zero_profile_def WithHeaderMask_def sample_xoptions_def)

theorem dial_leaks_nothing_witness:
  "\<exists>c s st w. sel_dial [] ''h'' 80 0 (fix_choice (direct WireXOR 0x80) (sample_selector WireAuto 1 False)) empty_profile
      opening_xworld = Some (Inr c, s, st, w) \<and> carrier_others c w = live (w_log opening_xworld) \<and> carrier_wire c = WireXOR"
proof -
  let ?s = "fix_choice (direct WireXOR 0x80) (sample_selector WireAuto 1 False)"
  have f: "ws_hasChoice ?s" "ws_resolved ?s = direct WireXOR 0x80" "ws_xorOpts ?s = sample_xoptions"
    "ws_serverAddr ?s = ''s:53''" "ws_token ?s = ''t''" "minSize (ws_binOpts ?s) \<le> 1048576"
    by (simp_all add: fix_choice_def sample_options_def)
  have ok: "world_ok opening_xworld" by (simp add: opening_xworld_def silent_world_def world_ok_def)
  obtain w where o: "xOpen ''s:53'' ''t'' ''h'' 80 sample_xoptions opening_xworld = (Inr opened_xconn, w)"
    using opened_xworld by blast
  have d: "wc_mode (direct WireXOR 0x80) = WireXOR" "WireXOR \<noteq> WireBP" by (simp_all add: direct_def wires)
  have "open_choice (direct WireXOR 0x80) ''h'' 80 0 ?s empty_profile opening_xworld
      = (Inr (XORCarrier opened_xconn), empty_profile, w)"
    using o by (simp add: open_choice_def f d xor_choice_sample)
  then have e: "sel_dial [] ''h'' 80 0 ?s empty_profile opening_xworld = Some (Inr (XORCarrier opened_xconn), ?s, empty_profile, w)"
    using f by (simp add: sel_dial_def sel_mode_def)
  from dial_leaks_nothing [OF ok f(6) e] e f(1,2) d show ?thesis by (simp add: wire_of_def)
qed

text \<open>A prepared path is not probed again, whatever has happened in between: the path profile of
  the choice is in the cache and the X options are the calibrated ones.\<close>

lemma prepared_dial:
  assumes "in_range (ws_binOpts s)" and "prepare as now s st w = Some (Inr c, s1, st1, w1)"
    and "world_ok v" and "now2 - pp_at (ps_p st1) < 1800000000000"
    and "sel_dial as2 host port now2 s1 st1 v = Some (r, s2, st2, w2)"
  shows "sends w2 \<le> sends v + 5 \<and> st2 = st1 \<and> s2 = s1"
proof -
  from assms(2) obtain s0 w0 where r: "resolveOnly as s w = Some (Inr c, s0, w0)"
    and cc: "calibrate_choice now c s0 st w0 = (s1, st1, w1)"
    by (rule prepare_cases) auto
  have s0: "ws_hasChoice s0" "ws_resolved s0 = c" "ws_binOpts s0 = ws_binOpts s" "ws_serverAddr s0 = ws_serverAddr s"
    using resolveOnly_found [OF r] by simp_all
  have s1: "ws_hasChoice s1" "ws_resolved s1 = c" "ws_binOpts s1 = ws_binOpts s" "ws_serverAddr s1 = ws_serverAddr s0"
    "ws_token s1 = ws_token s0"
    using cc s0 by (auto simp: calibrate_choice_def Let_def split: if_splits prod.splits)
  from assms(5) s1 have o: "open_choice c host port now2 s1 st1 v = (r, st2, w2)" "s2 = s1"
    by (auto simp: sel_dial_def sel_mode_def split: prod.splits)
  let ?b = "bin_choice c (ws_binOpts s)"
  have rng: "in_range ?b" using assms(1) by (simp add: in_range_def bin_choice_def)
  have key: "ps_key st1 = path_key (ws_serverAddr s1) (bytes_of (ws_token s1)) ?b" if "wc_mode c \<noteq> WireXOR"
    using cc that s0 s1 getPathProfile_stored [of "ws_serverAddr s0" "bytes_of (ws_token s0)" ?b now st w0 _ st1 w1]
    by (auto simp: calibrate_choice_def Let_def split: prod.splits)
  consider "wc_mode c = WireBP" | "wc_mode c = WireXOR" | "wc_mode c \<noteq> WireBP" "wc_mode c \<noteq> WireXOR" by blast
  then show ?thesis
  proof cases
    case 1
    then have nx: "wc_mode c \<noteq> WireXOR" by (simp add: wires)
    obtain r1 st' w' where p: "openBPTunnel (ws_serverAddr s1) (bytes_of (ws_token s1)) (bytes_of host) port ?b now2 st1 v = (r1, st', w')"
      by (metis prod.collapse)
    note k = key [OF nx, folded same_key_path [OF same_key_normalize_bp [OF rng]]]
    from openBPTunnel_sends [OF assms(3) p disjI2, OF cached_profile [OF k assms(4)]] o p 1 s1 show ?thesis
      by (simp add: open_choice_def)
  next
    case 2
    obtain r1 w' where p: "xOpen (ws_serverAddr s1) (ws_token s1) host port (xor_choice c (ws_xorOpts s1)) v = (r1, w')" by fastforce
    have "WireXOR \<noteq> WireBP" by (simp add: wires)
    with xOpen_sends [OF assms(3) p] o p 2 show ?thesis by (simp add: open_choice_def)
  next
    case 3
    obtain r1 st' w' where p: "openChunkTunnel (ws_serverAddr s1) (bytes_of (ws_token s1)) (bytes_of host) port ?b now2 st1 v = (r1, st', w')"
      by (metis prod.collapse)
    note k = key [OF 3(2), folded same_key_path [OF same_key_normalize [OF rng]]]
    from openChunkTunnel_sends [OF assms(3) p disjI2, OF cached_profile [OF k assms(4)]] o p 3 s1 show ?thesis
      by (simp add: open_choice_def)
  qed
qed

text \<open>After \<^verbatim>\<open>prepare\<close> a dial within half an hour of the measurement sends at most
  five requests, the registration and OPEN of the chosen wire with their retries.\<close>

theorem prepared_dial_needs_no_probe:
  assumes "world_ok w" and "in_range (ws_binOpts s)" and "xo_minSize (ws_xorOpts s) \<le> int MaxChunkPayload"
    and "prepare as now s st w = Some (Inr c, s1, st1, w1)" and "now2 - pp_at (ps_p st1) < 1800000000000"
    and "sel_dial as2 host port now2 s1 st1 w1 = Some (r, s2, st2, w2)"
  shows "sends w2 \<le> sends w1 + 5 \<and> st2 = st1 \<and> s2 = s1"
proof -
  have "quiet (live (w_log w)) w" using assms(1) by (simp add: quiet_def)
  from prepare_quiet [OF this assms(3,4)] have "world_ok w1" by (simp add: quiet_def)
  from prepared_dial [OF assms(2,4) this assms(5,6)] show ?thesis .
qed

theorem prepared_dial_needs_no_probe_witness:
  "\<exists>st1 w1 r st2 w2. prepare [] 5 (fix_choice (direct WireBP 8) (sample_selector WireBP 1 False)) empty_profile silent_world
        = Some (Inr (direct WireBP 8), fix_choice (direct WireBP 8) (sample_selector WireBP 1 False), st1, w1)
    \<and> sel_dial [] ''h'' 80 6 (fix_choice (direct WireBP 8) (sample_selector WireBP 1 False)) st1 w1
        = Some (r, fix_choice (direct WireBP 8) (sample_selector WireBP 1 False), st2, w2)
    \<and> sends w2 \<le> sends w1 + 5 \<and> st2 = st1"
proof -
  let ?s = "fix_choice (direct WireBP 8) (sample_selector WireBP 1 False)"
  let ?b = "bin_choice (direct WireBP 8) sample_options"
  have f: "ws_hasChoice ?s" "ws_resolved ?s = direct WireBP 8" "ws_binOpts ?s = sample_options"
    "xo_minSize (ws_xorOpts ?s) \<le> int MaxChunkPayload" "ws_serverAddr ?s = ''s:53''" "ws_token ?s = ''t''"
    by (simp_all add: fix_choice_def sample_xoptions_def MaxChunkPayload_def)
  have rng: "in_range (ws_binOpts ?s)" unfolding f(3) by (simp add: in_range_def sample_options_def)
  have nx: "wc_mode (direct WireBP 8) \<noteq> WireXOR" by (simp add: direct_def wires)
  obtain p st1 w1 where g: "getPathProfile ''s:53'' (bytes_of ''t'') ?b 5 empty_profile silent_world = (p, st1, w1)"
    by (metis prod.collapse)
  have p: "prepare [] 5 ?s empty_profile silent_world = Some (Inr (direct WireBP 8), ?s, st1, w1)"
    using f nx g by (simp add: prepare_def resolveOnly_def calibrate_choice_def)
  have "ps_key empty_profile \<noteq> path_key ''s:53'' (bytes_of ''t'') ?b" by (simp add: empty_profile_def path_key_def)
  with getPathProfile_stored [OF g] have at: "6 - pp_at (ps_p st1) < 1800000000000" by simp
  have "sel_dial [] ''h'' 80 6 ?s st1 w1 \<noteq> None" using f by (simp add: sel_dial_def sel_mode_def)
  then obtain r s2 st2 w2 where d: "sel_dial [] ''h'' 80 6 ?s st1 w1 = Some (r, s2, st2, w2)"
    by (metis not_None_eq prod.collapse)
  from prepared_dial_needs_no_probe [OF silent_world_ok rng f(4) p at d] p d show ?thesis by blast
qed

end
