(* ===== verification/SshCarrier.thy ===== *)
theory SshCarrier
  imports Prelude "HOL-Library.Sublist"
begin

text \<open>
  \<^verbatim>\<open>ssh_carrier.go\<close>: the write-combining buffer in front of the carrier of the SSH
  connection. Calls of \<^verbatim>\<open>Write\<close> and \<^verbatim>\<open>Close\<close> and the goroutine
  \<^verbatim>\<open>writeLoop\<close> are interleaved at their critical sections; a thread that waits on
  the condition variable has no step until its condition holds. The abstract view is a pipe:
  bytes are put in at one end and come out at the other in the same order, until it breaks.
\<close>

section \<open>The pipe\<close>

record pipe =
  p_queue :: bytes
  p_out :: bytes
  p_broken :: bool

datatype pipe_event = Put bytes | Move nat | Break nat

fun pipe_step :: "pipe_event \<Rightarrow> pipe \<Rightarrow> pipe" where
  "pipe_step (Put b) p = (if p_broken p then p else p\<lparr>p_queue := p_queue p @ b\<rparr>)"
| "pipe_step (Move n) p = p\<lparr>p_queue := drop n (p_queue p), p_out := p_out p @ take n (p_queue p)\<rparr>"
| "pipe_step (Break n) p = p\<lparr>p_queue := [], p_out := p_out p @ take n (p_queue p), p_broken := True\<rparr>"

definition puts :: "pipe_event list \<Rightarrow> bytes" where
  "puts evs = concat (map (\<lambda>e. case e of Put b \<Rightarrow> b | _ \<Rightarrow> []) evs)"

definition pipe_run :: "pipe_event list \<Rightarrow> pipe \<Rightarrow> pipe" where
  "pipe_run evs p = fold pipe_step evs p"

lemma puts_simps [simp]: "puts [] = []" "puts (evs @ evs') = puts evs @ puts evs'" "puts [Put b] = b"
  "puts [Move n] = []" "puts [Break n] = []"
  by (simp_all add: puts_def)

lemma pipe_run_simps [simp]: "pipe_run [] p = p" "pipe_run (evs @ evs') p = pipe_run evs' (pipe_run evs p)"
  "pipe_run [e] p = pipe_step e p"
  by (simp_all add: pipe_run_def)

text \<open>What comes out is what was put in, in order, and all of it is out or queued unless the pipe broke.\<close>

lemma pipe_run_stream:
  "p_queue p = [] \<Longrightarrow> \<not> p_broken p \<Longrightarrow>
   prefix (p_out (pipe_run evs p)) (p_out p @ puts evs)
   \<and> (p_broken (pipe_run evs p) \<longrightarrow> p_queue (pipe_run evs p) = [])
   \<and> (\<not> p_broken (pipe_run evs p) \<longrightarrow> p_out (pipe_run evs p) @ p_queue (pipe_run evs p) = p_out p @ puts evs)"
proof (induction evs rule: rev_induct)
  case (snoc e evs)
  let ?p = "pipe_run evs p"
  have ih: "prefix (p_out ?p) (p_out p @ puts evs)" "p_broken ?p \<longrightarrow> p_queue ?p = []"
    "\<not> p_broken ?p \<longrightarrow> p_out ?p @ p_queue ?p = p_out p @ puts evs" using snoc by simp_all
  show ?case
  proof (cases "p_broken ?p")
    case True
    with ih show ?thesis by (cases e) (simp_all add: prefix_prefix flip: append_assoc)
  next
    case False
    then have s: "p_out p @ puts evs = p_out ?p @ p_queue ?p" using ih by simp
    then have s': "p_out p @ puts evs @ b = p_out ?p @ p_queue ?p @ b" for b by (metis append_assoc)
    have "prefix (take n (p_queue ?p)) (p_queue ?p)" for n by (rule take_is_prefix)
    then show ?thesis using False s by (cases e) (simp_all add: s' take_is_prefix)
  qed
qed simp

section \<open>The carrier\<close>

datatype loop_pc = LoopTop | LoopDelay | LoopGrab | LoopWrite bytes | LoopFail goerr | LoopExit | LoopDone

record sshCarrierConn =
  sc_raw :: conn
  sc_flushBytes :: int
  sc_maxBuffered :: int
  sc_flushDelay :: int
  sc_buf :: bytes
  sc_closing :: bool
  sc_writeErr :: "goerr option"
  sc_done :: bool
  sc_closeOnce :: bool
  sc_rawClosed :: bool
  sc_loop :: loop_pc
  sc_writers :: "(bytes \<times> nat) option list"
  sc_closers :: nat

definition newSSHCarrierConn :: "conn \<Rightarrow> int \<Rightarrow> int \<Rightarrow> int \<Rightarrow> sshCarrierConn" where
  "newSSHCarrierConn raw flushBytes maxBuffered flushDelay =
     (let flushBytes = (if flushBytes < 32 * 1024 then 32 * 1024 else flushBytes);
          maxBuffered = (if maxBuffered < flushBytes * 2 then flushBytes * 2 else maxBuffered);
          flushDelay = (if flushDelay \<le> 0 then 1000000 else flushDelay)
      in \<lparr>sc_raw = raw, sc_flushBytes = flushBytes, sc_maxBuffered = maxBuffered, sc_flushDelay = flushDelay,
          sc_buf = [], sc_closing = False, sc_writeErr = None, sc_done = False, sc_closeOnce = False,
          sc_rawClosed = False, sc_loop = LoopTop, sc_writers = [], sc_closers = 0\<rparr>)"

definition writeCarrierFull :: "conn \<Rightarrow> bytes \<Rightarrow> goerr option \<times> conn" where
  "writeCarrierFull w p = writeAll w p"

text \<open>One critical section, or the work between two, of \<^verbatim>\<open>writeLoop\<close>.\<close>

definition loop_step :: "sshCarrierConn \<Rightarrow> sshCarrierConn option" where
  "loop_step c = (case sc_loop c of
     LoopTop \<Rightarrow>
       if sc_buf c = [] \<and> \<not> sc_closing c \<and> sc_writeErr c = None then None
       else if sc_writeErr c \<noteq> None then Some (c\<lparr>sc_loop := LoopExit\<rparr>)
       else if sc_buf c = [] \<and> sc_closing c then Some (c\<lparr>sc_loop := LoopExit\<rparr>)
       else if int (length (sc_buf c)) < sc_flushBytes c \<and> \<not> sc_closing c
       then Some (c\<lparr>sc_loop := LoopDelay\<rparr>) else Some (c\<lparr>sc_loop := LoopGrab\<rparr>)
   | LoopDelay \<Rightarrow> Some (c\<lparr>sc_loop := LoopGrab\<rparr>)
   | LoopGrab \<Rightarrow>
       if sc_writeErr c \<noteq> None then Some (c\<lparr>sc_loop := LoopExit\<rparr>)
       else
         let n = (if int (length (sc_buf c)) > sc_flushBytes c then nat (sc_flushBytes c) else length (sc_buf c))
         in Some (c\<lparr>sc_buf := drop n (sc_buf c), sc_loop := LoopWrite (take n (sc_buf c))\<rparr>)
   | LoopWrite batch \<Rightarrow>
       (case writeCarrierFull (sc_raw c) batch of
          (None, raw) \<Rightarrow> Some (c\<lparr>sc_raw := raw, sc_loop := LoopTop\<rparr>)
        | (Some e, raw) \<Rightarrow> Some (c\<lparr>sc_raw := raw, sc_loop := LoopFail e\<rparr>))
   | LoopFail e \<Rightarrow>
       Some (c\<lparr>sc_writeErr := (if sc_writeErr c = None then Some e else sc_writeErr c), sc_closing := True,
         sc_loop := LoopExit\<rparr>)
   | LoopExit \<Rightarrow> Some (c\<lparr>sc_rawClosed := True, sc_done := True, sc_loop := LoopDone\<rparr>)
   | LoopDone \<Rightarrow> None)"

text \<open>\<^verbatim>\<open>Read\<close>, given what the underlying connection returned.\<close>

definition carrier_read :: "sshCarrierConn \<Rightarrow> bytes \<times> goerr option \<Rightarrow> bytes \<times> goerr option" where
  "carrier_read c res = (case res of (b, err) \<Rightarrow>
     if b \<noteq> [] \<or> err = None then (b, err)
     else (case sc_writeErr c of Some e \<Rightarrow> ([], Some e) | None \<Rightarrow> (b, err)))"

datatype carrier_action = CallWrite bytes | WriterStep nat | LoopStep | CallClose | CloseReturn

datatype carrier_obs = Took bytes | WriteReturned nat nat "goerr option" | CloseReturned "goerr option"

definition writer_returns :: "nat \<Rightarrow> nat \<Rightarrow> goerr option \<Rightarrow> sshCarrierConn \<Rightarrow> carrier_obs list \<times> sshCarrierConn" where
  "writer_returns i n err c = ([WriteReturned i n err], c\<lparr>sc_writers := (sc_writers c)[i := None]\<rparr>)"

text \<open>One turn of the loop of \<^verbatim>\<open>Write\<close>.\<close>

definition writer_step :: "nat \<Rightarrow> sshCarrierConn \<Rightarrow> (carrier_obs list \<times> sshCarrierConn) option" where
  "writer_step i c =
     (if i < length (sc_writers c) then
        (case sc_writers c ! i of
           None \<Rightarrow> None
         | Some (p, written) \<Rightarrow>
           if int (length (sc_buf c)) \<ge> sc_maxBuffered c \<and> \<not> sc_closing c \<and> sc_writeErr c = None then None
           else if sc_writeErr c \<noteq> None then Some (writer_returns i written (sc_writeErr c) c)
           else if sc_closing c then Some (writer_returns i written (Some ErrClosed) c)
           else
             let room = sc_maxBuffered c - int (length (sc_buf c)) in
             if room < 1 then Some ([], c)
             else
               let n = (if int (length p - written) > room then nat room else length p - written);
                   b = take n (drop written p);
                   c = c\<lparr>sc_buf := sc_buf c @ b\<rparr>;
                   written = written + n
               in if written < length p
                  then Some ([Took b], c\<lparr>sc_writers := (sc_writers c)[i := Some (p, written)]\<rparr>)
                  else (case writer_returns i written None c of (obs, c) \<Rightarrow> Some (Took b # obs, c)))
      else None)"

definition carrier_close :: "sshCarrierConn \<Rightarrow> sshCarrierConn" where
  "carrier_close c = (let c = c\<lparr>sc_closers := sc_closers c + 1\<rparr> in
     if sc_closeOnce c then c else c\<lparr>sc_closeOnce := True, sc_closing := True\<rparr>)"

fun carrier_step :: "carrier_action \<Rightarrow> sshCarrierConn \<Rightarrow> (carrier_obs list \<times> sshCarrierConn) option" where
  "carrier_step (CallWrite p) c =
     (if p = [] then Some ([WriteReturned (length (sc_writers c)) 0 None], c\<lparr>sc_writers := sc_writers c @ [None]\<rparr>)
      else Some ([], c\<lparr>sc_writers := sc_writers c @ [Some (p, 0)]\<rparr>))"
| "carrier_step (WriterStep i) c = writer_step i c"
| "carrier_step LoopStep c = map_option (\<lambda>c. ([], c)) (loop_step c)"
| "carrier_step CallClose c = Some ([], carrier_close c)"
| "carrier_step CloseReturn c =
     (if sc_closers c > 0 \<and> sc_done c
      then Some ([CloseReturned (sc_writeErr c)], c\<lparr>sc_closers := sc_closers c - 1\<rparr>) else None)"

inductive carrier_run :: "sshCarrierConn \<Rightarrow> carrier_action list \<Rightarrow> carrier_obs list \<Rightarrow> sshCarrierConn \<Rightarrow> bool" where
  carrier_run_start: "carrier_run c [] [] c"
| carrier_run_step: "carrier_run c as obs c1 \<Longrightarrow> carrier_step a c1 = Some (o1, c2) \<Longrightarrow> carrier_run c (as @ [a]) (obs @ o1) c2"

text \<open>The bytes the calls of \<^verbatim>\<open>Write\<close> took over so far.\<close>

definition accepted :: "carrier_obs list \<Rightarrow> bytes" where
  "accepted obs = concat (map (\<lambda>ob. case ob of Took b \<Rightarrow> b | _ \<Rightarrow> []) obs)"

lemma accepted_simps [simp]: "accepted [] = []" "accepted (obs @ obs') = accepted obs @ accepted obs'"
  "accepted (Took b # obs) = b @ accepted obs" "accepted (WriteReturned i n e # obs) = accepted obs"
  "accepted (CloseReturned e # obs) = accepted obs"
  by (simp_all add: accepted_def)

section \<open>The carrier is a pipe\<close>

text \<open>The bytes on their way, and whether the connection underneath failed.\<close>

definition carrier_broken :: "sshCarrierConn \<Rightarrow> bool" where
  "carrier_broken c \<longleftrightarrow> sc_writeErr c \<noteq> None \<or> (\<exists>e. sc_loop c = LoopFail e)"

definition pipe_of :: "sshCarrierConn \<Rightarrow> pipe" where
  "pipe_of c = \<lparr>p_queue = (if carrier_broken c then []
       else (case sc_loop c of LoopWrite batch \<Rightarrow> batch | _ \<Rightarrow> []) @ sc_buf c),
     p_out = c_out (sc_raw c), p_broken = carrier_broken c\<rparr>"

fun loop_ok :: "sshCarrierConn \<Rightarrow> loop_pc \<Rightarrow> bool" where
  "loop_ok c LoopTop = (sc_writeErr c = None)"
| "loop_ok c LoopDelay = (sc_writeErr c = None \<and> sc_buf c \<noteq> [])"
| "loop_ok c LoopGrab = (sc_writeErr c = None \<and> sc_buf c \<noteq> [])"
| "loop_ok c (LoopWrite b) = (sc_writeErr c = None \<and> b \<noteq> [] \<and> int (length b) \<le> sc_flushBytes c)"
| "loop_ok c (LoopFail e) = (sc_writeErr c = None)"
| "loop_ok c LoopExit = (sc_closing c \<and> (sc_writeErr c = None \<longrightarrow> sc_buf c = []))"
| "loop_ok c LoopDone = (sc_closing c \<and> (sc_writeErr c = None \<longrightarrow> sc_buf c = []))"

definition sc_ok :: "sshCarrierConn \<Rightarrow> bool" where
  "sc_ok c \<longleftrightarrow> 1 \<le> sc_flushBytes c \<and> sc_flushBytes c * 2 \<le> sc_maxBuffered c
     \<and> int (length (sc_buf c)) \<le> sc_maxBuffered c
     \<and> (sc_closers c > 0 \<longrightarrow> sc_closing c) \<and> (sc_closeOnce c \<longrightarrow> sc_closing c)
     \<and> (sc_done c \<longleftrightarrow> sc_loop c = LoopDone) \<and> (sc_rawClosed c \<longleftrightarrow> sc_done c)
     \<and> loop_ok c (sc_loop c)
     \<and> (\<forall>p k. Some (p, k) \<in> set (sc_writers c) \<longrightarrow> k < length p)"

lemma sc_ok_new: "sc_ok (newSSHCarrierConn raw f m d)"
  by (simp add: newSSHCarrierConn_def sc_ok_def Let_def)

lemma loop_ok_update: "loop_ok (c\<lparr>sc_loop := x\<rparr>) ph = loop_ok c ph" "loop_ok (c\<lparr>sc_raw := w\<rparr>) ph = loop_ok c ph"
  "loop_ok (c\<lparr>sc_writers := ws\<rparr>) ph = loop_ok c ph" "loop_ok (c\<lparr>sc_closers := n\<rparr>) ph = loop_ok c ph"
  "loop_ok (c\<lparr>sc_rawClosed := b, sc_done := b', sc_loop := x\<rparr>) ph = loop_ok c ph"
  by (cases ph; simp)+

definition moves :: "sshCarrierConn \<Rightarrow> sshCarrierConn \<Rightarrow> bytes \<Rightarrow> bool" where
  "moves c c' b \<longleftrightarrow> (\<exists>evs. pipe_of c' = pipe_run evs (pipe_of c) \<and> puts evs = b)"

lemma moves_same: "pipe_of c' = pipe_of c \<Longrightarrow> moves c c' []"
  unfolding moves_def by (rule exI [of _ "[]"]) simp

lemma moves_event: "pipe_of c' = pipe_step e (pipe_of c) \<Longrightarrow> puts [e] = b \<Longrightarrow> moves c c' b"
  unfolding moves_def by (rule exI [of _ "[e]"]) simp

lemmas pipe_view = pipe_of_def carrier_broken_def

lemma loop_step_moves:
  assumes ok: "sc_ok c" and s: "loop_step c = Some c'"
  shows "sc_ok c' \<and> moves c c' []"
proof (cases "sc_loop c")
  case LoopTop
  with ok s show ?thesis
    by (auto simp: loop_step_def sc_ok_def loop_ok_update pipe_view split: if_splits intro!: moves_same)
next
  case LoopDelay
  with ok s show ?thesis by (auto simp: loop_step_def sc_ok_def loop_ok_update pipe_view intro!: moves_same)
next
  case LoopGrab
  define n where "n = (if int (length (sc_buf c)) > sc_flushBytes c then nat (sc_flushBytes c) else length (sc_buf c))"
  from LoopGrab ok have e: "sc_writeErr c = None" "sc_buf c \<noteq> []" "1 \<le> sc_flushBytes c" by (simp_all add: sc_ok_def)
  with s LoopGrab have c': "c' = c\<lparr>sc_buf := drop n (sc_buf c), sc_loop := LoopWrite (take n (sc_buf c))\<rparr>"
    by (simp add: loop_step_def n_def Let_def)
  have n: "0 < n" "n \<le> length (sc_buf c)" "int n \<le> sc_flushBytes c" using e by (auto simp: n_def)
  have "pipe_of c' = pipe_of c" using e LoopGrab unfolding c' by (simp add: pipe_view)
  moreover have "sc_ok c'" using ok n e LoopGrab unfolding c' by (auto simp: sc_ok_def)
  ultimately show ?thesis by (simp add: moves_same)
next
  case (LoopWrite batch)
  obtain err raw where w: "writeAll (sc_raw c) batch = (err, raw)" by fastforce
  from writeAll_out [OF w] obtain n where n: "n \<le> length batch" "c_out raw = c_out (sc_raw c) @ take n batch"
    "err = None \<longrightarrow> n = length batch" by blast
  from LoopWrite ok have e: "sc_writeErr c = None" "batch \<noteq> []" by (simp_all add: sc_ok_def)
  show ?thesis
  proof (cases err)
    case None
    with s LoopWrite w have c': "c' = c\<lparr>sc_raw := raw, sc_loop := LoopTop\<rparr>"
      by (simp add: loop_step_def writeCarrierFull_def)
    have "pipe_of c' = pipe_step (Move (length batch)) (pipe_of c)"
      using None n e LoopWrite unfolding c' by (simp add: pipe_view)
    moreover have "sc_ok c'" using ok e LoopWrite unfolding c' by (auto simp: sc_ok_def)
    ultimately show ?thesis using moves_event [of c' "Move (length batch)" c "[]"] by simp
  next
    case (Some x)
    with s LoopWrite w have c': "c' = c\<lparr>sc_raw := raw, sc_loop := LoopFail x\<rparr>"
      by (simp add: loop_step_def writeCarrierFull_def)
    have "pipe_of c' = pipe_step (Break n) (pipe_of c)"
      using n e LoopWrite unfolding c' by (simp add: pipe_view)
    moreover have "sc_ok c'" using ok e LoopWrite unfolding c' by (auto simp: sc_ok_def)
    ultimately show ?thesis using moves_event [of c' "Break n" c "[]"] by simp
  qed
next
  case (LoopFail x)
  with ok s show ?thesis by (auto simp: loop_step_def sc_ok_def pipe_view intro!: moves_same)
next
  case LoopExit
  with ok s show ?thesis by (auto simp: loop_step_def sc_ok_def loop_ok_update pipe_view intro!: moves_same)
next
  case LoopDone
  with s show ?thesis by (simp add: loop_step_def)
qed

lemma writers_update:
  assumes "\<forall>p k. Some (p, k) \<in> set ws \<longrightarrow> k < length p" and "\<forall>p k. x = Some (p, k) \<longrightarrow> k < length p"
  shows "\<forall>p k. Some (p, k) \<in> set (ws[i := x]) \<longrightarrow> k < length p"
  using assms set_update_subset_insert [of ws i x] by blast

lemma loop_ok_append: "loop_ok c ph \<Longrightarrow> \<not> sc_closing c \<Longrightarrow> loop_ok (c\<lparr>sc_buf := sc_buf c @ b\<rparr>) ph"
  by (cases ph) simp_all

lemma writer_step_cases:
  assumes ok: "sc_ok c" and s: "writer_step i c = Some (obs, c')"
  obtains p k err where "i < length (sc_writers c)" "sc_writers c ! i = Some (p, k)"
      "obs = [WriteReturned i k (Some err)]" "c' = c\<lparr>sc_writers := (sc_writers c)[i := None]\<rparr>"
      "sc_writeErr c = Some err \<or> sc_writeErr c = None \<and> sc_closing c \<and> err = ErrClosed"
  | p k n where "i < length (sc_writers c)" "sc_writers c ! i = Some (p, k)" "sc_writeErr c = None" "\<not> sc_closing c"
      "0 < n" "k + n \<le> length p" "int (length (sc_buf c) + n) \<le> sc_maxBuffered c"
      "obs = Took (take n (drop k p)) # (if k + n < length p then [] else [WriteReturned i (k + n) None])"
      "c' = c\<lparr>sc_buf := sc_buf c @ take n (drop k p),
         sc_writers := (sc_writers c)[i := if k + n < length p then Some (p, k + n) else None]\<rparr>"
proof -
  from s obtain p k where i: "i < length (sc_writers c)" "sc_writers c ! i = Some (p, k)"
    by (auto simp: writer_step_def split: if_splits option.splits)
  then have k: "k < length p" using ok by (metis nth_mem sc_ok_def)
  show ?thesis
  proof (cases "sc_writeErr c \<noteq> None \<or> sc_closing c")
    case True
    with s i show ?thesis
      by (intro that(1) [OF i, of "case sc_writeErr c of Some e \<Rightarrow> e | None \<Rightarrow> ErrClosed"])
        (auto simp: writer_step_def writer_returns_def split: if_splits)
  next
    case False
    define n where "n = (if int (length p - k) > sc_maxBuffered c - int (length (sc_buf c))
      then nat (sc_maxBuffered c - int (length (sc_buf c))) else length p - k)"
    have room: "int (length (sc_buf c)) < sc_maxBuffered c"
      using s i False by (auto simp: writer_step_def split: if_splits)
    then have n: "0 < n" "k + n \<le> length p" "int (length (sc_buf c) + n) \<le> sc_maxBuffered c"
      using k by (auto simp: n_def)
    have "obs = Took (take n (drop k p)) # (if k + n < length p then [] else [WriteReturned i (k + n) None])
      \<and> c' = c\<lparr>sc_buf := sc_buf c @ take n (drop k p),
         sc_writers := (sc_writers c)[i := if k + n < length p then Some (p, k + n) else None]\<rparr>"
      using s i False room by (simp add: writer_step_def writer_returns_def Let_def n_def [symmetric] split: if_splits)
    with that(2) [OF i _ _ n] False show ?thesis by blast
  qed
qed

lemma writer_step_moves:
  assumes ok: "sc_ok c" and s: "writer_step i c = Some (obs, c')"
  shows "sc_ok c' \<and> moves c c' (accepted obs)"
  using ok s
proof (cases rule: writer_step_cases)
  case (1 p k err)
  then have "pipe_of c' = pipe_of c" by (simp add: pipe_view)
  moreover have "sc_ok c'"
    using ok writers_update [of "sc_writers c" None i] unfolding 1(4) by (simp add: sc_ok_def loop_ok_update)
  ultimately show ?thesis using 1 by (simp add: moves_same)
next
  case (2 p k n)
  let ?b = "take n (drop k p)" and ?ws = "(sc_writers c)[i := if k + n < length p then Some (p, k + n) else None]"
  have lb: "length ?b = n" using 2 by simp
  have p: "pipe_of c' = pipe_step (Put ?b) (pipe_of c)" unfolding 2(9) by (simp add: pipe_view split: loop_pc.split)
  have a: "accepted obs = ?b" unfolding 2(8) by simp
  have "sc_ok c'"
  proof -
    have "\<forall>q j. Some (q, j) \<in> set ?ws \<longrightarrow> j < length q"
      by (rule writers_update) (use ok in \<open>auto simp: sc_ok_def\<close>)
    moreover have "loop_ok c' (sc_loop c')"
      using ok 2(4) loop_ok_append [of c "sc_loop c" ?b] unfolding 2(9) by (simp add: sc_ok_def loop_ok_update)
    moreover have "int (length (sc_buf c')) \<le> sc_maxBuffered c'" using 2(7) lb unfolding 2(9) by simp
    moreover have sel: "sc_flushBytes c' = sc_flushBytes c" "sc_maxBuffered c' = sc_maxBuffered c"
      "sc_closers c' = sc_closers c" "sc_closing c' = sc_closing c" "sc_closeOnce c' = sc_closeOnce c"
      "sc_done c' = sc_done c" "sc_rawClosed c' = sc_rawClosed c" "sc_loop c' = sc_loop c" "sc_writers c' = ?ws"
      by (simp_all add: 2(9))
    ultimately show ?thesis using ok unfolding sc_ok_def sel by blast
  qed
  moreover have "moves c c' (accepted obs)" by (rule moves_event [OF p]) (simp add: a)
  ultimately show ?thesis by blast
qed

lemma carrier_step_moves:
  assumes ok: "sc_ok c" and s: "carrier_step a c = Some (obs, c')"
  shows "sc_ok c' \<and> moves c c' (accepted obs)"
proof (cases a)
  case (CallWrite p)
  with ok s show ?thesis
    by (auto simp: sc_ok_def loop_ok_update pipe_view split: if_splits intro!: moves_same)
next
  case (WriterStep i)
  with ok s show ?thesis by (simp add: writer_step_moves)
next
  case LoopStep
  with ok s loop_step_moves show ?thesis by auto
next
  case CallClose
  with s have c': "c' = carrier_close c" "obs = []" by simp_all
  have "loop_ok (carrier_close c) (sc_loop c)"
    using ok by (cases "sc_loop c") (auto simp: sc_ok_def carrier_close_def Let_def)
  with ok show ?thesis unfolding c'
    by (auto simp: sc_ok_def carrier_close_def Let_def pipe_view intro!: moves_same)
next
  case CloseReturn
  with ok s show ?thesis
    by (auto simp: sc_ok_def loop_ok_update pipe_view split: if_splits intro!: moves_same)
qed

text \<open>Once \<^verbatim>\<open>writeLoop\<close> is gone nothing more changes.\<close>

lemma carrier_step_done:
  assumes "sc_ok c" and "carrier_step a c = Some (obs, c')" and "sc_loop c = LoopDone"
  shows "sc_loop c' = LoopDone \<and> sc_writeErr c' = sc_writeErr c"
proof (cases a)
  case (WriterStep i)
  with assms(2) have "writer_step i c = Some (obs, c')" by simp
  with assms(1) show ?thesis by (cases rule: writer_step_cases) (use assms in \<open>simp_all add: sc_ok_def\<close>)
qed (use assms in \<open>auto simp: loop_step_def carrier_close_def Let_def split: if_splits\<close>)

lemma writer_step_obs: "writer_step i c = Some (obs, c') \<Longrightarrow> sc_ok c \<Longrightarrow> CloseReturned e \<notin> set obs"
  by (erule writer_step_cases [rotated]) auto

lemma carrier_run_moves:
  "carrier_run c0 as obs c \<Longrightarrow> sc_ok c0 \<Longrightarrow>
   sc_ok c \<and> moves c0 c (accepted obs) \<and> (\<forall>e. CloseReturned e \<in> set obs \<longrightarrow> sc_loop c = LoopDone \<and> sc_writeErr c = e)"
proof (induction rule: carrier_run.induct)
  case (carrier_run_step c as obs c1 a o1 c2)
  from carrier_run_step have ih: "sc_ok c1" "moves c c1 (accepted obs)"
    "\<forall>e. CloseReturned e \<in> set obs \<longrightarrow> sc_loop c1 = LoopDone \<and> sc_writeErr c1 = e" by simp_all
  note s = carrier_run_step.hyps(2)
  from carrier_step_moves [OF ih(1) s] have m: "sc_ok c2" "moves c1 c2 (accepted o1)" by simp_all
  from ih(2) m(2) obtain evs evs' where "pipe_of c1 = pipe_run evs (pipe_of c)" "puts evs = accepted obs"
    "pipe_of c2 = pipe_run evs' (pipe_of c1)" "puts evs' = accepted o1" by (auto simp: moves_def)
  then have "pipe_of c2 = pipe_run (evs @ evs') (pipe_of c) \<and> puts (evs @ evs') = accepted (obs @ o1)" by simp
  then have t: "moves c c2 (accepted (obs @ o1))" unfolding moves_def by blast
  have "sc_loop c2 = LoopDone \<and> sc_writeErr c2 = e" if "CloseReturned e \<in> set (obs @ o1)" for e
  proof (cases "CloseReturned e \<in> set obs")
    case True
    with ih(3) carrier_step_done [OF ih(1) s] show ?thesis by auto
  next
    case False
    with that have n: "CloseReturned e \<in> set o1" by simp
    show ?thesis
    proof (cases a)
      case (WriterStep i)
      with n writer_step_obs [of i c1 o1 c2 e] s ih(1) show ?thesis by simp
    next
      case CloseReturn
      with n s ih(1) show ?thesis by (auto simp: sc_ok_def split: if_splits)
    qed (use n s in \<open>auto split: if_splits\<close>)
  qed
  with m t show ?case by blast
qed (simp add: moves_same)

section \<open>The calls return\<close>

fun internal :: "carrier_action \<Rightarrow> bool" where
  "internal (CallWrite p) = False"
| "internal CallClose = False"
| "internal _ = True"

fun call_cost :: "carrier_action \<Rightarrow> nat" where
  "call_cost (CallWrite p) = 6 * length p + 1"
| "call_cost CallClose = 1"
| "call_cost _ = 0"

fun loop_rank :: "loop_pc \<Rightarrow> nat" where
  "loop_rank LoopTop = 3"
| "loop_rank LoopDelay = 2"
| "loop_rank LoopGrab = 1"
| "loop_rank (LoopWrite b) = 4 * length b"
| "loop_rank (LoopFail e) = 3"
| "loop_rank LoopExit = 2"
| "loop_rank LoopDone = 0"

fun writer_work :: "(bytes \<times> nat) option \<Rightarrow> nat" where
  "writer_work None = 0"
| "writer_work (Some (p, k)) = 6 * (length p - k) + 1"

definition carrier_work :: "sshCarrierConn \<Rightarrow> nat" where
  "carrier_work c = sum_list (map writer_work (sc_writers c)) + 5 * length (sc_buf c) + loop_rank (sc_loop c) + sc_closers c"

lemma work_update:
  "i < length ws \<Longrightarrow> sum_list (map f (ws[i := x])) + f (ws ! i) = sum_list (map f ws) + f x" for f :: "'a \<Rightarrow> nat"
  by (induction ws arbitrary: i) (auto split: nat.split)

lemma loop_step_work: "sc_ok c \<Longrightarrow> loop_step c = Some c' \<Longrightarrow> carrier_work c' < carrier_work c"
proof (cases "sc_loop c")
  case LoopGrab
  assume ok: "sc_ok c" and s: "loop_step c = Some c'"
  define n where "n = (if int (length (sc_buf c)) > sc_flushBytes c then nat (sc_flushBytes c) else length (sc_buf c))"
  from LoopGrab ok have e: "sc_writeErr c = None" "sc_buf c \<noteq> []" "1 \<le> sc_flushBytes c" by (simp_all add: sc_ok_def)
  with s LoopGrab have c': "c' = c\<lparr>sc_buf := drop n (sc_buf c), sc_loop := LoopWrite (take n (sc_buf c))\<rparr>"
    by (simp add: loop_step_def n_def Let_def)
  have n: "0 < n" "n \<le> length (sc_buf c)" using e by (auto simp: n_def)
  with LoopGrab show ?thesis unfolding c' by (simp add: carrier_work_def)
next
  case (LoopWrite b)
  assume ok: "sc_ok c" and s: "loop_step c = Some c'"
  with LoopWrite have "0 < length b" by (auto simp: sc_ok_def)
  then have "3 < 4 * length b" by linarith
  with s LoopWrite show ?thesis by (auto simp: loop_step_def carrier_work_def split: prod.splits option.splits)
qed (auto simp: loop_step_def carrier_work_def split: if_splits)

lemma writer_step_work:
  assumes ok: "sc_ok c" and s: "writer_step i c = Some (obs, c')"
  shows "carrier_work c' < carrier_work c"
  using ok s
proof (cases rule: writer_step_cases)
  case (1 p k err)
  with work_update [of i "sc_writers c" writer_work None] show ?thesis by (simp add: carrier_work_def)
next
  case (2 p k n)
  then have "length (take n (drop k p)) = n" by simp
  with 2 work_update [of i "sc_writers c" writer_work "if k + n < length p then Some (p, k + n) else None"]
  show ?thesis by (simp add: carrier_work_def split: if_splits)
qed

lemma carrier_step_work:
  assumes ok: "sc_ok c" and s: "carrier_step a c = Some (obs, c')"
  shows "(if internal a then 1 else 0) + carrier_work c' \<le> carrier_work c + call_cost a"
proof (cases a)
  case (WriterStep i)
  with s have "writer_step i c = Some (obs, c')" by simp
  from writer_step_work [OF ok this] WriterStep show ?thesis by simp
next
  case LoopStep
  with s obtain c1 where "loop_step c = Some c1" "c' = c1" by auto
  with loop_step_work [OF ok] LoopStep show ?thesis by simp
qed (use s in \<open>auto simp: carrier_work_def carrier_close_def Let_def split: if_splits\<close>)

lemma carrier_progress:
  assumes ok: "sc_ok c" and w: "(\<exists>p k. Some (p, k) \<in> set (sc_writers c)) \<or> 0 < sc_closers c"
  shows "\<exists>a res. internal a \<and> carrier_step a c = Some res"
proof (cases "loop_step c")
  case (Some c')
  then show ?thesis by (intro exI [of _ LoopStep]) simp
next
  case None
  then consider "sc_loop c = LoopDone" | "sc_loop c = LoopTop" "sc_buf c = []" "\<not> sc_closing c" "sc_writeErr c = None"
    by (auto simp: loop_step_def Let_def split: loop_pc.splits if_splits option.splits prod.splits)
  then show ?thesis
  proof cases
    case 1
    with ok have d: "sc_done c" "sc_closing c" by (simp_all add: sc_ok_def)
    show ?thesis
    proof (cases "0 < sc_closers c")
      case True
      with d show ?thesis by (intro exI [of _ CloseReturn]) simp
    next
      case False
      with w obtain i p k where "i < length (sc_writers c)" "sc_writers c ! i = Some (p, k)" by (metis in_set_conv_nth)
      with d show ?thesis by (intro exI [of _ "WriterStep i"]) (simp add: writer_step_def)
    qed
  next
    case 2
    then have "sc_closers c = 0" using ok by (auto simp: sc_ok_def)
    with w obtain i p k where i: "i < length (sc_writers c)" "sc_writers c ! i = Some (p, k)" by (metis in_set_conv_nth less_irrefl)
    have "0 < sc_maxBuffered c" using ok by (simp add: sc_ok_def)
    with 2 i have "\<exists>res. writer_step i c = Some res" by (auto simp: writer_step_def Let_def split: prod.split)
    then show ?thesis by (intro exI [of _ "WriterStep i"]) simp
  qed
qed

lemma carrier_run_work:
  "carrier_run c0 as obs c \<Longrightarrow> sc_ok c0 \<Longrightarrow>
   length (filter internal as) + carrier_work c \<le> carrier_work c0 + sum_list (map call_cost as)"
proof (induction rule: carrier_run.induct)
  case (carrier_run_step c as obs c1 a o1 c2)
  have "sc_ok c1" using carrier_run_moves [OF carrier_run_step.hyps(1) carrier_run_step.prems] by simp
  from carrier_step_work [OF this carrier_run_step.hyps(2)] carrier_run_step show ?case by (auto split: if_splits)
qed simp

section \<open>The properties\<close>

text \<open>C5: The SSH carrier refines a byte pipe. Under every interleaving of any number of writers,
  of \<^verbatim>\<open>writeLoop\<close> and of \<^verbatim>\<open>Close\<close>, every step of the carrier is a step of an
  abstract pipe into which exactly the bytes are put that the calls of \<^verbatim>\<open>Write\<close> took,
  in that order. So the connection underneath receives a prefix of them, no more than the buffer
  and one batch are ever on their way, and when \<^verbatim>\<open>Close\<close> returns no error every byte
  that was taken has been written.\<close>

theorem ssh_carrier_refines_pipe:
  assumes "carrier_run (newSSHCarrierConn raw flush buffered delay) as obs c"
  shows "(\<exists>evs. pipe_of c = pipe_run evs \<lparr>p_queue = [], p_out = c_out raw, p_broken = False\<rparr> \<and> puts evs = accepted obs)
    \<and> prefix (c_out (sc_raw c)) (c_out raw @ accepted obs)
    \<and> int (length (p_queue (pipe_of c))) \<le> sc_maxBuffered c + sc_flushBytes c
    \<and> (CloseReturned None \<in> set obs \<longrightarrow> c_out (sc_raw c) = c_out raw @ accepted obs \<and> sc_rawClosed c)"
proof -
  let ?p = "\<lparr>p_queue = [], p_out = c_out raw, p_broken = False\<rparr>"
  have p: "pipe_of (newSSHCarrierConn raw flush buffered delay) = ?p"
    by (simp add: newSSHCarrierConn_def pipe_view Let_def)
  from carrier_run_moves [OF assms sc_ok_new] obtain evs where ok: "sc_ok c"
    and evs: "pipe_of c = pipe_run evs ?p" "puts evs = accepted obs"
    and cl: "\<forall>e. CloseReturned e \<in> set obs \<longrightarrow> sc_loop c = LoopDone \<and> sc_writeErr c = e"
    by (auto simp: moves_def p)
  have st: "prefix (p_out (pipe_of c)) (c_out raw @ accepted obs)"
    "\<not> p_broken (pipe_of c) \<longrightarrow> p_out (pipe_of c) @ p_queue (pipe_of c) = c_out raw @ accepted obs"
    using pipe_run_stream [of ?p evs] evs by simp_all
  have "int (length (p_queue (pipe_of c))) \<le> sc_maxBuffered c + sc_flushBytes c"
    using ok by (cases "sc_loop c") (auto simp: sc_ok_def pipe_view)
  moreover have "c_out (sc_raw c) = c_out raw @ accepted obs \<and> sc_rawClosed c" if "CloseReturned None \<in> set obs"
    using that cl st(2) ok by (auto simp: pipe_view sc_ok_def)
  moreover have "p_out (pipe_of c) = c_out (sc_raw c)" by (simp add: pipe_of_def)
  ultimately show ?thesis using evs st(1) by auto
qed

lemma sample_carrier_run:
  "\<exists>c. carrier_run (newSSHCarrierConn open_conn 0 0 0)
      [CallWrite [1, 2], WriterStep 0, CallClose, LoopStep, LoopStep, LoopStep, LoopStep, LoopStep, CloseReturn]
      [Took [1, 2], WriteReturned 0 2 None, CloseReturned None] c"
proof -
  let ?c = "newSSHCarrierConn open_conn 0 0 0"
  obtain raw where w: "writeCarrierFull open_conn [1, 2] = (None, raw)"
    using writeAll_accepting(1) [of open_conn "[1, 2]"] by (cases "writeAll open_conn [1, 2]") (auto simp: writeCarrierFull_def)
  let ?c1 = "?c\<lparr>sc_writers := [Some ([1, 2], 0)]\<rparr>"
  let ?c2 = "?c\<lparr>sc_buf := [1, 2], sc_writers := [None]\<rparr>"
  let ?c3 = "?c2\<lparr>sc_closers := 1, sc_closeOnce := True, sc_closing := True\<rparr>"
  let ?c4 = "?c3\<lparr>sc_loop := LoopGrab\<rparr>" and ?c5 = "?c3\<lparr>sc_buf := [], sc_loop := LoopWrite [1, 2]\<rparr>"
  let ?c6 = "?c3\<lparr>sc_buf := [], sc_raw := raw\<rparr>"
  let ?c8 = "?c6\<lparr>sc_rawClosed := True, sc_done := True, sc_loop := LoopDone\<rparr>"
  note n = newSSHCarrierConn_def Let_def
  have 1: "carrier_step (CallWrite [1, 2]) ?c = Some ([], ?c1)" by (simp add: n)
  have 2: "carrier_step (WriterStep 0) ?c1 = Some ([Took [1, 2], WriteReturned 0 2 None], ?c2)"
    by (simp add: n writer_step_def writer_returns_def)
  have 3: "carrier_step CallClose ?c2 = Some ([], ?c3)" by (simp add: n carrier_close_def)
  have 4: "carrier_step LoopStep ?c3 = Some ([], ?c4)" by (simp add: n loop_step_def)
  have 5: "carrier_step LoopStep ?c4 = Some ([], ?c5)" by (simp add: n loop_step_def)
  have 6: "carrier_step LoopStep ?c5 = Some ([], ?c6)" using w by (simp add: n loop_step_def)
  have 7: "carrier_step LoopStep ?c6 = Some ([], ?c6\<lparr>sc_loop := LoopExit\<rparr>)" by (simp add: n loop_step_def)
  have 8: "carrier_step LoopStep (?c6\<lparr>sc_loop := LoopExit\<rparr>) = Some ([], ?c8)" by (simp add: n loop_step_def)
  have 9: "carrier_step CloseReturn ?c8 = Some ([CloseReturned None], ?c8\<lparr>sc_closers := 0\<rparr>)" by (simp add: n)
  from carrier_run_step [OF carrier_run_step [OF carrier_run_step [OF carrier_run_step [OF carrier_run_step
    [OF carrier_run_step [OF carrier_run_step [OF carrier_run_step [OF carrier_run_step [OF carrier_run_start 1] 2] 3] 4] 5] 6] 7] 8] 9]
  show ?thesis by (auto simp only: append.simps)
qed

theorem ssh_carrier_refines_pipe_witness:
  "\<exists>c. carrier_run (newSSHCarrierConn open_conn 0 0 0)
      [CallWrite [1, 2], WriterStep 0, CallClose, LoopStep, LoopStep, LoopStep, LoopStep, LoopStep, CloseReturn]
      [Took [1, 2], WriteReturned 0 2 None, CloseReturned None] c \<and> c_out (sc_raw c) = [1, 2]"
proof -
  obtain c where r: "carrier_run (newSSHCarrierConn open_conn 0 0 0)
      [CallWrite [1, 2], WriterStep 0, CallClose, LoopStep, LoopStep, LoopStep, LoopStep, LoopStep, CloseReturn]
      [Took [1, 2], WriteReturned 0 2 None, CloseReturned None] c" using sample_carrier_run by blast
  from ssh_carrier_refines_pipe [OF r] r show ?thesis by (auto simp: open_conn_def)
qed



end
