(* ===== verification/NetAddr.thy ===== *)
theory NetAddr
  imports GoText
begin

text \<open>
  The parts of Go's \<^verbatim>\<open>net\<close> and \<^verbatim>\<open>net/netip\<close> packages the front
  ends use: the text of an IP address, its parser, and joining and splitting of host and port. An
  address is its 4 or 16 bytes, as in \<^verbatim>\<open>net.IP\<close>.
\<close>

section \<open>Addresses as text\<close>

definition To4 :: "bytes \<Rightarrow> bytes option" where
  "To4 ip = (if length ip = 4 then Some ip
     else if length ip = 16 \<and> take 12 ip = replicate 10 0 @ [0xFF, 0xFF] then Some (drop 12 ip)
     else None)"

definition hex_digit :: "nat \<Rightarrow> char" where
  "hex_digit d = (if d < 10 then char_of (48 + d) else char_of (87 + d))"

fun hex :: "nat \<Rightarrow> string" where
  "hex n = (if n < 16 then [hex_digit n] else hex (n div 16) @ [hex_digit (n mod 16)])"

declare hex.simps [simp del]

definition dotted :: "bytes \<Rightarrow> string" where
  "dotted ip = dec (unat (ip ! 0)) @ ''.'' @ dec (unat (ip ! 1)) @ ''.'' @ dec (unat (ip ! 2)) @ ''.'' @ dec (unat (ip ! 3))"

definition groups16 :: "bytes \<Rightarrow> nat list" where
  "groups16 ip = map (\<lambda>i. unat (ip ! (2 * i)) * 256 + unat (ip ! (2 * i + 1))) [0..<8]"

text \<open>
  \<^verbatim>\<open>netip\<close>'s search for the run of at least two zero groups to abbreviate: the first of
  the longest ones.
\<close>

definition zero_run :: "nat list \<Rightarrow> nat \<times> nat" where
  "zero_run g = foldl (\<lambda>(zs, ze) i.
      let j = i + length (takeWhile (\<lambda>x. x = 0) (drop i g))
      in if j - i \<ge> 2 \<and> j - i > ze - zs then (i, j) else (zs, ze)) (255, 255) [0..<8]"

text \<open>The groups from number \<open>i\<close> on, as \<^verbatim>\<open>appendTo6\<close> prints them.\<close>

function ip6_from :: "nat \<Rightarrow> nat \<times> nat \<Rightarrow> nat list \<Rightarrow> string" where
  "ip6_from i (zs, ze) g =
     (if 8 \<le> i then []
      else if i = zs \<and> i < ze then ''::'' @ (if 8 \<le> ze then [] else hex (g ! ze) @ ip6_from (Suc ze) (zs, ze) g)
      else (if 0 < i then '':'' else []) @ hex (g ! i) @ ip6_from (Suc i) (zs, ze) g)"
  by pat_completeness auto
termination
  by (relation "measure (\<lambda>(i, z, g). 8 - i)") auto

declare ip6_from.simps [simp del]

text \<open>\<^verbatim>\<open>net.IP.String\<close> of an address of 4 or 16 bytes.\<close>

definition IPString :: "bytes \<Rightarrow> string" where
  "IPString ip = (case To4 ip of Some p4 \<Rightarrow> dotted p4
     | None \<Rightarrow> ip6_from 0 (zero_run (groups16 ip)) (groups16 ip))"

section \<open>Parsing addresses\<close>

text \<open>
  \<^verbatim>\<open>netip.parseIPv4Fields\<close>: the loop over the characters, with the fields found so
  far, the current field and its number of digits.
\<close>

fun ip4_fields :: "nat list \<Rightarrow> nat \<Rightarrow> nat \<Rightarrow> string \<Rightarrow> nat list option" where
  "ip4_fields fs v dl [] = (if length fs < 3 then None else Some (fs @ [v]))"
| "ip4_fields fs v dl (c # s) =
     (case digit_of c of
        Some d \<Rightarrow> if dl = 1 \<and> v = 0 then None
                  else if v * 10 + d > 255 then None
                  else ip4_fields fs (v * 10 + d) (dl + 1) s
      | None \<Rightarrow> if c = CHR ''.'' then
                   if dl = 0 \<or> s = [] then None
                   else if length fs = 3 then None
                   else ip4_fields (fs @ [v]) 0 0 s
                 else None)"

definition parseIPv4 :: "string \<Rightarrow> bytes option" where
  "parseIPv4 s = (if s = [] then None else map_option (map word_of_nat) (ip4_fields [] 0 0 s))"

definition hex_val :: "char \<Rightarrow> nat option" where
  "hex_val c = (let n = of_char c in
     if 48 \<le> n \<and> n \<le> 57 then Some (n - 48)
     else if 97 \<le> n \<and> n \<le> 102 then Some (n - 87)
     else if 65 \<le> n \<and> n \<le> 70 then Some (n - 55) else None)"

text \<open>The digits of one group: their number and value, and the rest of the text; at most four.\<close>

fun hex_group :: "nat \<Rightarrow> nat \<Rightarrow> string \<Rightarrow> (nat \<times> nat \<times> string) option" where
  "hex_group k v [] = Some (k, v, [])"
| "hex_group k v (c # s) = (case hex_val c of
     None \<Rightarrow> Some (k, v, c # s)
   | Some d \<Rightarrow> if k > 3 then None else hex_group (Suc k) (v * 16 + d) s)"

lemma hex_group_rest: "hex_group k v s = Some (m, x, r) \<Longrightarrow> length r \<le> length s"
  by (induction k v s rule: hex_group.induct) (auto split: option.splits if_splits)

text \<open>
  The loop of \<^verbatim>\<open>netip.parseIPv6\<close>: the bytes so far, the place of the ellipsis, and the
  text left. It ends with the bytes when the whole text is used.
\<close>

function ip6_loop :: "bytes \<Rightarrow> nat option \<Rightarrow> string \<Rightarrow> (bytes \<times> nat option) option" where
  "ip6_loop acc el s =
     (if 16 \<le> length acc then (if s = [] then Some (acc, el) else None)
      else case hex_group 0 0 s of
        None \<Rightarrow> None
      | Some (off, v, r) \<Rightarrow>
          if off = 0 then None
          else if r \<noteq> [] \<and> hd r = CHR ''.'' then
            if el = None \<and> length acc \<noteq> 12 then None
            else if length acc + 4 > 16 then None
            else (case ip4_fields [] 0 0 s of None \<Rightarrow> None
                  | Some fs \<Rightarrow> Some (acc @ map word_of_nat fs, el))
          else
            let acc' = acc @ [word_of_nat (v div 256), word_of_nat v] in
            if r = [] then Some (acc', el)
            else if hd r \<noteq> CHR '':'' then None
            else if length r = 1 then None
            else
              let r' = tl r in
              if hd r' = CHR '':'' then
                if el \<noteq> None then None
                else if tl r' = [] then Some (acc', Some (length acc'))
                else ip6_loop acc' (Some (length acc')) (tl r')
              else ip6_loop acc' el r')"
  by pat_completeness auto
termination
  by (relation "measure (\<lambda>(acc, el, s). 16 - length acc)") auto

declare ip6_loop.simps [simp del]

text \<open>The ellipsis stands for at least one zero group.\<close>

definition ip6_expand :: "bytes \<Rightarrow> nat option \<Rightarrow> bytes option" where
  "ip6_expand acc el =
     (if length acc < 16 then
        (case el of None \<Rightarrow> None
         | Some k \<Rightarrow> Some (take k acc @ replicate (16 - length acc) 0 @ drop k acc))
      else if el \<noteq> None then None else Some acc)"

definition parseIPv6 :: "string \<Rightarrow> bytes option" where
  "parseIPv6 s =
     (if HasPrefix s ''::'' then
        if drop 2 s = [] then Some (replicate 16 0)
        else (case ip6_loop [] (Some 0) (drop 2 s) of None \<Rightarrow> None | Some (acc, el) \<Rightarrow> ip6_expand acc el)
      else (case ip6_loop [] None s of None \<Rightarrow> None | Some (acc, el) \<Rightarrow> ip6_expand acc el))"

text \<open>
  \<^verbatim>\<open>net.ParseIP\<close>: the first dot or colon decides the family, an address with a zone is
  refused, and an IPv4 address comes back in its 16-byte form.
\<close>

definition ParseIP :: "string \<Rightarrow> bytes option" where
  "ParseIP s =
     (if CHR ''%'' \<in> set s then None
      else case dropWhile (\<lambda>c. c \<noteq> CHR ''.'' \<and> c \<noteq> CHR '':'') s of
        [] \<Rightarrow> None
      | c # _ \<Rightarrow> if c = CHR ''.'' then map_option (\<lambda>p. replicate 10 0 @ [0xFF, 0xFF] @ p) (parseIPv4 s)
                 else parseIPv6 s)"

section \<open>Host and port\<close>

text \<open>\<^verbatim>\<open>net.JoinHostPort\<close> with the port in decimal.\<close>

definition JoinHostPort :: "string \<Rightarrow> string \<Rightarrow> string" where
  "JoinHostPort host port =
     (if CHR '':'' \<in> set host then ''['' @ host @ '']:'' @ port else host @ '':'' @ port)"

definition addr_error :: "string \<Rightarrow> string \<Rightarrow> goerr" where
  "addr_error hostport why = Msg (''address '' @ hostport @ '': '' @ why)"

definition SplitHostPort :: "string \<Rightarrow> goerr + string \<times> string" where
  "SplitHostPort hostport =
     (case last_index_byte CHR '':'' hostport of
        None \<Rightarrow> Inl (addr_error hostport ''missing port in address'')
      | Some i \<Rightarrow>
          let checks = (\<lambda>host j k.
                if CHR ''['' \<in> set (drop j hostport) then Inl (addr_error hostport ''unexpected [ in address'')
                else if CHR '']'' \<in> set (drop k hostport) then Inl (addr_error hostport ''unexpected ] in address'')
                else Inr (host, drop (i + 1) hostport))
          in
          if hd hostport = CHR ''['' then
            (case index_byte CHR '']'' hostport of
               None \<Rightarrow> Inl (addr_error hostport ''missing ] in address'')
             | Some e \<Rightarrow>
                 if e + 1 = length hostport then Inl (addr_error hostport ''missing port in address'')
                 else if e + 1 = i then checks (take (e - 1) (drop 1 hostport)) 1 (e + 1)
                 else if hostport ! (e + 1) = CHR '':'' then Inl (addr_error hostport ''too many colons in address'')
                 else Inl (addr_error hostport ''missing port in address''))
          else
            let host = take i hostport in
            if CHR '':'' \<in> set host then Inl (addr_error hostport ''too many colons in address'')
            else checks host 0 0)"

lemma last_index_byte_append:
  assumes "c \<notin> set b"
  shows "last_index_byte c (a @ c # b) = Some (length a)"
proof -
  have "takeWhile (\<lambda>x. x \<noteq> c) (rev b @ c # rev a) = rev b"
    using assms by (subst takeWhile_append2) auto
  then show ?thesis by (simp add: last_index_byte_def index_byte_def)
qed

lemma index_byte_append:
  assumes "c \<notin> set a"
  shows "index_byte c (a @ c # b) = Some (length a)"
proof -
  have "takeWhile (\<lambda>x. x \<noteq> c) (a @ c # b) = a" using assms by (subst takeWhile_append2) auto
  then show ?thesis by (simp add: index_byte_def)
qed

text \<open>Joining and splitting are inverse on hosts without brackets.\<close>

lemma Split_Join_HostPort:
  assumes h: "CHR ''['' \<notin> set host" "CHR '']'' \<notin> set host"
    and p: "CHR '':'' \<notin> set port" "CHR ''['' \<notin> set port" "CHR '']'' \<notin> set port"
  shows "SplitHostPort (JoinHostPort host port) = Inr (host, port)"
proof (cases "CHR '':'' \<in> set host")
  case True
  have e: "JoinHostPort host port = (''['' @ host @ '']'') @ CHR '':'' # port" using True by (simp add: JoinHostPort_def)
  have i: "last_index_byte CHR '':'' (JoinHostPort host port) = Some (length host + 2)"
    unfolding e using last_index_byte_append [OF p(1), of "''['' @ host @ '']''"] by simp
  have x: "index_byte CHR '']'' (JoinHostPort host port) = Some (length host + 1)"
    using index_byte_append [of "CHR '']''" "CHR ''['' # host" "CHR '':'' # port"] h by (simp add: e)
  show ?thesis unfolding SplitHostPort_def i using h p x by (simp add: e)
next
  case False
  have e: "JoinHostPort host port = host @ CHR '':'' # port" using False by (simp add: JoinHostPort_def)
  have i: "last_index_byte CHR '':'' (JoinHostPort host port) = Some (length host)"
    unfolding e by (rule last_index_byte_append [OF p(1)])
  have "hd (host @ CHR '':'' # port) \<noteq> CHR ''[''" using h by (cases host) auto
  with False h p show ?thesis unfolding SplitHostPort_def i by (simp add: e)
qed

section \<open>IPv4 round trip\<close>

lemma ip4_fields_dec:
  assumes "n < 256" and "s = [] \<or> digit_of (hd s) = None"
  shows "ip4_fields fs 0 0 (dec n @ s) = ip4_fields fs n (length (dec n)) s"
proof -
  have t: "dec m = dec (m div 10) @ [digit (m mod 10)]" if "\<not> m < 10" for m
    using that by (subst dec.simps) simp
  have o: "dec m = [digit m]" if "m < 10" for m using that by (subst dec.simps) simp
  have h: "n div 10 div 10 = n div 100" by (simp add: div_mult2_eq [symmetric])
  have s: "dec n = (if n < 10 then [digit n] else if n < 100 then [digit (n div 10), digit (n mod 10)]
      else [digit (n div 100), digit (n div 10 mod 10), digit (n mod 10)])"
  proof -
    have "dec n = [digit (n div 100), digit (n div 10 mod 10), digit (n mod 10)]" if "\<not> n < 100"
    proof -
      have "dec n = (dec (n div 10 div 10) @ [digit (n div 10 mod 10)]) @ [digit (n mod 10)]"
        using that t [of n] t [of "n div 10"] by force
      moreover have "n div 100 < 10" using assms(1) by simp
      ultimately show ?thesis unfolding h by (simp add: o)
    qed
    moreover have "dec n = [digit (n div 10), digit (n mod 10)]" if "\<not> n < 10" "n < 100"
      unfolding t [OF that(1)] using that o [of "n div 10"] by simp
    ultimately show ?thesis using o [of n] by simp
  qed
  have d: "n div 100 * 10 + n div 10 mod 10 = n div 10" using div_mult_mod_eq [of "n div 10" 10] unfolding h .
  show ?thesis
  proof (cases "n < 10")
    case True
    with s show ?thesis by simp
  next
    case False
    note ge = this
    show ?thesis
    proof (cases "n < 100")
      case True
      have "n div 10 \<noteq> 0" "n div 10 < 256" using ge assms(1) by simp_all
      with True ge s assms(1) show ?thesis by simp
    next
      case False
      have "n div 100 \<noteq> 0" "n div 100 < 10" "n div 100 < 256" "n div 10 < 256" using False assms(1) by simp_all
      with False ge s d assms(1) show ?thesis by simp
    qed
  qed
qed

lemma ip4_last: "n < 256 \<Longrightarrow> ip4_fields fs 0 0 (dec n) = ip4_fields fs n (length (dec n)) []"
  using ip4_fields_dec [of n "[]" fs] by simp

lemma ip4_text:
  "ip4_fields [] 0 0 (dec (unat (a :: byte)) @ CHR ''.'' # dec (unat (b :: byte)) @ CHR ''.'' # dec (unat (c :: byte)) @ CHR ''.'' # dec (unat (d :: byte)))
     = Some [unat a, unat b, unat c, unat d]"
  by (simp add: ip4_fields_dec ip4_last digit_of_def)

lemma parseIPv4_dotted:
  assumes "length ip = 4"
  shows "parseIPv4 (dotted ip) = Some ip"
proof -
  obtain a b c d where ip: "ip = [a, b, c, d]" using assms by (auto simp: numeral_eq_Suc length_Suc_conv)
  have t: "dotted ip = dec (unat a) @ CHR ''.'' # dec (unat b) @ CHR ''.'' # dec (unat c) @ CHR ''.'' # dec (unat d)"
    by (simp add: dotted_def ip)
  have "dotted ip \<noteq> []" by (simp add: t)
  then show ?thesis unfolding parseIPv4_def t ip4_text by (simp add: ip)
qed

lemma dotted_inj: "length a = 4 \<Longrightarrow> length b = 4 \<Longrightarrow> dotted a = dotted b \<Longrightarrow> a = b"
  by (metis option.inject parseIPv4_dotted)

end
