(* ===== verification/SshTunnel.thy ===== *)
theory SshTunnel
  imports NetAddr "HOL-Library.Multiset"
begin

text \<open>
  \<^verbatim>\<open>ssh_tunnel.go\<close>: the manager of the one SSH client all SOCKS connections share.
  The SSH library is outside the repository; its calls are arguments of the model, in a record of
  functions over an arbitrary state, together with the dialing of the carrier. Calls of
  \<^verbatim>\<open>DialTCP\<close>, the keep-alive goroutine of each client and \<^verbatim>\<open>Close\<close> are
  interleaved at their critical sections.
\<close>

section \<open>The manager\<close>

datatype channel_error = OpenChannelError goerr | OtherError goerr

text \<open>
  What the manager calls: dialing the carrier, the handshake over it (with the carrier's batch and
  buffer sizes, the address, the user and the password), closing a carrier, asking a client for a
  channel, closing a client, and its keep-alive request.
\<close>

record ('s, 't) ssh_env =
  env_dial :: "string \<Rightarrow> int \<Rightarrow> 's \<Rightarrow> (goerr + 't) \<times> 's"
  env_handshake :: "'t \<Rightarrow> int \<Rightarrow> int \<Rightarrow> string \<Rightarrow> string \<Rightarrow> string \<Rightarrow> 's \<Rightarrow> goerr option \<times> 's"
  env_abandon :: "'t \<Rightarrow> 's \<Rightarrow> 's"
  env_channel :: "nat \<Rightarrow> string \<Rightarrow> 's \<Rightarrow> (channel_error + nat) \<times> 's"
  env_shutdown :: "nat \<Rightarrow> 's \<Rightarrow> goerr option \<times> 's"
  env_ping :: "nat \<Rightarrow> 's \<Rightarrow> goerr option \<times> 's"

text \<open>A client is known by its number; \<open>sm_made\<close> counts the clients made so far.\<close>

record sshTunnelManager =
  sm_username :: string
  sm_password :: string
  sm_internalHost :: string
  sm_internalPort :: int
  sm_pinFile :: string
  sm_udpgwHost :: string
  sm_udpgwPort :: int
  sm_tcpBuffer :: int
  sm_client :: "nat option"
  sm_closed :: bool
  sm_made :: nat

definition newSSHTunnelManager ::
  "string \<Rightarrow> string \<Rightarrow> string \<Rightarrow> int \<Rightarrow> string \<Rightarrow> string \<Rightarrow> int \<Rightarrow> int \<Rightarrow> goerr + sshTunnelManager" where
  "newSSHTunnelManager username0 password internalHost0 internalPort pinFile udpgwHost0 udpgwPort tcpBuffer =
     (let username = TrimSpace username0 in
      if username = [] then Inl (Msg ''SSH username is required'')
      else if password = [] then Inl (Msg ''SSH password is required'')
      else
        let internalHost = (if internalHost0 = [] then ''dragontcp-ssh.internal'' else internalHost0) in
        if internalPort < 1 \<or> internalPort > 65535 then Inl (Msg ''invalid SSH internal port'')
        else
          let udpgwHost = (if udpgwHost0 = [] then ''dragontcp-udpgw.internal'' else udpgwHost0) in
          if udpgwPort < 1 \<or> udpgwPort > 65535 then Inl (Msg ''invalid UDPGW port'')
          else Inr \<lparr>sm_username = username, sm_password = password, sm_internalHost = internalHost,
            sm_internalPort = internalPort, sm_pinFile = pinFile, sm_udpgwHost = udpgwHost,
            sm_udpgwPort = udpgwPort, sm_tcpBuffer = tcpBuffer, sm_client = None, sm_closed = False, sm_made = 0\<rparr>)"

definition sshCarrierWriteBatch :: int where "sshCarrierWriteBatch = 1024 * 1024"
definition sshCarrierMaxBuffered :: int where "sshCarrierMaxBuffered = 4 * 1024 * 1024"

datatype ssh_event =
    CarrierOpened
  | CarrierAbandoned
  | ClientMade nat
  | ClientClosed nat
  | ChannelAsked nat nat string

definition connectLocked ::
  "('s, 't) ssh_env \<Rightarrow> sshTunnelManager \<Rightarrow> 's \<Rightarrow> (goerr + nat) \<times> sshTunnelManager \<times> 's \<times> ssh_event list" where
  "connectLocked env m s =
     (if sm_closed m then (Inl ErrClosed, m, s, [])
      else case sm_client m of Some k \<Rightarrow> (Inr k, m, s, [])
      | None \<Rightarrow>
        (case env_dial env (sm_internalHost m) (sm_internalPort m) s of
           (Inl e, s) \<Rightarrow> (Inl (Wrap ''DragonTCP SSH carrier failed'' e), m, s, [])
         | (Inr t, s) \<Rightarrow>
           let writeBatch = sshCarrierWriteBatch;
               maxBuffered = (if sm_tcpBuffer m > sshCarrierMaxBuffered then sm_tcpBuffer m else sshCarrierMaxBuffered);
               addr = JoinHostPort (sm_internalHost m) (dec_int (sm_internalPort m))
           in (case env_handshake env t writeBatch maxBuffered addr (sm_username m) (sm_password m) s of
                 (Some e, s) \<Rightarrow> (Inl (Wrap ''SSH handshake/auth failed'' e), m, env_abandon env t s,
                   [CarrierOpened, CarrierAbandoned])
               | (None, s) \<Rightarrow>
                   let k = sm_made m in
                   (Inr k, m\<lparr>sm_client := Some k, sm_made := k + 1\<rparr>, s, [CarrierOpened, ClientMade k]))))"

definition invalidate ::
  "('s, 't) ssh_env \<Rightarrow> nat \<Rightarrow> sshTunnelManager \<Rightarrow> 's \<Rightarrow> sshTunnelManager \<times> 's \<times> ssh_event list" where
  "invalidate env k m s =
     (if sm_client m = Some k then (m\<lparr>sm_client := None\<rparr>, snd (env_shutdown env k s), [ClientClosed k])
      else (m, s, []))"

definition ssh_close ::
  "('s, 't) ssh_env \<Rightarrow> sshTunnelManager \<Rightarrow> 's \<Rightarrow> goerr option \<times> sshTunnelManager \<times> 's \<times> ssh_event list" where
  "ssh_close env m s =
     (let client = sm_client m; m = m\<lparr>sm_closed := True, sm_client := None\<rparr> in
      case client of
        Some k \<Rightarrow> (case env_shutdown env k s of (e, s) \<Rightarrow> (e, m, s, [ClientClosed k]))
      | None \<Rightarrow> (None, m, s, []))"

section \<open>Threads\<close>

text \<open>
  A call of \<^verbatim>\<open>DialTCP\<close>: before an attempt (with the last error), with a client and
  before its answer, with a failed client to drop, and returned.
\<close>

datatype dial_pc =
    DialTry nat "goerr option"
  | DialOpen nat nat
  | DialDrop nat nat goerr
  | DialReturned "goerr + nat"

datatype keeper_pc = KeepWait nat | KeepDrop nat | KeepCheck nat | KeepGone

record ssh_system =
  sy_m :: sshTunnelManager
  sy_dials :: "(string \<times> dial_pc) list"
  sy_keepers :: "keeper_pc list"

definition keepers_of :: "ssh_event list \<Rightarrow> keeper_pc list" where
  "keepers_of evs = concat (map (\<lambda>ev. case ev of ClientMade k \<Rightarrow> [KeepWait k] | _ \<Rightarrow> []) evs)"

text \<open>One critical section of the loop of \<^verbatim>\<open>DialTCP\<close>.\<close>

definition dial_step ::
  "('s, 't) ssh_env \<Rightarrow> nat \<Rightarrow> ssh_system \<Rightarrow> 's \<Rightarrow> (ssh_event list \<times> ssh_system \<times> 's) option" where
  "dial_step env i y s =
     (if i < length (sy_dials y) then
        (case sy_dials y ! i of (target, pc) \<Rightarrow>
           let goto = (\<lambda>pc. (sy_dials y)[i := (target, pc)]) in
           (case pc of
              DialTry n lastErr \<Rightarrow>
                if n < 2 then
                  (case connectLocked env (sy_m y) s of (r, m, s, evs) \<Rightarrow>
                     Some (evs, y\<lparr>sy_m := m, sy_keepers := sy_keepers y @ keepers_of evs,
                       sy_dials := goto (case r of Inl e \<Rightarrow> DialReturned (Inl e) | Inr k \<Rightarrow> DialOpen n k)\<rparr>, s))
                else Some ([], y\<lparr>sy_dials := goto (DialReturned (Inl (case lastErr of
                  Some e \<Rightarrow> e | None \<Rightarrow> Msg ''SSH target dial failed'')))\<rparr>, s)
            | DialOpen n k \<Rightarrow>
                (case env_channel env k target s of (r, s) \<Rightarrow>
                  Some ([ChannelAsked i k target], y\<lparr>sy_dials := goto (case r of
                      Inr conn \<Rightarrow> DialReturned (Inr conn)
                    | Inl (OpenChannelError e) \<Rightarrow> DialReturned (Inl e)
                    | Inl (OtherError e) \<Rightarrow> DialDrop n k e)\<rparr>, s))
            | DialDrop n k e \<Rightarrow>
                (case invalidate env k (sy_m y) s of (m, s, evs) \<Rightarrow>
                  Some (evs, y\<lparr>sy_m := m, sy_dials := goto (DialTry (n + 1) (Some e))\<rparr>, s))
            | DialReturned r \<Rightarrow> None))
      else None)"

text \<open>The keep-alive goroutine of a client.\<close>

definition keeper_step ::
  "('s, 't) ssh_env \<Rightarrow> nat \<Rightarrow> ssh_system \<Rightarrow> 's \<Rightarrow> (ssh_event list \<times> ssh_system \<times> 's) option" where
  "keeper_step env i y s =
     (if i < length (sy_keepers y) then
        (let goto = (\<lambda>pc. y\<lparr>sy_keepers := (sy_keepers y)[i := pc]\<rparr>) in
         case sy_keepers y ! i of
           KeepWait k \<Rightarrow> (case env_ping env k s of
               (Some e, s) \<Rightarrow> Some ([], goto (KeepDrop k), s)
             | (None, s) \<Rightarrow> Some ([], goto (KeepCheck k), s))
         | KeepDrop k \<Rightarrow> (case invalidate env k (sy_m y) s of (m, s, evs) \<Rightarrow>
             Some (evs, (goto KeepGone)\<lparr>sy_m := m\<rparr>, s))
         | KeepCheck k \<Rightarrow>
             Some ([], goto (if sm_client (sy_m y) = Some k \<and> \<not> sm_closed (sy_m y) then KeepWait k else KeepGone), s)
         | KeepGone \<Rightarrow> None)
      else None)"

datatype ssh_action = StartDial string int | StartUDPGW | GoDial nat | GoKeeper nat | WarmUp | CloseManager

fun ssh_step ::
  "('s, 't) ssh_env \<Rightarrow> ssh_action \<Rightarrow> ssh_system \<Rightarrow> 's \<Rightarrow> (ssh_event list \<times> ssh_system \<times> 's) option" where
  "ssh_step env (StartDial host port) y s =
     Some ([], y\<lparr>sy_dials := sy_dials y @ [(JoinHostPort host (dec_int port), DialTry 0 None)]\<rparr>, s)"
| "ssh_step env StartUDPGW y s =
     Some ([], y\<lparr>sy_dials := sy_dials y @ [(JoinHostPort (sm_udpgwHost (sy_m y)) (dec_int (sm_udpgwPort (sy_m y))),
       DialTry 0 None)]\<rparr>, s)"
| "ssh_step env (GoDial i) y s = dial_step env i y s"
| "ssh_step env (GoKeeper i) y s = keeper_step env i y s"
| "ssh_step env WarmUp y s = (case connectLocked env (sy_m y) s of (r, m, s, evs) \<Rightarrow>
     Some (evs, y\<lparr>sy_m := m, sy_keepers := sy_keepers y @ keepers_of evs\<rparr>, s))"
| "ssh_step env CloseManager y s = (case ssh_close env (sy_m y) s of (e, m, s, evs) \<Rightarrow>
     Some (evs, y\<lparr>sy_m := m\<rparr>, s))"

inductive ssh_run ::
  "('s, 't) ssh_env \<Rightarrow> ssh_system \<Rightarrow> 's \<Rightarrow> ssh_event list \<Rightarrow> ssh_system \<Rightarrow> 's \<Rightarrow> bool" where
  ssh_run_start: "ssh_run env y s [] y s"
| ssh_run_step: "ssh_run env y s evs y1 s1 \<Longrightarrow> ssh_step env a y1 s1 = Some (evs1, y2, s2) \<Longrightarrow>
    ssh_run env y s (evs @ evs1) y2 s2"

definition ssh_start :: "sshTunnelManager \<Rightarrow> ssh_system" where
  "ssh_start m = \<lparr>sy_m = m, sy_dials = [], sy_keepers = []\<rparr>"

section \<open>The host key\<close>

text \<open>
  The pin file: absent, unreadable, or with a content. The fingerprint is the SSH library's.
\<close>

datatype pin_file = PinAbsent | PinUnreadable goerr | PinContent string

definition hostKeyCallback ::
  "string \<Rightarrow> goerr option \<Rightarrow> string \<Rightarrow> pin_file \<Rightarrow> goerr option \<times> pin_file" where
  "hostKeyCallback pinFile writeErr fingerprint f =
     (if TrimSpace pinFile = [] then (None, f)
      else case f of
        PinContent data \<Rightarrow>
          let expected = TrimSpace data in
          if expected = fingerprint then (None, f)
          else (Some (Msg (''SSH host key changed: expected '' @ expected @ '' got '' @ fingerprint)), f)
      | PinUnreadable e \<Rightarrow> (Some (Wrap ''read SSH host key pin'' e), f)
      | PinAbsent \<Rightarrow>
          (case writeErr of
             Some e \<Rightarrow> (Some (Wrap ''save SSH host key pin'' e), f)
           | None \<Rightarrow> (None, PinContent (fingerprint @ [CHR 0x0A]))))"

section \<open>Clients\<close>

fun made_of :: "ssh_event list \<Rightarrow> nat multiset" where
  "made_of [] = {#}"
| "made_of (ClientMade k # evs) = add_mset k (made_of evs)"
| "made_of (_ # evs) = made_of evs"

fun closed_of :: "ssh_event list \<Rightarrow> nat multiset" where
  "closed_of [] = {#}"
| "closed_of (ClientClosed k # evs) = add_mset k (closed_of evs)"
| "closed_of (_ # evs) = closed_of evs"

definition carriers_open :: "ssh_event list \<Rightarrow> int" where
  "carriers_open evs = int (length (filter (\<lambda>e. e = CarrierOpened) evs))
     - int (length (filter (\<lambda>e. e = CarrierAbandoned) evs))"

lemma events_append [simp]: "made_of (a @ b) = made_of a + made_of b" "closed_of (a @ b) = closed_of a + closed_of b"
  "carriers_open (a @ b) = carriers_open a + carriers_open b"
  subgoal by (induction a rule: made_of.induct) auto
  subgoal by (induction a rule: closed_of.induct) auto
  by (simp add: carriers_open_def)

lemma carriers_open_simps [simp]: "carriers_open [] = 0" "carriers_open [CarrierOpened, CarrierAbandoned] = 0"
  "carriers_open [CarrierOpened, ClientMade k] = 1" "carriers_open [ClientClosed k] = 0" "carriers_open [ChannelAsked i k h] = 0"
  by (simp_all add: carriers_open_def)

definition client_set :: "sshTunnelManager \<Rightarrow> nat multiset" where
  "client_set m = (case sm_client m of None \<Rightarrow> {#} | Some k \<Rightarrow> {#k#})"

text \<open>Every client made is the manager's or was closed, once; a closed manager has none.\<close>

definition clients_ok :: "ssh_event list \<Rightarrow> sshTunnelManager \<Rightarrow> bool" where
  "clients_ok evs m \<longleftrightarrow> made_of evs = mset [0..<sm_made m] \<and> closed_of evs + client_set m = made_of evs
     \<and> carriers_open evs = int (sm_made m) \<and> (sm_closed m \<longrightarrow> sm_client m = None)"

lemma mset_upto_Suc [simp]: "mset_set {0..<Suc n} = add_mset n (mset_set {0..<n})"
  by (simp add: atLeast0_lessThan_Suc)

lemma connectLocked_ok:
  assumes "clients_ok evs m" and "connectLocked env m s = (r, m', s', evs')"
  shows "clients_ok (evs @ evs') m' \<and> sm_closed m' = sm_closed m
    \<and> (sm_closed m \<longrightarrow> evs' = [] \<and> r = Inl ErrClosed \<and> m' = m \<and> s' = s)"
  using assms
  by (auto simp: connectLocked_def clients_ok_def client_set_def Let_def split: if_splits option.splits prod.splits sum.splits)

lemma invalidate_ok:
  assumes "clients_ok evs m" and "invalidate env k m s = (m', s', evs')"
  shows "clients_ok (evs @ evs') m' \<and> sm_closed m' = sm_closed m \<and> (sm_closed m \<longrightarrow> evs' = [] \<and> m' = m \<and> s' = s)"
  using assms by (auto simp: invalidate_def clients_ok_def client_set_def split: if_splits option.splits)

lemma ssh_close_ok:
  assumes "clients_ok evs m" and "ssh_close env m s = (e, m', s', evs')"
  shows "clients_ok (evs @ evs') m' \<and> sm_closed m' \<and> (sm_closed m \<longrightarrow> evs' = [])"
  using assms by (auto simp: ssh_close_def clients_ok_def client_set_def Let_def split: option.splits prod.splits)

lemma clients_ok_asked [simp]: "clients_ok (evs @ [ChannelAsked i k h]) m = clients_ok evs m"
  by (simp add: clients_ok_def)

definition only_channels :: "ssh_event list \<Rightarrow> bool" where
  "only_channels evs \<longleftrightarrow> (\<forall>e \<in> set evs. \<exists>i k h. e = ChannelAsked i k h)"

lemma only_channels_simps [simp]: "only_channels []" "only_channels [ChannelAsked i k h]"
  "only_channels (a @ b) = (only_channels a \<and> only_channels b)"
  by (auto simp: only_channels_def)

text \<open>What a step does to the manager.\<close>

definition manager_step :: "ssh_event list \<Rightarrow> sshTunnelManager \<Rightarrow> ssh_event list \<Rightarrow> sshTunnelManager \<Rightarrow> bool" where
  "manager_step evs m evs' m' \<longleftrightarrow> clients_ok (evs @ evs') m' \<and> (sm_closed m \<longrightarrow> sm_closed m' \<and> only_channels evs')"

lemma dial_step_cases:
  assumes "dial_step env i y s = Some (evs, y', s')"
  obtains h n e r m where "i < length (sy_dials y)" "sy_dials y ! i = (h, DialTry n e)" "n < 2"
      "connectLocked env (sy_m y) s = (r, m, s', evs)"
      "y' = y\<lparr>sy_m := m, sy_keepers := sy_keepers y @ keepers_of evs,
         sy_dials := (sy_dials y)[i := (h, case r of Inl e \<Rightarrow> DialReturned (Inl e) | Inr k \<Rightarrow> DialOpen n k)]\<rparr>"
  | h n e r where "i < length (sy_dials y)" "sy_dials y ! i = (h, DialTry n e)" "\<not> n < 2" "evs = []" "s' = s"
      "y' = y\<lparr>sy_dials := (sy_dials y)[i := (h, DialReturned r)]\<rparr>"
  | h n k pc where "i < length (sy_dials y)" "sy_dials y ! i = (h, DialOpen n k)" "evs = [ChannelAsked i k h]"
      "y' = y\<lparr>sy_dials := (sy_dials y)[i := (h, pc)]\<rparr>" "(\<exists>r. pc = DialReturned r) \<or> (\<exists>e. pc = DialDrop n k e)"
  | h n k e m where "i < length (sy_dials y)" "sy_dials y ! i = (h, DialDrop n k e)"
      "invalidate env k (sy_m y) s = (m, s', evs)"
      "y' = y\<lparr>sy_m := m, sy_dials := (sy_dials y)[i := (h, DialTry (n + 1) (Some e))]\<rparr>"
proof -
  from assms have i: "i < length (sy_dials y)" by (simp add: dial_step_def split: if_splits)
  obtain h pc where h: "sy_dials y ! i = (h, pc)" by fastforce
  show ?thesis
  proof (cases pc)
    case (DialTry n e)
    obtain r m s1 evs1 where c: "connectLocked env (sy_m y) s = (r, m, s1, evs1)" by (metis prod.collapse)
    show ?thesis
    proof (cases "n < 2")
      case True
      with assms i h DialTry c show ?thesis by (intro that(1) [of h n e r m]) (auto simp: dial_step_def Let_def)
    next
      case False
      with assms i h DialTry show ?thesis by (intro that(2) [of h n e]) (auto simp: dial_step_def Let_def)
    qed
  next
    case (DialOpen n k)
    obtain r s1 where c: "env_channel env k h s = (r, s1)" by fastforce
    with assms i h DialOpen show ?thesis
      by (intro that(3) [of h n k "case r of Inr conn \<Rightarrow> DialReturned (Inr conn)
          | Inl (OpenChannelError e) \<Rightarrow> DialReturned (Inl e) | Inl (OtherError e) \<Rightarrow> DialDrop n k e"])
        (auto simp: dial_step_def Let_def split: sum.split channel_error.split)
  next
    case (DialDrop n k e)
    obtain m s1 evs1 where c: "invalidate env k (sy_m y) s = (m, s1, evs1)" by (metis prod.collapse)
    with assms i h DialDrop show ?thesis by (intro that(4) [of h n k e m]) (auto simp: dial_step_def Let_def)
  next
    case (DialReturned r)
    with assms i h show ?thesis by (simp add: dial_step_def)
  qed
qed

lemma ssh_step_manager:
  assumes ok: "clients_ok evs (sy_m y)" and s: "ssh_step env a y s = Some (evs', y', s')"
  shows "manager_step evs (sy_m y) evs' (sy_m y')"
proof (cases a)
  case (GoDial i)
  with s have "dial_step env i y s = Some (evs', y', s')" by simp
  then show ?thesis
  proof (cases rule: dial_step_cases)
    case (1 h n e r m)
    from connectLocked_ok [OF ok 1(4)] 1(5) show ?thesis by (simp add: manager_step_def)
  next
    case (4 h n k e m)
    from invalidate_ok [OF ok 4(3)] 4(4) show ?thesis by (simp add: manager_step_def)
  qed (use ok in \<open>auto simp: manager_step_def\<close>)
next
  case (GoKeeper i)
  with s have i: "i < length (sy_keepers y)" by (simp add: keeper_step_def split: if_splits)
  show ?thesis
  proof (cases "sy_keepers y ! i")
    case (KeepDrop k)
    obtain m s1 evs1 where c: "invalidate env k (sy_m y) s = (m, s1, evs1)" by (metis prod.collapse)
    from invalidate_ok [OF ok c] s GoKeeper i KeepDrop c show ?thesis
      by (auto simp: keeper_step_def manager_step_def)
  qed (use s GoKeeper i ok in \<open>auto simp: keeper_step_def manager_step_def split: prod.splits option.splits\<close>)
next
  case WarmUp
  obtain r m s1 evs1 where c: "connectLocked env (sy_m y) s = (r, m, s1, evs1)" by (metis prod.collapse)
  from connectLocked_ok [OF ok c] s WarmUp c show ?thesis by (auto simp: manager_step_def)
next
  case CloseManager
  obtain e m s1 evs1 where c: "ssh_close env (sy_m y) s = (e, m, s1, evs1)" by (metis prod.collapse)
  from ssh_close_ok [OF ok c] s CloseManager c show ?thesis by (auto simp: manager_step_def)
qed (use s ok in \<open>auto simp: manager_step_def\<close>)

lemma ssh_run_manager:
  "ssh_run env y s evs y' s' \<Longrightarrow> clients_ok evs0 (sy_m y) \<Longrightarrow> manager_step evs0 (sy_m y) evs (sy_m y')"
proof (induction rule: ssh_run.induct)
  case (ssh_run_step env y s evs y1 s1 a evs1 y2 s2)
  then have ih: "manager_step evs0 (sy_m y) evs (sy_m y1)" by simp
  then have ok: "clients_ok (evs0 @ evs) (sy_m y1)" by (simp add: manager_step_def)
  from ssh_step_manager [OF ok ssh_run_step.hyps(2)] ih show ?case by (auto simp: manager_step_def)
qed (simp add: manager_step_def)

section \<open>Calls\<close>

text \<open>How often a call asked for a channel, how often it still may, and how many steps it has left.\<close>

definition asked :: "nat \<Rightarrow> ssh_event list \<Rightarrow> nat" where
  "asked i evs = length (filter (\<lambda>e. case e of ChannelAsked j k h \<Rightarrow> j = i | _ \<Rightarrow> False) evs)"

fun may_ask :: "dial_pc \<Rightarrow> nat" where
  "may_ask (DialTry n e) = 2 - n"
| "may_ask (DialOpen n k) = 2 - n"
| "may_ask (DialDrop n k e) = 1 - n"
| "may_ask (DialReturned r) = 0"

fun dial_rank :: "dial_pc \<Rightarrow> nat" where
  "dial_rank (DialTry n e) = 3 * (2 - n) + 1"
| "dial_rank (DialOpen n k) = 3 * (2 - n)"
| "dial_rank (DialDrop n k e) = 3 * (2 - n) - 1"
| "dial_rank (DialReturned r) = 0"

fun attempt_ok :: "dial_pc \<Rightarrow> bool" where
  "attempt_ok (DialOpen n k) = (n < 2)"
| "attempt_ok (DialDrop n k e) = (n < 2)"
| "attempt_ok _ = True"

lemma asked_append [simp]: "asked i (a @ b) = asked i a + asked i b" "asked i [] = 0"
  by (simp_all add: asked_def)

lemma asked_connect: "connectLocked env m s = (r, m', s', evs) \<Longrightarrow> asked i evs = 0"
  by (auto simp: connectLocked_def asked_def Let_def split: if_splits option.splits prod.splits sum.splits)

lemma asked_invalidate: "invalidate env k m s = (m', s', evs) \<Longrightarrow> asked i evs = 0"
  by (auto simp: invalidate_def asked_def split: if_splits)

definition calls_ok :: "ssh_event list \<Rightarrow> ssh_system \<Rightarrow> bool" where
  "calls_ok evs y \<longleftrightarrow> (\<forall>i < length (sy_dials y). asked i evs + may_ask (snd (sy_dials y ! i)) \<le> 2 \<and> attempt_ok (snd (sy_dials y ! i)))
     \<and> (\<forall>i \<ge> length (sy_dials y). asked i evs = 0)"

text \<open>A step of a call brings it closer to its return and leaves the other calls alone.\<close>

lemma dial_step_calls:
  assumes ok: "calls_ok evs y" and s: "dial_step env i y s = Some (evs', y', s')"
  shows "calls_ok (evs @ evs') y' \<and> dial_rank (snd (sy_dials y' ! i)) < dial_rank (snd (sy_dials y ! i))
    \<and> length (sy_dials y') = length (sy_dials y) \<and> (\<forall>j. j \<noteq> i \<longrightarrow> sy_dials y' ! j = sy_dials y ! j)"
  using s
proof (cases rule: dial_step_cases)
  case (1 h n e r m)
  have "asked j evs' = 0" for j by (rule asked_connect [OF 1(4)])
  with ok 1(1-3,5) show ?thesis by (cases r) (auto simp: calls_ok_def nth_list_update)
next
  case (2 h n e r)
  with ok show ?thesis by (auto simp: calls_ok_def nth_list_update)
next
  case (3 h n k pc)
  then have n: "n < 2" using ok by (auto simp: calls_ok_def)
  have a: "asked j evs' = (if j = i then 1 else 0)" for j by (auto simp: 3(3) asked_def)
  have "asked i evs + (2 - n) \<le> 2" using ok 3(1,2) by (auto simp: calls_ok_def)
  with ok 3(1,2,4,5) n show ?thesis by (auto simp: calls_ok_def nth_list_update a)
next
  case (4 h n k e m)
  then have n: "n < 2" using ok by (auto simp: calls_ok_def)
  have "asked j evs' = 0" for j by (rule asked_invalidate [OF 4(3)])
  with ok 4(1,2,4) n show ?thesis by (auto simp: calls_ok_def nth_list_update)
qed

lemma ssh_step_calls:
  assumes ok: "calls_ok evs y" and s: "ssh_step env a y s = Some (evs', y', s')"
  shows "calls_ok (evs @ evs') y'"
proof (cases a)
  case (GoDial i)
  with s have "dial_step env i y s = Some (evs', y', s')" by simp
  from dial_step_calls [OF ok this] show ?thesis by simp
next
  case (GoKeeper i)
  with s have "asked j evs' = 0 \<and> sy_dials y' = sy_dials y" for j
    by (auto simp: keeper_step_def Let_def asked_invalidate split: if_splits keeper_pc.splits prod.splits option.splits)
  with ok show ?thesis by (simp add: calls_ok_def)
next
  case WarmUp
  with s have "asked j evs' = 0 \<and> sy_dials y' = sy_dials y" for j
    by (auto simp: asked_connect split: prod.splits)
  with ok show ?thesis by (simp add: calls_ok_def)
next
  case CloseManager
  with s have "asked j evs' = 0 \<and> sy_dials y' = sy_dials y" for j
    by (auto simp: ssh_close_def asked_def Let_def split: prod.splits option.splits)
  with ok show ?thesis by (simp add: calls_ok_def)
qed (use s ok in \<open>auto simp: calls_ok_def nth_append\<close>)

lemma ssh_run_calls: "ssh_run env y s evs y' s' \<Longrightarrow> calls_ok [] y \<Longrightarrow> calls_ok evs y'"
  by (induction rule: ssh_run.induct) (auto dest: ssh_step_calls)

section \<open>The properties\<close>

lemma started:
  assumes "newSSHTunnelManager u pw h p pin gh gp buf = Inr m"
  shows "clients_ok [] (sy_m (ssh_start m)) \<and> calls_ok [] (ssh_start m)"
  using assms
  by (auto simp: newSSHTunnelManager_def Let_def ssh_start_def clients_ok_def client_set_def calls_ok_def split: if_splits)

text \<open>C20: SSH clients are never leaked and never closed twice. Under every interleaving of dials,
  keep-alives, warm-ups and \<^verbatim>\<open>Close\<close>, and whatever the SSH library answers: each client
  ever made is either the manager's or was closed exactly once, every carrier dialed became a client
  or was closed, and after \<^verbatim>\<open>Close\<close> no client is left and no carrier is ever dialed again.\<close>

theorem ssh_clients_accounted:
  assumes "newSSHTunnelManager u pw h p pin gh gp buf = Inr m" and "ssh_run env (ssh_start m) s evs y s'"
  shows "made_of evs = mset [0..<sm_made (sy_m y)] \<and> closed_of evs + client_set (sy_m y) = made_of evs
    \<and> carriers_open evs = int (size (made_of evs))
    \<and> (\<forall>evs2 y2 s2. sm_closed (sy_m y) \<and> ssh_run env y s' evs2 y2 s2 \<longrightarrow>
        sm_client (sy_m y2) = None \<and> only_channels evs2)"
proof -
  from ssh_run_manager [OF assms(2), of "[]"] started [OF assms(1)] have ok: "clients_ok evs (sy_m y)"
    by (simp add: manager_step_def)
  have "sm_client (sy_m y2) = None \<and> only_channels evs2"
    if "sm_closed (sy_m y) \<and> ssh_run env y s' evs2 y2 s2" for evs2 y2 s2
    using that ssh_run_manager [of env y s' evs2 y2 s2 evs] ok by (auto simp: manager_step_def clients_ok_def)
  with ok show ?thesis by (auto simp: clients_ok_def)
qed

text \<open>An SSH library whose handshakes succeed and whose first channel fails; a concrete input.\<close>

definition sample_env :: "(nat, unit) ssh_env" where
  "sample_env = \<lparr>env_dial = \<lambda>h p s. (Inr (), s), env_handshake = \<lambda>t b mx a u p s. (None, s), env_abandon = \<lambda>t s. s,
     env_channel = \<lambda>k h s. (if s = 0 then Inl (OtherError EOF) else Inr s, Suc s),
     env_shutdown = \<lambda>k s. (None, s), env_ping = \<lambda>k s. (None, s)\<rparr>"

definition sample_manager :: sshTunnelManager where
  "sample_manager = \<lparr>sm_username = ''u'', sm_password = ''p'', sm_internalHost = ''h'', sm_internalPort = 22,
     sm_pinFile = [], sm_udpgwHost = ''g'', sm_udpgwPort = 7400, sm_tcpBuffer = 0, sm_client = None,
     sm_closed = False, sm_made = 0\<rparr>"

lemma sample_manager_new: "newSSHTunnelManager ''u'' ''p'' ''h'' 22 [] ''g'' 7400 0 = Inr sample_manager"
proof -
  have "plain (CHR ''u'')" by (simp add: plain_def)
  then have "TrimSpace ''u'' = ''u''" by (simp add: TrimSpace_plain)
  then show ?thesis by (simp add: newSSHTunnelManager_def Let_def sample_manager_def)
qed

lemma sample_ssh_run:
  "\<exists>y. ssh_run sample_env (ssh_start sample_manager) 0
     [CarrierOpened, ClientMade 0, ChannelAsked 0 0 (JoinHostPort ''x'' (dec_int 80)), ClientClosed 0] y 1
     \<and> sm_client (sy_m y) = None \<and> length (sy_dials y) = 1"
proof -
  let ?h = "JoinHostPort ''x'' (dec_int 80)" and ?m = "sample_manager\<lparr>sm_client := Some 0, sm_made := 1\<rparr>"
  let ?y1 = "\<lparr>sy_m = sample_manager, sy_dials = [(?h, DialTry 0 None)], sy_keepers = []\<rparr>"
  let ?y2 = "\<lparr>sy_m = ?m, sy_dials = [(?h, DialOpen 0 0)], sy_keepers = [KeepWait 0]\<rparr>"
  let ?y3 = "?y2\<lparr>sy_dials := [(?h, DialDrop 0 0 EOF)]\<rparr>"
  let ?y4 = "?y2\<lparr>sy_m := ?m\<lparr>sm_client := None\<rparr>, sy_dials := [(?h, DialTry 1 (Some EOF))]\<rparr>"
  have 1: "ssh_step sample_env (StartDial ''x'' 80) (ssh_start sample_manager) 0 = Some ([], ?y1, 0)"
    by (simp add: ssh_start_def)
  have 2: "ssh_step sample_env (GoDial 0) ?y1 0 = Some ([CarrierOpened, ClientMade 0], ?y2, 0)"
    by (simp add: dial_step_def connectLocked_def sample_env_def sample_manager_def Let_def keepers_of_def)
  have 3: "ssh_step sample_env (GoDial 0) ?y2 0 = Some ([ChannelAsked 0 0 ?h], ?y3, 1)"
    by (simp add: dial_step_def sample_env_def Let_def)
  have 4: "ssh_step sample_env (GoDial 0) ?y3 1 = Some ([ClientClosed 0], ?y4, 1)"
    by (simp add: dial_step_def invalidate_def sample_env_def sample_manager_def Let_def)
  from ssh_run_step [OF ssh_run_step [OF ssh_run_step [OF ssh_run_step [OF ssh_run_start 1] 2] 3] 4]
  have "ssh_run sample_env (ssh_start sample_manager) 0 [CarrierOpened, ClientMade 0, ChannelAsked 0 0 ?h, ClientClosed 0] ?y4 1"
    by (simp only: append.simps)
  then show ?thesis by (intro exI [of _ ?y4]) simp
qed

theorem ssh_clients_accounted_witness:
  "\<exists>y. ssh_run sample_env (ssh_start sample_manager) 0
     [CarrierOpened, ClientMade 0, ChannelAsked 0 0 (JoinHostPort ''x'' (dec_int 80)), ClientClosed 0] y 1
     \<and> sm_made (sy_m y) = 1"
proof -
  obtain y where r: "ssh_run sample_env (ssh_start sample_manager) 0
     [CarrierOpened, ClientMade 0, ChannelAsked 0 0 (JoinHostPort ''x'' (dec_int 80)), ClientClosed 0] y 1"
    using sample_ssh_run by blast
  from ssh_clients_accounted [OF sample_manager_new r] have "mset [0..<sm_made (sy_m y)] = {#0#}" by simp
  then have "size (mset [0..<sm_made (sy_m y)]) = 1" by (simp only: size_single)
  with r show ?thesis by auto
qed

text \<open>A dial through SSH is bounded. In every run each call of \<^verbatim>\<open>DialTCP\<close> asks for
  a channel at most twice; until it has returned it can always go on, and each of its steps brings it
  closer to its return, at most seven in all; when the server rejects the channel the call returns
  that error at once and the client and everything else stays as it is.\<close>

theorem ssh_dial_bounded:
  assumes "newSSHTunnelManager u pw h p pin gh gp buf = Inr m" and "ssh_run env (ssh_start m) s evs y s'"
    and "i < length (sy_dials y)"
  shows "asked i evs \<le> 2 \<and> dial_rank (snd (sy_dials y ! i)) \<le> 7
    \<and> ((\<nexists>r. snd (sy_dials y ! i) = DialReturned r) \<longrightarrow> (\<exists>evs1 y1 s1. ssh_step env (GoDial i) y s' = Some (evs1, y1, s1)
        \<and> dial_rank (snd (sy_dials y1 ! i)) < dial_rank (snd (sy_dials y ! i))
        \<and> (\<forall>j. j \<noteq> i \<longrightarrow> sy_dials y1 ! j = sy_dials y ! j)))
    \<and> (\<forall>n k e s1. snd (sy_dials y ! i) = DialOpen n k \<and> env_channel env k (fst (sy_dials y ! i)) s' = (Inl (OpenChannelError e), s1)
        \<longrightarrow> ssh_step env (GoDial i) y s' = Some ([ChannelAsked i k (fst (sy_dials y ! i))],
            y\<lparr>sy_dials := (sy_dials y)[i := (fst (sy_dials y ! i), DialReturned (Inl e))]\<rparr>, s1))"
proof -
  from started [OF assms(1)] ssh_run_calls [OF assms(2)] have ok: "calls_ok evs y" by simp
  obtain h pc where h: "sy_dials y ! i = (h, pc)" by fastforce
  have "asked i evs \<le> 2" using ok assms(3) by (auto simp: calls_ok_def)
  moreover have "dial_rank pc \<le> 7" by (cases pc) auto
  moreover have "\<exists>evs1 y1 s1. ssh_step env (GoDial i) y s' = Some (evs1, y1, s1)
        \<and> dial_rank (snd (sy_dials y1 ! i)) < dial_rank pc \<and> (\<forall>j. j \<noteq> i \<longrightarrow> sy_dials y1 ! j = sy_dials y ! j)"
    if "\<nexists>r. pc = DialReturned r"
  proof -
    have "dial_step env i y s' \<noteq> None" using that assms(3) h
      by (cases pc) (auto simp: dial_step_def Let_def split: prod.split)
    then obtain evs1 y1 s1 where d: "dial_step env i y s' = Some (evs1, y1, s1)" by (metis not_None_eq prod.collapse)
    from dial_step_calls [OF ok d] d h show ?thesis by auto
  qed
  ultimately show ?thesis using h assms(3) by (auto simp: dial_step_def Let_def)
qed

theorem ssh_dial_bounded_witness:
  "\<exists>y. ssh_run sample_env (ssh_start sample_manager) 0
     [CarrierOpened, ClientMade 0, ChannelAsked 0 0 (JoinHostPort ''x'' (dec_int 80)), ClientClosed 0] y 1
     \<and> asked 0 [CarrierOpened, ClientMade 0, ChannelAsked 0 0 (JoinHostPort ''x'' (dec_int 80)), ClientClosed 0] \<le> 2"
proof -
  obtain y where r: "ssh_run sample_env (ssh_start sample_manager) 0
     [CarrierOpened, ClientMade 0, ChannelAsked 0 0 (JoinHostPort ''x'' (dec_int 80)), ClientClosed 0] y 1"
    and l: "0 < length (sy_dials y)" using sample_ssh_run by (metis zero_less_one)
  from ssh_dial_bounded [OF sample_manager_new r l] r show ?thesis by blast
qed

text \<open>The host key is trusted on first use and pinned. With a pin file, the first key accepted
  is written to it, and from then on exactly that key is accepted and the file is never changed; a
  file that cannot be read or written accepts no key. (Fingerprints have no white space.)\<close>

theorem host_key_pinned:
  assumes "TrimSpace pinFile \<noteq> []" and "list_all plain fp"
  shows "(\<exists>f. hostKeyCallback pinFile None fp PinAbsent = (None, f)
      \<and> (\<forall>e fp'. snd (hostKeyCallback pinFile e fp' f) = f \<and> (fst (hostKeyCallback pinFile e fp' f) = None \<longleftrightarrow> fp' = fp)))
    \<and> (\<forall>e. e \<noteq> None \<longrightarrow> fst (hostKeyCallback pinFile e fp PinAbsent) \<noteq> None)
    \<and> (\<forall>e x. fst (hostKeyCallback pinFile e fp (PinUnreadable x)) \<noteq> None)"
  using assms TrimSpace_line [OF assms(2)] by (auto simp: hostKeyCallback_def Let_def)

theorem host_key_pinned_witness:
  "fst (hostKeyCallback ''pin'' None ''SHA256:b'' (snd (hostKeyCallback ''pin'' None ''SHA256:a'' PinAbsent))) \<noteq> None"
proof -
  have p: "TrimSpace ''pin'' \<noteq> []" by (simp add: TrimSpace_plain plain_def)
  have f: "list_all plain ''SHA256:a''" by (simp add: plain_def)
  define a b where "a = ''SHA256:a''" and "b = ''SHA256:b''"
  have ne: "b \<noteq> a" unfolding a_def b_def by code_simp
  from host_key_pinned [OF p f, folded a_def, THEN conjunct1] obtain pin where
    k: "hostKeyCallback ''pin'' None a PinAbsent = (None, pin)"
      "\<And>e fp'. fst (hostKeyCallback ''pin'' e fp' pin) = None \<longleftrightarrow> fp' = a" by metis
  show ?thesis unfolding a_def [symmetric] b_def [symmetric] k(1) snd_conv k(2) by (rule ne)
qed

end
