(* ===== verification/Bufio.thy ===== *)
theory Bufio
  imports Prelude
begin

text \<open>
  Sockets as the local front ends see them, and \<^verbatim>\<open>bufio.Reader\<close> over them. A
  socket delivers segments: one \<^verbatim>\<open>Read\<close> returns bytes of one segment, as many as
  fit into the buffer it is given. What a program reads ahead is therefore visible, which a plain
  stream of bytes would hide. The abstraction \<open>br_stream\<close> forgets the segments, and
  the locale \<open>full_reader\<close> is the interface the protocol parsers rely on.
\<close>

section \<open>Sockets\<close>

record sock =
  sk_segs :: "bytes list"
  sk_err :: goerr

definition sk_bytes :: "sock \<Rightarrow> bytes" where
  "sk_bytes s = concat (sk_segs s)"

fun take_seg :: "nat \<Rightarrow> bytes list \<Rightarrow> bytes \<times> bytes list" where
  "take_seg k [] = ([], [])"
| "take_seg k (d # ds) = (if d = [] then take_seg k ds
     else (take k d, if length d \<le> k then ds else drop k d # ds))"

text \<open>\<^verbatim>\<open>Read\<close> into a buffer of \<open>k\<close> bytes.\<close>

definition sock_read :: "nat \<Rightarrow> sock \<Rightarrow> bytes \<times> goerr option \<times> sock" where
  "sock_read k s = (if sk_bytes s = [] then ([], Some (sk_err s), s)
     else case take_seg k (sk_segs s) of (d, ds) \<Rightarrow> (d, None, s\<lparr>sk_segs := ds\<rparr>))"

lemma take_seg_concat: "take_seg k ds = (d, ds') \<Longrightarrow> concat ds = d @ concat ds'"
  by (induction k ds rule: take_seg.induct) (auto split: if_splits)

lemma take_seg_short: "take_seg k ds = (d, ds') \<Longrightarrow> length d \<le> k"
  by (induction k ds rule: take_seg.induct) (auto split: if_splits)

lemma take_seg_some: "take_seg k ds = (d, ds') \<Longrightarrow> concat ds \<noteq> [] \<Longrightarrow> 0 < k \<Longrightarrow> d \<noteq> []"
  by (induction k ds rule: take_seg.induct) (auto split: if_splits)

lemma sock_read_cases:
  obtains (ended) "sock_read k s = ([], Some (sk_err s), s)" "sk_bytes s = []"
  | (data) d s' where "sock_read k s = (d, None, s')" "sk_bytes s = d @ sk_bytes s'"
      "sk_err s' = sk_err s" "length d \<le> k" "0 < k \<longrightarrow> d \<noteq> []"
proof (cases "sk_bytes s = []")
  case True
  with ended show thesis by (simp add: sock_read_def)
next
  case False
  obtain d ds where t: "take_seg k (sk_segs s) = (d, ds)" by fastforce
  show thesis
  proof (rule data)
    show "sock_read k s = (d, None, s\<lparr>sk_segs := ds\<rparr>)" using False t by (simp add: sock_read_def)
    show "sk_bytes s = d @ sk_bytes (s\<lparr>sk_segs := ds\<rparr>)" using take_seg_concat [OF t] by (simp add: sk_bytes_def)
    show "length d \<le> k" by (rule take_seg_short [OF t])
    show "0 < k \<longrightarrow> d \<noteq> []" using take_seg_some [OF t] False by (simp add: sk_bytes_def)
  qed simp
qed

section \<open>Buffered readers\<close>

record bufr =
  br_size :: nat
  br_buf :: bytes
  br_sock :: sock

definition NewReaderSize :: "sock \<Rightarrow> nat \<Rightarrow> bufr" where
  "NewReaderSize s n = \<lparr>br_size = max 16 n, br_buf = [], br_sock = s\<rparr>"

definition br_stream :: "bufr \<Rightarrow> stream" where
  "br_stream b = (br_buf b @ sk_bytes (br_sock b), sk_err (br_sock b))"

text \<open>
  \<^verbatim>\<open>Read\<close> into \<open>k > 0\<close> bytes: from the buffer; when it is empty, directly
  into a destination that is at least as large, else after one read into the buffer.
\<close>

definition br_read :: "nat \<Rightarrow> bufr \<Rightarrow> bytes \<times> goerr option \<times> bufr" where
  "br_read k b =
     (if br_buf b \<noteq> [] then (take k (br_buf b), None, b\<lparr>br_buf := drop k (br_buf b)\<rparr>)
      else if br_size b \<le> k then
        (case sock_read k (br_sock b) of (d, e, s) \<Rightarrow> (d, e, b\<lparr>br_sock := s\<rparr>))
      else
        (case sock_read (br_size b) (br_sock b) of (d, e, s) \<Rightarrow>
           if d = [] then ([], e, b\<lparr>br_sock := s\<rparr>)
           else (take k d, None, b\<lparr>br_buf := drop k d, br_sock := s\<rparr>)))"

lemma br_read_cases:
  assumes "0 < k" "0 < br_size b"
  obtains (ended) "br_read k b = ([], Some (sk_err (br_sock b)), b)" "br_stream b = ([], sk_err (br_sock b))"
  | (data) d b' where "br_read k b = (d, None, b')" "br_stream b = (d @ fst (br_stream b'), snd (br_stream b'))"
      "length d \<le> k" "d \<noteq> []" "br_size b' = br_size b"
proof (cases "br_buf b")
  case (Cons x xs)
  show thesis
  proof (rule data)
    show "br_read k b = (take k (br_buf b), None, b\<lparr>br_buf := drop k (br_buf b)\<rparr>)"
      using Cons by (simp add: br_read_def)
  qed (use Cons assms in \<open>simp_all add: br_stream_def\<close>)
next
  case Nil
  show thesis
  proof (cases "br_size b \<le> k")
    case True
    show thesis
    proof (cases k "br_sock b" rule: sock_read_cases)
      case ended
      with Nil True that(1) show thesis by (simp add: br_read_def br_stream_def)
    next
      case (data d s')
      show thesis
      proof (rule that(2))
        show "br_read k b = (d, None, b\<lparr>br_sock := s'\<rparr>)" using Nil True data by (simp add: br_read_def)
      qed (use Nil data assms in \<open>simp_all add: br_stream_def\<close>)
    qed
  next
    case False
    show thesis
    proof (cases "br_size b" "br_sock b" rule: sock_read_cases)
      case ended
      with Nil False that(1) show thesis by (simp add: br_read_def br_stream_def)
    next
      case (data d s')
      show thesis
      proof (rule that(2))
        show "br_read k b = (take k d, None, b\<lparr>br_buf := drop k d, br_sock := s'\<rparr>)"
          using Nil False data assms by (simp add: br_read_def)
      qed (use Nil data assms in \<open>simp_all add: br_stream_def\<close>)
    qed
  qed
qed

text \<open>\<^verbatim>\<open>io.ReadFull\<close> over a buffered reader.\<close>

function br_fill :: "nat \<Rightarrow> bytes \<Rightarrow> bufr \<Rightarrow> goerr + bytes \<times> bufr" where
  "br_fill n acc b =
     (if n \<le> length acc \<or> br_size b = 0 then Inr (acc, b)
      else case br_read (n - length acc) b of
        (d, Some e, b') \<Rightarrow> Inl (if acc \<noteq> [] \<and> e = EOF then UnexpectedEOF else e)
      | (d, None, b') \<Rightarrow> br_fill n (acc @ d) b')"
  by pat_completeness auto
termination
proof (relation "measure (\<lambda>(n, acc, b). n - length acc)", goal_cases)
  case (2 n acc b d y e b')
  then have r: "br_read (n - length acc) b = (d, None, b')" by simp
  have "d \<noteq> []" by (rule br_read_cases [of "n - length acc" b]) (use 2 r in auto)
  with 2 show ?case by (cases d) auto
qed simp

declare br_fill.simps [simp del]

definition br_ReadFull :: "nat \<Rightarrow> bufr \<Rightarrow> goerr + bytes \<times> bufr" where
  "br_ReadFull n b = br_fill n [] b"

definition absr :: "goerr + bytes \<times> bufr \<Rightarrow> goerr + bytes \<times> stream" where
  "absr r = map_sum id (map_prod id br_stream) r"

definition br_ok :: "bufr \<Rightarrow> bool" where
  "br_ok b \<longleftrightarrow> 0 < br_size b"

lemma br_fill_stream:
  assumes "br_ok b" and "length acc \<le> n" and "br_stream b = (bs, e)"
  shows "absr (br_fill n acc b) = (if n - length acc \<le> length bs
       then Inr (acc @ take (n - length acc) bs, (drop (n - length acc) bs, e))
       else Inl (if acc @ bs \<noteq> [] \<and> e = EOF then UnexpectedEOF else e))
     \<and> (\<forall>d b'. br_fill n acc b = Inr (d, b') \<longrightarrow> br_ok b')"
  using assms
proof (induction n acc b arbitrary: bs rule: br_fill.induct)
  case (1 n acc b)
  show ?case
  proof (cases "n \<le> length acc")
    case True
    with "1.prems" show ?thesis by (simp add: br_fill.simps [of n acc b] absr_def)
  next
    case False
    then have k: "0 < n - length acc" "0 < br_size b" using "1.prems" by (simp_all add: br_ok_def)
    show ?thesis
    proof (cases rule: br_read_cases [OF k])
      case 1
      with False k "1.prems" show ?thesis by (auto simp: br_fill.simps [of n acc b] absr_def)
    next
      case (2 d b')
      from 2 False k have f: "br_fill n acc b = br_fill n (acc @ d) b'" by (simp add: br_fill.simps [of n acc b])
      obtain bs' where bs': "br_stream b' = (bs', e)" "bs = d @ bs'" using 2(2) "1.prems" by (cases "br_stream b'") auto
      have g: "\<not> (n \<le> length acc \<or> br_size b = 0)" using False k by simp
      have "br_ok b'" using 2(5) k by (simp add: br_ok_def)
      from "1.IH" [OF g 2(1) [symmetric] refl refl this _ bs'(1)] 2(3) False
      have ih: "absr (br_fill n (acc @ d) b') = (if n - length (acc @ d) \<le> length bs'
          then Inr ((acc @ d) @ take (n - length (acc @ d)) bs', (drop (n - length (acc @ d)) bs', e))
          else Inl (if (acc @ d) @ bs' \<noteq> [] \<and> e = EOF then UnexpectedEOF else e))
        \<and> (\<forall>x y. br_fill n (acc @ d) b' = Inr (x, y) \<longrightarrow> br_ok y)" by simp
      have l: "n - length (acc @ d) = n - length acc - length d" by simp
      have t: "take (n - length acc) bs = d @ take (n - length acc - length d) bs'"
        "drop (n - length acc) bs = drop (n - length acc - length d) bs'" using 2(3) bs'(2) by simp_all
      have i: "n - length acc \<le> length bs \<longleftrightarrow> n - length acc - length d \<le> length bs'" using 2(3) bs'(2) by auto
      have u: "acc @ bs = (acc @ d) @ bs'" by (simp add: bs'(2))
      show ?thesis using ih unfolding f l t i u append_assoc .
    qed
  qed
qed

section \<open>The interface of the parsers\<close>

text \<open>
  What a parser that consumes its input with \<^verbatim>\<open>io.ReadFull\<close> relies on: reading
  \<open>n\<close> bytes gives the next \<open>n\<close> bytes of the stream behind the reader and leaves
  the rest, or fails as reading the stream would.
\<close>

locale full_reader =
  fixes read_full :: "nat \<Rightarrow> 'r \<Rightarrow> goerr + bytes \<times> 'r"
    and behind :: "'r \<Rightarrow> stream"
    and usable :: "'r \<Rightarrow> bool"
  assumes read_full_stream: "usable r \<Longrightarrow>
      map_sum id (map_prod id behind) (read_full n r) = ReadFull n (behind r)"
    and read_full_usable: "usable r \<Longrightarrow> read_full n r = Inr (d, r') \<Longrightarrow> usable r'"
begin

lemma read_next:
  assumes "usable r" and "fst (behind r) = a @ t" and "length a = n"
  obtains r' where "read_full n r = Inr (a, r')" "behind r' = (t, snd (behind r))" "usable r'"
proof -
  obtain e where b: "behind r = (a @ t, e)" using assms(2) by (cases "behind r") simp
  have "map_sum id (map_prod id behind) (read_full n r) = Inr (a, (t, e))"
    using read_full_stream [OF assms(1), of n] unfolding b ReadFull_append [OF assms(3)] .
  with that read_full_usable [OF assms(1), of n] b show thesis
    by (cases "read_full n r") auto
qed

lemma read_back:
  assumes "usable r" and "read_full n r = Inr (d, r')"
  shows "length d = n \<and> fst (behind r) = d @ fst (behind r') \<and> snd (behind r') = snd (behind r) \<and> usable r'"
  using read_full_stream [OF assms(1), of n] assms(2) ReadFull_Inr [of n "behind r" d "behind r'"]
    read_full_usable [OF assms] by simp

lemma read_short:
  assumes "usable r" and "length (fst (behind r)) < n"
  shows "\<exists>e. read_full n r = Inl e"
  using read_full_stream [OF assms(1), of n] assms(2)
  by (cases "behind r"; cases "read_full n r") (auto simp: ReadFull_def)

end

interpretation buffered: full_reader br_ReadFull br_stream br_ok
proof unfold_locales
  fix r :: bufr and n
  assume ok: "br_ok r"
  obtain bs e where bs: "br_stream r = (bs, e)" by fastforce
  from br_fill_stream [OF ok _ bs, of "[]" n] bs
  show "map_sum id (map_prod id br_stream) (br_ReadFull n r) = ReadFull n (br_stream r)"
    unfolding br_ReadFull_def absr_def [symmetric] by (simp add: ReadFull_def)
  fix d r'
  from br_fill_stream [OF ok _ bs, of "[]" n]
  show "br_ReadFull n r = Inr (d, r') \<Longrightarrow> br_ok r'" by (simp add: br_ReadFull_def)
qed

end
