(* ===== verification/Socks.thy ===== *)
theory Socks
  imports Bufio NetAddr "HOL-Library.Sublist"
begin

text \<open>
  \<^verbatim>\<open>socks5.go\<close>: negotiation and request of a SOCKS5 client over a buffered reader,
  the replies, the handler, and the UDP association with its three loops. The dial through the SSH
  tunnel (modelled in \<^verbatim>\<open>SshTunnel\<close>) is an argument of the handler.
\<close>

section \<open>Negotiation and request\<close>

definition socksVersion5 :: byte where "socksVersion5 = 5"
definition socksCmdConnect :: byte where "socksCmdConnect = 1"
definition socksCmdUDPAssociate :: byte where "socksCmdUDPAssociate = 3"
definition socksAtypIPv4 :: byte where "socksAtypIPv4 = 1"
definition socksAtypDomain :: byte where "socksAtypDomain = 3"
definition socksAtypIPv6 :: byte where "socksAtypIPv6 = 4"

named_theorems socks_consts
lemmas socks_const_defs [socks_consts] = socksVersion5_def socksCmdConnect_def socksCmdUDPAssociate_def
  socksAtypIPv4_def socksAtypDomain_def socksAtypIPv6_def

definition socksNegotiate :: "bufr \<Rightarrow> conn \<Rightarrow> (goerr + bufr) \<times> conn" where
  "socksNegotiate br w =
     (case br_ReadFull 2 br of
        Inl e \<Rightarrow> (Inl e, w)
      | Inr (header, br) \<Rightarrow>
        if header ! 0 \<noteq> socksVersion5 \<or> header ! 1 = 0 then (Inl (Msg ''invalid SOCKS5 greeting''), w)
        else (case br_ReadFull (unat (header ! 1)) br of
            Inl e \<Rightarrow> (Inl e, w)
          | Inr (methods, br) \<Rightarrow>
            if 0 \<notin> set methods then
              (case conn_write w [5, 0xFF] of (_, _, w) \<Rightarrow> (Inl (Msg ''SOCKS5 client does not support no-auth''), w))
            else (case conn_write w [5, 0] of
                (_, Some e, w) \<Rightarrow> (Inl e, w)
              | (_, None, w) \<Rightarrow> (Inr br, w))))"

definition socksReadHost :: "bufr \<Rightarrow> byte \<Rightarrow> goerr + string \<times> bufr" where
  "socksReadHost r atyp =
     (if atyp = socksAtypIPv4 then
        (case br_ReadFull 4 r of Inl e \<Rightarrow> Inl e | Inr (b, r) \<Rightarrow> Inr (IPString b, r))
      else if atyp = socksAtypIPv6 then
        (case br_ReadFull 16 r of Inl e \<Rightarrow> Inl e | Inr (b, r) \<Rightarrow> Inr (IPString b, r))
      else if atyp = socksAtypDomain then
        (case br_ReadFull 1 r of Inl e \<Rightarrow> Inl e
         | Inr (n, r) \<Rightarrow>
           if n ! 0 = 0 then Inl (Msg ''empty SOCKS domain'')
           else (case br_ReadFull (unat (n ! 0)) r of Inl e \<Rightarrow> Inl e | Inr (b, r) \<Rightarrow> Inr (string_of b, r)))
      else Inl (Msg (''unsupported SOCKS address type '' @ dec (unat atyp))))"

definition socksReadRequest :: "bufr \<Rightarrow> goerr + byte \<times> string \<times> int \<times> bufr" where
  "socksReadRequest br =
     (case br_ReadFull 4 br of
        Inl e \<Rightarrow> Inl e
      | Inr (header, br) \<Rightarrow>
        if header ! 0 \<noteq> 5 \<or> header ! 2 \<noteq> 0 then Inl (Msg ''invalid SOCKS5 request'')
        else
          let cmd = header ! 1 in
          (case socksReadHost br (header ! 3) of
             Inl e \<Rightarrow> Inl e
           | Inr (host, br) \<Rightarrow>
             (case br_ReadFull 2 br of
                Inl e \<Rightarrow> Inl e
              | Inr (portBuf, br) \<Rightarrow>
                let port = uint (get16 portBuf) in
                if cmd = socksCmdConnect \<and> port < 1 then Inl (Msg ''invalid SOCKS5 port'')
                else Inr (cmd, host, port, br))))"

section \<open>Replies and the handler\<close>

text \<open>A \<^verbatim>\<open>net.Addr\<close>: the two types the reply looks at, and any other, the nil address included.\<close>

datatype net_addr = TCPAddr bytes int | UDPAddr bytes int | OtherAddr

definition socksReply :: "conn \<Rightarrow> byte \<Rightarrow> net_addr \<Rightarrow> goerr option \<times> conn" where
  "socksReply w rep addr =
     (let ip0 = [0, 0, 0, 0];
          (ip, port) = (case addr of
             TCPAddr i p \<Rightarrow> (case To4 i of Some v4 \<Rightarrow> v4 | None \<Rightarrow> ip0, p)
           | UDPAddr i p \<Rightarrow> (case To4 i of Some v4 \<Rightarrow> v4 | None \<Rightarrow> ip0, p)
           | OtherAddr \<Rightarrow> (ip0, 0));
          port = (if port = 0 then 1080 else port);
          out = [5, rep, 0, socksAtypIPv4] @ ip @ put16 (word_of_int port)
      in case conn_write w out of (_, err, w) \<Rightarrow> (err, w))"

text \<open>
  How the handler ends: with an error, relaying between the client's socket and a remote
  connection, or in a UDP association. The relay reads the socket itself, the association keeps the
  buffered reader. The last component of the result is the dial that was made, if any.
\<close>

datatype 'c socks_end = SocksFail goerr | SocksRelay 'c sock | SocksAssociate bufr

definition handleSOCKS5 ::
  "(string \<Rightarrow> int \<Rightarrow> goerr + 'c \<times> net_addr) \<Rightarrow> sock \<Rightarrow> conn \<Rightarrow> 'c socks_end \<times> conn \<times> (string \<times> int) option" where
  "handleSOCKS5 dialTCP s w =
     (let br = NewReaderSize s 4096 in
      case socksNegotiate br w of
        (Inl e, w) \<Rightarrow> (SocksFail e, w, None)
      | (Inr br, w) \<Rightarrow>
        (case socksReadRequest br of
           Inl e \<Rightarrow> (case socksReply w 1 OtherAddr of (_, w) \<Rightarrow> (SocksFail e, w, None))
         | Inr (cmd, host, port, br) \<Rightarrow>
           if cmd = socksCmdConnect then
             (case dialTCP host port of
                Inl e \<Rightarrow> (case socksReply w 5 OtherAddr of (_, w) \<Rightarrow> (SocksFail e, w, Some (host, port)))
              | Inr (remote, localAddr) \<Rightarrow>
                (case socksReply w 0 localAddr of
                   (Some e, w) \<Rightarrow> (SocksFail e, w, Some (host, port))
                 | (None, w) \<Rightarrow> (SocksRelay remote (br_sock br), w, Some (host, port))))
           else if cmd = socksCmdUDPAssociate then (SocksAssociate br, w, None)
           else (case socksReply w 7 OtherAddr of (_, w) \<Rightarrow>
             (SocksFail (Msg (''SOCKS command '' @ dec (unat cmd) @ '' unsupported'')), w, None))))"

section \<open>Requests as a client writes them\<close>

datatype socks_dest = Dest4 bytes | Dest6 bytes | DestName string

fun dest_ok :: "socks_dest \<Rightarrow> bool" where
  "dest_ok (Dest4 b) = (length b = 4)"
| "dest_ok (Dest6 b) = (length b = 16)"
| "dest_ok (DestName n) = (1 \<le> length n \<and> length n \<le> 255)"

fun dest_host :: "socks_dest \<Rightarrow> string" where
  "dest_host (Dest4 b) = IPString b"
| "dest_host (Dest6 b) = IPString b"
| "dest_host (DestName n) = n"

fun dest_atyp :: "socks_dest \<Rightarrow> byte" where
  "dest_atyp (Dest4 b) = 1"
| "dest_atyp (Dest6 b) = 4"
| "dest_atyp (DestName n) = 3"

fun dest_bytes :: "socks_dest \<Rightarrow> bytes" where
  "dest_bytes (Dest4 b) = b"
| "dest_bytes (Dest6 b) = b"
| "dest_bytes (DestName n) = word_of_nat (length n) # bytes_of n"

definition greeting :: "bytes \<Rightarrow> bytes" where
  "greeting methods = [5, word_of_nat (length methods)] @ methods"

definition socks_request :: "byte \<Rightarrow> socks_dest \<Rightarrow> u16 \<Rightarrow> bytes" where
  "socks_request cmd d port = [5, cmd, 0, dest_atyp d] @ dest_bytes d @ put16 port"

lemma list2: "length b = 2 \<Longrightarrow> b = [b ! 0, b ! 1]"
  by (auto simp: numeral_2_eq_2 length_Suc_conv)

lemma list4: "length b = 4 \<Longrightarrow> b = [b ! 0, b ! 1, b ! 2, b ! 3]"
  by (auto simp: eval_nat_numeral length_Suc_conv)

lemma byte_at_most: "unat (b :: byte) \<le> 255"
proof -
  have "unat b < Suc 255" using unat_byte_lt [of b] by simp
  then show ?thesis by (rule Suc_leI [THEN le_SucE]) simp_all
qed

lemma length_16_be_16: "length b = 2 \<Longrightarrow> put16 (get16 b) = b" by (rule put_get)

lemma byte_nonzero: "1 \<le> n \<Longrightarrow> n \<le> 255 \<Longrightarrow> (word_of_nat n :: byte) \<noteq> 0 \<and> unat (word_of_nat n :: byte) = n"
  by (auto simp: word_eq_iff_unsigned unat_of_nat unsigned_eq_0_iff word_of_nat_eq_0_iff)

lemma read_host_written:
  assumes ok: "br_ok r" and d: "dest_ok d" and s: "fst (br_stream r) = dest_bytes d @ t"
  obtains r' where "socksReadHost r (dest_atyp d) = Inr (dest_host d, r')" "br_stream r' = (t, snd (br_stream r))" "br_ok r'"
proof (cases d)
  case (Dest4 b)
  with d s ok obtain r' where "br_ReadFull 4 r = Inr (b, r')" "br_stream r' = (t, snd (br_stream r))" "br_ok r'"
    using buffered.read_next [of r b t 4] by auto
  with Dest4 that show thesis by (simp add: socksReadHost_def socks_consts)
next
  case (Dest6 b)
  with d s ok obtain r' where "br_ReadFull 16 r = Inr (b, r')" "br_stream r' = (t, snd (br_stream r))" "br_ok r'"
    using buffered.read_next [of r b t 16] by auto
  with Dest6 that show thesis by (simp add: socksReadHost_def socks_consts)
next
  case (DestName n)
  then have n: "1 \<le> length n" "length n \<le> 255" using d by simp_all
  let ?l = "word_of_nat (length n) :: byte"
  have "fst (br_stream r) = [?l] @ (bytes_of n @ t)" using s DestName by simp
  then obtain r1 where 1: "br_ReadFull 1 r = Inr ([?l], r1)" "br_stream r1 = (bytes_of n @ t, snd (br_stream r))" "br_ok r1"
    using buffered.read_next [OF ok, of "[?l]" _ 1] by auto
  then obtain r2 where 2: "br_ReadFull (length n) r1 = Inr (bytes_of n, r2)" "br_stream r2 = (t, snd (br_stream r))" "br_ok r2"
    using buffered.read_next [of r1 "bytes_of n" t "length n"] by auto
  show thesis
    by (rule that [of r2]) (use DestName 1 2 byte_nonzero [OF n] in \<open>simp_all add: socksReadHost_def socks_consts\<close>)
qed

lemma read_request_written:
  assumes ok: "br_ok r" and d: "dest_ok d" and s: "fst (br_stream r) = socks_request cmd d port @ t"
    and p: "cmd = 1 \<longrightarrow> port \<noteq> 0"
  obtains r' where "socksReadRequest r = Inr (cmd, dest_host d, uint port, r')" "br_stream r' = (t, snd (br_stream r))" "br_ok r'"
proof -
  have "fst (br_stream r) = [5, cmd, 0, dest_atyp d] @ (dest_bytes d @ put16 port @ t)" using s by (simp add: socks_request_def)
  then obtain r1 where 1: "br_ReadFull 4 r = Inr ([5, cmd, 0, dest_atyp d], r1)"
    "br_stream r1 = (dest_bytes d @ put16 port @ t, snd (br_stream r))" "br_ok r1"
    using buffered.read_next [OF ok, of "[5, cmd, 0, dest_atyp d]" _ 4] by auto
  obtain r2 where 2: "socksReadHost r1 (dest_atyp d) = Inr (dest_host d, r2)"
    "br_stream r2 = (put16 port @ t, snd (br_stream r))" "br_ok r2"
    using read_host_written [OF 1(3) d, of "put16 port @ t"] 1(2) by auto
  obtain r3 where 3: "br_ReadFull 2 r2 = Inr (put16 port, r3)" "br_stream r3 = (t, snd (br_stream r))" "br_ok r3"
    using buffered.read_next [OF 2(3), of "put16 port" t 2] 2(2) by auto
  have "\<not> (cmd = 1 \<and> uint port < 1)" using p by (metis uint_0_iff uint_ge_0 zle_add1_eq_le add_0 antisym)
  then show thesis by (intro that [of r3]) (use 1 2 3 in \<open>simp_all add: socksReadRequest_def socks_consts Let_def\<close>)
qed

lemma read_zero_port:
  assumes ok: "br_ok r" and d: "dest_ok d" and s: "fst (br_stream r) = socks_request 1 d 0 @ t"
  shows "socksReadRequest r = Inl (Msg ''invalid SOCKS5 port'')"
proof -
  have "fst (br_stream r) = [5, 1, 0, dest_atyp d] @ (dest_bytes d @ put16 0 @ t)" using s by (simp add: socks_request_def)
  then obtain r1 where 1: "br_ReadFull 4 r = Inr ([5, 1, 0, dest_atyp d], r1)"
    "br_stream r1 = (dest_bytes d @ put16 0 @ t, snd (br_stream r))" "br_ok r1"
    using buffered.read_next [OF ok, of "[5, 1, 0, dest_atyp d]" _ 4] by auto
  obtain r2 where 2: "socksReadHost r1 (dest_atyp d) = Inr (dest_host d, r2)"
    "br_stream r2 = (put16 0 @ t, snd (br_stream r))" "br_ok r2"
    using read_host_written [OF 1(3) d, of "put16 0 @ t"] 1(2) by auto
  obtain r3 where 3: "br_ReadFull 2 r2 = Inr (put16 0, r3)"
    using buffered.read_next [OF 2(3), of "put16 0" t 2] 2(2) by auto
  show ?thesis using 1 2 3 by (simp add: socksReadRequest_def socks_consts Let_def)
qed

lemma negotiate_written:
  assumes ok: "br_ok r" and m: "length methods \<le> 255" "0 \<in> set methods"
    and s: "fst (br_stream r) = greeting methods @ t" and w: "accepting w"
  obtains r' where "socksNegotiate r w = (Inr r', w\<lparr>c_out := c_out w @ [5, 0], c_calls := Suc (c_calls w)\<rparr>)"
    "br_stream r' = (t, snd (br_stream r))" "br_ok r'"
proof -
  let ?l = "word_of_nat (length methods) :: byte"
  have l: "1 \<le> length methods" using m(2) by (cases methods) auto
  have "fst (br_stream r) = [5, ?l] @ (methods @ t)" using s by (simp add: greeting_def)
  then obtain r1 where 1: "br_ReadFull 2 r = Inr ([5, ?l], r1)" "br_stream r1 = (methods @ t, snd (br_stream r))" "br_ok r1"
    using buffered.read_next [OF ok, of "[5, ?l]" _ 2] by auto
  then obtain r2 where 2: "br_ReadFull (length methods) r1 = Inr (methods, r2)" "br_stream r2 = (t, snd (br_stream r))" "br_ok r2"
    using buffered.read_next [of r1 methods t] by auto
  show thesis
    by (rule that [of r2]) (use 1 2 m w byte_nonzero [OF l m(1)] in \<open>simp_all add: socksNegotiate_def socks_consts conn_write_accepting\<close>)
qed

section \<open>Whatever is accepted was written like that\<close>

lemma read_host_accepted:
  assumes ok: "br_ok r" and h: "socksReadHost r a = Inr (host, r')"
  obtains d where "dest_ok d" "dest_atyp d = a" "dest_host d = host"
    "fst (br_stream r) = dest_bytes d @ fst (br_stream r')" "br_ok r'"
proof -
  consider "a = 1" | "a = 4" | "a = 3" using h by (auto simp: socksReadHost_def socks_consts split: if_splits)
  then show thesis
  proof cases
    case 1
    with h obtain b where b: "br_ReadFull 4 r = Inr (b, r')" "host = IPString b"
      by (auto simp: socksReadHost_def socks_consts split: sum.splits)
    from buffered.read_back [OF ok b(1)] that [of "Dest4 b"] 1 b(2) show thesis by simp
  next
    case 2
    with h obtain b where b: "br_ReadFull 16 r = Inr (b, r')" "host = IPString b"
      by (auto simp: socksReadHost_def socks_consts split: sum.splits)
    from buffered.read_back [OF ok b(1)] that [of "Dest6 b"] 2 b(2) show thesis by simp
  next
    case 3
    with h obtain n r1 b where n: "br_ReadFull 1 r = Inr (n, r1)" "n ! 0 \<noteq> 0"
      and b: "br_ReadFull (unat (n ! 0)) r1 = Inr (b, r')" "host = string_of b"
      by (auto simp: socksReadHost_def socks_consts split: sum.splits if_splits)
    note k1 = buffered.read_back [OF ok n(1)]
    then have k2: "length b = unat (n ! 0) \<and> fst (br_stream r1) = b @ fst (br_stream r') \<and> br_ok r'"
      using buffered.read_back [OF _ b(1)] by blast
    have "n = [n ! 0]" using k1 by (cases n) auto
    moreover have "1 \<le> unat (n ! 0)" "unat (n ! 0) \<le> 255"
      using n(2) byte_at_most by (simp_all add: Suc_le_eq unat_gt_0)
    ultimately show thesis using that [of "DestName host"] k1 k2 3 b(2) by simp
  qed
qed

lemma read_request_accepted:
  assumes ok: "br_ok r" and q: "socksReadRequest r = Inr (cmd, host, port, r')"
  obtains d p where "dest_ok d" "dest_host d = host" "port = uint p" "cmd = 1 \<longrightarrow> p \<noteq> 0"
    "fst (br_stream r) = socks_request cmd d p @ fst (br_stream r')" "br_ok r'"
proof -
  from q obtain h r1 r2 b where h: "br_ReadFull 4 r = Inr (h, r1)" "h ! 0 = 5" "h ! 2 = 0" "cmd = h ! 1"
    and a: "socksReadHost r1 (h ! 3) = Inr (host, r2)" and b: "br_ReadFull 2 r2 = Inr (b, r')"
    and p: "port = uint (get16 b)" "\<not> (cmd = 1 \<and> port < 1)"
    by (auto simp: socksReadRequest_def socks_consts Let_def split: sum.splits if_splits)
  note k1 = buffered.read_back [OF ok h(1)]
  obtain d where d: "dest_ok d" "dest_atyp d = h ! 3" "dest_host d = host"
    "fst (br_stream r1) = dest_bytes d @ fst (br_stream r2)" "br_ok r2"
    using read_host_accepted [OF _ a] k1 by blast
  note k2 = buffered.read_back [OF d(5) b]
  have hh: "h = [5, cmd, 0, dest_atyp d]"
    using list4 [of h] k1 h d(2) by metis
  show thesis
  proof (rule that [of d "get16 b"])
    show "fst (br_stream r) = socks_request cmd d (get16 b) @ fst (br_stream r')"
      using k1 k2 d(4) hh by (simp add: socks_request_def length_16_be_16)
    show "cmd = 1 \<longrightarrow> get16 b \<noteq> 0" using p by auto
  qed (use d p k2 in auto)
qed

lemma negotiate_accepted:
  assumes ok: "br_ok r" and n: "socksNegotiate r w = (Inr r', w')"
  obtains methods where "length methods \<le> 255" "0 \<in> set methods"
    "fst (br_stream r) = greeting methods @ fst (br_stream r')" "br_ok r'"
proof -
  from n obtain h r1 m where h: "br_ReadFull 2 r = Inr (h, r1)" "h ! 0 = 5" "h ! 1 \<noteq> 0"
    and m: "br_ReadFull (unat (h ! 1)) r1 = Inr (m, r')" "0 \<in> set m"
    by (auto simp: socksNegotiate_def socks_consts split: sum.splits if_splits prod.splits option.splits)
  note k1 = buffered.read_back [OF ok h(1)]
  then have k2: "length m = unat (h ! 1)" "fst (br_stream r1) = m @ fst (br_stream r')" "br_ok r'"
    using buffered.read_back [OF _ m(1)] by simp_all
  have u: "word_of_nat (length m) = h ! 1" unfolding k2(1) by simp
  have hh: "h = [5, word_of_nat (length m)]" unfolding u h(2) [symmetric] using k1 by (intro list2) simp
  show thesis
  proof (rule that [of m])
    show "length m \<le> 255" unfolding k2(1) by (rule byte_at_most)
    show "fst (br_stream r) = greeting m @ fst (br_stream r')"
      using k1 k2(2) by (simp add: greeting_def hh [symmetric])
  qed (use m(2) k2(3) in simp_all)
qed

lemma br_ok_new [simp]: "br_ok (NewReaderSize s n)"
  by (simp add: br_ok_def NewReaderSize_def)

lemma br_stream_new [simp]: "br_stream (NewReaderSize s n) = (sk_bytes s, sk_err s)"
  by (simp add: br_stream_def NewReaderSize_def)

section \<open>The handler\<close>

lemma socksReply_accepting:
  assumes "accepting w"
  obtains out where "length out = 10" "out ! 1 = rep"
    "socksReply w rep a = (None, w\<lparr>c_out := c_out w @ out, c_calls := Suc (c_calls w)\<rparr>)"
proof -
  have i: "length ip4 = 4 \<Longrightarrow> length ([5, rep, 0, socksAtypIPv4] @ ip4 @ put16 p) = 10" for ip4 :: bytes and p by simp
  have t: "length v = 4" if "To4 i = Some v" for i v using that by (auto simp: To4_def split: if_splits)
  define z where "z = (case a of
             TCPAddr i p \<Rightarrow> (case To4 i of Some v4 \<Rightarrow> v4 | None \<Rightarrow> [0, 0, 0, 0], p)
           | UDPAddr i p \<Rightarrow> (case To4 i of Some v4 \<Rightarrow> v4 | None \<Rightarrow> [0, 0, 0, 0], p)
           | OtherAddr \<Rightarrow> ([0, 0, 0, 0], 0))"
  have "length (fst z) = 4" unfolding z_def by (auto split: net_addr.split option.split dest: t)
  then have "length ([5, rep, 0, socksAtypIPv4] @ fst z @ put16 (word_of_int (if snd z = 0 then 1080 else snd z))) = 10" by simp
  then show thesis
    by (intro that [of "[5, rep, 0, socksAtypIPv4] @ fst z @ put16 (word_of_int (if snd z = 0 then 1080 else snd z))"])
      (use assms in \<open>auto simp: socksReply_def z_def [symmetric] conn_write_accepting Let_def split: prod.split\<close>)
qed

lemma connect_runs:
  assumes "sk_bytes s = greeting methods @ socks_request 1 d p @ early"
    and "length methods \<le> 255" and "0 \<in> set methods" and "dest_ok d" and "p \<noteq> 0" and "accepting w"
    and "dialTCP (dest_host d) (uint p) = Inr (remote, localAddr)"
  obtains s' w' lost reply where "handleSOCKS5 dialTCP s w = (SocksRelay remote s', w', Some (dest_host d, uint p))"
    "early = lost @ sk_bytes s'" "c_out w' = c_out w @ [5, 0] @ reply" "length reply = 10" "reply ! 1 = 0"
proof -
  obtain r1 where 1: "socksNegotiate (NewReaderSize s 4096) w = (Inr r1, w\<lparr>c_out := c_out w @ [5, 0], c_calls := Suc (c_calls w)\<rparr>)"
    "br_stream r1 = (socks_request 1 d p @ early, sk_err s)" "br_ok r1"
    using negotiate_written [OF br_ok_new assms(2,3) _ assms(6), of s 4096 "socks_request 1 d p @ early"] assms(1) by auto
  obtain r2 where 2: "socksReadRequest r1 = Inr (1, dest_host d, uint p, r2)" "br_stream r2 = (early, snd (br_stream r1))"
    using read_request_written [OF 1(3) assms(4), of 1 p early] 1(2) assms(5) by auto
  let ?w = "w\<lparr>c_out := c_out w @ [5, 0], c_calls := Suc (c_calls w)\<rparr>"
  obtain out where o: "length out = 10" "out ! 1 = 0"
    "socksReply ?w 0 localAddr = (None, ?w\<lparr>c_out := c_out ?w @ out, c_calls := Suc (c_calls ?w)\<rparr>)"
    using socksReply_accepting [of ?w 0 localAddr] assms(6) by auto
  have e: "early = br_buf r2 @ sk_bytes (br_sock r2)" using 2(2) by (simp add: br_stream_def)
  have h: "handleSOCKS5 dialTCP s w = (SocksRelay remote (br_sock r2), ?w\<lparr>c_out := c_out ?w @ out, c_calls := Suc (c_calls ?w)\<rparr>, Some (dest_host d, uint p))"
    using 1(1) 2(1) o(3) assms(7) by (simp add: handleSOCKS5_def socks_consts)
  show thesis by (rule that [OF h]) (use e o(1,2) in simp_all)
qed

text \<open>C21: The SOCKS handler dials exactly what the client asked for. It dials a host and port only
  when the client's bytes are a greeting that offers no authentication followed by a CONNECT request
  for just that address, domain name or IPv6 address and a port other than zero.\<close>

theorem socks_dial_sound:
  assumes "handleSOCKS5 dialTCP s w = (end, w', Some (host, port))"
  shows "\<exists>methods d p t. sk_bytes s = greeting methods @ socks_request 1 d p @ t \<and> 0 \<in> set methods
    \<and> dest_ok d \<and> host = dest_host d \<and> port = uint p \<and> p \<noteq> 0"
proof -
  obtain r1 w1 where n: "socksNegotiate (NewReaderSize s 4096) w = (Inr r1, w1)"
    using assms by (auto simp: handleSOCKS5_def split: prod.splits sum.splits)
  obtain ms where ms: "0 \<in> set ms" "sk_bytes s = greeting ms @ fst (br_stream r1)" "br_ok r1"
    using negotiate_accepted [OF br_ok_new n] by auto
  obtain r2 where q: "socksReadRequest r1 = Inr (1, host, port, r2)"
    using assms n by (auto simp: handleSOCKS5_def socks_consts Let_def split: prod.splits sum.splits if_splits option.splits)
  obtain d p where "dest_ok d" "dest_host d = host" "port = uint p" "p \<noteq> 0"
    "fst (br_stream r1) = socks_request 1 d p @ fst (br_stream r2)"
    using read_request_accepted [OF ms(3) q] by metis
  with ms show ?thesis by (intro exI [of _ ms] exI [of _ d] exI [of _ p] exI [of _ "fst (br_stream r2)"]) simp
qed

theorem socks_dial_sound_witness:
  "\<exists>methods d p t. greeting [0] @ socks_request 1 (DestName ''a'') 80 = greeting methods @ socks_request 1 d p @ t \<and> p \<noteq> 0"
proof -
  let ?s = "\<lparr>sk_segs = [greeting [0], socks_request 1 (DestName ''a'') 80], sk_err = EOF\<rparr>"
  obtain s' w' where h: "handleSOCKS5 (\<lambda>h p. Inr (h, OtherAddr)) ?s open_conn = (SocksRelay ''a'' s', w', Some (''a'', 80))"
    by (rule connect_runs [of ?s "[0]" "DestName ''a''" 80 "[]" open_conn "\<lambda>h p. Inr (h, OtherAddr)" "''a''" OtherAddr])
      (simp_all add: sk_bytes_def)
  from socks_dial_sound [OF h] show ?thesis by (simp add: sk_bytes_def) metis
qed

text \<open>A well-formed CONNECT is carried out: the handler accepts the greeting, dials the host and
  port of the request, answers success, and relays; what is relayed is what the client sent after the
  request except for the bytes that the buffered reader had already taken in.\<close>

theorem socks_connect_served:
  assumes "sk_bytes s = greeting methods @ socks_request 1 d p @ early"
    and "length methods \<le> 255" and "0 \<in> set methods" and "dest_ok d" and "p \<noteq> 0" and "accepting w"
    and "dialTCP (dest_host d) (uint p) = Inr (remote, localAddr)"
  shows "\<exists>s' w' lost reply. handleSOCKS5 dialTCP s w = (SocksRelay remote s', w', Some (dest_host d, uint p))
    \<and> early = lost @ sk_bytes s' \<and> c_out w' = c_out w @ [5, 0] @ reply \<and> length reply = 10 \<and> reply ! 1 = 0"
  by (rule connect_runs [of s methods d p early w dialTCP remote localAddr]) (use assms in blast)+

theorem socks_connect_served_witness:
  "\<exists>s' w'. handleSOCKS5 (\<lambda>h p. Inr (h, OtherAddr)) \<lparr>sk_segs = [greeting [0], socks_request 1 (DestName ''a'') 80], sk_err = EOF\<rparr> open_conn
    = (SocksRelay ''a'' s', w', Some (''a'', 80))"
  using socks_connect_served [of "\<lparr>sk_segs = [greeting [0], socks_request 1 (DestName ''a'') 80], sk_err = EOF\<rparr>" "[0]"
      "DestName ''a''" 80 "[]" open_conn "\<lambda>h p. Inr (h, OtherAddr)" "''a''" OtherAddr]
  by (auto simp: sk_bytes_def)

section \<open>What the buffered reader keeps\<close>

lemma read_full_buffered:
  "0 < n \<Longrightarrow> n \<le> length x \<Longrightarrow> 0 < z \<Longrightarrow>
   br_ReadFull n \<lparr>br_size = z, br_buf = x, br_sock = s\<rparr> = Inr (take n x, \<lparr>br_size = z, br_buf = drop n x, br_sock = s\<rparr>)"
  by (cases x) (simp_all add: br_ReadFull_def br_fill.simps [of n] br_read_def)

lemma read_full_segment:
  "0 < n \<Longrightarrow> n \<le> length d \<Longrightarrow> length d \<le> z \<Longrightarrow> n < z \<Longrightarrow>
   br_ReadFull n \<lparr>br_size = z, br_buf = [], br_sock = \<lparr>sk_segs = d # ds, sk_err = e\<rparr>\<rparr>
     = Inr (take n d, \<lparr>br_size = z, br_buf = drop n d, br_sock = \<lparr>sk_segs = ds, sk_err = e\<rparr>\<rparr>)"
  by (cases d) (simp_all add: br_ReadFull_def br_fill.simps [of n] br_read_def sock_read_def sk_bytes_def)

lemma read_host_buffered:
  assumes "dest_ok d" and "0 < z"
  shows "socksReadHost \<lparr>br_size = z, br_buf = dest_bytes d @ t, br_sock = s\<rparr> (dest_atyp d)
    = Inr (dest_host d, \<lparr>br_size = z, br_buf = t, br_sock = s\<rparr>)"
proof (cases d)
  case (DestName n)
  with assms have n: "1 \<le> length n" "length n \<le> 255" by simp_all
  have "br_ReadFull (length n) \<lparr>br_size = z, br_buf = bytes_of n @ t, br_sock = s\<rparr>
      = Inr (bytes_of n, \<lparr>br_size = z, br_buf = t, br_sock = s\<rparr>)"
    using n assms(2) read_full_buffered [of "length n" "bytes_of n @ t" z s] by (simp add: Suc_le_eq)
  with assms(2) byte_nonzero [OF n] DestName show ?thesis
    by (simp add: socksReadHost_def socks_consts read_full_buffered)
qed (use assms in \<open>simp_all add: socksReadHost_def socks_consts read_full_buffered\<close>)

lemma length_socks_request: "dest_ok d \<Longrightarrow> 8 \<le> length (socks_request cmd d p)"
  by (cases d) (simp_all add: socks_request_def)

lemma read_request_segment:
  assumes "dest_ok d" and "length (socks_request cmd d p @ early) \<le> 4096" and "cmd = 1 \<longrightarrow> p \<noteq> 0"
  shows "socksReadRequest \<lparr>br_size = 4096, br_buf = [], br_sock = \<lparr>sk_segs = (socks_request cmd d p @ early) # ds, sk_err = e\<rparr>\<rparr>
    = Inr (cmd, dest_host d, uint p, \<lparr>br_size = 4096, br_buf = early, br_sock = \<lparr>sk_segs = ds, sk_err = e\<rparr>\<rparr>)"
proof -
  let ?s = "\<lparr>sk_segs = ds, sk_err = e\<rparr>"
  have "br_ReadFull 4 \<lparr>br_size = 4096, br_buf = [], br_sock = \<lparr>sk_segs = (socks_request cmd d p @ early) # ds, sk_err = e\<rparr>\<rparr>
      = Inr ([5, cmd, 0, dest_atyp d], \<lparr>br_size = 4096, br_buf = dest_bytes d @ put16 p @ early, br_sock = ?s\<rparr>)"
    using assms(2) length_socks_request [OF assms(1), of cmd p]
    by (subst read_full_segment) (simp_all add: socks_request_def)
  moreover have "br_ReadFull 2 \<lparr>br_size = 4096, br_buf = put16 p @ early, br_sock = ?s\<rparr>
      = Inr (put16 p, \<lparr>br_size = 4096, br_buf = early, br_sock = ?s\<rparr>)"
    by (simp add: read_full_buffered)
  moreover have "\<not> (cmd = 1 \<and> uint p < 1)" using assms(3) by (metis uint_0_iff uint_ge_0 zle_add1_eq_le add_0 antisym)
  ultimately show ?thesis
    by (simp add: socksReadRequest_def socks_consts Let_def read_host_buffered [OF assms(1)])
qed

lemma negotiate_segment:
  assumes "length methods \<le> 255" and "0 \<in> set methods" and "accepting w"
  shows "socksNegotiate (NewReaderSize \<lparr>sk_segs = greeting methods # ds, sk_err = e\<rparr> 4096) w
    = (Inr \<lparr>br_size = 4096, br_buf = [], br_sock = \<lparr>sk_segs = ds, sk_err = e\<rparr>\<rparr>,
       w\<lparr>c_out := c_out w @ [5, 0], c_calls := Suc (c_calls w)\<rparr>)"
proof -
  have l: "1 \<le> length methods" using assms(2) by (cases methods) auto
  let ?s = "\<lparr>sk_segs = ds, sk_err = e\<rparr>"
  have 1: "br_ReadFull 2 (NewReaderSize \<lparr>sk_segs = greeting methods # ds, sk_err = e\<rparr> 4096)
      = Inr ([5, word_of_nat (length methods)], \<lparr>br_size = 4096, br_buf = methods, br_sock = ?s\<rparr>)"
    unfolding NewReaderSize_def using assms(1) by (simp add: read_full_segment greeting_def)
  have 2: "br_ReadFull (length methods) \<lparr>br_size = 4096, br_buf = methods, br_sock = ?s\<rparr>
      = Inr (methods, \<lparr>br_size = 4096, br_buf = [], br_sock = ?s\<rparr>)"
    using l read_full_buffered [of "length methods" methods 4096 ?s] by (simp add: Suc_le_eq)
  show ?thesis unfolding socksNegotiate_def 1
    using 2 assms(2,3) byte_nonzero [OF l assms(1)] by (simp add: socks_consts conn_write_accepting)
qed

text \<open>C34: What a SOCKS client sends early is lost. The handler relays the socket, not the buffered
  reader it negotiated with: data that arrives in the same segment as the request never reaches the
  remote side, whatever it is; a client that waits for the answer loses nothing.\<close>

theorem socks_early_data_lost:
  assumes "sk_segs s = [greeting methods, socks_request 1 d p @ early] @ later"
    and "length (socks_request 1 d p @ early) \<le> 4096"
    and "length methods \<le> 255" and "0 \<in> set methods" and "dest_ok d" and "p \<noteq> 0" and "accepting w"
    and "dialTCP (dest_host d) (uint p) = Inr (remote, localAddr)"
  shows "\<exists>s'. fst (handleSOCKS5 dialTCP s w) = SocksRelay remote s' \<and> sk_bytes s' = concat later"
proof -
  obtain e where s: "s = \<lparr>sk_segs = greeting methods # (socks_request 1 d p @ early) # later, sk_err = e\<rparr>"
    using assms(1) by (cases s) simp
  let ?w = "w\<lparr>c_out := c_out w @ [5, 0], c_calls := Suc (c_calls w)\<rparr>"
  obtain out where o: "socksReply ?w 0 localAddr = (None, ?w\<lparr>c_out := c_out ?w @ out, c_calls := Suc (c_calls ?w)\<rparr>)"
    using socksReply_accepting [of ?w 0 localAddr] assms(7) by auto
  have n: "socksNegotiate (NewReaderSize s 4096) w = (Inr \<lparr>br_size = 4096, br_buf = [],
      br_sock = \<lparr>sk_segs = (socks_request 1 d p @ early) # later, sk_err = e\<rparr>\<rparr>, ?w)"
    unfolding s by (rule negotiate_segment [OF assms(3,4,7)])
  have q: "socksReadRequest \<lparr>br_size = 4096, br_buf = [],
      br_sock = \<lparr>sk_segs = (socks_request 1 d p @ early) # later, sk_err = e\<rparr>\<rparr>
      = Inr (1, dest_host d, uint p, \<lparr>br_size = 4096, br_buf = early, br_sock = \<lparr>sk_segs = later, sk_err = e\<rparr>\<rparr>)"
    using read_request_segment [OF assms(5,2)] assms(6) by simp
  have "fst (handleSOCKS5 dialTCP s w) = SocksRelay remote \<lparr>sk_segs = later, sk_err = e\<rparr>"
    unfolding handleSOCKS5_def Let_def n using q o assms(8) by (simp add: socks_consts)
  then show ?thesis by (intro exI [of _ "\<lparr>sk_segs = later, sk_err = e\<rparr>"]) (simp add: sk_bytes_def)
qed

theorem socks_early_data_lost_witness:
  "\<exists>s'. fst (handleSOCKS5 (\<lambda>h p. Inr (h, OtherAddr))
      \<lparr>sk_segs = [greeting [0], socks_request 1 (DestName ''a'') 80 @ [1, 2, 3], [4, 5]], sk_err = EOF\<rparr> open_conn) = SocksRelay ''a'' s'
    \<and> sk_bytes s' = [4, 5]"
  using socks_early_data_lost [of "\<lparr>sk_segs = [greeting [0], socks_request 1 (DestName ''a'') 80 @ [1, 2, 3], [4, 5]], sk_err = EOF\<rparr>"
      "[0]" "DestName ''a''" 80 "[1, 2, 3]" "[[4, 5]]" open_conn "\<lambda>h p. Inr (h, OtherAddr)" "''a''" OtherAddr]
  by (simp add: socks_request_def)

text \<open>Every other request has its own answer. A greeting without the no-authentication method
  is answered by FF; a CONNECT to port zero by general failure, without a dial; a failed dial by
  connection refused; an unknown command by 7; a UDP association needs no port and gets the rest of
  the input.\<close>

theorem socks_refusals:
  assumes "sk_bytes s = greeting methods @ socks_request cmd d p @ t"
    and "methods \<noteq> []" and "length methods \<le> 255" and "dest_ok d" and "accepting w"
  shows "case handleSOCKS5 dialTCP s w of (end, w', dialled) \<Rightarrow>
    (if 0 \<notin> set methods then (\<exists>e. end = SocksFail e) \<and> dialled = None \<and> c_out w' = c_out w @ [5, 0xFF]
     else if cmd = 3 then dialled = None \<and> c_out w' = c_out w @ [5, 0]
       \<and> (\<exists>r. end = SocksAssociate r \<and> br_stream r = (t, sk_err s))
     else if cmd = 1 \<and> p \<noteq> 0 then dialled = Some (dest_host d, uint p)
       \<and> (\<forall>e. dialTCP (dest_host d) (uint p) = Inl e \<longrightarrow> end = SocksFail e
            \<and> (\<exists>reply. c_out w' = c_out w @ [5, 0] @ reply \<and> reply ! 1 = 5))
     else dialled = None \<and> (\<exists>e reply. end = SocksFail e \<and> c_out w' = c_out w @ [5, 0] @ reply
       \<and> reply ! 1 = (if cmd = 1 then 1 else 7)))"
proof (cases "0 \<in> set methods")
  case False
  let ?l = "word_of_nat (length methods) :: byte"
  have l: "1 \<le> length methods" using assms(2) by (cases methods) auto
  have "fst (br_stream (NewReaderSize s 4096)) = [5, ?l] @ (methods @ socks_request cmd d p @ t)"
    using assms(1) by (simp add: greeting_def)
  then obtain r1 where 1: "br_ReadFull 2 (NewReaderSize s 4096) = Inr ([5, ?l], r1)" "br_ok r1"
    "fst (br_stream r1) = methods @ socks_request cmd d p @ t"
    by (rule buffered.read_next [OF br_ok_new, where n = 2]) simp_all
  obtain r2 where 2: "br_ReadFull (length methods) r1 = Inr (methods, r2)"
    by (rule buffered.read_next [OF 1(2,3) refl])
  have "socksNegotiate (NewReaderSize s 4096) w = (Inl (Msg ''SOCKS5 client does not support no-auth''),
      w\<lparr>c_out := c_out w @ [5, 0xFF], c_calls := Suc (c_calls w)\<rparr>)"
    using 1(1) 2 False assms(5) byte_nonzero [OF l assms(3)]
    by (simp add: socksNegotiate_def socks_consts conn_write_accepting)
  with False show ?thesis by (simp add: handleSOCKS5_def)
next
  case True
  let ?w = "w\<lparr>c_out := c_out w @ [5, 0], c_calls := Suc (c_calls w)\<rparr>"
  obtain r1 where 1: "socksNegotiate (NewReaderSize s 4096) w = (Inr r1, ?w)"
    "br_stream r1 = (socks_request cmd d p @ t, sk_err s)" "br_ok r1"
    using negotiate_written [OF br_ok_new assms(3) True _ assms(5), of s 4096 "socks_request cmd d p @ t"] assms(1) by auto
  have rep: "\<exists>out. out ! 1 = k \<and> socksReply ?w k a = (None, ?w\<lparr>c_out := c_out ?w @ out, c_calls := Suc (c_calls ?w)\<rparr>)" for k a
    using socksReply_accepting [of ?w k a] assms(5) by (metis accepting_updates(1))
  show ?thesis
  proof (cases "cmd = 1 \<and> p = 0")
    case zero: True
    have "socksReadRequest r1 = Inl (Msg ''invalid SOCKS5 port'')"
      using read_zero_port [OF 1(3) assms(4)] 1(2) zero by simp
    with rep [of 1 OtherAddr] 1(1) True zero show ?thesis by (auto simp: handleSOCKS5_def)
  next
    case False
    then obtain r2 where 2: "socksReadRequest r1 = Inr (cmd, dest_host d, uint p, r2)" "br_stream r2 = (t, sk_err s)"
      using read_request_written [OF 1(3) assms(4), of cmd p t] 1(2) by auto
    consider "cmd = 3" | "cmd = 1" "p \<noteq> 0" | "cmd \<noteq> 1" "cmd \<noteq> 3" using False by blast
    then show ?thesis
    proof cases
      case 1
      with \<open>socksNegotiate _ w = _\<close> 2 True show ?thesis by (simp add: handleSOCKS5_def socks_consts)
    next
      case cmd: 2
      obtain out where "out ! 1 = 5" "socksReply ?w 5 OtherAddr = (None, ?w\<lparr>c_out := c_out ?w @ out, c_calls := Suc (c_calls ?w)\<rparr>)"
        using rep by blast
      with cmd 1(1) 2 True show ?thesis
        by (auto simp: handleSOCKS5_def socks_consts split: sum.split prod.split option.split)
    next
      case 3
      obtain out where "out ! 1 = 7" "socksReply ?w 7 OtherAddr = (None, ?w\<lparr>c_out := c_out ?w @ out, c_calls := Suc (c_calls ?w)\<rparr>)"
        using rep by blast
      with 3 1(1) 2 True show ?thesis by (simp add: handleSOCKS5_def socks_consts)
    qed
  qed
qed

theorem socks_refusals_witness:
  "fst (handleSOCKS5 (\<lambda>h p. Inl EOF :: goerr + unit \<times> net_addr)
      \<lparr>sk_segs = [greeting [0], socks_request 1 (DestName ''a'') 80], sk_err = EOF\<rparr> open_conn) = SocksFail EOF"
  using socks_refusals [of "\<lparr>sk_segs = [greeting [0], socks_request 1 (DestName ''a'') 80], sk_err = EOF\<rparr>" "[0]"
      1 "DestName ''a''" 80 "[]" open_conn "\<lambda>h p. Inl EOF :: goerr + unit \<times> net_addr"]
  by (simp add: sk_bytes_def split: prod.splits)

end
