(* ===== verification/SocksUdp.thy ===== *)
theory SocksUdp
  imports Socks
begin

text \<open>
  The UDP side of \<^verbatim>\<open>socks5.go\<close>: parsing the client's datagrams, the frames of
  the UDP gateway, and an association with its three loops (gateway to client, control connection,
  client to gateway), interleaved turn by turn.
\<close>

section \<open>Datagrams and gateway frames\<close>

definition parseSOCKSUDPDatagram :: "bytes \<Rightarrow> goerr + bytes \<times> int \<times> bytes" where
  "parseSOCKSUDPDatagram packet =
     (if length packet < 10 \<or> packet ! 0 \<noteq> 0 \<or> packet ! 1 \<noteq> 0 \<or> packet ! 2 \<noteq> 0 then
        Inl (Msg ''invalid SOCKS5 UDP packet'')
      else
        let pos = 3; atyp = packet ! pos; pos = pos + 1 in
        if atyp = socksAtypIPv4 then
          if length packet < pos + 4 + 2 then Inl UnexpectedEOF
          else
            let out = bslice pos (pos + 4) packet; pos = pos + 4;
                port = uint (get16 (bslice pos (pos + 2) packet)); pos = pos + 2
            in Inr (out, port, drop pos packet)
        else if atyp = socksAtypDomain then
          if length packet \<le> pos then Inl UnexpectedEOF
          else
            let n = unat (packet ! pos); pos = pos + 1 in
            if length packet < pos + n + 2 then Inl UnexpectedEOF
            else Inl (Msg ''SOCKS UDP domain destinations are disabled to avoid local DNS leakage; use an IPv4 destination'')
        else if atyp = socksAtypIPv6 then Inl (Msg ''UDPGW supports IPv4 only'')
        else Inl (Msg ''unsupported SOCKS UDP address type''))"

text \<open>The length field is 16 bits wide: \<open>word_of_nat\<close> drops what does not fit, as the conversion does.\<close>

definition buildUDPGWRequest :: "u16 \<Rightarrow> byte \<Rightarrow> bytes \<Rightarrow> u16 \<Rightarrow> bytes \<Rightarrow> bytes" where
  "buildUDPGWRequest connID x ip port data =
     (let payloadLen = 9 + length data
      in le_put16 (word_of_nat payloadLen) @ put16 connID @ [x] @ ip @ put16 port @ data)"

definition readUDPGWFrame :: "bufr \<Rightarrow> goerr + bytes \<times> bufr" where
  "readUDPGWFrame r =
     (case br_ReadFull 2 r of
        Inl e \<Rightarrow> Inl e
      | Inr (lenBuf, r) \<Rightarrow>
        let n = unat (le_get16 lenBuf) in
        if n < 9 \<or> n > 65535 then Inl (Msg (''invalid UDPGW frame '' @ dec n))
        else br_ReadFull n r)"

text \<open>The packet for the client that the gateway loop makes of a frame.\<close>

definition gw_packet :: "bytes \<Rightarrow> bytes" where
  "gw_packet payload =
     (let srcIP = bslice 3 7 payload; srcPort = get16 (bslice 7 9 payload); data = drop 9 payload
      in [0, 0, 0, socksAtypIPv4] @ srcIP @ put16 srcPort @ data)"

section \<open>The association\<close>

text \<open>
  \<open>ua_client\<close> is the address of the last datagram, \<open>ua_gw\<close> the reader of the gateway
  connection, \<open>ua_out\<close> what was written to it, \<open>ua_sent\<close> the packets written to the UDP
  socket with their destination, \<open>ua_done\<close> whether \<^verbatim>\<open>closeAll\<close> has run, and
  \<open>ua_end\<close> the result of the handler once it has returned. UDP addresses are of any type.
\<close>

record 'a assoc =
  ua_client :: "'a option"
  ua_gw :: bufr
  ua_out :: bytes
  ua_sent :: "('a \<times> bytes) list"
  ua_done :: bool
  ua_gwloop :: bool
  ua_end :: "goerr option option"

definition closeAll :: "'a assoc \<Rightarrow> 'a assoc" where
  "closeAll u = u\<lparr>ua_done := True\<rparr>"

text \<open>
  One turn of the gateway loop. A packet for a closed UDP socket is dropped: the error of
  \<^verbatim>\<open>WriteToUDP\<close> is ignored.
\<close>

definition gw_turn :: "'a assoc \<Rightarrow> 'a assoc" where
  "gw_turn u =
     (if \<not> ua_gwloop u then u
      else case readUDPGWFrame (ua_gw u) of
        Inl e \<Rightarrow> closeAll (u\<lparr>ua_gwloop := False\<rparr>)
      | Inr (payload, r) \<Rightarrow>
        let u = u\<lparr>ua_gw := r\<rparr> in
        if length payload < 9 then u
        else case ua_client u of
            None \<Rightarrow> u
          | Some to \<Rightarrow> if ua_done u then u else u\<lparr>ua_sent := ua_sent u @ [(to, gw_packet payload)]\<rparr>)"

text \<open>The control loop only waits for the end of the control connection.\<close>

definition control_turn :: "bool \<Rightarrow> 'a assoc \<Rightarrow> 'a assoc" where
  "control_turn ended u = (if ended then closeAll u else u)"

text \<open>
  One turn of the main loop: a datagram, or an error of the socket, and how the gateway connection
  takes the frame (\<open>None\<close> completely; \<open>Some (n, e)\<close> only \<open>n\<close> bytes of it, with an error).
\<close>

definition udp_turn :: "goerr + 'a \<times> bytes \<Rightarrow> (nat \<times> goerr) option \<Rightarrow> 'a assoc \<Rightarrow> 'a assoc" where
  "udp_turn input written u =
     (if ua_end u \<noteq> None then u
      else case input of
        Inl e \<Rightarrow> closeAll (u\<lparr>ua_end := Some None\<rparr>)
      | Inr (from_addr, packet) \<Rightarrow>
        let u = u\<lparr>ua_client := Some from_addr\<rparr> in
        (case parseSOCKSUDPDatagram packet of
           Inl e \<Rightarrow> u
         | Inr (ip, port, payload) \<Rightarrow>
           let frame = buildUDPGWRequest 1 0 ip (word_of_int port) payload in
           if ua_done u then closeAll (u\<lparr>ua_end := Some (Some ErrClosed)\<rparr>)
           else case written of
               Some (n, e) \<Rightarrow> closeAll (u\<lparr>ua_out := ua_out u @ take n frame, ua_end := Some (Some e)\<rparr>)
             | None \<Rightarrow> u\<lparr>ua_out := ua_out u @ frame\<rparr>))"

datatype 'a assoc_act =
    GwTurn
  | ControlTurn bool
  | UdpTurn "goerr + 'a \<times> bytes" "(nat \<times> goerr) option"

fun assoc_step :: "'a assoc_act \<Rightarrow> 'a assoc \<Rightarrow> 'a assoc" where
  "assoc_step GwTurn u = gw_turn u"
| "assoc_step (ControlTurn ended) u = control_turn ended u"
| "assoc_step (UdpTurn i w) u = udp_turn i w u"

definition assoc_run :: "'a assoc_act list \<Rightarrow> 'a assoc \<Rightarrow> 'a assoc" where
  "assoc_run acts u = fold assoc_step acts u"

text \<open>
  \<^verbatim>\<open>handleSOCKSUDPAssociate\<close> up to the start of its loops: the UDP socket and the
  gateway connection (its incoming side) are the outcomes of the two calls that make them.
\<close>

definition associate ::
  "(goerr + net_addr) \<Rightarrow> (goerr + sock) \<Rightarrow> conn \<Rightarrow> (goerr + 'a assoc) \<times> conn" where
  "associate listenUDP dialUDPGW control =
     (case listenUDP of
        Inl e \<Rightarrow> (Inl e, control)
      | Inr localAddr \<Rightarrow>
        (case socksReply control 0 localAddr of
           (Some e, control) \<Rightarrow> (Inl e, control)
         | (None, control) \<Rightarrow>
           (case dialUDPGW of
              Inl e \<Rightarrow> (Inl e, control)
            | Inr gw \<Rightarrow> (Inr \<lparr>ua_client = None, ua_gw = NewReaderSize gw (32 * 1024), ua_out = [],
                ua_sent = [], ua_done = False, ua_gwloop = True, ua_end = None\<rparr>, control))))"

section \<open>Frames\<close>

lemma parse_accepts:
  assumes "parseSOCKSUDPDatagram packet = Inr (ip, port, data)"
  shows "length ip = 4" "0 \<le> port" "port < 65536" "packet = [0, 0, 0, 1] @ ip @ put16 (word_of_int port) @ data"
proof -
  from assms have l: "10 \<le> length packet" and z: "packet ! 0 = 0" "packet ! 1 = 0" "packet ! 2 = 0" "packet ! 3 = 1"
    and ip: "ip = bslice 4 8 packet" and p: "port = uint (get16 (bslice 8 10 packet))" and d: "data = drop 10 packet"
    by (auto simp: parseSOCKSUDPDatagram_def socks_consts Let_def split: if_splits)
  show "length ip = 4" using l ip by simp
  have w: "word_of_int port = get16 (bslice 8 10 packet)" by (simp add: p)
  show "0 \<le> port" "port < 65536" using uint_lt2p [of "get16 (bslice 8 10 packet)"] by (simp_all add: p)
  have "take 4 packet = [0, 0, 0, 1]"
    using z l by (intro nth_equalityI) (auto simp: less_Suc_eq numeral_eq_Suc)
  moreover have "bslice 8 10 packet @ drop 10 packet = drop 8 packet" "bslice 4 8 packet @ drop 8 packet = drop 4 packet"
    by (rule bslice_drop, simp)+
  moreover have "put16 (word_of_int port) = bslice 8 10 packet" unfolding w using l by (intro put_get) simp
  ultimately show "packet = [0, 0, 0, 1] @ ip @ put16 (word_of_int port) @ data"
    unfolding ip d by (metis append_take_drop_id)
qed

lemma parse_written:
  "length ip = 4 \<Longrightarrow> parseSOCKSUDPDatagram ([0, 0, 0, 1] @ ip @ put16 p @ data) = Inr (ip, uint p, data)"
  by (simp add: parseSOCKSUDPDatagram_def socks_consts bslice_def)

lemma read_frame:
  assumes "br_ok r" and "9 \<le> length payload" and "length payload < 65536"
    and "fst (br_stream r) = le_put16 (word_of_nat (length payload)) @ payload @ t"
  obtains r' where "readUDPGWFrame r = Inr (payload, r')" "br_stream r' = (t, snd (br_stream r))" "br_ok r'"
proof -
  obtain r1 where 1: "br_ReadFull 2 r = Inr (le_put16 (word_of_nat (length payload)), r1)"
    "br_stream r1 = (payload @ t, snd (br_stream r))" "br_ok r1"
    by (rule buffered.read_next [OF assms(1,4), where n = 2]) simp_all
  have "fst (br_stream r1) = payload @ t" using 1(2) by simp
  then obtain r2 where 2: "br_ReadFull (length payload) r1 = Inr (payload, r2)" "br_stream r2 = (t, snd (br_stream r))" "br_ok r2"
    by (rule buffered.read_next [OF 1(3), where n = "length payload"]) (simp_all add: 1(2))
  show thesis by (rule that [of r2]) (use 1 2 assms in \<open>simp_all add: readUDPGWFrame_def\<close>)
qed

lemma read_frame_accepted:
  assumes "br_ok r" and "readUDPGWFrame r = Inr (payload, r')"
  shows "9 \<le> length payload \<and> length payload < 65536 \<and> br_ok r' \<and> snd (br_stream r') = snd (br_stream r)
    \<and> fst (br_stream r) = le_put16 (word_of_nat (length payload)) @ payload @ fst (br_stream r')"
proof -
  from assms(2) obtain h r1 where h: "br_ReadFull 2 r = Inr (h, r1)" "\<not> unat (le_get16 h) < 9"
    and p: "br_ReadFull (unat (le_get16 h)) r1 = Inr (payload, r')"
    by (auto simp: readUDPGWFrame_def Let_def split: sum.splits if_splits)
  note k1 = buffered.read_back [OF assms(1) h(1)]
  then have k2: "length payload = unat (le_get16 h) \<and> fst (br_stream r1) = payload @ fst (br_stream r')
      \<and> snd (br_stream r') = snd (br_stream r1) \<and> br_ok r'"
    using buffered.read_back [OF _ p] by blast
  then have l: "length payload = unat (le_get16 h)" by simp
  have "le_put16 (word_of_nat (length payload)) = h" unfolding l using k1 by (simp add: put_get)
  with k1 k2 h(2) show ?thesis by simp
qed

text \<open>C36: The 16-bit length of a gateway frame never wraps. For every datagram the relay can
  receive, the frame built from it is read back whole, with address, port and data in place and
  nothing of what follows; the first data length for which the field would wrap is 65527, beyond any
  datagram.\<close>

theorem udpgw_length_exact:
  assumes "parseSOCKSUDPDatagram packet = Inr (ip, port, data)" and "length packet \<le> 65535"
    and "br_ok r" and "fst (br_stream r) = buildUDPGWRequest 1 0 ip (word_of_int port) data @ t"
  shows "(\<exists>r'. readUDPGWFrame r = Inr (put16 1 @ [0] @ ip @ put16 (word_of_int port) @ data, r') \<and> fst (br_stream r') = t)
    \<and> length (buildUDPGWRequest 1 0 ip (word_of_int port) data) \<le> 65536
    \<and> (\<forall>d. length d = 65527 \<longrightarrow> take 2 (buildUDPGWRequest 1 0 ip (word_of_int port) d) = [0, 0])"
proof -
  note a = parse_accepts [OF assms(1)]
  let ?p = "put16 1 @ [0] @ ip @ put16 (word_of_int port) @ data"
  have ld: "length data + 10 \<le> 65535" using a(1,4) assms(2) by simp
  have "buildUDPGWRequest 1 0 ip (word_of_int port) data = le_put16 (word_of_nat (length ?p)) @ ?p"
    using a(1) by (simp add: buildUDPGWRequest_def Let_def)
  then have "fst (br_stream r) = le_put16 (word_of_nat (length ?p)) @ ?p @ t" using assms(4) by simp
  then obtain r' where "readUDPGWFrame r = Inr (?p, r')" "br_stream r' = (t, snd (br_stream r))"
    by (rule read_frame [OF assms(3), rotated 2]) (use a(1) ld in simp_all)
  moreover have "take 2 (buildUDPGWRequest 1 0 ip (word_of_int port) d) = [0, 0]" if "length d = 65527" for d
  proof -
    have "(word_of_nat (9 + length d) :: u16) = 0" unfolding that by simp
    then have "take 2 (buildUDPGWRequest 1 0 ip (word_of_int port) d) = le_put16 0"
      by (simp add: buildUDPGWRequest_def Let_def)
    also have "le_put16 0 = [0, 0]" by code_simp
    finally show ?thesis .
  qed
  ultimately show ?thesis using a(1) ld by (auto simp: buildUDPGWRequest_def)
qed

theorem udpgw_length_exact_witness:
  "\<exists>r'. readUDPGWFrame (NewReaderSize \<lparr>sk_segs = [buildUDPGWRequest 1 0 [10, 0, 0, 1] 53 [7, 8]], sk_err = EOF\<rparr> 4096)
    = Inr (put16 1 @ [0] @ [10, 0, 0, 1] @ put16 53 @ [7, 8], r')"
proof -
  have p: "parseSOCKSUDPDatagram ([0, 0, 0, 1] @ [10, 0, 0, 1] @ put16 53 @ [7, 8]) = Inr ([10, 0, 0, 1], uint (53 :: u16), [7, 8])"
    by (rule parse_written) simp
  have w: "word_of_int (uint (53 :: u16)) = (53 :: u16)" by simp
  from udpgw_length_exact [OF p, of "NewReaderSize \<lparr>sk_segs = [buildUDPGWRequest 1 0 [10, 0, 0, 1] 53 [7, 8]], sk_err = EOF\<rparr> 4096" "[]", unfolded w]
  show ?thesis by (auto simp: sk_bytes_def)
qed

section \<open>Runs of an association\<close>

text \<open>The frames of the valid datagrams among a run's turns, and the frames the gateway sends.\<close>

fun frames_of :: "'a assoc_act list \<Rightarrow> bytes list" where
  "frames_of [] = []"
| "frames_of (UdpTurn (Inr (from_addr, packet)) w # acts) =
     (case parseSOCKSUDPDatagram packet of
        Inl e \<Rightarrow> frames_of acts
      | Inr (ip, port, data) \<Rightarrow> buildUDPGWRequest 1 0 ip (word_of_int port) data # frames_of acts)"
| "frames_of (_ # acts) = frames_of acts"

fun senders_of :: "'a assoc_act list \<Rightarrow> 'a set" where
  "senders_of [] = {}"
| "senders_of (UdpTurn (Inr (from_addr, packet)) w # acts) = insert from_addr (senders_of acts)"
| "senders_of (_ # acts) = senders_of acts"

definition gw_frame :: "bytes \<Rightarrow> bytes" where
  "gw_frame payload = le_put16 (word_of_nat (length payload)) @ payload"

text \<open>What an association may have written when the datagrams still to come make the frames \<open>fs\<close>.\<close>

lemma udp_turn_ended: "ua_end u \<noteq> None \<Longrightarrow> udp_turn i w u = u"
  by (simp add: udp_turn_def)

lemma turns_out:
  "ua_out (gw_turn u) = ua_out u" "ua_out (control_turn b u) = ua_out u"
  "ua_end (gw_turn u) = ua_end u" "ua_end (control_turn b u) = ua_end u"
  by (auto simp: gw_turn_def control_turn_def closeAll_def Let_def split: sum.split option.split)

lemma done_stays: "ua_done u \<Longrightarrow> ua_done (assoc_step a u)"
  by (cases a) (auto simp: gw_turn_def control_turn_def udp_turn_def closeAll_def Let_def split: sum.split option.split)

lemma done_quiet: "ua_done u \<Longrightarrow> ua_out (assoc_step a u) = ua_out u \<and> ua_sent (assoc_step a u) = ua_sent u"
  by (cases a) (auto simp: gw_turn_def control_turn_def udp_turn_def closeAll_def Let_def split: sum.split option.split)

lemma assoc_run_Cons: "assoc_run (a # acts) u = assoc_run acts (assoc_step a u)"
  by (simp add: assoc_run_def)

lemma run_done: "ua_done u \<Longrightarrow> ua_done (assoc_run acts u) \<and> ua_out (assoc_run acts u) = ua_out u \<and> ua_sent (assoc_run acts u) = ua_sent u"
proof (induction acts arbitrary: u)
  case (Cons a acts)
  from Cons.IH [OF done_stays [OF Cons.prems, of a]] done_quiet [OF Cons.prems, of a]
  show ?case by (simp add: assoc_run_Cons)
qed (simp add: assoc_run_def)

lemma run_out:
  assumes "\<not> ua_done u" and "ua_end u = None"
  shows "\<exists>n. ua_out (assoc_run acts u) = ua_out u @ take n (concat (frames_of acts))
    \<and> (\<not> ua_done (assoc_run acts u) \<longrightarrow> ua_out (assoc_run acts u) = ua_out u @ concat (frames_of acts))"
  using assms
proof (induction acts arbitrary: u)
  case Nil
  show ?case by (rule exI [of _ 0]) (simp add: assoc_run_def)
next
  case (Cons a acts)
  let ?u = "assoc_step a u"
  obtain f where f: "frames_of (a # acts) = f @ frames_of acts"
    and step: "ua_done ?u \<and> (\<exists>n. ua_out ?u = ua_out u @ take n (concat f))
      \<or> \<not> ua_done ?u \<and> ua_end ?u = None \<and> ua_out ?u = ua_out u @ concat f"
  proof (cases a)
    case GwTurn
    have "ua_done ?u \<and> (\<exists>n. ua_out ?u = ua_out u @ take n (concat []))
      \<or> \<not> ua_done ?u \<and> ua_end ?u = None \<and> ua_out ?u = ua_out u @ concat []"
      using Cons.prems turns_out(1,3) [of u] by (auto simp: GwTurn)
    then show thesis by (rule that [of "[]", rotated]) (simp add: GwTurn)
  next
    case (ControlTurn b)
    have "ua_done ?u \<and> (\<exists>n. ua_out ?u = ua_out u @ take n (concat []))
      \<or> \<not> ua_done ?u \<and> ua_end ?u = None \<and> ua_out ?u = ua_out u @ concat []"
      using Cons.prems turns_out(2,4) [of b u] by (auto simp: ControlTurn)
    then show thesis by (rule that [of "[]", rotated]) (simp add: ControlTurn)
  next
    case (UdpTurn i w)
    show thesis
    proof (cases i)
      case (Inl e)
      then show thesis
        by (intro that [of "[]"]) (use Cons.prems UdpTurn in \<open>auto simp: udp_turn_def closeAll_def\<close>)
    next
      case (Inr q)
      obtain fr packet where q: "q = (fr, packet)" by fastforce
      show thesis
      proof (cases "parseSOCKSUDPDatagram packet")
        case (Inl e)
        then show thesis
          by (intro that [of "[]"]) (use Cons.prems UdpTurn Inr q in \<open>auto simp: udp_turn_def\<close>)
      next
        case p: (Inr y)
        obtain ip port data where y: "y = (ip, port, data)" by (metis prod.collapse)
        show thesis
          by (rule that [of "[buildUDPGWRequest 1 0 ip (word_of_int port) data]"])
            (use Cons.prems UdpTurn Inr q p y in \<open>auto simp: udp_turn_def closeAll_def Let_def split: option.split\<close>)
      qed
    qed
  qed
  from step show ?case
  proof (elim disjE conjE exE)
    fix n assume d: "ua_done ?u" and o: "ua_out ?u = ua_out u @ take n (concat f)"
    have "take n (concat f) = take (min n (length (concat f))) (concat (frames_of (a # acts)))" unfolding f by (simp add: min_def)
    with run_done [OF d, of acts] o show ?thesis unfolding assoc_run_Cons by metis
  next
    assume d: "\<not> ua_done ?u" "ua_end ?u = None" and o: "ua_out ?u = ua_out u @ concat f"
    from Cons.IH [OF d] obtain n where n: "ua_out (assoc_run acts ?u) = ua_out ?u @ take n (concat (frames_of acts))"
      "\<not> ua_done (assoc_run acts ?u) \<longrightarrow> ua_out (assoc_run acts ?u) = ua_out ?u @ concat (frames_of acts)" by blast
    show ?thesis unfolding assoc_run_Cons f
      by (rule exI [of _ "length (concat f) + n"]) (use n o in simp)
  qed
qed

text \<open>The packets sent to clients come from the gateway's frames, in order.\<close>

lemma gw_turn_sent:
  assumes "br_ok (ua_gw u)" and "fst (br_stream (ua_gw u)) = concat (map gw_frame fs)"
    and "\<forall>f \<in> set fs. 9 \<le> length f \<and> length f < 65536"
  obtains (none) "ua_sent (gw_turn u) = ua_sent u" "ua_gw (gw_turn u) = ua_gw u"
  | (turn) f fs' where "fs = f # fs'" "fst (br_stream (ua_gw (gw_turn u))) = concat (map gw_frame fs')"
      "br_ok (ua_gw (gw_turn u))"
      "ua_sent (gw_turn u) = ua_sent u @ (case ua_client u of None \<Rightarrow> [] | Some to \<Rightarrow> if ua_done u then [] else [(to, gw_packet f)])"
proof (cases "ua_gwloop u")
  case False
  with none show thesis by (simp add: gw_turn_def)
next
  case True
  show thesis
  proof (cases fs)
    case Nil
    with assms(2) have "length (fst (br_stream (ua_gw u))) < 2" by simp
    then obtain e where "br_ReadFull 2 (ua_gw u) = Inl e" using buffered.read_short [OF assms(1)] by blast
    with none True show thesis by (simp add: gw_turn_def readUDPGWFrame_def closeAll_def)
  next
    case (Cons f fs')
    have "fst (br_stream (ua_gw u)) = le_put16 (word_of_nat (length f)) @ f @ concat (map gw_frame fs')"
      using assms(2) Cons by (simp add: gw_frame_def)
    then obtain r' where r: "readUDPGWFrame (ua_gw u) = Inr (f, r')" "br_stream r' = (concat (map gw_frame fs'), snd (br_stream (ua_gw u)))" "br_ok r'"
      by (rule read_frame [OF assms(1), rotated 2]) (use assms(3) Cons in simp_all)
    show thesis
      by (rule turn [OF Cons]) (use r True assms(3) Cons in \<open>auto simp: gw_turn_def Let_def split: option.split\<close>)
  qed
qed

lemma udp_turn_other:
  "ua_gw (udp_turn i w u) = ua_gw u" "ua_sent (udp_turn i w u) = ua_sent u"
  "ua_gw (control_turn b u) = ua_gw u" "ua_sent (control_turn b u) = ua_sent u"
  by (auto simp: udp_turn_def control_turn_def closeAll_def Let_def split: sum.split option.split)

lemma client_known:
  "ua_client (assoc_step a u) = Some to \<Longrightarrow> ua_client u = Some to \<or> to \<in> senders_of [a]"
  by (cases a) (auto simp: gw_turn_def control_turn_def udp_turn_def closeAll_def Let_def split: sum.splits option.splits if_splits)

lemma senders_Cons: "senders_of (a # acts) = senders_of [a] \<union> senders_of acts"
proof (cases a)
  case (UdpTurn i w)
  then show ?thesis by (cases i) auto
qed auto

lemma run_sent:
  assumes "br_ok (ua_gw u)" and "fst (br_stream (ua_gw u)) = concat (map gw_frame fs)"
    and "\<forall>f \<in> set fs. 9 \<le> length f \<and> length f < 65536"
  shows "\<exists>ss. ua_sent (assoc_run acts u) = ua_sent u @ ss \<and> subseq (map snd ss) (map gw_packet fs)
    \<and> (\<forall>(to, p) \<in> set ss. to \<in> senders_of acts \<or> ua_client u = Some to)"
  using assms
proof (induction acts arbitrary: u fs)
  case Nil
  show ?case by (rule exI [of _ "[]"]) (simp add: assoc_run_def)
next
  case (Cons a acts)
  let ?u = "assoc_step a u"
  obtain s0 fs0 fs1 where fs: "fs = fs0 @ fs1" and gw: "br_ok (ua_gw ?u)" "fst (br_stream (ua_gw ?u)) = concat (map gw_frame fs1)"
    and s0: "ua_sent ?u = ua_sent u @ s0" "subseq (map snd s0) (map gw_packet fs0)" "\<forall>(to, p) \<in> set s0. ua_client u = Some to"
  proof (cases a)
    case GwTurn
    show thesis
    proof (cases rule: gw_turn_sent [OF Cons.prems])
      case 1
      with Cons.prems GwTurn that [of "[]" fs "[]"] show thesis by simp
    next
      case (2 f fs')
      show thesis
      proof (cases "\<exists>to. ua_client u = Some to \<and> \<not> ua_done u")
        case True
        then obtain to where "ua_client u = Some to" "\<not> ua_done u" by blast
        with 2 show thesis by (intro that [of "[f]" fs' "[(to, gw_packet f)]"]) (simp_all add: GwTurn)
      next
        case False
        then have "ua_sent (gw_turn u) = ua_sent u" using 2(4) by (simp split: option.splits)
        with 2 show thesis by (intro that [of "[f]" fs' "[]"]) (simp_all add: GwTurn)
      qed
    qed
  qed (use Cons.prems that [of "[]" fs "[]"] in \<open>simp_all add: udp_turn_other\<close>)
  have "\<forall>f \<in> set fs1. 9 \<le> length f \<and> length f < 65536" using Cons.prems(3) fs by simp
  from Cons.IH [OF gw this] obtain ss where ss: "ua_sent (assoc_run acts ?u) = ua_sent ?u @ ss"
    "subseq (map snd ss) (map gw_packet fs1)" "\<forall>(to, p) \<in> set ss. to \<in> senders_of acts \<or> ua_client ?u = Some to" by blast
  show ?case unfolding assoc_run_Cons
  proof (intro exI [of _ "s0 @ ss"] conjI)
    show "ua_sent (assoc_run acts ?u) = ua_sent u @ s0 @ ss" using ss(1) s0(1) by simp
    show "subseq (map snd (s0 @ ss)) (map gw_packet fs)" using s0(2) ss(2) fs by (simp add: list_emb_append_mono)
    show "\<forall>(to, p) \<in> set (s0 @ ss). to \<in> senders_of (a # acts) \<or> ua_client u = Some to"
      using s0(3) ss(3) client_known [of a u] by (fastforce simp: senders_Cons [of a acts])
  qed
qed

lemma gw_packet_valid:
  assumes "9 \<le> length f"
  shows "parseSOCKSUDPDatagram (gw_packet f) = Inr (bslice 3 7 f, uint (get16 (bslice 7 9 f)), drop 9 f)"
proof -
  have "gw_packet f = [0, 0, 0, 1] @ bslice 3 7 f @ put16 (get16 (bslice 7 9 f)) @ drop 9 f"
    by (simp add: gw_packet_def socks_consts Let_def)
  then show ?thesis using assms by (simp only: parse_written length_bslice)
qed

text \<open>C12: The UDP relay adds, drops and reorders nothing of its own. Under every interleaving of its
  three loops, the gateway receives the frames of the valid IPv4 datagrams in the order they arrived,
  all of them while the association is open and a prefix once it has closed; the packets sent to
  clients are made of the gateway's frames in their order, each a valid SOCKS datagram with the
  frame's address, port and data, and each goes to an address a datagram came from.\<close>

theorem udp_relay_faithful:
  assumes "associate listenUDP (Inr gw) control = (Inr u, control')"
    and "sk_bytes gw = concat (map gw_frame fs)" and "\<forall>f \<in> set fs. 9 \<le> length f \<and> length f < 65536"
  shows "(\<exists>n. ua_out (assoc_run acts u) = take n (concat (frames_of acts)))
    \<and> (\<not> ua_done (assoc_run acts u) \<longrightarrow> ua_out (assoc_run acts u) = concat (frames_of acts))
    \<and> subseq (map snd (ua_sent (assoc_run acts u))) (map gw_packet fs)
    \<and> (\<forall>f \<in> set fs. parseSOCKSUDPDatagram (gw_packet f) = Inr (bslice 3 7 f, uint (get16 (bslice 7 9 f)), drop 9 f))
    \<and> fst ` set (ua_sent (assoc_run acts u)) \<subseteq> senders_of acts"
proof -
  have u: "u = \<lparr>ua_client = None, ua_gw = NewReaderSize gw (32 * 1024), ua_out = [],
                ua_sent = [], ua_done = False, ua_gwloop = True, ua_end = None\<rparr>"
    using assms(1) by (auto simp: associate_def split: sum.splits prod.splits option.splits)
  have o: "\<not> ua_done u" "ua_end u = None" "ua_out u = []" by (simp_all add: u)
  from run_out [OF o(1,2), of acts] obtain n where n: "ua_out (assoc_run acts u) = take n (concat (frames_of acts))"
    "\<not> ua_done (assoc_run acts u) \<longrightarrow> ua_out (assoc_run acts u) = concat (frames_of acts)" unfolding o(3) append_Nil by blast
  have g: "br_ok (ua_gw u)" "fst (br_stream (ua_gw u)) = concat (map gw_frame fs)" using assms(2) by (simp_all add: u)
  have c: "ua_sent u = []" "ua_client u = None" by (simp_all add: u)
  from run_sent [OF g assms(3), of acts] obtain ss where s: "ua_sent (assoc_run acts u) = ss"
    "subseq (map snd ss) (map gw_packet fs)" "\<forall>(to, p) \<in> set ss. to \<in> senders_of acts" unfolding c by auto
  have "fst ` set ss \<subseteq> senders_of acts" using s(3) by auto
  with n s(1,2) gw_packet_valid assms(3) show ?thesis by blast
qed

theorem udp_relay_faithful_witness:
  "\<exists>u c. associate (Inr OtherAddr) (Inr \<lparr>sk_segs = [gw_frame (replicate 12 1)], sk_err = EOF\<rparr>) open_conn = (Inr u, c)
    \<and> subseq (map snd (ua_sent (assoc_run [UdpTurn (Inr (7 :: nat, [0])) None, GwTurn] u))) [gw_packet (replicate 12 1)]"
proof -
  let ?gw = "\<lparr>sk_segs = [gw_frame (replicate 12 1)], sk_err = EOF\<rparr>"
  obtain out where o: "socksReply open_conn 0 OtherAddr = (None, open_conn\<lparr>c_out := c_out open_conn @ out, c_calls := Suc (c_calls open_conn)\<rparr>)"
    using socksReply_accepting [of open_conn 0 OtherAddr] by auto
  define u :: "nat assoc" where "u = \<lparr>ua_client = None, ua_gw = NewReaderSize ?gw (32 * 1024), ua_out = [],
                ua_sent = [], ua_done = False, ua_gwloop = True, ua_end = None\<rparr>"
  have a: "associate (Inr OtherAddr) (Inr ?gw) open_conn
      = (Inr u, open_conn\<lparr>c_out := c_out open_conn @ out, c_calls := Suc (c_calls open_conn)\<rparr>)"
    by (simp add: associate_def o u_def)
  have g: "sk_bytes ?gw = concat (map gw_frame [replicate 12 1])" by (simp add: sk_bytes_def)
  from udp_relay_faithful [OF a g, of "[UdpTurn (Inr (7, [0])) None, GwTurn]"] a show ?thesis by auto
qed

end
