(* ===== verification/Relay.thy ===== *)
theory Relay
  imports Bufio NetAddr XorFrame
begin

text \<open>
  \<^verbatim>\<open>protocol.go\<close> around the frames: the payload template that may precede a connection,
  \<^verbatim>\<open>DialTCP\<close> with its answer read through a buffered reader, and the relays between a
  local socket and a remote connection.
\<close>

section \<open>Lines of a buffered reader\<close>

text \<open>\<^verbatim>\<open>ReadString('\n')\<close>; the text read before an error is not used by the callers.\<close>

function br_line :: "bytes \<Rightarrow> bufr \<Rightarrow> goerr + bytes \<times> bufr" where
  "br_line acc b =
     (if 10 \<in> set (br_buf b) then
        let n = Suc (length (takeWhile (\<lambda>x. x \<noteq> 10) (br_buf b)))
        in Inr (acc @ take n (br_buf b), b\<lparr>br_buf := drop n (br_buf b)\<rparr>)
      else if br_size b = 0 then Inl EOF
      else if br_size b \<le> length (br_buf b) then br_line (acc @ br_buf b) (b\<lparr>br_buf := []\<rparr>)
      else case sock_read (br_size b - length (br_buf b)) (br_sock b) of
        (d, Some e, s) \<Rightarrow> Inl e
      | (d, None, s) \<Rightarrow> br_line acc (b\<lparr>br_buf := br_buf b @ d, br_sock := s\<rparr>))"
  by pat_completeness auto
termination
proof (relation "measures [\<lambda>(acc, b). length (sk_bytes (br_sock b)), \<lambda>(acc, b). length (br_buf b)]", goal_cases)
  case (3 acc b d y e s)
  then have "sock_read (br_size b - length (br_buf b)) (br_sock b) = (d, None, s)" by simp
  then have "sk_bytes (br_sock b) = d @ sk_bytes s \<and> d \<noteq> []"
    by (rule_tac k = "br_size b - length (br_buf b)" and s = "br_sock b" in sock_read_cases) (use 3 in auto)
  then show ?case by simp
qed auto

declare br_line.simps [simp del]

lemma br_line_written:
  assumes "br_ok b" and "fst (br_stream b) = l @ 10 # t" and "10 \<notin> set l"
  shows "\<exists>b'. br_line acc b = Inr (acc @ l @ [10], b') \<and> br_stream b' = (t, snd (br_stream b)) \<and> br_ok b'"
  using assms
proof (induction acc b arbitrary: l rule: br_line.induct)
  case (1 acc b)
  let ?s = "br_sock b"
  have e: "l @ 10 # t = br_buf b @ sk_bytes ?s" using "1.prems"(2) by (simp add: br_stream_def)
  have z: "br_size b \<noteq> 0" using "1.prems"(1) by (simp add: br_ok_def)
  show ?case
  proof (cases "10 \<in> set (br_buf b)")
    case True
    then obtain y z' where y: "br_buf b = y @ 10 # z'" "10 \<notin> set y" by (metis split_list_first)
    then have "l = y \<and> t = z' @ sk_bytes ?s" using e "1.prems"(3)
      by (auto simp: append_eq_append_conv2 Cons_eq_append_conv append_eq_Cons_conv)
    moreover have "takeWhile (\<lambda>x. x \<noteq> 10) (y @ 10 # z') = y" using y(2) by (subst takeWhile_append2) auto
    ultimately show ?thesis using True y "1.prems"(1)
      by (simp add: br_line.simps [of acc b] br_stream_def br_ok_def)
  next
    case buf: False
    then have "\<And>y w. y @ 10 # w \<noteq> br_buf b" by (metis in_set_conv_decomp)
    then obtain m where m: "l = br_buf b @ m" "sk_bytes ?s = m @ 10 # t"
      using e by (auto simp: append_eq_append_conv2 Cons_eq_append_conv append_eq_Cons_conv)
    show ?thesis
    proof (cases "br_size b \<le> length (br_buf b)")
      case True
      let ?b = "b\<lparr>br_buf := []\<rparr>"
      have p: "br_ok ?b" "fst (br_stream ?b) = m @ 10 # t" "10 \<notin> set m"
        using "1.prems"(1,3) m by (simp_all add: br_ok_def br_stream_def)
      have "br_line acc b = br_line (acc @ br_buf b) ?b" using buf True z by (simp add: br_line.simps [of acc b])
      with "1.IH"(1) [OF buf z True p] m(1) show ?thesis by (simp add: br_stream_def)
    next
      case False
      show ?thesis
      proof (cases "br_size b - length (br_buf b)" ?s rule: sock_read_cases)
        case ended
        with m(2) show ?thesis by simp
      next
        case (data d s')
        let ?b = "b\<lparr>br_buf := br_buf b @ d, br_sock := s'\<rparr>"
        have p: "br_ok ?b" "fst (br_stream ?b) = l @ 10 # t"
          using "1.prems"(1,2) data(2) by (simp_all add: br_ok_def br_stream_def)
        have q: "br_line acc b = br_line acc ?b" using buf False z data(1) by (simp add: br_line.simps [of acc b])
        from "1.IH"(2) [OF buf z False data(1) [symmetric] refl refl p "1.prems"(3)] q data(3)
        show ?thesis by (simp add: br_stream_def)
      qed
    qed
  qed
qed

lemma br_line_accepted:
  "br_line acc b = Inr (x, b') \<Longrightarrow> \<exists>l. x = acc @ l @ [10] \<and> 10 \<notin> set l \<and> br_stream b = (l @ 10 # fst (br_stream b'), snd (br_stream b'))"
proof (induction acc b rule: br_line.induct)
  case (1 acc b)
  let ?s = "br_sock b"
  show ?case
  proof (cases "10 \<in> set (br_buf b)")
    case True
    then obtain y z' where y: "br_buf b = y @ 10 # z'" "10 \<notin> set y" by (metis split_list_first)
    moreover have "takeWhile (\<lambda>x. x \<noteq> 10) (y @ 10 # z') = y" using y(2) by (subst takeWhile_append2) auto
    ultimately show ?thesis using True "1.prems"
      by (auto simp: br_line.simps [of acc b] br_stream_def)
  next
    case buf: False
    have z: "br_size b \<noteq> 0"
    proof
      assume "br_size b = 0"
      with "1.prems" buf show False by (simp add: br_line.simps [of acc b])
    qed
    show ?thesis
    proof (cases "br_size b \<le> length (br_buf b)")
      case True
      let ?b = "b\<lparr>br_buf := []\<rparr>"
      have "br_line acc b = br_line (acc @ br_buf b) ?b" using buf True z by (simp add: br_line.simps [of acc b])
      with "1.IH"(1) [OF buf z True] "1.prems" obtain l where
        "x = (acc @ br_buf b) @ l @ [10]" "10 \<notin> set l" "br_stream ?b = (l @ 10 # fst (br_stream b'), snd (br_stream b'))" by auto
      with buf show ?thesis by (intro exI [of _ "br_buf b @ l"]) (auto simp: br_stream_def)
    next
      case False
      show ?thesis
      proof (cases "br_size b - length (br_buf b)" ?s rule: sock_read_cases)
        case ended
        with buf False z "1.prems" show ?thesis by (simp add: br_line.simps [of acc b])
      next
        case (data d s')
        let ?b = "b\<lparr>br_buf := br_buf b @ d, br_sock := s'\<rparr>"
        have "br_line acc b = br_line acc ?b" using buf False z data(1) by (simp add: br_line.simps [of acc b])
        with "1.IH"(2) [OF buf z False data(1) [symmetric] refl refl] "1.prems" data(2,3)
        show ?thesis by (simp add: br_stream_def)
      qed
    qed
  qed
qed

section \<open>The payload template\<close>

text \<open>\<^verbatim>\<open>strings.NewReplacer\<close>: at each position the first pair that matches, in argument order.\<close>

fun Replace :: "(string \<times> string) list \<Rightarrow> string \<Rightarrow> string" where
  "Replace ps [] = []"
| "Replace ps (c # s) = (case find (\<lambda>(old, new). HasPrefix (c # s) old) ps of
     Some (old, new) \<Rightarrow> new @ Replace ps (drop (length old - 1) s)
   | None \<Rightarrow> c # Replace ps s)"

definition userAgent :: string where
  "userAgent = ''Mozilla/5.0 (Linux; Android 10; Mobile) AppleWebKit/537.36 (KHTML, like Gecko) Chrome/120.0.0.0 Mobile Safari/537.36''"

definition placeholders :: "string \<Rightarrow> string \<Rightarrow> (string \<times> string) list" where
  "placeholders host port =
     (let hostPort = JoinHostPort host port in
      [(''[crlf]'', crlf), (''[CRLF]'', crlf), (''[lf]'', [CHR 0x0A]), (''[LF]'', [CHR 0x0A]),
       (''[cr]'', [CHR 0x0D]), (''[CR]'', [CHR 0x0D]),
       (''[host_port]'', hostPort), (''[HOST_PORT]'', hostPort), (''[host]'', host), (''[HOST]'', host),
       (''[port]'', port), (''[PORT]'', port), (''[protocol]'', ''HTTP/1.1''), (''[PROTOCOL]'', ''HTTP/1.1''),
       (''[ua]'', userAgent), (''[UA]'', userAgent)])"

definition FormatPayload :: "string \<Rightarrow> string \<Rightarrow> string \<Rightarrow> string" where
  "FormatPayload template host port =
     (if TrimSpace template = [] then []
      else
        let res = Replace (placeholders host port) template;
            trimmed = TrimSpace res
        in if HasPrefix trimmed ''GET'' \<or> HasPrefix trimmed ''POST'' \<or> HasPrefix trimmed ''CONNECT''
              \<or> HasPrefix trimmed ''HEAD'' \<or> HasPrefix trimmed ''PUT'' then
             if \<not> HasSuffix res (crlf @ crlf) then
               if HasSuffix res crlf then res @ crlf else res @ crlf @ crlf
             else res
           else res)"

section \<open>Dialing\<close>

text \<open>
  A connection as \<^verbatim>\<open>DialTCP\<close> returns it: the socket itself, or a
  \<^verbatim>\<open>BufferedConn\<close> whose \<^verbatim>\<open>Read\<close> goes through the buffered reader
  that read the payload's answer. The call ends without a connection, with the connection closed
  again, or with an open one; the outgoing side is the \<open>conn\<close>.
\<close>

datatype tcp_conn = PlainConn sock | BufferedConn bufr

datatype dial_end = DialFailed goerr | DialClosed goerr conn | DialOpen tcp_conn conn

fun conn_stream :: "tcp_conn \<Rightarrow> stream" where
  "conn_stream (PlainConn s) = (sk_bytes s, sk_err s)"
| "conn_stream (BufferedConn b) = br_stream b"

definition blank_line :: "string \<Rightarrow> bool" where
  "blank_line line \<longleftrightarrow> line = crlf \<or> line = [CHR 0x0A] \<or> TrimRightSet {CHR 0x0D, CHR 0x0A} line = []"

function skip_headers :: "bufr \<Rightarrow> goerr + bufr" where
  "skip_headers b = (case br_line [] b of
     Inl e \<Rightarrow> Inl e
   | Inr (line, b') \<Rightarrow> if blank_line (string_of line) then Inr b' else skip_headers b')"
  by pat_completeness auto
termination
proof (relation "measure (\<lambda>b. length (fst (br_stream b)))", goal_cases)
  case (2 b y line b')
  then have "br_line [] b = Inr (line, b')" by simp
  from br_line_accepted [OF this] show ?case by auto
qed simp

declare skip_headers.simps [simp del]

text \<open>
  \<^verbatim>\<open>n, _ := strconv.Atoi(s)\<close>: on a range error \<^verbatim>\<open>n\<close> is the nearest
  value of the type, on a syntax error 0.
\<close>

definition Atoi_value :: "string \<Rightarrow> int" where
  "Atoi_value s = (case Atoi s of Inr n \<Rightarrow> n
     | Inl e \<Rightarrow> if e = range_error ''Atoi''
         then (if hd s = CHR ''-'' then - 9223372036854775808 else 9223372036854775807) else 0)"

definition status_code :: "string \<Rightarrow> int" where
  "status_code trimmedStatus =
     (let parts = SplitN trimmedStatus '' '' 3 in if length parts \<ge> 2 then Atoi_value (parts ! 1) else 0)"

definition DialTCP :: "string \<Rightarrow> string \<Rightarrow> goerr + sock \<times> conn \<Rightarrow> dial_end" where
  "DialTCP payload addr dialled =
     (case dialled of Inl e \<Rightarrow> DialFailed e
      | Inr (s, w) \<Rightarrow>
        if TrimSpace payload = [] then DialOpen (PlainConn s) w
        else
          let (host, port) = (case SplitHostPort addr of Inl _ \<Rightarrow> (addr, ''80'') | Inr hp \<Rightarrow> hp);
              formatted = FormatPayload payload host port
          in if formatted = [] then DialOpen (PlainConn s) w
          else (case conn_write w (bytes_of formatted) of
              (_, Some e, w) \<Rightarrow> DialClosed (Wrap ''payload write failed'' e) w
            | (_, None, w) \<Rightarrow>
              (case br_line [] (NewReaderSize s 4096) of
                 Inl e \<Rightarrow> DialClosed (Wrap ''payload read response failed'' e) w
               | Inr (statusLine, br) \<Rightarrow>
                 (case skip_headers br of
                    Inl e \<Rightarrow> DialClosed (Wrap ''payload header read failed'' e) w
                  | Inr br \<Rightarrow>
                    let trimmedStatus = TrimSpace (string_of statusLine) in
                    if status_code trimmedStatus \<ge> 400
                    then DialClosed (Msg (''payload rejected: '' @ trimmedStatus)) w
                    else DialOpen (BufferedConn br) w))))"

lemma skip_headers_written:
  assumes "br_ok b" and "fst (br_stream b) = concat (map (\<lambda>l. l @ [10]) hs) @ bl @ 10 # t"
    and "\<forall>l \<in> set hs. 10 \<notin> set l \<and> \<not> blank_line (string_of (l @ [10]))"
    and "10 \<notin> set bl" and "blank_line (string_of (bl @ [10]))"
  obtains b' where "skip_headers b = Inr b'" "br_stream b' = (t, snd (br_stream b))"
  using assms(1-3)
proof (induction hs arbitrary: b thesis)
  case Nil
  then have "fst (br_stream b) = bl @ 10 # t" by simp
  from br_line_written [OF Nil(2) this assms(4), of "[]"] obtain b' where
    "br_line [] b = Inr (bl @ [10], b')" "br_stream b' = (t, snd (br_stream b))" by auto
  with Nil(1) [of b'] assms(5) show ?case by (simp add: skip_headers.simps [of b])
next
  case (Cons l hs)
  then have "fst (br_stream b) = l @ 10 # (concat (map (\<lambda>l. l @ [10]) hs) @ bl @ 10 # t)" "10 \<notin> set l" by simp_all
  from br_line_written [OF Cons.prems(2) this, of "[]"] obtain b1 where
    b1: "br_line [] b = Inr (l @ [10], b1)" "br_stream b1 = (concat (map (\<lambda>l. l @ [10]) hs) @ bl @ 10 # t, snd (br_stream b))" "br_ok b1" by auto
  obtain b' where "skip_headers b1 = Inr b'" "br_stream b' = (t, snd (br_stream b1))"
    by (rule Cons.IH [of b1]) (use b1 Cons.prems(4) in simp_all)
  with Cons.prems(1) [of b'] Cons.prems(4) b1 show ?case by (simp add: skip_headers.simps [of b])
qed

text \<open>C40: A payload costs the tunnel nothing of its stream. With a payload template the formatted text
  is sent first; the status line and the header lines of the answer are consumed, however they arrive,
  and what the connection then delivers is exactly what follows the blank line; a status of 400 or more
  closes the connection. Without a template nothing is sent or consumed.\<close>

theorem payload_then_stream:
  assumes "accepting w" and "10 \<notin> set status" and "length (bytes_of (FormatPayload payload host port)) \<le> 2097400"
    and "sk_bytes s = status @ [10] @ concat (map (\<lambda>l. l @ [10]) hs) @ bl @ [10] @ t"
    and "\<forall>l \<in> set hs. 10 \<notin> set l \<and> \<not> blank_line (string_of (l @ [10]))"
    and "10 \<notin> set bl" and "blank_line (string_of (bl @ [10]))" and "SplitHostPort addr = Inr (host, port)"
  shows "if TrimSpace payload = [] \<or> FormatPayload payload host port = []
    then DialTCP payload addr (Inr (s, w)) = DialOpen (PlainConn s) w
    else \<exists>w'. c_out w' = c_out w @ bytes_of (FormatPayload payload host port)
      \<and> (if status_code (TrimSpace (string_of (status @ [10]))) \<ge> 400
         then \<exists>e. DialTCP payload addr (Inr (s, w)) = DialClosed e w'
         else \<exists>c. DialTCP payload addr (Inr (s, w)) = DialOpen c w' \<and> conn_stream c = (t, sk_err s))"
proof (cases "TrimSpace payload = [] \<or> FormatPayload payload host port = []")
  case True
  then show ?thesis using assms(8) by (auto simp: DialTCP_def)
next
  case False
  let ?f = "bytes_of (FormatPayload payload host port)" and ?r = "NewReaderSize s 4096"
  let ?w = "w\<lparr>c_out := c_out w @ ?f, c_calls := Suc (c_calls w)\<rparr>"
  have "fst (br_stream ?r) = status @ 10 # (concat (map (\<lambda>l. l @ [10]) hs) @ bl @ 10 # t)"
    using assms(4) by (simp add: br_stream_def NewReaderSize_def)
  moreover have ok: "br_ok ?r" by (simp add: br_ok_def NewReaderSize_def)
  ultimately obtain b1 where b1: "br_line [] ?r = Inr (status @ [10], b1)" "br_ok b1"
    "br_stream b1 = (concat (map (\<lambda>l. l @ [10]) hs) @ bl @ 10 # t, snd (br_stream ?r))"
    using br_line_written [OF ok _ assms(2), of _ "[]"] by auto
  obtain b2 where b2: "skip_headers b1 = Inr b2" "br_stream b2 = (t, snd (br_stream b1))"
    by (rule skip_headers_written [OF b1(2) _ assms(5,6,7), of t]) (use b1(3) in simp_all)
  have e: "snd (br_stream b1) = sk_err s" using b1(3) by (simp add: br_stream_def NewReaderSize_def)
  let ?e = "Msg (''payload rejected: '' @ TrimSpace (string_of (status @ [10])))"
  have d: "DialTCP payload addr (Inr (s, w)) = (if status_code (TrimSpace (string_of (status @ [10]))) \<ge> 400
      then DialClosed ?e ?w else DialOpen (BufferedConn b2) ?w)"
    using False assms(8) b1(1) b2(1) conn_write_accepting [OF assms(1,3)] by (simp add: DialTCP_def Let_def)
  have c: "conn_stream (BufferedConn b2) = (t, sk_err s)" using b2(2) e by simp
  have o: "c_out ?w = c_out w @ ?f" by simp
  show ?thesis
  proof (cases "status_code (TrimSpace (string_of (status @ [10]))) \<ge> 400")
    case True
    with d False o show ?thesis by auto
  next
    case n: False
    with d have "DialTCP payload addr (Inr (s, w)) = DialOpen (BufferedConn b2) ?w" by simp
    with False n o c show ?thesis by metis
  qed
qed

theorem payload_then_stream_witness:
  "\<exists>c w'. DialTCP ''X'' ''h:1'' (Inr (\<lparr>sk_segs = [bytes_of ''OK'' @ [10, 13, 10], [7]], sk_err = EOF\<rparr>, open_conn)) = DialOpen c w'
    \<and> conn_stream c = ([7], EOF)"
proof -
  let ?s = "\<lparr>sk_segs = [bytes_of ''OK'' @ [10, 13, 10], [7]], sk_err = EOF\<rparr>"
  have f: "FormatPayload ''X'' ''h'' ''1'' = ''X''" by code_simp
  have t: "TrimSpace ''X'' \<noteq> []" by (simp add: TrimSpace_plain plain_def)
  have n: "10 \<notin> set (bytes_of ''OK'')" by code_simp
  have b: "sk_bytes ?s = bytes_of ''OK'' @ [10] @ concat (map (\<lambda>l. l @ [10]) []) @ [13] @ [10] @ [7]"
    by (simp add: sk_bytes_def)
  have bl: "blank_line (string_of ([13] @ [10]))" by code_simp
  have "string_of (bytes_of ''OK'' @ [10]) = ''OK'' @ [CHR 0x0A]" by code_simp
  moreover have "TrimSpace (''OK'' @ [CHR 0x0A]) = ''OK''" by (rule TrimSpace_line) (simp add: plain_def)
  moreover have "status_code ''OK'' = 0" by code_simp
  ultimately have c: "\<not> 400 \<le> status_code (TrimSpace (string_of (bytes_of ''OK'' @ [10])))" by simp
  have h: "SplitHostPort ''h:1'' = Inr (''h'', ''1'')" by code_simp
  have l: "length (bytes_of (FormatPayload ''X'' ''h'' ''1'')) \<le> 2097400" unfolding f by simp
  have p: "\<not> (TrimSpace ''X'' = [] \<or> FormatPayload ''X'' ''h'' ''1'' = [])" unfolding f using t by blast
  have e: "10 \<notin> set [13 :: byte]" by simp
  have v: "\<forall>l \<in> set []. 10 \<notin> set l \<and> \<not> blank_line (string_of (l @ [10]))" by simp
  note payload_then_stream [OF accepting_open_conn n l b v e bl h, unfolded if_not_P [OF p] if_not_P [OF c]]
  then show ?thesis unfolding sock.simps by blast
qed

section \<open>Relays\<close>

text \<open>
  \<^verbatim>\<open>CopyXOR\<close>: a buffer at a time until the source ends; the end of the file is
  success. The writer's loop may not return, so the result is an option.
\<close>

function CopyXOR :: "conn \<Rightarrow> sock \<Rightarrow> (goerr option \<times> conn \<times> sock) option" where
  "CopyXOR dst src =
     (case sock_read (64 * 1024) src of (buf, err, src') \<Rightarrow>
        (case (if buf \<noteq> [] then xWriteAll dst (XorInPlace buf) else Some (None, dst)) of
           None \<Rightarrow> None
         | Some (Some e, dst') \<Rightarrow> Some (Some e, dst', src')
         | Some (None, dst') \<Rightarrow>
             (case err of
                Some e \<Rightarrow> Some (if e = EOF then None else Some e, dst', src')
              | None \<Rightarrow> CopyXOR dst' src')))"
  by pat_completeness auto
termination
proof (relation "measure (\<lambda>(dst, src). length (sk_bytes src))", goal_cases)
  case (2 dst src buf y err src')
  then have "sock_read (64 * 1024) src = (buf, None, src')" by simp
  then have "sk_bytes src = buf @ sk_bytes src' \<and> buf \<noteq> []"
    by (rule_tac k = "64 * 1024" and s = src in sock_read_cases) auto
  then show ?case by simp
qed simp

declare CopyXOR.simps [simp del]

text \<open>\<^verbatim>\<open>io.Copy\<close>, buffer by buffer; a short write without an error is reported.\<close>

function CopyRaw :: "conn \<Rightarrow> sock \<Rightarrow> (goerr option \<times> conn \<times> sock) option" where
  "CopyRaw dst src =
     (case sock_read (32 * 1024) src of (buf, err, src') \<Rightarrow>
        (case (if buf \<noteq> [] then conn_write dst buf else (0, None, dst)) of
           (_, Some e, dst') \<Rightarrow> Some (Some e, dst', src')
         | (n, None, dst') \<Rightarrow>
             if n \<noteq> length buf then Some (Some ShortWrite, dst', src')
             else (case err of
                Some e \<Rightarrow> Some (if e = EOF then None else Some e, dst', src')
              | None \<Rightarrow> CopyRaw dst' src')))"
  by pat_completeness auto
termination
proof (relation "measure (\<lambda>(dst, src). length (sk_bytes src))", goal_cases)
  case (2 dst src buf y err src')
  then have "sock_read (32 * 1024) src = (buf, None, src')" by simp
  then have "sk_bytes src = buf @ sk_bytes src' \<and> buf \<noteq> []"
    by (rule_tac k = "32 * 1024" and s = src in sock_read_cases) auto
  then show ?case by simp
qed simp

declare CopyRaw.simps [simp del]

text \<open>
  \<^verbatim>\<open>relayPair\<close>: the two directions touch different halves of the two connections,
  so their goroutines do not interfere; each shuts the half it wrote when its copy is over, and the
  call returns when both are.
\<close>

record endpoint =
  ep_in :: sock
  ep_out :: conn
  ep_shut :: bool

definition relayPair ::
  "(conn \<Rightarrow> sock \<Rightarrow> (goerr option \<times> conn \<times> sock) option) \<Rightarrow> endpoint \<Rightarrow> endpoint \<Rightarrow> (endpoint \<times> endpoint) option" where
  "relayPair copier a b =
     (case copier (ep_out b) (ep_in a) of
        None \<Rightarrow> None
      | Some (_, b_out, a_in) \<Rightarrow>
        (case copier (ep_out a) (ep_in b) of
           None \<Rightarrow> None
         | Some (_, a_out, b_in) \<Rightarrow>
             Some (\<lparr>ep_in = a_in, ep_out = a_out, ep_shut = True\<rparr>, \<lparr>ep_in = b_in, ep_out = b_out, ep_shut = True\<rparr>)))"

definition RelayXOR :: "endpoint \<Rightarrow> endpoint \<Rightarrow> (endpoint \<times> endpoint) option" where
  "RelayXOR a b = relayPair CopyXOR a b"

definition RelayRaw :: "endpoint \<Rightarrow> endpoint \<Rightarrow> (endpoint \<times> endpoint) option" where
  "RelayRaw a b = relayPair CopyRaw a b"

text \<open>The interface of a copier: it hands on the whole source, transformed, to a writer that takes it.\<close>

locale copier =
  fixes copy :: "conn \<Rightarrow> sock \<Rightarrow> (goerr option \<times> conn \<times> sock) option"
    and trans :: "bytes \<Rightarrow> bytes"
  assumes copies: "accepting dst \<Longrightarrow> \<exists>dst' src'. copy dst src = Some (if sk_err src = EOF then None else Some (sk_err src), dst', src')
      \<and> c_out dst' = c_out dst @ trans (sk_bytes src) \<and> sk_bytes src' = []"
begin

lemma relay:
  assumes "accepting (ep_out a)" and "accepting (ep_out b)"
  shows "\<exists>a' b'. relayPair copy a b = Some (a', b')
    \<and> c_out (ep_out b') = c_out (ep_out b) @ trans (sk_bytes (ep_in a))
    \<and> c_out (ep_out a') = c_out (ep_out a) @ trans (sk_bytes (ep_in b))
    \<and> ep_shut a' \<and> ep_shut b' \<and> sk_bytes (ep_in a') = [] \<and> sk_bytes (ep_in b') = []"
proof -
  obtain bo ai where 1: "copy (ep_out b) (ep_in a) = Some (if sk_err (ep_in a) = EOF then None else Some (sk_err (ep_in a)), bo, ai)"
    "c_out bo = c_out (ep_out b) @ trans (sk_bytes (ep_in a))" "sk_bytes ai = []" using copies [OF assms(2)] by blast
  obtain ao bi where 2: "copy (ep_out a) (ep_in b) = Some (if sk_err (ep_in b) = EOF then None else Some (sk_err (ep_in b)), ao, bi)"
    "c_out ao = c_out (ep_out a) @ trans (sk_bytes (ep_in b))" "sk_bytes bi = []" using copies [OF assms(1)] by blast
  have "relayPair copy a b = Some (\<lparr>ep_in = ai, ep_out = ao, ep_shut = True\<rparr>, \<lparr>ep_in = bi, ep_out = bo, ep_shut = True\<rparr>)"
    by (simp add: relayPair_def 1(1) 2(1))
  with 1 2 show ?thesis by simp
qed

end

lemma accepting_after: "accepting c \<Longrightarrow> length b \<le> 2097400 \<Longrightarrow> b \<noteq> [] \<Longrightarrow>
  xWriteAll c b = Some (None, c\<lparr>c_out := c_out c @ b, c_calls := Suc (c_calls c)\<rparr>)"
  by (auto simp: xWriteAll.simps [of c b] conn_write_accepting)

interpretation copy_xor: copier CopyXOR XorInPlace
proof
  fix dst :: conn and src :: sock
  show "accepting dst \<Longrightarrow> \<exists>dst' src'. CopyXOR dst src = Some (if sk_err src = EOF then None else Some (sk_err src), dst', src')
      \<and> c_out dst' = c_out dst @ XorInPlace (sk_bytes src) \<and> sk_bytes src' = []"
  proof (induction dst src rule: CopyXOR.induct)
    case (1 dst src)
    show ?case
    proof (cases "64 * 1024 :: nat" src rule: sock_read_cases)
      case ended
      then show ?thesis by (simp add: CopyXOR.simps [of dst src] XorInPlace_Nil)
    next
      case (data d s')
      then have d: "XorInPlace d \<noteq> []" "length (XorInPlace d) \<le> 2097400" by (auto simp: XorInPlace_def)
      let ?d = "dst\<lparr>c_out := c_out dst @ XorInPlace d, c_calls := Suc (c_calls dst)\<rparr>"
      have w: "Some (None, ?d) = (if d \<noteq> [] then xWriteAll dst (XorInPlace d) else Some (None, dst))"
        using accepting_after [OF "1.prems" d(2,1)] data(5) by simp
      have q: "CopyXOR dst src = CopyXOR ?d s'"
        unfolding CopyXOR.simps [of dst src] data(1) by (simp add: w [symmetric] del: if_not_P split del: if_split)
      have "accepting ?d" using "1.prems" by simp
      note "1.IH" [OF data(1) [symmetric] refl w [symmetric] refl refl refl this]
      then obtain x y where "CopyXOR ?d s' = Some (if sk_err s' = EOF then None else Some (sk_err s'), x, y)"
        "c_out x = c_out ?d @ XorInPlace (sk_bytes s')" "sk_bytes y = []" by blast
      then show ?thesis by (intro exI [of _ x] exI [of _ y]) (simp add: q data(2,3) XorInPlace_append)
    qed
  qed
qed

interpretation copy_raw: copier CopyRaw "\<lambda>b. b"
proof
  fix dst :: conn and src :: sock
  show "accepting dst \<Longrightarrow> \<exists>dst' src'. CopyRaw dst src = Some (if sk_err src = EOF then None else Some (sk_err src), dst', src')
      \<and> c_out dst' = c_out dst @ sk_bytes src \<and> sk_bytes src' = []"
  proof (induction dst src rule: CopyRaw.induct)
    case (1 dst src)
    show ?case
    proof (cases "32 * 1024 :: nat" src rule: sock_read_cases)
      case ended
      then show ?thesis by (simp add: CopyRaw.simps [of dst src])
    next
      case (data d s')
      then have d: "d \<noteq> []" "length d \<le> 2097400" by auto
      let ?d = "dst\<lparr>c_out := c_out dst @ d, c_calls := Suc (c_calls dst)\<rparr>"
      have w: "(length d, None, ?d) = (if d \<noteq> [] then conn_write dst d else (0, None, dst))"
        using d conn_write_accepting [OF "1.prems" d(2)] by simp
      have q: "CopyRaw dst src = CopyRaw ?d s'"
        unfolding CopyRaw.simps [of dst src] data(1) using d conn_write_accepting [OF "1.prems" d(2)] by simp
      have "accepting ?d" using "1.prems" by simp
      note "1.IH" [OF data(1) [symmetric] refl w refl refl _ refl this]
      then obtain x y where "CopyRaw ?d s' = Some (if sk_err s' = EOF then None else Some (sk_err s'), x, y)"
        "c_out x = c_out ?d @ sk_bytes s'" "sk_bytes y = []" by blast
      then show ?thesis by (intro exI [of _ x] exI [of _ y]) (simp add: q data(2,3))
    qed
  qed
qed

text \<open>A relay hands on everything. However the two connections deliver their bytes and whatever
  ends them, the raw relay writes to each side exactly what the other side sent and the XOR relay its
  masked image, from which the same mask gives the original back; both halves are shut at the end.\<close>

theorem relay_hands_on_everything:
  assumes "accepting (ep_out a)" and "accepting (ep_out b)"
  shows "(\<exists>a' b'. RelayRaw a b = Some (a', b') \<and> c_out (ep_out b') = c_out (ep_out b) @ sk_bytes (ep_in a)
      \<and> c_out (ep_out a') = c_out (ep_out a) @ sk_bytes (ep_in b) \<and> ep_shut a' \<and> ep_shut b')
    \<and> (\<exists>a' b' x y. RelayXOR a b = Some (a', b') \<and> c_out (ep_out b') = c_out (ep_out b) @ x
      \<and> c_out (ep_out a') = c_out (ep_out a) @ y \<and> ep_shut a' \<and> ep_shut b'
      \<and> XorInPlace x = sk_bytes (ep_in a) \<and> XorInPlace y = sk_bytes (ep_in b) \<and> x = XorInPlace (sk_bytes (ep_in a)))"
  using copy_raw.relay [OF assms] copy_xor.relay [OF assms] unfolding RelayRaw_def RelayXOR_def
  by (metis XorInPlace_twice)

theorem relay_hands_on_everything_witness:
  "\<exists>a' b'. RelayRaw \<lparr>ep_in = \<lparr>sk_segs = [[1], [2, 3]], sk_err = EOF\<rparr>, ep_out = open_conn, ep_shut = False\<rparr>
      \<lparr>ep_in = \<lparr>sk_segs = [], sk_err = EOF\<rparr>, ep_out = open_conn, ep_shut = False\<rparr> = Some (a', b')
    \<and> c_out (ep_out b') = [1, 2, 3]"
  using relay_hands_on_everything [of "\<lparr>ep_in = \<lparr>sk_segs = [[1], [2, 3]], sk_err = EOF\<rparr>, ep_out = open_conn, ep_shut = False\<rparr>"
    "\<lparr>ep_in = \<lparr>sk_segs = [], sk_err = EOF\<rparr>, ep_out = open_conn, ep_shut = False\<rparr>"]
  by (auto simp: sk_bytes_def open_conn_def accepting_def)

end
