(* ===== verification/HttpText.thy ===== *)
theory HttpText
  imports Bufio NetAddr
begin

text \<open>
  The text side of \<^verbatim>\<open>main.go\<close>'s HTTP proxy: reading a request header off a socket,
  splitting an authority into host and port, and rewriting a plain request for the origin server.
  Of \<^verbatim>\<open>url.Parse\<close> the program uses five observations of the parsed URL; the parser is
  an argument of the rewriting.
\<close>

section \<open>Reading the header\<close>

definition maxHeader :: nat where "maxHeader = 128 * 1024"

definition header_end :: bytes where "header_end = [13, 10, 13, 10]"

function header_loop :: "bytes \<Rightarrow> sock \<Rightarrow> goerr + bytes \<times> bytes \<times> sock" where
  "header_loop buf s =
     (case sock_read 8192 s of (d, err, s') \<Rightarrow>
        let buf' = buf @ d in
        if d \<noteq> [] \<and> length buf' > maxHeader then Inl (Msg ''HTTP headers too large'')
        else case (if d \<noteq> [] then Index buf' header_end else None) of
            Some i \<Rightarrow> Inr (take (i + 4) buf', drop (i + 4) buf', s')
          | None \<Rightarrow> (case err of Some e \<Rightarrow> Inl e | None \<Rightarrow> header_loop buf' s'))"
  by pat_completeness auto
termination
proof (relation "measure (\<lambda>(buf, s). length (sk_bytes s))", goal_cases)
  case (2 buf s d y err s' buf')
  then have "sock_read 8192 s = (d, None, s')" by simp
  then have "sk_bytes s = d @ sk_bytes s' \<and> d \<noteq> []"
    by (rule_tac k = 8192 and s = s in sock_read_cases) auto
  then show ?case by simp
qed simp

declare header_loop.simps [simp del]

definition readHTTPHeaders :: "sock \<Rightarrow> goerr + bytes \<times> bytes \<times> sock" where
  "readHTTPHeaders s = header_loop [] s"

lemma header_loop_accepted:
  assumes "header_loop buf s = Inr (h, x, s')"
  shows "buf @ sk_bytes s = h @ x @ sk_bytes s' \<and> length (h @ x) \<le> maxHeader
    \<and> (\<exists>i. Index (h @ x) header_end = Some i \<and> h = take (i + 4) (h @ x)) \<and> sk_err s' = sk_err s"
  using assms
proof (induction buf s rule: header_loop.induct)
  case (1 buf s)
  show ?case
  proof (cases "8192 :: nat" s rule: sock_read_cases)
    case ended
    with "1.prems" show ?thesis by (simp add: header_loop.simps [of buf s])
  next
    case (data d t)
    then have d: "d \<noteq> []" by simp
    have n: "\<not> length (buf @ d) > maxHeader" using "1.prems" d data(1) by (auto simp: header_loop.simps [of buf s] Let_def)
    show ?thesis
    proof (cases "Index (buf @ d) header_end")
      case None
      have e: "header_loop buf s = header_loop (buf @ d) t"
        using d n None data(1) by (simp add: header_loop.simps [of buf s])
      have i: "(if d \<noteq> [] then Index (buf @ d) header_end else None) = None" using None by simp
      have m: "\<not> (d \<noteq> [] \<and> length (buf @ d) > maxHeader)" using n by simp
      from "1.IH" [OF data(1) [symmetric] refl refl m i refl] "1.prems" e data(2,3) show ?thesis by simp
    next
      case (Some i)
      then have "h = take (i + 4) (buf @ d)" "x = drop (i + 4) (buf @ d)" "s' = t"
        using "1.prems" d n data(1) by (auto simp: header_loop.simps [of buf s] Let_def)
      then have "h @ x = buf @ d" by (simp only: append_take_drop_id)
      with Some n data(2,3) \<open>h = _\<close> \<open>s' = t\<close> show ?thesis
        by (metis append.assoc not_less)
    qed
  qed
qed

lemma header_loop_found:
  assumes "buf @ sk_bytes s = l @ header_end @ t" and "Index (l @ header_end @ t) header_end = Some (length l)"
    and "length l + 8195 \<le> maxHeader" and "length buf < length l + 4"
  shows "\<exists>x s'. header_loop buf s = Inr (l @ header_end, x, s') \<and> t = x @ sk_bytes s'"
  using assms(1,4)
proof (induction buf s rule: header_loop.induct)
  case (1 buf s)
  have le: "length header_end = 4" by (simp add: header_end_def)
  show ?case
  proof (cases "8192 :: nat" s rule: sock_read_cases)
    case ended
    then have "length (buf @ sk_bytes s) = length buf" by simp
    with "1.prems" le show ?thesis by simp
  next
    case (data d s')
    then have d: "d \<noteq> []" by simp
    have n: "length (buf @ d) \<le> maxHeader" using "1.prems"(2) data(4) assms(3) by simp
    have e: "(buf @ d) @ sk_bytes s' = l @ header_end @ t" using "1.prems"(1) data(2) by simp
    have ix: "Index ((buf @ d) @ sk_bytes s') header_end = Some (length l)" unfolding e by (rule assms(2))
    have m: "\<not> (d \<noteq> [] \<and> length (buf @ d) > maxHeader)" using n by simp
    show ?thesis
    proof (cases "length (buf @ d) < length l + 4")
      case True
      have "Index (buf @ d) header_end = None" by (rule Index_beyond [OF ix]) (use True le in simp)
      then have i: "(if d \<noteq> [] then Index (buf @ d) header_end else None) = None" by simp
      have "header_loop buf s = header_loop (buf @ d) s'" using d i m data(1) by (simp add: header_loop.simps [of buf s])
      with "1.IH" [OF data(1) [symmetric] refl refl m i refl e True] show ?thesis by simp
    next
      case False
      have i: "Index (buf @ d) header_end = Some (length l)" by (rule Index_within [OF ix]) (use False le in simp)
      have tk: "take (length l + 4) (buf @ d) = l @ header_end"
      proof -
        have "take (length l + 4) (buf @ d) = take (length l + 4) ((buf @ d) @ sk_bytes s')" using False by simp
        then show ?thesis unfolding e using le by simp
      qed
      have "l @ header_end @ drop (length l + 4) (buf @ d) = buf @ d"
        by (metis append.assoc append_take_drop_id tk)
      then have "t = drop (length l + 4) (buf @ d) @ sk_bytes s'" using e
        by (metis append.assoc same_append_eq)
      moreover have "header_loop buf s = Inr (l @ header_end, drop (length l + 4) (buf @ d), s')"
        unfolding tk [symmetric] using d i m data(1) by (simp add: header_loop.simps [of buf s])
      ultimately show ?thesis by blast
    qed
  qed
qed

text \<open>The header is cut off at the first empty line, wherever the network cuts the stream. What
  the reader returns is the client's bytes in order: the header ends with the first CRLF CRLF, the rest
  of what was read comes back as extra, and together they are at most 128 KiB; and a header that leaves
  room for one more read is always found.\<close>

theorem header_read_exactly:
  shows "(readHTTPHeaders s = Inr (h, x, s') \<longrightarrow> sk_bytes s = h @ x @ sk_bytes s' \<and> length (h @ x) \<le> maxHeader
      \<and> (\<exists>i. Index (sk_bytes s) header_end = Some i \<and> h = take (i + 4) (sk_bytes s)))
    \<and> (Index (sk_bytes s) header_end = Some i \<and> i + 8195 \<le> maxHeader \<longrightarrow>
        (\<exists>x s'. readHTTPHeaders s = Inr (take (i + 4) (sk_bytes s), x, s')))"
proof (intro conjI impI)
  have le: "length header_end = 4" by (simp add: header_end_def)
  assume a: "readHTTPHeaders s = Inr (h, x, s')"
  from header_loop_accepted [OF a [unfolded readHTTPHeaders_def]]
  obtain k where e: "sk_bytes s = h @ x @ sk_bytes s'" "length (h @ x) \<le> maxHeader"
    and k: "Index (h @ x) header_end = Some k" "h = take (k + 4) (h @ x)" by auto
  show "sk_bytes s = h @ x @ sk_bytes s'" by (rule e)
  show "length (h @ x) \<le> maxHeader" by (rule e)
  have i: "Index (sk_bytes s) header_end = Some k" using Index_append [OF k(1), of "sk_bytes s'"] e(1) by simp
  have "k + 4 \<le> length (h @ x)" using Index_Some [OF k(1)] le by auto
  then have "take (k + 4) (sk_bytes s) = take (k + 4) (h @ x)" unfolding e(1) by simp
  then show "\<exists>i. Index (sk_bytes s) header_end = Some i \<and> h = take (i + 4) (sk_bytes s)" using i k(2) by metis
next
  have le: "length header_end = 4" by (simp add: header_end_def)
  assume a: "Index (sk_bytes s) header_end = Some i \<and> i + 8195 \<le> maxHeader"
  then obtain t where t: "sk_bytes s = take i (sk_bytes s) @ header_end @ t" "i + 4 \<le> length (sk_bytes s)"
    using Index_Some le by metis
  have l: "length (take i (sk_bytes s)) = i" using t(2) by simp
  have b: "[] @ sk_bytes s = take i (sk_bytes s) @ header_end @ t" using t(1) by simp
  have ix: "Index (take i (sk_bytes s) @ header_end @ t) header_end = Some (length (take i (sk_bytes s)))"
    unfolding t(1) [symmetric] l using a by blast
  have "take (i + 4) (sk_bytes s) = take i (sk_bytes s) @ header_end"
    by (subst t(1)) (use l le in simp)
  with header_loop_found [OF b ix] a l show "\<exists>x s'. readHTTPHeaders s = Inr (take (i + 4) (sk_bytes s), x, s')"
    unfolding readHTTPHeaders_def by auto
qed

theorem header_read_exactly_witness:
  "\<exists>x s'. readHTTPHeaders \<lparr>sk_segs = [[71, 13, 10], [13, 10, 1], [2]], sk_err = EOF\<rparr> = Inr ([71, 13, 10, 13, 10], x, s')"
proof -
  have "Index (sk_bytes \<lparr>sk_segs = [[71, 13, 10], [13, 10, 1], [2]], sk_err = EOF\<rparr>) header_end = Some 1" by code_simp
  with header_read_exactly [of "\<lparr>sk_segs = [[71, 13, 10], [13, 10, 1], [2]], sk_err = EOF\<rparr>" _ _ _ 1]
  show ?thesis by (auto simp: maxHeader_def sk_bytes_def)
qed

section \<open>Authorities\<close>

definition parseHostPort :: "string \<Rightarrow> int \<Rightarrow> goerr + string \<times> int" where
  "parseHostPort authority0 defaultPort =
     (let authority = TrimSpace authority0 in
      case SplitHostPort authority of
        Inr (host, portText) \<Rightarrow> map_sum id (\<lambda>port. (host, port)) (Atoi portText)
      | Inl _ \<Rightarrow>
        if HasPrefix authority ''['' \<and> HasSuffix authority '']'' then
          Inr (TrimSet {CHR ''['', CHR '']''} authority, defaultPort)
        else if CHR '':'' \<notin> set authority then Inr (authority, defaultPort)
        else (case ParseIP authority of
            Some ip \<Rightarrow> Inr (authority, defaultPort)
          | None \<Rightarrow> Inl (Msg (''invalid authority: '' @ authority))))"

lemma set_dec: "c \<in> set (dec n) \<Longrightarrow> c \<noteq> CHR '':'' \<and> c \<noteq> CHR ''['' \<and> c \<noteq> CHR '']''"
proof -
  assume "c \<in> set (dec n)"
  then obtain d where d: "d < 10" "c = digit d" using digits_dec by blast
  then have "of_char c = 48 + d" by (simp add: of_char_digit)
  with d(1) show ?thesis by auto
qed

lemma parse_joined:
  assumes "list_all plain host" and "CHR ''['' \<notin> set host" and "CHR '']'' \<notin> set host" and "port < 65536"
  shows "parseHostPort (JoinHostPort host (dec port)) d = Inr (host, int port)"
proof -
  have jp: "list_all plain (JoinHostPort host (dec port))" using assms(1) by (simp add: JoinHostPort_def plain_def)
  have p: "CHR '':'' \<notin> set (dec port)" "CHR ''['' \<notin> set (dec port)" "CHR '']'' \<notin> set (dec port)" using set_dec by blast+
  have "Atoi (dec port) = Inr (int port)" using assms(4) by simp
  then show ?thesis by (simp add: parseHostPort_def TrimSpace_plain [OF jp] Split_Join_HostPort [OF assms(2,3) p])
qed

text \<open>Authorities are read back as they are written. A host name, IPv4 or IPv6 address without
  brackets or white space that was joined with a port is split into the same host and port, an IPv6
  address with its brackets removed; without a port the default is used, for a bare IPv6 address and
  for one in brackets as for a name.\<close>

theorem authority_roundtrip:
  assumes "list_all plain host" and "CHR ''['' \<notin> set host" and "CHR '']'' \<notin> set host" and "host \<noteq> []"
    and "port < 65536"
  shows "parseHostPort (JoinHostPort host (dec port)) d = Inr (host, int port)
    \<and> (CHR '':'' \<notin> set host \<longrightarrow> parseHostPort host d = Inr (host, d))
    \<and> parseHostPort (''['' @ host @ '']'') d = Inr (host, d)"
proof (intro conjI impI)
  show "parseHostPort (JoinHostPort host (dec port)) d = Inr (host, int port)"
    by (rule parse_joined) (use assms in simp_all)
next
  assume c: "CHR '':'' \<notin> set host"
  have "last_index_byte CHR '':'' host = None" using c by (simp add: last_index_byte_def index_byte_def)
  moreover have "\<not> HasPrefix host ''[''" using assms(2,4) by (cases host) (auto simp: HasPrefix_def)
  ultimately show "parseHostPort host d = Inr (host, d)"
    using c by (simp add: parseHostPort_def TrimSpace_plain [OF assms(1)] SplitHostPort_def)
next
  let ?a = "''['' @ host @ '']''"
  have pl: "list_all plain ?a" using assms(1) by (simp add: plain_def)
  have e: "index_byte CHR '']'' ?a = Some (length host + 1)"
    using index_byte_append [of "CHR '']''" "CHR ''['' # host" "[]"] assms(3) by simp
  have "\<exists>x. SplitHostPort ?a = Inl x"
  proof (cases "last_index_byte CHR '':'' ?a")
    case None
    then show ?thesis by (simp add: SplitHostPort_def)
  next
    case (Some i)
    then show ?thesis using e by (simp add: SplitHostPort_def)
  qed
  moreover have "TrimSet {CHR ''['', CHR '']''} ?a = host"
  proof -
    have 1: "TrimLeftSet {CHR ''['', CHR '']''} ?a = host @ '']''"
      using assms(2-4) by (cases host) (auto simp: TrimLeftSet_def)
    have "rev host \<noteq> []" using assms(4) by simp
    then obtain x r where r: "rev host = x # r" by (cases "rev host") auto
    then have "x \<in> set host" by (metis list.set_intros(1) set_rev)
    with assms(2,3) have "dropWhile (\<lambda>c. c = CHR ''['' \<or> c = CHR '']'') (rev host) = rev host" unfolding r by auto
    then show ?thesis unfolding TrimSet_def 1 TrimRightSet_def by simp
  qed
  moreover have "HasPrefix ?a ''[''" "HasSuffix ?a '']''" by (simp_all add: HasPrefix_def HasSuffix_def)
  ultimately show "parseHostPort ?a d = Inr (host, d)"
    by (auto simp: parseHostPort_def TrimSpace_plain [OF pl] Let_def simp del: append.simps)
qed

theorem authority_roundtrip_witness: "parseHostPort ''[::1]:443'' 80 = Inr (''::1'', 443)"
proof -
  have e: "JoinHostPort ''::1'' (dec 443) = ''[::1]:443''" by code_simp
  from authority_roundtrip [of "''::1''" 443 80] show ?thesis unfolding e by (simp add: plain_def)
qed

end
