(* ===== verification/HttpRewrite.thy ===== *)
theory HttpRewrite
  imports HttpText
begin

text \<open>
  \<^verbatim>\<open>rewritePlainHTTPRequest\<close> of \<^verbatim>\<open>main.go\<close>: a plain proxy request
  becomes a request for the origin server. The lemmas show what its output is line by line.
\<close>

section \<open>The rewriting\<close>

text \<open>What is used of a parsed URL, and the parser \<^verbatim>\<open>url.Parse\<close> as an argument.\<close>

record parsed_url =
  ul_Scheme :: string
  ul_Hostname :: string
  ul_Port :: string
  ul_EscapedPath :: string
  ul_RawQuery :: string

type_synonym url_parser = "string \<Rightarrow> goerr + parsed_url"

definition hop_by_hop :: "string \<Rightarrow> bool" where
  "hop_by_hop lk \<longleftrightarrow> lk = ''connection'' \<or> lk = ''proxy-connection'' \<or> lk = ''proxy-authorization''"

fun header_fields :: "string list \<Rightarrow> string \<Rightarrow> string list \<Rightarrow> string \<times> string list" where
  "header_fields [] hostHeader headers = (hostHeader, headers)"
| "header_fields (line # lines) hostHeader headers =
     (if line = [] then header_fields lines hostHeader headers
      else case Cut line '':'' of (k, v, ok) \<Rightarrow>
        if \<not> ok then header_fields lines hostHeader headers
        else
          let lk = ToLower (TrimSpace k);
              hostHeader = (if lk = ''host'' then TrimSpace v else hostHeader)
          in if hop_by_hop lk then header_fields lines hostHeader headers
             else header_fields lines hostHeader (headers @ [k @ '': '' @ TrimSpace v]))"

definition rewrite_target :: "url_parser \<Rightarrow> string \<Rightarrow> string \<Rightarrow> goerr + string \<times> int \<times> string" where
  "rewrite_target urlParse target hostHeader =
     (case urlParse target of
        Inl e \<Rightarrow> Inl e
      | Inr u \<Rightarrow>
        if ul_Hostname u \<noteq> [] then
          if ToLower (ul_Scheme u) \<noteq> ''http'' then Inl (Msg (''unsupported plain HTTP scheme: '' @ ul_Scheme u))
          else
            (case (if ul_Port u \<noteq> [] then Atoi (ul_Port u) else Inr 80) of
               Inl e \<Rightarrow> Inl e
             | Inr port \<Rightarrow>
               let path = ul_EscapedPath u;
                   path = (if path = [] then ''/'' else path);
                   path = (if ul_RawQuery u \<noteq> [] then path @ ''?'' @ ul_RawQuery u else path)
               in Inr (ul_Hostname u, port, path))
        else if hostHeader = [] then Inl (Msg ''missing Host header'')
        else (case parseHostPort hostHeader 80 of
            Inl e \<Rightarrow> Inl e
          | Inr (host, port) \<Rightarrow> Inr (host, port, if target = [] then ''/'' else target)))"

text \<open>The request line, the headers kept, a Host line when none was, and the closing lines.\<close>

definition build_request :: "string \<Rightarrow> string \<Rightarrow> string \<Rightarrow> string list \<Rightarrow> string \<Rightarrow> int \<Rightarrow> string" where
  "build_request method path version headers host port =
     (method @ '' '' @ path @ '' '' @ version @ crlf)
     @ concat (map (\<lambda>h. h @ crlf) headers)
     @ (if \<exists>h \<in> set headers. HasPrefix (ToLower h) ''host:'' then []
        else ''Host: '' @ (if port = 80 then host else JoinHostPort host (dec_int port)) @ crlf)
     @ ''Connection: close'' @ crlf @ crlf"

definition rewritePlainHTTPRequest :: "url_parser \<Rightarrow> bytes \<Rightarrow> goerr + string \<times> int \<times> bytes" where
  "rewritePlainHTTPRequest urlParse header =
     (let text = string_of header; lines = Split text crlf in
      if lines = [] then Inl (Msg ''empty request'')
      else
        let parts = SplitN (hd lines) '' '' 3 in
        if length parts \<noteq> 3 then Inl (Msg ''invalid request line'')
        else
          let method = parts ! 0; target = parts ! 1; version = parts ! 2;
              (hostHeader, headers) = header_fields (tl lines) [] []
          in (case rewrite_target urlParse target hostHeader of
                Inl e \<Rightarrow> Inl e
              | Inr (host, port, path) \<Rightarrow>
                Inr (host, port, bytes_of (build_request method path version headers host port))))"

section \<open>Texts without a line break\<close>

fun one_line :: "string \<Rightarrow> bool" where
  "one_line [] = True"
| "one_line (c # s) = (\<not> (c = CHR 0x0D \<and> s \<noteq> [] \<and> hd s = CHR 0x0A) \<and> one_line s)"

lemma one_line_append:
  "one_line (a @ b) \<longleftrightarrow> one_line a \<and> one_line b \<and> \<not> (a \<noteq> [] \<and> last a = CHR 0x0D \<and> b \<noteq> [] \<and> hd b = CHR 0x0A)"
  by (induction a) (auto simp: hd_append)

lemma one_line_part: "one_line (a @ b @ c) \<Longrightarrow> one_line b"
  by (simp add: one_line_append)

lemma one_line_Index: "one_line s \<longleftrightarrow> Index s crlf = None"
proof (induction s)
  case (Cons c s)
  then show ?case by (cases s) (auto simp: crlf_def)
qed (simp add: crlf_def)

lemma take_drop_parts:
  "\<exists>a b. s = a @ take n s @ b" "\<exists>a b. s = a @ drop n s @ b"
  by (metis append_Nil append_take_drop_id, metis append_Nil2 append_take_drop_id)

lemma one_line_take [simp]: "one_line s \<Longrightarrow> one_line (take n s)"
  using take_drop_parts(1) one_line_part by metis

lemma one_line_drop [simp]: "one_line s \<Longrightarrow> one_line (drop n s)"
  using take_drop_parts(2) one_line_part by metis

lemma one_line_trim_left: "one_line s \<Longrightarrow> one_line (trim_left s)"
proof (induction s rule: trim_left.induct)
  case (1 s)
  then show ?case by (subst trim_left.simps) simp
qed

lemma one_line_trim_right: "one_line s \<Longrightarrow> one_line (trim_right s)"
proof (induction s rule: trim_right.induct)
  case (1 s)
  then show ?case by (subst trim_right.simps) simp
qed

lemma one_line_TrimSpace [simp]: "one_line s \<Longrightarrow> one_line (TrimSpace s)"
  by (simp add: TrimSpace_def one_line_trim_left one_line_trim_right)

lemma Split_parts:
  "sep \<noteq> [] \<Longrightarrow> l \<in> set (Split s sep) \<Longrightarrow> Index l sep = None"
proof (induction s sep rule: Split.induct)
  case (1 s sep)
  show ?case
  proof (cases "Index s sep")
    case None
    with "1.prems" show ?thesis by (simp add: Split.simps [of s])
  next
    case (Some i)
    with "1.prems" have "l = take i s \<or> l \<in> set (Split (drop (i + length sep) s) sep)" by (simp add: Split.simps [of s])
    then show ?thesis
    proof
      assume l: "l = take i s"
      have "Index (take i s @ drop i s) sep = Some i" using Some by simp
      moreover have "length (take i s) < i + length sep" using "1.prems"(1) by (simp add: min_less_iff_disj)
      ultimately show ?thesis unfolding l by (rule Index_beyond)
    qed (use "1.IH" "1.prems" Some in simp)
  qed
qed

lemma Split_not_Nil [simp]: "Split s sep \<noteq> []"
  by (simp add: Split.simps [of s] split: option.split)

text \<open>Lines joined with CRLF are split into the same lines.\<close>

lemma Split_line:
  assumes "one_line l"
  shows "Split (l @ crlf @ t) crlf = l # Split t crlf"
proof -
  have n: "crlf \<noteq> []" by (simp add: crlf_def)
  have "Index (l @ crlf @ t) crlf = Some (length l)"
    using assms
  proof (induction l)
    case (Cons c l)
    then show ?case by (cases l) (auto simp: crlf_def)
  qed (simp add: crlf_def)
  then show ?thesis using n by (simp add: Split.simps [of "l @ crlf @ t"])
qed

lemma Split_lines:
  "\<forall>l \<in> set ls. one_line l \<Longrightarrow> Split (concat (map (\<lambda>l. l @ crlf) ls)) crlf = ls @ [[]]"
proof (induction ls)
  case Nil
  show ?case by (simp add: Split.simps [of "[]"] crlf_def)
next
  case (Cons l ls)
  then show ?case by (simp add: Split_line)
qed

section \<open>What the rewriting keeps\<close>

lemma Cut_parts:
  assumes "Cut s p = (a, b, True)"
  shows "s = a @ p @ b" and "Index a p = None \<or> p = []"
proof -
  from assms obtain i where i: "Index s p = Some i" "a = take i s" "b = drop (i + length p) s"
    by (auto simp: Cut_def split: option.splits)
  from Index_Some [OF i(1)] i(2,3) show "s = a @ p @ b" by auto
  show "Index a p = None \<or> p = []"
  proof (cases "p = []")
    case False
    have "Index (take i s @ drop i s) p = Some i" using i(1) by simp
    from Index_beyond [OF this] False i(2) show ?thesis by (simp add: min_less_iff_disj)
  qed simp
qed

definition field_name :: "string \<Rightarrow> string" where
  "field_name h = ToLower (TrimSpace (fst (Cut h '':'')))"

lemma Index_single: "Index s [c] = None \<longleftrightarrow> c \<notin> set s"
  by (induction s) auto

lemma Cut_single: "c \<notin> set k \<Longrightarrow> Cut (k @ c # v) [c] = (k, v, True)"
proof -
  assume "c \<notin> set k"
  then have "Index (k @ c # v) [c] = Some (length k)" by (induction k) auto
  then show ?thesis by (simp add: Cut_def)
qed

lemma header_fields_lines:
  assumes "\<forall>l \<in> set lines. one_line l" and "one_line hh" and "\<forall>h \<in> set hs. one_line h \<and> \<not> hop_by_hop (field_name h)"
    and "header_fields lines hh hs = (hh', hs')"
  shows "one_line hh' \<and> (\<forall>h \<in> set hs'. one_line h \<and> \<not> hop_by_hop (field_name h))"
  using assms
proof (induction lines arbitrary: hh hs)
  case (Cons line lines)
  obtain k v ok where c: "Cut line '':'' = (k, v, ok)" by (metis prod.collapse)
  show ?case
  proof (cases "line \<noteq> [] \<and> ok")
    case False
    with Cons.prems c have "header_fields lines hh hs = (hh', hs')" by (auto split: if_splits)
    from Cons.IH [OF _ Cons.prems(2,3) this] Cons.prems(1) show ?thesis by simp
  next
    case True
    with c have c': "Cut line '':'' = (k, v, True)" by simp
    have kv: "line = k @ '':'' @ v" "CHR '':'' \<notin> set k" using Cut_parts [OF c'] by (auto simp: Index_single)
    have "one_line line" using Cons.prems(1) by simp
    then have o: "one_line k" "one_line v" unfolding kv(1) by (auto simp: one_line_append)
    define lk where "lk = ToLower (TrimSpace k)"
    define hh1 where "hh1 = (if lk = ''host'' then TrimSpace v else hh)"
    define h where "h = k @ '': '' @ TrimSpace v"
    have h1: "one_line hh1" using o(2) Cons.prems(2) by (simp add: hh1_def)
    have f: "field_name h = lk" using Cut_single [OF kv(2), of "CHR '' '' # TrimSpace v"] by (simp add: h_def field_name_def lk_def)
    have oh: "one_line h" unfolding h_def using o by (auto simp: one_line_append)
    have e: "header_fields (line # lines) hh hs = (if hop_by_hop lk then header_fields lines hh1 hs else header_fields lines hh1 (hs @ [h]))"
      using True c' by (simp add: Let_def lk_def hh1_def h_def)
    have ol: "\<forall>l \<in> set lines. one_line l" using Cons.prems(1) by simp
    show ?thesis
    proof (cases "hop_by_hop lk")
      case True
      then have "header_fields lines hh1 hs = (hh', hs')" using e Cons.prems(4) by simp
      from Cons.IH [OF ol h1 Cons.prems(3) this] show ?thesis .
    next
      case False
      then have g: "header_fields lines hh1 (hs @ [h]) = (hh', hs')" using e Cons.prems(4) by simp
      have "\<forall>x \<in> set (hs @ [h]). one_line x \<and> \<not> hop_by_hop (field_name x)"
        using Cons.prems(3) oh f False by simp
      from Cons.IH [OF ol h1 this g] show ?thesis .
    qed
  qed
qed simp

lemma one_line_dec [simp]: "one_line (dec n)"
proof (induction n rule: dec.induct)
  case (1 n)
  have d: "one_line [digit k]" for k by simp
  have h: "k < 10 \<Longrightarrow> digit k \<noteq> CHR 0x0A" for k
    using of_char_digit [of k] by auto
  show ?case
  proof (cases "n < 10")
    case False
    with "1" h [of "n mod 10"] show ?thesis by (subst dec.simps) (simp add: one_line_append)
  qed (subst dec.simps, simp)
qed

lemma one_line_Join: "one_line host \<Longrightarrow> one_line (JoinHostPort host (dec_int port))"
  by (auto simp: JoinHostPort_def dec_int_def one_line_append)

lemma one_line_TrimSet:
  assumes "one_line s"
  shows "one_line (TrimSet cs s)"
proof -
  have "s = takeWhile (\<lambda>c. c \<in> cs) s @ TrimLeftSet cs s" by (simp add: TrimLeftSet_def)
  with assms have l: "one_line (TrimLeftSet cs s)" by (metis one_line_append)
  have "TrimLeftSet cs s = TrimSet cs s @ rev (takeWhile (\<lambda>c. c \<in> cs) (rev (TrimLeftSet cs s)))"
    unfolding TrimSet_def TrimRightSet_def by (metis rev_append rev_rev_ident takeWhile_dropWhile_id)
  with l show ?thesis by (metis one_line_append)
qed

lemma Split_host_part:
  assumes "SplitHostPort a = Inr (host, port)" and "one_line a"
  shows "one_line host"
proof -
  from assms(1) obtain i j where "host = take i a \<or> host = take i (drop j a)"
    by (auto simp: SplitHostPort_def Let_def split: option.splits if_splits)
  with assms(2) show ?thesis by auto
qed

lemma parse_host_line:
  assumes "parseHostPort a d = Inr (host, port)" and "one_line a"
  shows "one_line host"
proof -
  let ?a = "TrimSpace a"
  have o: "one_line ?a" using assms(2) by simp
  show ?thesis
  proof (cases "SplitHostPort ?a")
    case (Inr hp)
    with assms(1) obtain q where "SplitHostPort ?a = Inr (host, q)"
      by (cases hp; cases "Atoi (snd hp)") (auto simp: parseHostPort_def)
    from Split_host_part [OF this o] show ?thesis .
  next
    case (Inl e)
    with assms(1) have "host = ?a \<or> host = TrimSet {CHR ''['', CHR '']''} ?a"
      by (auto simp: parseHostPort_def Let_def split: if_splits option.splits)
    with o one_line_TrimSet show ?thesis by auto
  qed
qed

lemma SplitN_parts:
  assumes "one_line s" and "l \<in> set (SplitN s sep n)"
  shows "one_line l"
  using assms by (induction s sep n rule: SplitN.induct) (auto split: option.splits)

text \<open>
  \<^verbatim>\<open>url.Parse\<close> refuses control characters, so no component of a parsed URL has a
  line break.
\<close>

definition url_one_line :: "url_parser \<Rightarrow> bool" where
  "url_one_line up \<longleftrightarrow> (\<forall>t u. up t = Inr u \<longrightarrow> one_line (ul_Hostname u) \<and> one_line (ul_EscapedPath u) \<and> one_line (ul_RawQuery u))"

lemma rewrite_target_lines:
  assumes "url_one_line up" and "one_line target" and "one_line hh" and r: "rewrite_target up target hh = Inr (host, port, path)"
  shows "one_line host \<and> one_line path"
proof -
  from r obtain u where u: "up target = Inr u" by (auto simp: rewrite_target_def split: sum.splits)
  with assms(1) have ou: "one_line (ul_Hostname u)" "one_line (ul_EscapedPath u)" "one_line (ul_RawQuery u)"
    by (auto simp: url_one_line_def)
  show ?thesis
  proof (cases "ul_Hostname u = []")
    case True
    with r u have "parseHostPort hh 80 = Inr (host, port)" "path = (if target = [] then ''/'' else target)"
      by (auto simp: rewrite_target_def split: if_splits sum.splits)
    with parse_host_line [OF _ assms(3)] assms(2) show ?thesis by auto
  next
    case False
    with r u ou show ?thesis
      by (auto simp: rewrite_target_def Let_def one_line_append split: if_splits sum.splits)
  qed
qed

lemma rewrite_target_sound:
  assumes "rewrite_target up target hh = Inr (host, port, path)"
  shows "\<exists>u. up target = Inr u
    \<and> (if ul_Hostname u \<noteq> [] then host = ul_Hostname u \<and> ToLower (ul_Scheme u) = ''http'' \<and> path \<noteq> []
       else path = (if target = [] then ''/'' else target))"
  using assms by (auto simp: rewrite_target_def Let_def split: sum.splits if_splits)

text \<open>What becomes of the header lines, written as a filter over the list of lines: lines without a
  colon go, the three fields between client and proxy go, every other line keeps its name and loses
  the spaces around its value.\<close>

definition kept_field :: "string \<Rightarrow> string list" where
  "kept_field l = (case Cut l '':'' of (k, v, ok) \<Rightarrow>
     if ok \<and> ToLower (TrimSpace k) \<notin> {''connection'', ''proxy-connection'', ''proxy-authorization''}
     then [k @ '': '' @ TrimSpace v] else [])"

lemma header_fields_filter: "snd (header_fields lines hh hs) = hs @ concat (map kept_field lines)"
proof (induction lines arbitrary: hh hs)
  case (Cons line lines)
  have [simp]: "Cut [] '':'' = ([], [], False)" by (simp add: Cut_def)
  show ?case
    using Cons by (cases "Cut line '':''") (auto simp: kept_field_def Let_def hop_by_hop_def)
qed simp

text \<open>C19: A plain request is rewritten line by line, and nothing can be smuggled into it. The output
  consists of a request line with the client's method and version and the path asked for, the client's
  header lines in their order without the connection, proxy-connection and proxy-authorization fields,
  a Host line if none was among them, and Connection: close: read by lines it is exactly that, whatever
  bytes the client put into its header. The connection goes to the host of the URL, which must be an
  http one, or else to the host of the Host header, with the target as path. (The URL parser refuses
  control characters.)\<close>

theorem rewritten_request_clean:
  assumes "url_one_line up" and "rewritePlainHTTPRequest up header = Inr (host, port, out)"
  shows "\<exists>method target version u path headers hostline.
    SplitN (hd (Split (string_of header) crlf)) '' '' 3 = [method, target, version]
    \<and> Split (string_of out) crlf = [method @ '' '' @ path @ '' '' @ version] @ headers @ hostline @ [''Connection: close'', [], []]
    \<and> headers = concat (map kept_field (tl (Split (string_of header) crlf)))
    \<and> (\<forall>h \<in> set headers. field_name h \<notin> {''connection'', ''proxy-connection'', ''proxy-authorization''})
    \<and> ((\<exists>h \<in> set headers. HasPrefix (ToLower h) ''host:'') \<and> hostline = []
      \<or> (\<forall>h \<in> set headers. \<not> HasPrefix (ToLower h) ''host:'')
        \<and> hostline = [''Host: '' @ (if port = 80 then host else JoinHostPort host (dec_int port))])
    \<and> up target = Inr u
    \<and> (if ul_Hostname u \<noteq> [] then host = ul_Hostname u \<and> ToLower (ul_Scheme u) = ''http'' \<and> path \<noteq> []
       else path = (if target = [] then ''/'' else target))"
proof -
  let ?ls = "Split (string_of header) crlf"
  let ?p = "SplitN (hd ?ls) '' '' 3"
  obtain hh hs where f: "header_fields (tl ?ls) [] [] = (hh, hs)" by fastforce
  have hk: "hs = concat (map kept_field (tl ?ls))" using header_fields_filter [of "tl ?ls" "[]" "[]"] f by simp
  from assms(2) f obtain path where l: "length ?p = 3" and t: "rewrite_target up (?p ! 1) hh = Inr (host, port, path)"
    and o: "out = bytes_of (build_request (?p ! 0) path (?p ! 2) hs host port)"
    by (auto simp: rewritePlainHTTPRequest_def Let_def split: if_splits sum.splits)
  from rewrite_target_sound [OF t] obtain u where u: "up (?p ! 1) = Inr u"
    "if ul_Hostname u \<noteq> [] then host = ul_Hostname u \<and> ToLower (ul_Scheme u) = ''http'' \<and> path \<noteq> []
     else path = (if ?p ! 1 = [] then ''/'' else ?p ! 1)" by blast
  have ol: "\<forall>l \<in> set ?ls. one_line l" using Split_parts [of crlf] by (auto simp: one_line_Index crlf_def)
  have h0: "one_line (hd ?ls)" using ol hd_in_set [OF Split_not_Nil] by blast
  then have hp: "\<forall>l \<in> set ?p. one_line l" using SplitN_parts by blast
  have p: "?p = [?p ! 0, ?p ! 1, ?p ! 2]" using l by (auto simp: eval_nat_numeral length_Suc_conv)
  have op: "one_line (?p ! 0)" "one_line (?p ! 1)" "one_line (?p ! 2)" using hp l by (auto intro!: bspec [OF hp] nth_mem)
  have tl: "\<forall>l \<in> set (tl ?ls). one_line l" using ol by (meson list.set_sel(2) Split_not_Nil)
  from header_fields_lines [OF tl _ _ f] have oh: "one_line hh" "\<forall>h \<in> set hs. one_line h \<and> \<not> hop_by_hop (field_name h)" by auto
  from rewrite_target_lines [OF assms(1) op(2) oh(1) t] have hp2: "one_line host" "one_line path" by auto
  define saw where "saw = (\<exists>h \<in> set hs. HasPrefix (ToLower h) ''host:'')"
  define hl where "hl = (if saw then [] else [''Host: '' @ (if port = 80 then host else JoinHostPort host (dec_int port))])"
  define rl where "rl = ?p ! 0 @ '' '' @ path @ '' '' @ ?p ! 2"
  have a: "one_line rl" unfolding rl_def using op hp2 by (auto simp: one_line_append)
  have b: "\<forall>h \<in> set hl. one_line h" unfolding hl_def using hp2 one_line_Join [OF hp2(1), of port] by (auto simp: one_line_append)
  have "build_request (?p ! 0) path (?p ! 2) hs host port
      = concat (map (\<lambda>l. l @ crlf) ([rl] @ hs @ hl @ [''Connection: close'', []]))"
    unfolding build_request_def rl_def hl_def saw_def by simp
  moreover have "\<forall>l \<in> set ([rl] @ hs @ hl @ [''Connection: close'', []]). one_line l" using a b oh(2) by auto
  ultimately have s: "Split (string_of out) crlf = ([rl] @ hs @ hl @ [''Connection: close'', []]) @ [[]]"
    unfolding o string_of_bytes_of by (simp only: Split_lines)
  show ?thesis
  proof (intro exI conjI)
    show "?p = [?p ! 0, ?p ! 1, ?p ! 2]" by (rule p)
    show "Split (string_of out) crlf = [?p ! 0 @ '' '' @ path @ '' '' @ ?p ! 2] @ hs @ hl @ [''Connection: close'', [], []]"
      unfolding s rl_def by simp
    show "hs = concat (map kept_field (tl ?ls))" by (rule hk)
    show "\<forall>h \<in> set hs. field_name h \<notin> {''connection'', ''proxy-connection'', ''proxy-authorization''}"
      using oh(2) by (simp add: hop_by_hop_def)
    show "(\<exists>h \<in> set hs. HasPrefix (ToLower h) ''host:'') \<and> hl = []
      \<or> (\<forall>h \<in> set hs. \<not> HasPrefix (ToLower h) ''host:'')
        \<and> hl = [''Host: '' @ (if port = 80 then host else JoinHostPort host (dec_int port))]"
      by (auto simp: hl_def saw_def)
    show "up (?p ! 1) = Inr u" by (rule u(1))
    show "if ul_Hostname u \<noteq> [] then host = ul_Hostname u \<and> ToLower (ul_Scheme u) = ''http'' \<and> path \<noteq> []
      else path = (if ?p ! 1 = [] then ''/'' else ?p ! 1)" by (rule u(2))
  qed
qed

text \<open>A parser that finds no host in anything, as for a request with an origin-form target.\<close>

definition origin_form :: url_parser where
  "origin_form t = Inr \<lparr>ul_Scheme = [], ul_Hostname = [], ul_Port = [], ul_EscapedPath = [], ul_RawQuery = []\<rparr>"

theorem rewritten_request_clean_witness:
  "\<exists>out. rewritePlainHTTPRequest origin_form (bytes_of (''G / H'' @ crlf @ ''Host: a'' @ crlf @ ''Connection: x'' @ crlf @ crlf)) = Inr (''a'', 80, out)
    \<and> (\<exists>first headers hostline. Split (string_of out) crlf = [first] @ headers @ hostline @ [''Connection: close'', [], []]
      \<and> (\<forall>h \<in> set headers. field_name h \<notin> {''connection'', ''proxy-connection'', ''proxy-authorization''}))"
proof -
  let ?h = "bytes_of (''G / H'' @ crlf @ ''Host: a'' @ crlf @ ''Connection: x'' @ crlf @ crlf)"
  have r: "rewritePlainHTTPRequest origin_form ?h = Inr (''a'', 80, bytes_of (''G / H'' @ crlf @ ''Host: a'' @ crlf @ ''Connection: close'' @ crlf @ crlf))"
    by code_simp
  have u: "url_one_line origin_form" by (simp add: url_one_line_def origin_form_def)
  from rewritten_request_clean [OF u r] obtain m v path hs hl where
    "Split (string_of (bytes_of (''G / H'' @ crlf @ ''Host: a'' @ crlf @ ''Connection: close'' @ crlf @ crlf))) crlf
      = [m @ '' '' @ path @ '' '' @ v] @ hs @ hl @ [''Connection: close'', [], []]"
    "\<forall>h \<in> set hs. field_name h \<notin> {''connection'', ''proxy-connection'', ''proxy-authorization''}" by blast
  with r show ?thesis by blast
qed

end
