(* ===== verification/HttpFront.thy ===== *)
theory HttpFront
  imports HttpRewrite Relay Lane
begin

text \<open>
  \<^verbatim>\<open>main.go\<close>'s local HTTP proxy: error answers, the opening of a plain tunnel of the
  raw and XOR transports, and the handler of one local connection up to its relay. The dial of the
  chunk transports (\<^verbatim>\<open>WireSelect\<close>) and of the plain tunnel are arguments of the handler.
\<close>

section \<open>Answers\<close>

definition http_error_head :: "int \<Rightarrow> string \<Rightarrow> nat \<Rightarrow> string" where
  "http_error_head code reason n =
     ''HTTP/1.1 '' @ dec_int code @ '' '' @ reason @ crlf
     @ ''Content-Type: text/plain; charset=utf-8'' @ crlf
     @ ''Content-Length: '' @ dec n @ crlf
     @ ''Connection: close'' @ crlf @ crlf"

definition writeHTTPError :: "conn \<Rightarrow> int \<Rightarrow> string \<Rightarrow> string \<Rightarrow> conn" where
  "writeHTTPError w code reason detail0 =
     (let detail = (if detail0 = [] then reason else detail0);
          body = bytes_of detail;
          (_, _, w) = conn_write w (bytes_of (http_error_head code reason (length body)));
          (_, _, w) = conn_write w body
      in w)"

definition established :: bytes where
  "established = bytes_of (''HTTP/1.1 200 Connection Established'' @ crlf @ ''Proxy-Agent: dragontcp-proxy/2.0'' @ crlf @ crlf)"

section \<open>The plain tunnel\<close>

definition tunnel_command :: "string \<Rightarrow> string \<Rightarrow> string \<Rightarrow> int \<Rightarrow> string" where
  "tunnel_command transport token targetHost targetPort =
     (if transport = ''raw''
      then ''TUNNEL2 '' @ token @ '' '' @ targetHost @ '' '' @ dec_int targetPort @ '' RAW''
      else ''TUNNEL '' @ token @ '' '' @ targetHost @ '' '' @ dec_int targetPort)"

text \<open>
  \<^verbatim>\<open>openDragonTCPTunnel\<close> in the world of dial outcomes; \<open>counter\<close> is
  \<^verbatim>\<open>requestCounter\<close>. Without a result the writer's loop does not return.
\<close>

definition openDragonTCPTunnel ::
  "string \<Rightarrow> string \<Rightarrow> int \<Rightarrow> string \<Rightarrow> u32 \<Rightarrow> world \<Rightarrow> ((goerr + nat \<times> conn) \<times> u32 \<times> world) option" where
  "openDragonTCPTunnel token targetHost targetPort transport counter w =
     (let k = w_dialed w; w = w\<lparr>w_dialed := Suc k\<rparr> in
      case w_dials w k of
        Inl e \<Rightarrow> Some (Inl e, counter, w)
      | Inr c \<Rightarrow>
        let w = log_event (Dialed k) w;
            requestID = counter + 1;
            command = bytes_of (tunnel_command transport token targetHost targetPort)
        in (case WriteRequestFrame c requestID command of
              None \<Rightarrow> None
            | Some (Some e, c) \<Rightarrow> Some (Inl e, requestID, log_event (Closed k) w)
            | Some (None, c) \<Rightarrow>
              (case ReadResponseFrame (c_in c) of
                 Inl e \<Rightarrow> Some (Inl e, requestID, log_event (Closed k) w)
               | Inr ((responseID, response), r) \<Rightarrow>
                 if responseID \<noteq> requestID then Some (Inl (Msg ''request ID mismatch''), requestID, log_event (Closed k) w)
                 else if string_of response \<noteq> ''CONNECTED''
                   then Some (Inl (Msg (string_of response)), requestID, log_event (Closed k) w)
                 else Some (Inr (k, c\<lparr>c_in := r\<rparr>), requestID, w))))"

text \<open>Opening a plain tunnel leaves a connection open exactly when it succeeds. It dials at most
  once; a refused dial, a failed write, a bad frame, a wrong request ID or any answer but CONNECTED
  closes the connection again, and success hands over the one that answered, past its answer.\<close>

theorem plain_tunnel_leaks_nothing:
  assumes "world_ok w" and "openDragonTCPTunnel token host port transport counter w = Some (r, counter', w')"
  shows "world_ok w' \<and> w_dialed w' = Suc (w_dialed w)
    \<and> (case r of Inl e \<Rightarrow> live (w_log w') = live (w_log w)
       | Inr (k, c) \<Rightarrow> live (w_log w') = insert k (live (w_log w)) \<and> k \<notin> live (w_log w)
           \<and> (\<exists>s. ReadResponseFrame s = Inr ((counter', bytes_of ''CONNECTED''), c_in c)))"
proof -
  let ?k = "w_dialed w"
  have k: "?k \<notin> live (w_log w)" "log_ok (w_log w)" "\<forall>j \<in> live (w_log w). j < ?k" using assms(1) by (auto simp: world_ok_def)
  then have l: "insert ?k (live (w_log w)) - {?k} = live (w_log w)" by auto
  show ?thesis
  proof (cases "w_dials w ?k")
    case (Inl e)
    then have "r = Inl e" "w' = w\<lparr>w_dialed := Suc ?k\<rparr>" using assms(2) by (auto simp: openDragonTCPTunnel_def Let_def)
    with k show ?thesis by (auto simp: world_ok_def less_Suc_eq)
  next
    case (Inr c)
    let ?w = "log_event (Dialed ?k) (w\<lparr>w_dialed := Suc ?k\<rparr>)"
    have step: "(\<exists>e. r = Inl e) \<and> w' = log_event (Closed ?k) ?w
      \<or> (\<exists>c' s. r = Inr (?k, c') \<and> w' = ?w \<and> ReadResponseFrame s = Inr ((counter', bytes_of ''CONNECTED''), c_in c'))"
    proof -
      obtain m where m: "WriteRequestFrame c (counter + 1) (bytes_of (tunnel_command transport token host port)) = Some m"
        using assms(2) Inr by (cases "WriteRequestFrame c (counter + 1) (bytes_of (tunnel_command transport token host port))")
          (auto simp: openDragonTCPTunnel_def Let_def)
      obtain x c1 where m': "m = (x, c1)" by fastforce
      show ?thesis
      proof (cases x)
        case (Some e)
        with assms(2) Inr m m' show ?thesis by (auto simp: openDragonTCPTunnel_def Let_def)
      next
        case None
        show ?thesis
        proof (cases "ReadResponseFrame (c_in c1)")
          case (Inl e)
          with assms(2) Inr m m' None show ?thesis by (auto simp: openDragonTCPTunnel_def Let_def)
        next
          case resp: (Inr y)
          obtain rid q s where y: "y = ((rid, q), s)" by (metis prod.collapse)
          have "q = bytes_of ''CONNECTED''" if "string_of q = ''CONNECTED''" using that by (metis bytes_of_string_of)
          with assms(2) Inr m m' None resp y show ?thesis
            by (cases "c_in c1") (auto simp: openDragonTCPTunnel_def Let_def split: if_splits)
        qed
      qed
    qed
    have ok: "world_ok ?w" "world_ok (log_event (Closed ?k) ?w)"
      using k l by (auto simp: world_ok_def log_event_def less_Suc_eq)
    have n: "w_dialed ?w = Suc ?k" "w_dialed (log_event (Closed ?k) ?w) = Suc ?k" by (simp_all add: log_event_def)
    have v: "live (w_log ?w) = insert ?k (live (w_log w))" "live (w_log (log_event (Closed ?k) ?w)) = live (w_log w)"
      using l by (simp_all add: log_event_def)
    from step ok n v k(1) show ?thesis by (elim disjE) (auto simp del: split_paired_Ex)
  qed
qed

section \<open>One local connection\<close>

text \<open>
  How the handler ends: over, or relaying (with the mask or without) between the local socket and
  the remote connection. The last component of its result is the dial that was made, if any.
\<close>

datatype local_end = LocalDone | LocalRelay bool conn sock

definition handleLocal ::
  "url_parser \<Rightarrow> string \<Rightarrow> (string \<Rightarrow> int \<Rightarrow> goerr + conn) \<Rightarrow> (string \<Rightarrow> int \<Rightarrow> goerr + conn) \<Rightarrow> sock \<Rightarrow> conn
   \<Rightarrow> local_end \<times> conn \<times> (string \<times> int) option" where
  "handleLocal urlParse transport wires_dial tunnel_dial s w =
     (case readHTTPHeaders s of
        Inl e \<Rightarrow> (LocalDone, w, None)
      | Inr (header, extra, s) \<Rightarrow>
        let firstLine = SplitN (string_of header) crlf 2 ! 0;
            parts = SplitN firstLine '' '' 3;
            dial = (if transport = ''chunk'' then wires_dial else tunnel_dial);
            masked = (transport = ''xor'')
        in if length parts \<noteq> 3 then
             (LocalDone, writeHTTPError w 400 ''Bad Request'' ''invalid HTTP request line'', None)
           else if EqualFold (parts ! 0) ''CONNECT'' then
             (case parseHostPort (parts ! 1) 443 of
                Inl err \<Rightarrow> (LocalDone, writeHTTPError w 400 ''Bad Request'' (err_text err), None)
              | Inr (host, port) \<Rightarrow>
                (case dial host port of
                   Inl err \<Rightarrow> (LocalDone, writeHTTPError w 502 ''Bad Gateway'' (err_text err), Some (host, port))
                 | Inr remote \<Rightarrow>
                   let (_, _, w) = conn_write w established in
                   if extra \<noteq> [] then
                     (case conn_write remote (if masked then XorInPlace extra else extra) of
                        (_, Some e, remote) \<Rightarrow> (LocalDone, w, Some (host, port))
                      | (_, None, remote) \<Rightarrow> (LocalRelay masked remote s, w, Some (host, port)))
                   else (LocalRelay masked remote s, w, Some (host, port))))
           else
             (case rewritePlainHTTPRequest urlParse header of
                Inl err \<Rightarrow> (LocalDone, writeHTTPError w 400 ''Bad Request'' (err_text err), None)
              | Inr (host, port, rewritten) \<Rightarrow>
                (case dial host port of
                   Inl err \<Rightarrow> (LocalDone, writeHTTPError w 502 ''Bad Gateway'' (err_text err), Some (host, port))
                 | Inr remote \<Rightarrow>
                   let initial = rewritten @ extra;
                       initial = (if masked then XorInPlace initial else initial)
                   in (case conn_write remote initial of
                         (_, Some e, remote) \<Rightarrow> (LocalDone, w, Some (host, port))
                       | (_, None, remote) \<Rightarrow> (LocalRelay masked remote s, w, Some (host, port))))))"

text \<open>The relay the handler starts, and the mask of a transport.\<close>

definition relay_of :: "bool \<Rightarrow> endpoint \<Rightarrow> endpoint \<Rightarrow> (endpoint \<times> endpoint) option" where
  "relay_of masked a b = (if masked then RelayXOR a b else RelayRaw a b)"

definition mask_of :: "bool \<Rightarrow> bytes \<Rightarrow> bytes" where
  "mask_of masked b = (if masked then XorInPlace b else b)"

lemma mask_of_append: "mask_of x (a @ b) = mask_of x a @ mask_of x b"
  by (simp add: mask_of_def XorInPlace_append)

lemma length_mask_of [simp]: "length (mask_of x b) = length b"
  by (simp add: mask_of_def)

lemma mask_of_Nil [simp]: "mask_of x [] = []"
  by (simp add: mask_of_def XorInPlace_Nil)

lemma relay_of_whole:
  assumes "accepting (ep_out a)" and "accepting (ep_out b)"
  shows "\<exists>a' b'. relay_of x a b = Some (a', b')
    \<and> c_out (ep_out b') = c_out (ep_out b) @ mask_of x (sk_bytes (ep_in a))
    \<and> c_out (ep_out a') = c_out (ep_out a) @ mask_of x (sk_bytes (ep_in b))"
  using copy_raw.relay [OF assms] copy_xor.relay [OF assms]
  by (auto simp: relay_of_def mask_of_def RelayRaw_def RelayXOR_def)

lemma headers_found:
  assumes "Index (sk_bytes s) header_end = Some i" and "i + 8195 \<le> maxHeader"
  obtains x s' where "readHTTPHeaders s = Inr (take (i + 4) (sk_bytes s), x, s')"
    "drop (i + 4) (sk_bytes s) = x @ sk_bytes s'" "length x \<le> maxHeader"
proof -
  have le: "length header_end = 4" by (simp add: header_end_def)
  from assms(1) obtain t where t: "sk_bytes s = take i (sk_bytes s) @ header_end @ t" "i + 4 \<le> length (sk_bytes s)"
    using Index_Some le by metis
  have l: "length (take i (sk_bytes s)) = i" using t(2) by simp
  have b: "[] @ sk_bytes s = take i (sk_bytes s) @ header_end @ t" using t(1) by simp
  have ix: "Index (take i (sk_bytes s) @ header_end @ t) header_end = Some (length (take i (sk_bytes s)))"
    unfolding t(1) [symmetric] l using assms(1) by blast
  have k: "take (i + 4) (sk_bytes s) = take i (sk_bytes s) @ header_end" by (subst t(1)) (use l le in simp)
  from header_loop_found [OF b ix] assms(2) l obtain x s' where
    h: "header_loop [] s = Inr (take i (sk_bytes s) @ header_end, x, s')" "t = x @ sk_bytes s'" by auto
  have "drop (i + 4) (sk_bytes s) = t" by (subst t(1)) (use l le in simp)
  moreover have "length x \<le> maxHeader" using header_loop_accepted [OF h(1)] by simp
  ultimately show thesis using that [of x s'] h k by (simp add: readHTTPHeaders_def)
qed

text \<open>C11: A CONNECT through the HTTP proxy is transparent. The client's authority is dialled, and once
  the relay is over the remote side has received exactly the bytes the client sent after its header and
  the client the answer line and exactly what the remote side sent, masked for the XOR transport; what
  was read together with the header is not lost.\<close>

theorem http_connect_transparent:
  assumes "Index (sk_bytes s) header_end = Some i" and "i + 8195 \<le> maxHeader"
    and "SplitN (SplitN (string_of (take (i + 4) (sk_bytes s))) crlf 2 ! 0) '' '' 3 = [m, target, version]"
    and "EqualFold m ''CONNECT''" and "parseHostPort target 443 = Inr (host, port)"
    and "(if transport = ''chunk'' then wd else td) host port = Inr r" and "accepting r" and "accepting w"
  shows "\<exists>r' s' w' a b. handleLocal up transport wd td s w = (LocalRelay (transport = ''xor'') r' s', w', Some (host, port))
    \<and> relay_of (transport = ''xor'') \<lparr>ep_in = s', ep_out = w', ep_shut = False\<rparr> \<lparr>ep_in = rin, ep_out = r', ep_shut = False\<rparr> = Some (a, b)
    \<and> c_out (ep_out b) = c_out r @ mask_of (transport = ''xor'') (drop (i + 4) (sk_bytes s))
    \<and> c_out (ep_out a) = c_out w @ established @ mask_of (transport = ''xor'') (sk_bytes rin)"
proof -
  let ?x = "transport = ''xor''"
  obtain x s' where h: "readHTTPHeaders s = Inr (take (i + 4) (sk_bytes s), x, s')"
    "drop (i + 4) (sk_bytes s) = x @ sk_bytes s'" "length x \<le> maxHeader"
    by (rule headers_found [OF assms(1,2)])
  let ?w = "w\<lparr>c_out := c_out w @ established, c_calls := Suc (c_calls w)\<rparr>"
  have le: "length established \<le> 2097400" by (simp add: established_def crlf_def)
  have w: "conn_write w established = (length established, None, ?w)" by (rule conn_write_accepting [OF assms(8) le])
  define r' where "r' = (if x \<noteq> [] then r\<lparr>c_out := c_out r @ mask_of ?x x, c_calls := Suc (c_calls r)\<rparr> else r)"
  have lx: "length (mask_of ?x x) \<le> 2097400" using h(3) by (simp add: maxHeader_def)
  have wr: "conn_write r (mask_of ?x x) = (length x, None, r\<lparr>c_out := c_out r @ mask_of ?x x, c_calls := Suc (c_calls r)\<rparr>)"
    using conn_write_accepting [OF assms(7) lx] by simp
  have hl: "handleLocal up transport wd td s w = (LocalRelay ?x r' s', ?w, Some (host, port))"
    using assms(3-6) w wr [unfolded mask_of_def] unfolding handleLocal_def h(1) r'_def mask_of_def by (simp add: Let_def)
  have ar: "accepting r'" "c_out r' = c_out r @ mask_of ?x x" using assms(7) by (simp_all add: r'_def)
  obtain a b where "relay_of ?x \<lparr>ep_in = s', ep_out = ?w, ep_shut = False\<rparr> \<lparr>ep_in = rin, ep_out = r', ep_shut = False\<rparr> = Some (a, b)"
    "c_out (ep_out b) = c_out r' @ mask_of ?x (sk_bytes s')" "c_out (ep_out a) = c_out ?w @ mask_of ?x (sk_bytes rin)"
    using relay_of_whole [of "\<lparr>ep_in = s', ep_out = ?w, ep_shut = False\<rparr>" "\<lparr>ep_in = rin, ep_out = r', ep_shut = False\<rparr>" ?x] assms(8) ar(1) by auto
  then show ?thesis
    by (intro exI [of _ r'] exI [of _ s'] exI [of _ ?w] exI [of _ a] exI [of _ b]) (simp add: hl ar(2) h(2) mask_of_append)
qed

text \<open>A plain request goes out rewritten and whole. The remote side receives the rewritten header
  and then exactly the bytes the client sent after its own header, the client exactly what the remote
  side sent, masked for the XOR transport; the host that is dialled is the one the rewriting found.\<close>

theorem http_plain_transparent:
  assumes "Index (sk_bytes s) header_end = Some i" and "i + 8195 \<le> maxHeader"
    and "SplitN (SplitN (string_of (take (i + 4) (sk_bytes s))) crlf 2 ! 0) '' '' 3 = [m, target, version]"
    and "\<not> EqualFold m ''CONNECT''"
    and "rewritePlainHTTPRequest up (take (i + 4) (sk_bytes s)) = Inr (host, port, rewritten)" and "length rewritten \<le> 1966000"
    and "(if transport = ''chunk'' then wd else td) host port = Inr r" and "accepting r" and "accepting w"
  shows "\<exists>r' s' a b. handleLocal up transport wd td s w = (LocalRelay (transport = ''xor'') r' s', w, Some (host, port))
    \<and> relay_of (transport = ''xor'') \<lparr>ep_in = s', ep_out = w, ep_shut = False\<rparr> \<lparr>ep_in = rin, ep_out = r', ep_shut = False\<rparr> = Some (a, b)
    \<and> c_out (ep_out b) = c_out r @ mask_of (transport = ''xor'') (rewritten @ drop (i + 4) (sk_bytes s))
    \<and> c_out (ep_out a) = c_out w @ mask_of (transport = ''xor'') (sk_bytes rin)"
proof -
  let ?x = "transport = ''xor''"
  obtain x s' where h: "readHTTPHeaders s = Inr (take (i + 4) (sk_bytes s), x, s')"
    "drop (i + 4) (sk_bytes s) = x @ sk_bytes s'" "length x \<le> maxHeader"
    by (rule headers_found [OF assms(1,2)])
  define r' where "r' = r\<lparr>c_out := c_out r @ mask_of ?x (rewritten @ x), c_calls := Suc (c_calls r)\<rparr>"
  have lx: "length (mask_of ?x (rewritten @ x)) \<le> 2097400" using h(3) assms(6) by (simp add: maxHeader_def)
  have wr: "conn_write r (mask_of ?x (rewritten @ x)) = (length (rewritten @ x), None, r')"
    using conn_write_accepting [OF assms(8) lx] by (simp add: r'_def)
  have hl: "handleLocal up transport wd td s w = (LocalRelay ?x r' s', w, Some (host, port))"
    using assms(3-5,7) wr [unfolded mask_of_def] unfolding handleLocal_def h(1) mask_of_def by (simp add: Let_def)
  have ar: "accepting r'" "c_out r' = c_out r @ mask_of ?x (rewritten @ x)" using assms(8) by (simp_all add: r'_def)
  obtain a b where "relay_of ?x \<lparr>ep_in = s', ep_out = w, ep_shut = False\<rparr> \<lparr>ep_in = rin, ep_out = r', ep_shut = False\<rparr> = Some (a, b)"
    "c_out (ep_out b) = c_out r' @ mask_of ?x (sk_bytes s')" "c_out (ep_out a) = c_out w @ mask_of ?x (sk_bytes rin)"
    using relay_of_whole [of "\<lparr>ep_in = s', ep_out = w, ep_shut = False\<rparr>" "\<lparr>ep_in = rin, ep_out = r', ep_shut = False\<rparr>" ?x] assms(9) ar(1) by auto
  then show ?thesis
    by (intro exI [of _ r'] exI [of _ s'] exI [of _ a] exI [of _ b]) (simp add: hl ar(2) h(2) mask_of_append)
qed

lemma writeHTTPError_out:
  assumes "accepting w" and "length detail \<le> 2000000" and "length (http_error_head code reason (length (if detail = [] then reason else detail))) \<le> 2000000"
    and "length reason \<le> 2000000"
  shows "c_out (writeHTTPError w code reason detail) = c_out w
    @ bytes_of (http_error_head code reason (length (if detail = [] then reason else detail))) @ bytes_of (if detail = [] then reason else detail)"
proof -
  define body where "body = bytes_of (if detail = [] then reason else detail)"
  define head where "head = bytes_of (http_error_head code reason (length (if detail = [] then reason else detail)))"
  have l: "length head \<le> 2097400" "length body \<le> 2097400" using assms(2-4) by (simp_all add: head_def body_def)
  have e: "writeHTTPError w code reason detail = (let (_, _, w) = conn_write w head; (_, _, w) = conn_write w body in w)"
    by (simp add: writeHTTPError_def head_def body_def Let_def)
  show ?thesis unfolding e head_def [symmetric] body_def [symmetric]
    using conn_write_accepting [OF assms(1) l(1)] conn_write_accepting [OF _ l(2)] assms(1) by simp
qed

text \<open>What cannot be served is answered, and never dialled. A header that cannot be read gets no
  answer, a bad request line, authority or request gets 400 without any dial, and a dial that fails
  gets 502 with its error; in each case the handler is over.\<close>

theorem http_errors_answered:
  assumes "readHTTPHeaders s = Inr (header, x, s')"
    and "parts = SplitN (SplitN (string_of header) crlf 2 ! 0) '' '' 3"
    and "dial = (if transport = ''chunk'' then wd else td)"
    and "result = handleLocal up transport wd td s w"
  shows "(length parts \<noteq> 3 \<longrightarrow> result = (LocalDone, writeHTTPError w 400 ''Bad Request'' ''invalid HTTP request line'', None))
    \<and> (\<forall>e. length parts = 3 \<and> EqualFold (parts ! 0) ''CONNECT'' \<and> parseHostPort (parts ! 1) 443 = Inl e
        \<longrightarrow> result = (LocalDone, writeHTTPError w 400 ''Bad Request'' (err_text e), None))
    \<and> (\<forall>e. length parts = 3 \<and> \<not> EqualFold (parts ! 0) ''CONNECT'' \<and> rewritePlainHTTPRequest up header = Inl e
        \<longrightarrow> result = (LocalDone, writeHTTPError w 400 ''Bad Request'' (err_text e), None))
    \<and> (\<forall>h p e. snd (snd result) = Some (h, p) \<and> dial h p = Inl e
        \<longrightarrow> result = (LocalDone, writeHTTPError w 502 ''Bad Gateway'' (err_text e), Some (h, p)))
    \<and> (\<forall>h p. snd (snd result) = Some (h, p) \<longrightarrow> length parts = 3
        \<and> (if EqualFold (parts ! 0) ''CONNECT'' then parseHostPort (parts ! 1) 443 = Inr (h, p)
           else \<exists>out. rewritePlainHTTPRequest up header = Inr (h, p, out)))"
proof -
  consider (line) "length parts \<noteq> 3" | (authority) e where "length parts = 3" "EqualFold (parts ! 0) ''CONNECT''" "parseHostPort (parts ! 1) 443 = Inl e"
    | (request) e where "length parts = 3" "\<not> EqualFold (parts ! 0) ''CONNECT''" "rewritePlainHTTPRequest up header = Inl e"
    | (connect) h p where "length parts = 3" "EqualFold (parts ! 0) ''CONNECT''" "parseHostPort (parts ! 1) 443 = Inr (h, p)"
    | (plain) h p out where "length parts = 3" "\<not> EqualFold (parts ! 0) ''CONNECT''" "rewritePlainHTTPRequest up header = Inr (h, p, out)"
    by (metis prod.collapse sumE)
  then show ?thesis
  proof cases
    case line
    then have "result = (LocalDone, writeHTTPError w 400 ''Bad Request'' ''invalid HTTP request line'', None)"
      using assms by (simp add: handleLocal_def)
    with line show ?thesis by simp
  next
    case (authority e)
    then have "result = (LocalDone, writeHTTPError w 400 ''Bad Request'' (err_text e), None)"
      using assms by (simp add: handleLocal_def Let_def)
    with authority show ?thesis by simp
  next
    case (request e)
    then have "result = (LocalDone, writeHTTPError w 400 ''Bad Request'' (err_text e), None)"
      using assms by (simp add: handleLocal_def Let_def)
    with request show ?thesis by simp
  next
    case (connect h p)
    have d: "snd (snd result) = Some (h, p)"
      using connect assms by (auto simp: handleLocal_def Let_def split: sum.splits prod.splits option.splits)
    have "result = (LocalDone, writeHTTPError w 502 ''Bad Gateway'' (err_text e), Some (h, p))" if "dial h p = Inl e" for e
      using connect assms that by (auto simp: handleLocal_def Let_def)
    with connect d show ?thesis by auto
  next
    case (plain h p out)
    have d: "snd (snd result) = Some (h, p)"
      using plain assms by (auto simp: handleLocal_def Let_def split: sum.splits prod.splits option.splits)
    have "result = (LocalDone, writeHTTPError w 502 ''Bad Gateway'' (err_text e), Some (h, p))" if "dial h p = Inl e" for e
      using plain assms that by (auto simp: handleLocal_def Let_def)
    with plain d show ?thesis by auto
  qed
qed

section \<open>Concrete runs\<close>

definition sample_connect :: sock where
  "sample_connect = \<lparr>sk_segs = [bytes_of (''connect h:1 H'' @ crlf), [13, 10, 7], [8]], sk_err = EOF\<rparr>"

lemma sample_connect_facts:
  "Index (sk_bytes sample_connect) header_end = Some 13"
  "drop 17 (sk_bytes sample_connect) = [7, 8]"
  "SplitN (SplitN (string_of (take 17 (sk_bytes sample_connect))) crlf 2 ! 0) '' '' 3 = [''connect'', ''h:1'', ''H'']"
  "EqualFold ''connect'' ''CONNECT''"
  by (code_simp, code_simp, code_simp, code_simp)

lemma sample_authority: "parseHostPort ''h:1'' 443 = Inr (''h'', 1)"
proof -
  have e: "JoinHostPort ''h'' (dec 1) = ''h:1''" by code_simp
  have "parseHostPort (JoinHostPort ''h'' (dec 1)) 443 = Inr (''h'', int 1)" by (rule parse_joined) (simp_all add: plain_def)
  then show ?thesis unfolding e by simp
qed

theorem http_connect_transparent_witness:
  "\<exists>r' s' w' a b. handleLocal origin_form ''chunk'' (\<lambda>h p. Inr open_conn) (\<lambda>h p. Inl EOF) sample_connect open_conn
      = (LocalRelay False r' s', w', Some (''h'', 1))
    \<and> relay_of False \<lparr>ep_in = s', ep_out = w', ep_shut = False\<rparr> \<lparr>ep_in = sample_connect, ep_out = r', ep_shut = False\<rparr> = Some (a, b)
    \<and> c_out (ep_out b) = [7, 8]"
proof -
  have i: "13 + 8195 \<le> maxHeader" by (simp add: maxHeader_def)
  have n: "13 + 4 = (17 :: nat)" by simp
  have f: "SplitN (SplitN (string_of (take (13 + 4) (sk_bytes sample_connect))) crlf 2 ! 0) '' '' 3 = [''connect'', ''h:1'', ''H'']"
    unfolding n by (rule sample_connect_facts(3))
  have d: "(if ''chunk'' = ''chunk'' then (\<lambda>h p. Inr open_conn) else (\<lambda>h p. Inl EOF)) ''h'' (1 :: int) = Inr open_conn" by simp
  have o: "c_out open_conn = []" by (simp add: open_conn_def)
  have x: "(''chunk'' = ''xor'') = False" by simp
  from http_connect_transparent [OF sample_connect_facts(1) i f sample_connect_facts(4) sample_authority d accepting_open_conn accepting_open_conn,
      of origin_form sample_connect, unfolded n o x sample_connect_facts(2)]
  show ?thesis unfolding mask_of_def if_False append_Nil by blast
qed

definition sample_get :: sock where
  "sample_get = \<lparr>sk_segs = [bytes_of (''G / H'' @ crlf @ ''Host: a'' @ crlf), [13, 10, 7], [8]], sk_err = EOF\<rparr>"

lemma sample_get_facts:
  "Index (sk_bytes sample_get) header_end = Some 14"
  "drop 18 (sk_bytes sample_get) = [7, 8]"
  "SplitN (SplitN (string_of (take 18 (sk_bytes sample_get))) crlf 2 ! 0) '' '' 3 = [''G'', ''/'', ''H'']"
  "\<not> EqualFold ''G'' ''CONNECT''"
  by (code_simp, code_simp, code_simp, code_simp)

lemma sample_rewrite:
  "rewritePlainHTTPRequest origin_form (take 18 (sk_bytes sample_get))
    = Inr (''a'', 80, bytes_of (''G / H'' @ crlf @ ''Host: a'' @ crlf @ ''Connection: close'' @ crlf @ crlf))"
  by code_simp

theorem http_plain_transparent_witness:
  "\<exists>r' s' a b. handleLocal origin_form ''chunk'' (\<lambda>h p. Inr open_conn) (\<lambda>h p. Inl EOF) sample_get open_conn
      = (LocalRelay False r' s', open_conn, Some (''a'', 80))
    \<and> relay_of False \<lparr>ep_in = s', ep_out = open_conn, ep_shut = False\<rparr> \<lparr>ep_in = sample_get, ep_out = r', ep_shut = False\<rparr> = Some (a, b)
    \<and> c_out (ep_out b) = bytes_of (''G / H'' @ crlf @ ''Host: a'' @ crlf @ ''Connection: close'' @ crlf @ crlf) @ [7, 8]"
proof -
  have i: "14 + 8195 \<le> maxHeader" by (simp add: maxHeader_def)
  have n: "14 + 4 = (18 :: nat)" by simp
  define out where "out = bytes_of (''G / H'' @ crlf @ ''Host: a'' @ crlf @ ''Connection: close'' @ crlf @ crlf)"
  have f: "SplitN (SplitN (string_of (take (14 + 4) (sk_bytes sample_get))) crlf 2 ! 0) '' '' 3 = [''G'', ''/'', ''H'']"
    unfolding n by (rule sample_get_facts(3))
  have r: "rewritePlainHTTPRequest origin_form (take (14 + 4) (sk_bytes sample_get)) = Inr (''a'', 80, out)"
    unfolding n out_def by (rule sample_rewrite)
  have l: "length out \<le> 1966000" by (simp add: out_def crlf_def)
  have d: "(if ''chunk'' = ''chunk'' then (\<lambda>h p. Inr open_conn) else (\<lambda>h p. Inl EOF)) ''a'' (80 :: int) = Inr open_conn" by simp
  have o: "c_out open_conn = []" by (simp add: open_conn_def)
  have x: "(''chunk'' = ''xor'') = False" by simp
  from http_plain_transparent [OF sample_get_facts(1) i f sample_get_facts(4) r l d accepting_open_conn accepting_open_conn,
      of sample_get, unfolded n o x sample_get_facts(2)]
  show ?thesis unfolding out_def [symmetric] mask_of_def if_False append_Nil by blast
qed

theorem http_errors_answered_witness:
  "\<exists>x s'. readHTTPHeaders sample_connect = Inr (take 17 (sk_bytes sample_connect), x, s')
    \<and> handleLocal origin_form ''chunk'' (\<lambda>h p. Inl EOF) (\<lambda>h p. Inr open_conn) sample_connect open_conn
      = (LocalDone, writeHTTPError open_conn 502 ''Bad Gateway'' ''EOF'', Some (''h'', 1))"
proof -
  have n: "13 + 4 = (17 :: nat)" by simp
  obtain x s' where h: "readHTTPHeaders sample_connect = Inr (take 17 (sk_bytes sample_connect), x, s')"
    by (rule headers_found [OF sample_connect_facts(1), unfolded n]) (simp add: maxHeader_def)
  let ?r = "handleLocal origin_form ''chunk'' (\<lambda>h p. Inl EOF) (\<lambda>h p. Inr open_conn) sample_connect open_conn"
  have d: "snd (snd ?r) = Some (''h'', 1)"
    unfolding handleLocal_def h using sample_connect_facts(3,4) sample_authority by (simp add: Let_def)
  from http_errors_answered [OF h refl refl refl, of origin_form "''chunk''" "\<lambda>h p. Inl EOF" "\<lambda>h p. Inr open_conn" open_conn]
  have "?r = (LocalDone, writeHTTPError open_conn 502 ''Bad Gateway'' (err_text EOF), Some (''h'', 1))" using d by simp
  with h show ?thesis by simp
qed

theorem plain_tunnel_leaks_nothing_witness:
  "\<exists>r c w'. openDragonTCPTunnel ''t'' ''h'' 1 ''raw'' 0 silent_world = Some (r, c, w') \<and> live (w_log w') = {}"
proof -
  let ?w = silent_world
  have ok: "world_ok ?w" by simp
  have d: "openDragonTCPTunnel ''t'' ''h'' 1 ''raw'' 0 ?w = Some (Inl (NetErr False ''refused''), 0, ?w\<lparr>w_dialed := Suc (w_dialed ?w)\<rparr>)"
    by (simp add: openDragonTCPTunnel_def silent_world_def)
  from plain_tunnel_leaks_nothing [OF ok d] d show ?thesis by (simp add: silent_world_def)
qed

end
