(* ===== verification/CmdLine.thy ===== *)
theory CmdLine
  imports Complex_Main WireSelect
begin

text \<open>
  The command line of \<^verbatim>\<open>main.go\<close>: the flags as they are parsed, and their checking
  and rewriting into the options the rest of the program runs with. A rejected combination is the
  message \<^verbatim>\<open>main\<close> prints before it exits with status 2.
\<close>

section \<open>Flags\<close>

record flags =
  fl_listenHost :: string
  fl_listenPort :: int
  fl_serverHost :: string
  fl_serverPort :: int
  fl_serverPortStart :: int
  fl_serverPortEnd :: int
  fl_token :: string
  fl_maxConnections :: int
  fl_transport :: string
  fl_tcpBuffer :: int
  fl_chunkStart :: int
  fl_chunkMin :: int
  fl_chunkMax :: int
  fl_chunkAdaptive :: bool
  fl_chunkSuccesses :: int
  fl_chunkShrinkAfter :: int
  fl_chunkShrinkStep :: int
  fl_chunkMaxFirst :: bool
  fl_chunkAdaptLog :: bool
  fl_chunkSizeLegacy :: int
  fl_chunkPollers :: int
  fl_chunkConcurrency :: int
  fl_chunkConcurrencyMin :: int
  fl_chunkReconnect :: int
  fl_chunkPollDelay :: int
  fl_chunkTimeout :: int
  fl_wireMode :: string
  fl_forceClearPayload :: bool
  fl_wireProbeDelay :: int
  fl_wireProbeThreads :: int
  fl_protocolVersion :: string
  fl_httpPayload :: string
  fl_iperfDuration :: int
  fl_iperfTargetMbps :: rat
  fl_sshUser :: string
  fl_sshPassword :: string
  fl_sshPasswordEnv :: string
  fl_sshInternalHost :: string
  fl_sshInternalPort :: int
  fl_sshHostKeyPin :: string
  fl_sshSocksHost :: string
  fl_sshSocksPort :: int
  fl_sshUDPGWHost :: string
  fl_sshUDPGWPort :: int

text \<open>What the checks produce: the flags as rewritten, the port range and the options of the transports.\<close>

record config =
  cf_flags :: flags
  cf_portStart :: int
  cf_portEnd :: int
  cf_chunkOpts :: chunkClientOptions
  cf_xorOpts :: xOptions

definition ms :: "int \<Rightarrow> int" where "ms n = n * 1000000"

text \<open>
  The checks are a chain of stages, in the order of the source; each may rewrite flags for the
  later ones.
\<close>

definition resolve_ports :: "flags \<Rightarrow> string + int \<times> int" where
  "resolve_ports fl =
     (if fl_serverHost fl = [] then Inl ''--server-host is required''
      else
        let resolvedPortStart = (if fl_serverPortStart fl = 0 then fl_serverPort fl else fl_serverPortStart fl);
            resolvedPortEnd = (if fl_serverPortEnd fl = 0 then resolvedPortStart else fl_serverPortEnd fl)
        in if resolvedPortStart < 1 \<or> resolvedPortStart > 65535 \<or> resolvedPortEnd < 1 \<or> resolvedPortEnd > 65535
           then Inl ''server ports must be between 1 and 65535''
           else if resolvedPortStart > resolvedPortEnd then Inl ''--server-port-start must not exceed --server-port-end''
           else Inr (resolvedPortStart, resolvedPortEnd))"

definition check_chunk_size :: "flags \<Rightarrow> string + flags" where
  "check_chunk_size fl0 =
     (let fl = fl0\<lparr>fl_transport := ToLower (fl_transport fl0)\<rparr> in
      if fl_transport fl \<noteq> ''chunk'' then Inl ''DragonTCP requires --transport chunk (binary adaptive TCP/53 transport)''
      else if fl_chunkSizeLegacy fl \<noteq> 0 \<and> (fl_chunkSizeLegacy fl < 32 \<or> fl_chunkSizeLegacy fl > int MaxChunkPayload)
      then Inl (''--chunk-size must be between 32 and '' @ dec MaxChunkPayload)
      else
        let n = fl_chunkSizeLegacy fl;
            fl = (if n \<noteq> 0 then fl\<lparr>fl_chunkStart := n, fl_chunkMin := n, fl_chunkMax := n, fl_chunkAdaptive := False\<rparr> else fl);
            fl = (if fl_chunkMaxFirst fl then fl\<lparr>fl_chunkStart := fl_chunkMax fl\<rparr> else fl)
        in if fl_chunkMin fl < 32 \<or> fl_chunkMax fl > int MaxChunkPayload \<or> fl_chunkMin fl > fl_chunkStart fl
              \<or> fl_chunkStart fl > fl_chunkMax fl
           then Inl (''require 32 <= --chunk-min <= --chunk-start <= --chunk-max <= '' @ dec MaxChunkPayload)
           else Inr fl)"

definition check_adaptation :: "flags \<Rightarrow> string + flags" where
  "check_adaptation fl =
     (if fl_chunkSuccesses fl < 1 then Inl ''--chunk-grow-after must be at least 1''
      else if fl_chunkShrinkAfter fl < 1 \<or> fl_chunkShrinkAfter fl > 32 then Inl ''--chunk-shrink-after must be between 1 and 32''
      else if fl_chunkShrinkStep fl < 0 \<or> fl_chunkShrinkStep fl > int MaxChunkPayload
      then Inl (''--chunk-shrink-step must be between 0 and '' @ dec MaxChunkPayload @ '' bytes'')
      else
        let fl = (if fl_chunkMaxFirst fl then
              (if fl_chunkShrinkStep fl = 0 then fl\<lparr>fl_chunkShrinkStep := maxFirstFineResolution\<rparr> else fl)\<lparr>fl_chunkShrinkAfter := 1\<rparr>
            else fl)
        in if fl_chunkPollers fl < 1 \<or> fl_chunkPollers fl > 128 then Inl ''--chunk-pollers must be between 1 and 128''
           else if fl_chunkConcurrency fl < 1 \<or> fl_chunkConcurrency fl > 256 then Inl ''--chunk-concurrency must be between 1 and 256''
           else if fl_chunkConcurrencyMin fl < 1 \<or> fl_chunkConcurrencyMin fl > 256 then Inl ''--chunk-concurrency-min must be between 1 and 256''
           else if fl_chunkConcurrencyMin fl > fl_chunkConcurrency fl then Inl ''--chunk-concurrency-min must not exceed --chunk-concurrency''
           else Inr fl)"

definition wire_name :: "string \<Rightarrow> string option" where
  "wire_name m =
     (if m = WireBinary \<or> m = WireBP \<or> m = WireXOR \<or> m = WireAuto then Some m
      else if m = ''binary'' then Some WireBinary
      else if m = ''bh'' \<or> m = ''h'' then Some WireBP
      else if m = ''xor'' then Some WireXOR
      else None)"

definition check_wire :: "flags \<Rightarrow> string + flags" where
  "check_wire fl =
     (case wire_name (ToLower (TrimSpace (fl_wireMode fl))) of
        None \<Rightarrow> Inl ''--wire must be b, bp, x or auto''
      | Some m \<Rightarrow>
        let fl = fl\<lparr>fl_wireMode := m\<rparr> in
        if fl_forceClearPayload fl \<and> fl_wireMode fl = WireXOR
        then Inl ''--force-clear-payload cannot be used with --wire x; use auto, b, or bp''
        else if fl_chunkReconnect fl < 0 then Inl ''--chunk-reconnect-every must be 0 or greater''
        else if fl_wireProbeDelay fl < ms 50 \<or> fl_wireProbeDelay fl > ms 30000 then Inl ''--wire-probe-delay must be between 50ms and 30s''
        else if fl_wireProbeThreads fl < 1 \<or> fl_wireProbeThreads fl > 16 then Inl ''--wire-probe-threads must be between 1 and 16''
        else
          let fl = fl\<lparr>fl_protocolVersion := ToLower (TrimSpace (fl_protocolVersion fl))\<rparr> in
          if fl_protocolVersion fl \<noteq> ''v1'' \<and> fl_protocolVersion fl \<noteq> ''v2'' then Inl ''--protocol-version must be v1 or v2''
          else Inr fl)"

definition bad_port :: "int \<Rightarrow> bool" where
  "bad_port p \<longleftrightarrow> p < 1 \<or> p > 65535"

definition check_ssh :: "flags \<Rightarrow> string + flags" where
  "check_ssh fl =
     (if TrimSpace (fl_sshUser fl) \<noteq> [] then
        if fl_sshPassword fl = [] then Inl ''--ssh-password is required when --ssh-user is set''
        else if bad_port (fl_sshInternalPort fl) \<or> bad_port (fl_sshSocksPort fl) \<or> bad_port (fl_sshUDPGWPort fl)
        then Inl ''SSH/SOCKS/UDPGW ports must be between 1 and 65535''
        else Inr fl
      else Inr fl)"

definition chunk_options :: "flags \<Rightarrow> chunkClientOptions" where
  "chunk_options fl =
     \<lparr>startSize = fl_chunkStart fl, minSize = fl_chunkMin fl, maxSize = fl_chunkMax fl,
      o_adaptive = fl_chunkAdaptive fl, o_adaptSuccesses = fl_chunkSuccesses fl,
      o_shrinkAfter = fl_chunkShrinkAfter fl, o_shrinkStep = fl_chunkShrinkStep fl,
      adaptLog = fl_chunkAdaptLog fl, pollers = fl_chunkPollers fl, o_reconnectEvery = fl_chunkReconnect fl,
      pollDelay = fl_chunkPollDelay fl, txnTimeout = fl_chunkTimeout fl, o_tcpBuffer = fl_tcpBuffer fl,
      o_minPipeline = fl_chunkConcurrencyMin fl, o_maxPipeline = fl_chunkConcurrency fl,
      o_headerMask = 0, o_coverProfile = zero_profile, skipPathProbe = False, forceMaxStart = fl_chunkMaxFirst fl\<rparr>"

definition x_options :: "flags \<Rightarrow> xOptions" where
  "x_options fl = NewOptions (fl_chunkStart fl) (fl_chunkMin fl) (fl_chunkMax fl) (fl_chunkAdaptive fl)
     (fl_chunkSuccesses fl) (fl_chunkShrinkAfter fl) (fl_chunkAdaptLog fl) (fl_chunkPollers fl)
     (fl_chunkReconnect fl) (fl_chunkPollDelay fl) (fl_chunkTimeout fl) (fl_tcpBuffer fl)"

text \<open>
  The whole of it, the password taken from the environment first; \<open>bind_sum\<close> is the early exit.
\<close>

definition bind_sum :: "'e + 'a \<Rightarrow> ('a \<Rightarrow> 'e + 'b) \<Rightarrow> 'e + 'b" where
  "bind_sum r k = (case r of Inl e \<Rightarrow> Inl e | Inr x \<Rightarrow> k x)"

definition check_flags :: "(string \<Rightarrow> string) \<Rightarrow> flags \<Rightarrow> string + config" where
  "check_flags getenv fl0 =
     (let fl = (if TrimSpace (fl_sshPasswordEnv fl0) \<noteq> []
                then fl0\<lparr>fl_sshPassword := getenv (TrimSpace (fl_sshPasswordEnv fl0))\<rparr> else fl0)
      in bind_sum (resolve_ports fl) (\<lambda>(first, last).
         bind_sum (check_chunk_size fl) (\<lambda>fl.
         bind_sum (check_adaptation fl) (\<lambda>fl.
         bind_sum (check_wire fl) (\<lambda>fl.
         bind_sum (check_ssh fl) (\<lambda>fl.
           Inr \<lparr>cf_flags = fl, cf_portStart = first, cf_portEnd = last,
                cf_chunkOpts = chunk_options fl, cf_xorOpts = x_options fl\<rparr>))))))"

section \<open>Accepted configurations\<close>

lemma bind_sum_Inr: "bind_sum r k = Inr y \<longleftrightarrow> (\<exists>x. r = Inr x \<and> k x = Inr y)"
  by (cases r) (auto simp: bind_sum_def)

definition sizes_ok :: "flags \<Rightarrow> bool" where
  "sizes_ok fl \<longleftrightarrow> 32 \<le> fl_chunkMin fl \<and> fl_chunkMin fl \<le> fl_chunkStart fl \<and> fl_chunkStart fl \<le> fl_chunkMax fl
     \<and> fl_chunkMax fl \<le> 1048576 \<and> (fl_chunkMaxFirst fl \<longrightarrow> fl_chunkStart fl = fl_chunkMax fl)"

definition adaptation_ok :: "flags \<Rightarrow> bool" where
  "adaptation_ok fl \<longleftrightarrow> 1 \<le> fl_chunkSuccesses fl \<and> 1 \<le> fl_chunkShrinkAfter fl \<and> fl_chunkShrinkAfter fl \<le> 32
     \<and> 0 \<le> fl_chunkShrinkStep fl \<and> fl_chunkShrinkStep fl \<le> 1048576
     \<and> (fl_chunkMaxFirst fl \<longrightarrow> fl_chunkShrinkAfter fl = 1 \<and> 0 < fl_chunkShrinkStep fl)
     \<and> 1 \<le> fl_chunkPollers fl \<and> fl_chunkPollers fl \<le> 128
     \<and> 1 \<le> fl_chunkConcurrencyMin fl \<and> fl_chunkConcurrencyMin fl \<le> fl_chunkConcurrency fl \<and> fl_chunkConcurrency fl \<le> 256"

definition wire_ok :: "flags \<Rightarrow> bool" where
  "wire_ok fl \<longleftrightarrow> fl_wireMode fl \<in> {WireBinary, WireBP, WireXOR, WireAuto}
     \<and> \<not> (fl_forceClearPayload fl \<and> fl_wireMode fl = WireXOR)
     \<and> 0 \<le> fl_chunkReconnect fl \<and> 1 \<le> fl_wireProbeThreads fl \<and> fl_wireProbeThreads fl \<le> 16
     \<and> ms 50 \<le> fl_wireProbeDelay fl \<and> fl_wireProbeDelay fl \<le> ms 30000 \<and> fl_protocolVersion fl \<in> {''v1'', ''v2''}"

definition ssh_ok :: "flags \<Rightarrow> bool" where
  "ssh_ok fl \<longleftrightarrow> (TrimSpace (fl_sshUser fl) \<noteq> [] \<longrightarrow> fl_sshPassword fl \<noteq> []
     \<and> \<not> bad_port (fl_sshInternalPort fl) \<and> \<not> bad_port (fl_sshSocksPort fl) \<and> \<not> bad_port (fl_sshUDPGWPort fl))"

lemma MaxChunk: "int MaxChunkPayload = 1048576"
  by (simp add: MaxChunkPayload_def)

lemma check_chunk_size_ok: "check_chunk_size fl = Inr fl' \<Longrightarrow> sizes_ok fl' \<and> fl_transport fl' = ''chunk''"
  by (auto simp: check_chunk_size_def sizes_ok_def Let_def MaxChunk split: if_splits)

lemma check_adaptation_ok: "check_adaptation fl = Inr fl' \<Longrightarrow> sizes_ok fl \<Longrightarrow>
   adaptation_ok fl' \<and> sizes_ok fl' \<and> fl_transport fl' = fl_transport fl"
  by (auto simp: check_adaptation_def adaptation_ok_def sizes_ok_def Let_def MaxChunk maxFirstFineResolution_def
      calibrationFineResolution_def split: if_splits)

lemma wire_name_ok: "wire_name m = Some x \<Longrightarrow> x \<in> {WireBinary, WireBP, WireXOR, WireAuto}"
  by (auto simp: wire_name_def split: if_splits)

lemma check_wire_ok:
  assumes "check_wire fl = Inr fl'"
  shows "wire_ok fl' \<and> (\<exists>m v. fl' = fl\<lparr>fl_wireMode := m, fl_protocolVersion := v\<rparr>)"
proof -
  obtain m where m: "wire_name (ToLower (TrimSpace (fl_wireMode fl))) = Some m"
    using assms by (auto simp: check_wire_def split: option.splits)
  define v where "v = ToLower (TrimSpace (fl_protocolVersion fl))"
  have "fl' = fl\<lparr>fl_wireMode := m, fl_protocolVersion := v\<rparr> \<and> wire_ok (fl\<lparr>fl_wireMode := m, fl_protocolVersion := v\<rparr>)"
    using assms m wire_name_ok [OF m] by (auto simp: check_wire_def Let_def wire_ok_def v_def split: if_splits)
  then show ?thesis by blast
qed

lemma check_ssh_ok: "check_ssh fl = Inr fl' \<Longrightarrow> ssh_ok fl' \<and> fl' = fl"
  by (auto simp: check_ssh_def ssh_ok_def split: if_splits)

lemma resolve_ports_ok: "resolve_ports fl = Inr (a, b) \<Longrightarrow> 1 \<le> a \<and> a \<le> b \<and> b \<le> 65535"
  by (auto simp: resolve_ports_def Let_def split: if_splits)

lemma check_flags_ok:
  assumes "check_flags getenv fl = Inr c"
  shows "sizes_ok (cf_flags c) \<and> adaptation_ok (cf_flags c) \<and> wire_ok (cf_flags c) \<and> ssh_ok (cf_flags c)
    \<and> fl_transport (cf_flags c) = ''chunk'' \<and> 1 \<le> cf_portStart c \<and> cf_portStart c \<le> cf_portEnd c \<and> cf_portEnd c \<le> 65535
    \<and> cf_chunkOpts c = chunk_options (cf_flags c) \<and> cf_xorOpts c = x_options (cf_flags c)"
proof -
  obtain f0 a b f1 f2 f3 f4 where p: "resolve_ports f0 = Inr (a, b)" and 1: "check_chunk_size f0 = Inr f1"
    and 2: "check_adaptation f1 = Inr f2" and 3: "check_wire f2 = Inr f3" and 4: "check_ssh f3 = Inr f4"
    and c: "c = \<lparr>cf_flags = f4, cf_portStart = a, cf_portEnd = b, cf_chunkOpts = chunk_options f4, cf_xorOpts = x_options f4\<rparr>"
    using assms by (auto simp: check_flags_def Let_def bind_sum_Inr)
  note k1 = check_chunk_size_ok [OF 1]
  note k2 = check_adaptation_ok [OF 2 conjunct1 [OF k1]]
  obtain m v where f3: "f3 = f2\<lparr>fl_wireMode := m, fl_protocolVersion := v\<rparr>" using check_wire_ok [OF 3] by blast
  have "sizes_ok f3 \<and> adaptation_ok f3 \<and> fl_transport f3 = ''chunk''"
    using k1 k2 unfolding f3 by (simp add: sizes_ok_def adaptation_ok_def)
  moreover have "ssh_ok f3" "f4 = f3" using check_ssh_ok [OF 4] by auto
  ultimately show ?thesis using check_wire_ok [OF 3] resolve_ports_ok [OF p] unfolding c by simp
qed

text \<open>C32: The command line only lets well-formed configurations through. Whatever flags are given, an
  accepted configuration has ports in order and in range, 32 <= min <= start <= max <= 1 MiB, batch
  depths, thresholds and probe settings in their ranges, one of the four wires, no forced clear payload
  on the X wire, complete SSH settings when SSH is on; and its chunk and X options are those flags.\<close>

theorem accepted_flags_well_formed:
  assumes "check_flags getenv fl = Inr c"
  shows "sizes_ok (cf_flags c) \<and> adaptation_ok (cf_flags c) \<and> wire_ok (cf_flags c) \<and> ssh_ok (cf_flags c)
    \<and> fl_transport (cf_flags c) = ''chunk'' \<and> 1 \<le> cf_portStart c \<and> cf_portStart c \<le> cf_portEnd c \<and> cf_portEnd c \<le> 65535
    \<and> cf_chunkOpts c = chunk_options (cf_flags c) \<and> cf_xorOpts c = x_options (cf_flags c)"
  by (rule check_flags_ok [OF assms])

text \<open>The flags' defaults, with a server.\<close>

definition default_flags :: flags where
  "default_flags = \<lparr>fl_listenHost = ''127.0.0.1'', fl_listenPort = 8080, fl_serverHost = ''s'', fl_serverPort = 53,
     fl_serverPortStart = 0, fl_serverPortEnd = 0, fl_token = [], fl_maxConnections = 20000,
     fl_transport = ''chunk'', fl_tcpBuffer = 0, fl_chunkStart = 1048576, fl_chunkMin = 32, fl_chunkMax = 1048576,
     fl_chunkAdaptive = True, fl_chunkSuccesses = 16, fl_chunkShrinkAfter = 1, fl_chunkShrinkStep = 200,
     fl_chunkMaxFirst = False, fl_chunkAdaptLog = True, fl_chunkSizeLegacy = 0, fl_chunkPollers = 1,
     fl_chunkConcurrency = 1, fl_chunkConcurrencyMin = 1, fl_chunkReconnect = 0, fl_chunkPollDelay = 2000000,
     fl_chunkTimeout = 5000000000, fl_wireMode = ''auto'', fl_forceClearPayload = False,
     fl_wireProbeDelay = 100000000, fl_wireProbeThreads = 1, fl_protocolVersion = ''v1'', fl_httpPayload = [],
     fl_iperfDuration = 0, fl_iperfTargetMbps = 1, fl_sshUser = [], fl_sshPassword = [], fl_sshPasswordEnv = [],
     fl_sshInternalHost = ''dragontcp-ssh.internal'', fl_sshInternalPort = 2222, fl_sshHostKeyPin = [],
     fl_sshSocksHost = ''127.0.0.1'', fl_sshSocksPort = 1080,
     fl_sshUDPGWHost = ''dragontcp-udpgw.internal'', fl_sshUDPGWPort = 7400\<rparr>"

lemma default_wire_accepted:
  assumes "wire_name (ToLower (TrimSpace m)) = Some m"
  shows "check_flags (\<lambda>_. []) (default_flags\<lparr>fl_wireMode := m\<rparr>) = Inr \<lparr>cf_flags = default_flags\<lparr>fl_wireMode := m\<rparr>,
     cf_portStart = 53, cf_portEnd = 53, cf_chunkOpts = chunk_options default_flags, cf_xorOpts = x_options default_flags\<rparr>"
proof -
  have t: "TrimSpace [] = []" by code_simp
  have a: "ToLower ''chunk'' = ''chunk''" "ToLower (TrimSpace ''v1'') = ''v1''" by (code_simp, code_simp)
  let ?f = "default_flags\<lparr>fl_wireMode := m\<rparr>"
  have 1: "resolve_ports ?f = Inr (53, 53)" by (simp add: resolve_ports_def default_flags_def)
  have r1: "?f\<lparr>fl_transport := ToLower (fl_transport ?f)\<rparr> = ?f" by (simp only: default_flags_def flags.simps a)
  have r2: "?f\<lparr>fl_wireMode := m\<rparr> = ?f" by (simp only: default_flags_def flags.simps)
  have r3: "?f\<lparr>fl_protocolVersion := ToLower (TrimSpace (fl_protocolVersion ?f))\<rparr> = ?f"
    by (simp only: default_flags_def flags.simps a)
  have w: "wire_name (ToLower (TrimSpace (fl_wireMode ?f))) = Some m" using assms by simp
  have 2: "check_chunk_size ?f = Inr ?f"
    unfolding check_chunk_size_def r1 Let_def by (simp add: default_flags_def MaxChunk)
  have 3: "check_adaptation ?f = Inr ?f" by (simp add: check_adaptation_def default_flags_def MaxChunk)
  have 4: "check_wire ?f = Inr ?f"
    unfolding check_wire_def w option.case Let_def r2 r3 by (simp add: default_flags_def ms_def)
  have 5: "check_ssh ?f = Inr ?f" by (simp add: check_ssh_def default_flags_def t)
  have 6: "fl_sshPasswordEnv ?f = []" by (simp add: default_flags_def)
  have "chunk_options ?f = chunk_options default_flags" "x_options ?f = x_options default_flags"
    by (simp_all add: chunk_options_def x_options_def)
  then show ?thesis by (simp add: check_flags_def bind_sum_def 1 2 3 4 5 6 t)
qed

lemma default_accepted:
  "check_flags (\<lambda>_. []) default_flags = Inr \<lparr>cf_flags = default_flags, cf_portStart = 53, cf_portEnd = 53,
     cf_chunkOpts = chunk_options default_flags, cf_xorOpts = x_options default_flags\<rparr>"
proof -
  have "ToLower (TrimSpace ''auto'') = ''auto''" by code_simp
  then have "wire_name (ToLower (TrimSpace ''auto'')) = Some ''auto''" by (simp add: wire_name_def wires)
  moreover have "default_flags\<lparr>fl_wireMode := ''auto''\<rparr> = default_flags" by (simp only: default_flags_def flags.simps)
  ultimately show ?thesis using default_wire_accepted [of "''auto''"] by simp
qed

theorem accepted_flags_well_formed_witness:
  "\<exists>c. check_flags (\<lambda>_. []) default_flags = Inr c \<and> sizes_ok (cf_flags c) \<and> wire_ok (cf_flags c)"
  using accepted_flags_well_formed [OF default_accepted] default_accepted by blast

lemma normalize_id:
  assumes "32 \<le> minSize opts" "minSize opts \<le> maxSize opts" "maxSize opts \<le> 1048576" "0 < txnTimeout opts"
    "1 \<le> o_adaptSuccesses opts" "1 \<le> o_shrinkAfter opts" "forceMaxStart opts \<Longrightarrow> startSize opts = maxSize opts"
    "0 \<le> o_reconnectEvery opts" "1 \<le> o_minPipeline opts" "o_minPipeline opts \<le> o_maxPipeline opts" "o_maxPipeline opts \<le> 256"
  shows "normalize_options opts = opts"
proof -
  have f: "(if forceMaxStart opts then opts\<lparr>startSize := maxSize opts\<rparr> else opts) = opts"
    using assms(7) by (cases opts) simp
  have n: "\<not> minSize opts < 32" "\<not> maxSize opts < minSize opts" "\<not> 1048576 < maxSize opts" "\<not> txnTimeout opts \<le> 0"
    "\<not> o_adaptSuccesses opts < 1" "\<not> o_shrinkAfter opts < 1" "\<not> o_reconnectEvery opts < 0" "\<not> o_maxPipeline opts < 1"
    "\<not> 256 < o_maxPipeline opts" "\<not> o_minPipeline opts < 1" "\<not> o_maxPipeline opts < o_minPipeline opts"
    using assms by simp_all
  note step = let_rule [where P = "\<lambda>x. x = opts" and J = "\<lambda>x. x = opts"]
  show ?thesis unfolding normalize_options_def
    by (rule step, simp only: n if_False f)+ (simp only: n if_False f)
qed

lemma x_normalize_id:
  assumes "32 \<le> xo_minSize opts" "xo_minSize opts \<le> xo_startSize opts" "xo_startSize opts \<le> xo_maxSize opts"
    "xo_maxSize opts \<le> 1048576" "1 \<le> xo_adaptSuccesses opts" "1 \<le> xo_pollers opts" "xo_pollers opts \<le> 128" "0 < xo_txnTimeout opts"
  shows "xNormalizeOptions opts = opts" and "xNormalizeBounds opts = opts"
proof -
  have n: "\<not> xo_minSize opts < 32" "\<not> xo_maxSize opts < xo_minSize opts" "\<not> int MaxChunkPayload < xo_maxSize opts"
    "\<not> xo_startSize opts < xo_minSize opts" "\<not> xo_maxSize opts < xo_startSize opts" "\<not> xo_adaptSuccesses opts < 1"
    "\<not> xo_pollers opts < 1" "\<not> 128 < xo_pollers opts" "\<not> xo_txnTimeout opts \<le> 0"
    using assms by (simp_all add: MaxChunk)
  note step = let_rule [where P = "\<lambda>x. x = opts" and J = "\<lambda>x. x = opts"]
  show "xNormalizeOptions opts = opts" unfolding xNormalizeOptions_def
    by (rule step, simp only: n if_False)+ (simp only: n if_False)
  show "xNormalizeBounds opts = opts" unfolding xNormalizeBounds_def Let_def by (simp only: n if_False)
qed

lemma sizes_stay:
  assumes "sizes_ok fl" and "adaptation_ok fl" and "0 \<le> fl_chunkReconnect fl" and "0 < fl_chunkTimeout fl"
  shows "normalize_options (chunk_options fl) = chunk_options fl"
    and "xNormalizeOptions (x_options fl) = x_options fl" and "xNormalizeBounds (x_options fl) = x_options fl"
proof -
  show "normalize_options (chunk_options fl) = chunk_options fl"
    by (rule normalize_id) (use assms in \<open>simp_all add: sizes_ok_def adaptation_ok_def chunk_options_def\<close>)
  show "xNormalizeOptions (x_options fl) = x_options fl"
    by (rule x_normalize_id(1)) (use assms in \<open>simp_all add: sizes_ok_def adaptation_ok_def x_options_def NewOptions_def\<close>)
  show "xNormalizeBounds (x_options fl) = x_options fl"
    by (rule x_normalize_id(2)) (use assms in \<open>simp_all add: sizes_ok_def adaptation_ok_def x_options_def NewOptions_def\<close>)
qed

text \<open>Checked once, used everywhere. The options of an accepted configuration pass unchanged through
  every later normalisation of the chunk tunnel and of the X transport (given a positive timeout, which
  no check demands), so what is calibrated and adapted later stays within what the user configured.\<close>

theorem accepted_options_stable:
  assumes "check_flags getenv fl = Inr c" and "0 < fl_chunkTimeout (cf_flags c)"
  shows "normalize_options (cf_chunkOpts c) = cf_chunkOpts c \<and> xNormalizeOptions (cf_xorOpts c) = cf_xorOpts c
    \<and> xNormalizeBounds (cf_xorOpts c) = cf_xorOpts c \<and> in_range (cf_chunkOpts c)"
proof -
  obtain f0 a b f1 f2 f3 where 1: "check_chunk_size f0 = Inr f1"
    and 2: "check_adaptation f1 = Inr f2" and 3: "check_wire f2 = Inr f3" and 4: "check_ssh f3 = Inr (cf_flags c)"
    and c: "cf_chunkOpts c = chunk_options (cf_flags c)" "cf_xorOpts c = x_options (cf_flags c)"
    using assms(1) by (auto simp: check_flags_def Let_def bind_sum_Inr)
  note k2 = check_adaptation_ok [OF 2 conjunct1 [OF check_chunk_size_ok [OF 1]]]
  obtain m v where f3: "f3 = f2\<lparr>fl_wireMode := m, fl_protocolVersion := v\<rparr>" using check_wire_ok [OF 3] by blast
  have f: "cf_flags c = f3" using check_ssh_ok [OF 4] by simp
  have s: "sizes_ok f3" "adaptation_ok f3" using k2 unfolding f3 by (simp_all add: sizes_ok_def adaptation_ok_def)
  have r: "0 \<le> fl_chunkReconnect f3" using check_wire_ok [OF 3] by (simp add: wire_ok_def)
  have "in_range (chunk_options f3)" using s by (simp add: in_range_def chunk_options_def sizes_ok_def adaptation_ok_def)
  with sizes_stay [OF s r] assms(2) f show ?thesis unfolding c f by simp
qed

theorem accepted_options_stable_witness:
  "normalize_options (chunk_options default_flags) = chunk_options default_flags"
  using accepted_options_stable [OF default_accepted] by (simp add: default_flags_def)

end
