(* ===== verification/Endpoint.thy ===== *)
theory Endpoint
  imports WireSelect NetAddr
begin

text \<open>
  The choice of the server's endpoint in \<^verbatim>\<open>main.go\<close>: the hosts a host argument stands
  for, and the scan of hosts and ports until one validates a wire. The resolver is an argument; the
  dials happen in the world of the lanes, and each detection takes its schedule.
\<close>

section \<open>Target hosts\<close>

text \<open>\<open>lookup\<close> is \<^verbatim>\<open>net.LookupIP\<close>, \<open>None\<close> for an error. The map
  \<^verbatim>\<open>seen\<close> of the source has the hosts listed so far as its keys.\<close>

definition add_host :: "string list \<Rightarrow> string \<Rightarrow> string list" where
  "add_host hosts h = (if h \<in> set hosts then hosts else hosts @ [h])"

definition hosts_of :: "(string \<Rightarrow> bytes list option) \<Rightarrow> string list \<Rightarrow> string \<Rightarrow> string list" where
  "hosts_of lookup hosts p =
     (let h = TrimSpace p in
      if h = [] then hosts
      else case ParseIP h of
        Some ip \<Rightarrow> add_host hosts (IPString ip)
      | None \<Rightarrow>
        (case lookup h of
           Some (ip # ips) \<Rightarrow>
             let v6 = map IPString (filter (\<lambda>ip. To4 ip = None) (ip # ips));
                 v4 = map IPString (filter (\<lambda>ip. To4 ip \<noteq> None) (ip # ips))
             in foldl add_host hosts (v6 @ v4)
         | _ \<Rightarrow> add_host hosts h))"

definition parseTargetHosts :: "(string \<Rightarrow> bytes list option) \<Rightarrow> string \<Rightarrow> string list" where
  "parseTargetHosts lookup input =
     (let hosts = foldl (hosts_of lookup) [] (Split input '','')
      in if hosts = [] then [input] else hosts)"

section \<open>The scan\<close>

text \<open>One TCP dial, closed at once.\<close>

definition serverPortReachableErr :: "world \<Rightarrow> bool \<times> world" where
  "serverPortReachableErr w =
     (let k = w_dialed w; w = w\<lparr>w_dialed := Suc k\<rparr> in
      case w_dials w k of
        Inl e \<Rightarrow> (False, w)
      | Inr c \<Rightarrow> (True, log_event (Closed k) (log_event (Dialed k) w)))"

definition endpoints :: "string list \<Rightarrow> int \<Rightarrow> int \<Rightarrow> (string \<times> int) list" where
  "endpoints hosts lo hi = concat (map (\<lambda>port. map (\<lambda>host. (host, port)) hosts) [lo..hi])"

text \<open>
  The loop over the endpoints; \<open>mk addr\<close> is the fresh selector for an address and \<open>sched n\<close>
  the schedule of the detection of the \<open>n\<close>-th endpoint.
\<close>

fun scan :: "(string \<Rightarrow> wireSelector) \<Rightarrow> (nat \<Rightarrow> detect_action list) \<Rightarrow> nat \<Rightarrow> (string \<times> int) list \<Rightarrow> world
   \<Rightarrow> ((wireSelector \<times> string \<times> int) option \<times> world) option" where
  "scan mk sched n [] w = Some (None, w)"
| "scan mk sched n ((host, port) # eps) w =
     (case serverPortReachableErr w of
        (False, w) \<Rightarrow> scan mk sched (Suc n) eps w
      | (True, w) \<Rightarrow>
        let addr = JoinHostPort host (dec_int port) in
        (case resolveOnly (sched n) (mk addr) w of
           None \<Rightarrow> None
         | Some (Inl err, selector, w) \<Rightarrow> scan mk sched (Suc n) eps w
         | Some (Inr choice, selector, w) \<Rightarrow> Some (Some (selector, addr, port), w)))"

definition selectServerEndpoint ::
  "(string \<Rightarrow> bytes list option) \<Rightarrow> (nat \<Rightarrow> detect_action list) \<Rightarrow> string \<Rightarrow> int \<Rightarrow> int \<Rightarrow> string \<Rightarrow> string
   \<Rightarrow> chunkClientOptions \<Rightarrow> xOptions \<Rightarrow> int \<Rightarrow> int \<Rightarrow> bool \<Rightarrow> world
   \<Rightarrow> ((goerr + wireSelector \<times> string \<times> int) \<times> world) option" where
  "selectServerEndpoint lookup sched hostInput portStart portEnd token configuredWire binOpts xorOpts probeDelay probeThreads
      forceClear w =
     (let hosts = parseTargetHosts lookup hostInput;
          mk = (\<lambda>addr. newWireSelector configuredWire addr token binOpts xorOpts probeDelay probeThreads forceClear)
      in case scan mk sched 0 (endpoints hosts portStart portEnd) w of
           None \<Rightarrow> None
         | Some (Some found, w) \<Rightarrow> Some (Inr found, w)
         | Some (None, w) \<Rightarrow> Some (Inl (Msg (''no working DragonTCP port found in '' @ dec_int portStart @ ''-'' @ dec_int portEnd)), w))"

section \<open>Hosts\<close>

lemma add_host_distinct: "distinct hosts \<Longrightarrow> distinct (add_host hosts h)"
  by (simp add: add_host_def)

lemma foldl_add_host: "distinct hosts \<Longrightarrow> distinct (foldl add_host hosts hs) \<and> set (foldl add_host hosts hs) = set hosts \<union> set hs"
proof (induction hs arbitrary: hosts)
  case (Cons h hs)
  from Cons.IH [OF add_host_distinct [OF Cons.prems, of h]] show ?case by (auto simp: add_host_def)
qed simp

lemma hosts_of_distinct: "distinct hosts \<Longrightarrow> distinct (hosts_of lookup hosts p)"
  by (auto simp: hosts_of_def Let_def add_host_distinct foldl_add_host simp del: foldl_append split: option.split list.split)

lemma foldl_distinct: "distinct hosts \<Longrightarrow> distinct (foldl (hosts_of lookup) hosts ps)"
  by (induction ps arbitrary: hosts) (simp_all add: hosts_of_distinct)

text \<open>The addresses of one name: IPv6 before IPv4, each once, in the resolver's order within a family.\<close>

lemma foldl_add_fresh:
  "distinct hs \<Longrightarrow> set hs \<inter> set hosts = {} \<Longrightarrow> foldl add_host hosts hs = hosts @ hs"
proof (induction hs arbitrary: hosts)
  case (Cons h hs)
  then have "add_host hosts h = hosts @ [h]" by (simp add: add_host_def)
  with Cons show ?case by auto
qed simp

section \<open>The endpoint found\<close>

lemma reachable_quiet: "quiet X w \<Longrightarrow> quiet X (snd (serverPortReachableErr w))"
proof -
  assume q: "quiet X w"
  then have k: "w_dialed w \<notin> live (w_log w)" by (auto simp: quiet_def world_ok_def)
  then have "insert (w_dialed w) (live (w_log w)) - {w_dialed w} = live (w_log w)" by auto
  with q k show ?thesis
    by (cases "w_dials w (w_dialed w)") (auto simp: serverPortReachableErr_def quiet_def world_ok_def log_event_def Let_def less_Suc_eq)
qed

lemma scan_quiet:
  "quiet X w \<Longrightarrow> scan mk sched n eps w = Some (r, w') \<Longrightarrow> quiet X w'"
proof (induction mk sched n eps w arbitrary: r w' rule: scan.induct)
  case (2 mk sched n host port eps w)
  obtain up w1 where u: "serverPortReachableErr w = (up, w1)" by fastforce
  have q1: "quiet X w1" using reachable_quiet [OF "2.prems"(1)] u by simp
  show ?case
  proof (cases up)
    case False
    with "2.IH"(2) [of up w1] "2.prems"(2) u q1 show ?thesis by simp
  next
    case True
    let ?a = "JoinHostPort host (dec_int port)"
    obtain m where m: "resolveOnly (sched n) (mk ?a) w1 = Some m"
      using "2.prems"(2) u True by (cases "resolveOnly (sched n) (mk ?a) w1") (auto simp: Let_def)
    obtain c s w2 where e: "m = (c, s, w2)" by (metis prod.collapse)
    have q2: "quiet X w2" using resolveOnly_quiet [OF q1] m e by blast
    show ?thesis
    proof (cases c)
      case (Inl err)
      have n: "scan mk sched (Suc n) eps w2 = Some (r, w')" using "2.prems"(2) u True m e Inl by (simp add: Let_def)
      show ?thesis by (rule "2.IH"(1) [OF u [symmetric] _ refl m]) (use True e Inl q2 n in auto)
    next
      case (Inr ch)
      with "2.prems"(2) u True m e q2 show ?thesis by (simp add: Let_def)
    qed
  qed
qed simp

text \<open>An endpoint is found after all those before it were given up.\<close>

lemma scan_found:
  assumes "scan mk sched n eps w = Some (Some (s, addr, port), w')"
  shows "\<exists>pre host post w1 w2 c. eps = pre @ (host, port) # post \<and> addr = JoinHostPort host (dec_int port)
    \<and> scan mk sched n pre w = Some (None, w1) \<and> serverPortReachableErr w1 = (True, w2)
    \<and> resolveOnly (sched (n + length pre)) (mk addr) w2 = Some (Inr c, s, w')"
  using assms
proof (induction mk sched n eps w rule: scan.induct)
  case (2 mk sched n host0 port0 eps w)
  obtain up w1 where u: "serverPortReachableErr w = (up, w1)" by fastforce
  let ?a = "JoinHostPort host0 (dec_int port0)"
  have shift: ?case if h: "\<exists>pre host post wa wb c. eps = pre @ (host, port) # post \<and> addr = JoinHostPort host (dec_int port)
      \<and> scan mk sched (Suc n) pre wn = Some (None, wa) \<and> serverPortReachableErr wa = (True, wb)
      \<and> resolveOnly (sched (Suc n + length pre)) (mk addr) wb = Some (Inr c, s, w')"
    and s1: "\<And>pre. scan mk sched n ((host0, port0) # pre) w = scan mk sched (Suc n) pre wn" for wn
  proof -
    from h obtain pre host post wa wb c where p: "eps = pre @ (host, port) # post" "addr = JoinHostPort host (dec_int port)"
      "scan mk sched (Suc n) pre wn = Some (None, wa)" "serverPortReachableErr wa = (True, wb)"
      "resolveOnly (sched (Suc n + length pre)) (mk addr) wb = Some (Inr c, s, w')" by blast
    have "scan mk sched n ((host0, port0) # pre) w = Some (None, wa)" unfolding s1 by (rule p(3))
    moreover have "Suc n + length pre = n + length ((host0, port0) # pre)" by simp
    ultimately show ?thesis using p by (metis append_Cons)
  qed
  show ?case
  proof (cases up)
    case False
    have s1: "scan mk sched n ((host0, port0) # pre) w = scan mk sched (Suc n) pre w1" for pre using u False by simp
    have "scan mk sched (Suc n) eps w1 = Some (Some (s, addr, port), w')" using "2.prems" s1 by simp
    from "2.IH"(2) [OF u [symmetric] _ this] False show ?thesis by (intro shift [OF _ s1]) simp
  next
    case True
    obtain m where m: "resolveOnly (sched n) (mk ?a) w1 = Some m"
      using "2.prems" u True by (cases "resolveOnly (sched n) (mk ?a) w1") (auto simp: Let_def)
    obtain c sl w2 where e: "m = (c, sl, w2)" by (metis prod.collapse)
    show ?thesis
    proof (cases c)
      case (Inl err)
      have s1: "scan mk sched n ((host0, port0) # pre) w = scan mk sched (Suc n) pre w2" for pre
        using u True m e Inl by (simp add: Let_def)
      have "scan mk sched (Suc n) eps w2 = Some (Some (s, addr, port), w')" using "2.prems" s1 by simp
      then have "\<exists>pre host post wa wb c. eps = pre @ (host, port) # post \<and> addr = JoinHostPort host (dec_int port)
        \<and> scan mk sched (Suc n) pre w2 = Some (None, wa) \<and> serverPortReachableErr wa = (True, wb)
        \<and> resolveOnly (sched (Suc n + length pre)) (mk addr) wb = Some (Inr c, s, w')"
        by (rule_tac "2.IH"(1) [OF u [symmetric] _ refl m]) (use True e Inl in auto)
      then show ?thesis by (rule shift [OF _ s1])
    next
      case (Inr ch)
      then have r: "sl = s" "addr = ?a" "port0 = port" "w2 = w'" using "2.prems" u True m e by (auto simp: Let_def)
      have "scan mk sched n [] w = Some (None, w)" by simp
      moreover have "resolveOnly (sched (n + length [])) (mk addr) w1 = Some (Inr ch, s, w')" using m e Inr r by (metis add.right_neutral list.size(3))
      ultimately show ?thesis using u True r(2,3) by (metis append_Nil)
    qed
  qed
qed simp

lemma name_hosts:
  assumes "CHR '','' \<notin> set input" and "TrimSpace input = input" and "input \<noteq> []" and "ParseIP input = None"
    and "lookup input = Some ips" and "ips \<noteq> []" and "distinct (map IPString ips)"
  shows "parseTargetHosts lookup input
    = map IPString (filter (\<lambda>ip. To4 ip = None) ips) @ map IPString (filter (\<lambda>ip. To4 ip \<noteq> None) ips)"
proof -
  let ?v = "map IPString (filter (\<lambda>ip. To4 ip = None) ips) @ map IPString (filter (\<lambda>ip. To4 ip \<noteq> None) ips)"
  have "Index input '','' = None" using assms(1) by (induction input) auto
  then have sp: "Split input '','' = [input]" by (simp add: Split.simps [of input])
  have i: "inj_on IPString (set ips)" "distinct ips" using assms(7) by (simp_all add: distinct_map)
  have "distinct ?v" unfolding distinct_append
  proof (intro conjI)
    show "distinct (map IPString (filter (\<lambda>ip. To4 ip = None) ips))" "distinct (map IPString (filter (\<lambda>ip. To4 ip \<noteq> None) ips))"
      using assms(7) by (rule distinct_map_filter)+
    show "set (map IPString (filter (\<lambda>ip. To4 ip = None) ips)) \<inter> set (map IPString (filter (\<lambda>ip. To4 ip \<noteq> None) ips)) = {}"
      using inj_onD [OF i(1)] by fastforce
  qed
  then have f: "foldl add_host [] ?v = ?v" using foldl_add_fresh [of ?v "[]"] by simp
  have "hosts_of lookup [] input = foldl add_host [] ?v"
    using assms(2-6) by (cases ips) (simp_all add: hosts_of_def Let_def)
  moreover have "?v \<noteq> []"
  proof -
    obtain x where "x \<in> set ips" using assms(6) by (cases ips) auto
    then have "IPString x \<in> set ?v" by (cases "To4 x = None") auto
    then show ?thesis by (metis empty_iff empty_set)
  qed
  ultimately show ?thesis unfolding parseTargetHosts_def sp using f by simp
qed



end
