(* ===== verification/Listener.thy ===== *)
theory Listener
  imports HttpFront "HOL-Library.Multiset"
begin

text \<open>
  The two accept loops, of the HTTP proxy (\<^verbatim>\<open>main.go\<close>) and of the SOCKS proxy
  (\<^verbatim>\<open>socks5.go\<close>): a channel of slots bounds the connections served at a time. A
  handler first gives its slot back and then closes its connection, so the loop and all handlers are
  interleaved at these points. What a handler does in between is \<open>HttpFront\<close> and \<open>Socks\<close>.
\<close>

section \<open>The loops\<close>

datatype handler_pc = Running | Released

record listener =
  li_cap :: nat
  li_slots :: nat
  li_conns :: "(nat \<times> handler_pc) list"
  li_next :: nat
  li_stopped :: bool

text \<open>A connection is known by its number in the order of acceptance.\<close>

datatype listen_event = Served nat | Refused nat conn | ConnClosed nat

datatype listen_action = Incoming conn | AcceptFails | HandlerReturns nat | HandlerCloses nat

definition listener_start :: "nat \<Rightarrow> listener" where
  "listener_start cap = \<lparr>li_cap = cap, li_slots = 0, li_conns = [], li_next = 0, li_stopped = False\<rparr>"

text \<open>The channels: \<^verbatim>\<open>make\<close> panics for a negative size; only the SOCKS proxy corrects it.\<close>

definition http_listener :: "int \<Rightarrow> listener option" where
  "http_listener maxConnections = (if maxConnections < 0 then None else Some (listener_start (nat maxConnections)))"

definition startSOCKS5Proxy :: "goerr option \<Rightarrow> int \<Rightarrow> goerr + listener" where
  "startSOCKS5Proxy listenErr maxConnections =
     (case listenErr of Some e \<Rightarrow> Inl e
      | None \<Rightarrow> let maxConnections = (if maxConnections < 1 then 1 else maxConnections)
          in Inr (listener_start (nat maxConnections)))"

text \<open>
  One step: \<open>refuse\<close> is what happens to a connection for which there is no slot, and
  \<open>stops\<close> says whether a failed accept ends the loop.
\<close>

fun accept_step :: "(conn \<Rightarrow> conn) \<Rightarrow> bool \<Rightarrow> listen_action \<Rightarrow> listener \<Rightarrow> (listen_event list \<times> listener) option" where
  "accept_step refuse stops (Incoming c) l =
     (if li_stopped l then None
      else let k = li_next l; l = l\<lparr>li_next := Suc k\<rparr> in
        if li_slots l < li_cap l
        then Some ([Served k], l\<lparr>li_slots := Suc (li_slots l), li_conns := li_conns l @ [(k, Running)]\<rparr>)
        else Some ([Refused k (refuse c), ConnClosed k], l))"
| "accept_step refuse stops AcceptFails l =
     (if li_stopped l then None else Some ([], l\<lparr>li_stopped := stops\<rparr>))"
| "accept_step refuse stops (HandlerReturns k) l =
     (if (k, Running) \<in> set (li_conns l)
      then Some ([], l\<lparr>li_slots := li_slots l - 1,
             li_conns := map (\<lambda>h. if h = (k, Running) then (k, Released) else h) (li_conns l)\<rparr>)
      else None)"
| "accept_step refuse stops (HandlerCloses k) l =
     (if (k, Released) \<in> set (li_conns l)
      then Some ([ConnClosed k], l\<lparr>li_conns := filter (\<lambda>h. h \<noteq> (k, Released)) (li_conns l)\<rparr>)
      else None)"

definition http_accept_step :: "listen_action \<Rightarrow> listener \<Rightarrow> (listen_event list \<times> listener) option" where
  "http_accept_step = accept_step (\<lambda>c. writeHTTPError c 503 ''Service Unavailable'' ''proxy connection limit reached'') False"

definition socks_accept_step :: "listen_action \<Rightarrow> listener \<Rightarrow> (listen_event list \<times> listener) option" where
  "socks_accept_step = accept_step (\<lambda>c. c) True"

inductive listen_run ::
  "(listen_action \<Rightarrow> listener \<Rightarrow> (listen_event list \<times> listener) option) \<Rightarrow> listener \<Rightarrow> listen_event list \<Rightarrow> listener \<Rightarrow> bool"
  for step where
  listen_run_start: "listen_run step l [] l"
| listen_run_step: "listen_run step l evs l1 \<Longrightarrow> step a l1 = Some (evs1, l2) \<Longrightarrow> listen_run step l (evs @ evs1) l2"

section \<open>Slots and connections\<close>

fun closed_conns :: "listen_event list \<Rightarrow> nat multiset" where
  "closed_conns [] = {#}"
| "closed_conns (ConnClosed k # evs) = add_mset k (closed_conns evs)"
| "closed_conns (Served k # evs) = closed_conns evs"
| "closed_conns (Refused k c # evs) = closed_conns evs"

lemma closed_conns_append [simp]: "closed_conns (a @ b) = closed_conns a + closed_conns b"
  by (induction a rule: closed_conns.induct) simp_all

definition running :: "listener \<Rightarrow> nat" where
  "running l = length (filter (\<lambda>(k, pc). pc = Running) (li_conns l))"

definition li_ok :: "listen_event list \<Rightarrow> listener \<Rightarrow> bool" where
  "li_ok evs l \<longleftrightarrow> li_slots l = running l \<and> running l \<le> li_cap l
     \<and> closed_conns evs + mset (map fst (li_conns l)) = mset [0..<li_next l]"

lemma conns_distinct: "li_ok evs l \<Longrightarrow> distinct (map fst (li_conns l))"
proof -
  assume "li_ok evs l"
  then have s: "mset (map fst (li_conns l)) \<subseteq># mset [0..<li_next l]" unfolding li_ok_def by (metis mset_subset_eq_add_right)
  have "count (mset (map fst (li_conns l))) k \<le> 1" for k
    using mset_subset_eq_count [OF s, of k] distinct_count_atmost_1 [of "[0..<li_next l]"] by (simp split: if_splits)
  moreover have "k \<in> set (map fst (li_conns l)) \<Longrightarrow> 0 < count (mset (map fst (li_conns l))) k" for k
    by (simp only: count_greater_zero_iff set_mset_mset)
  ultimately show ?thesis unfolding distinct_count_atmost_1
    by (metis One_nat_def count_mset_0_iff le_less_Suc_eq less_one not_less_zero order_less_le)
qed

lemma returned_running:
  "distinct (map fst hs) \<Longrightarrow> (k, Running) \<in> set hs \<Longrightarrow>
    length (filter (\<lambda>(k, pc). pc = Running) hs)
      = Suc (length (filter (\<lambda>(k, pc). pc = Running) (map (\<lambda>h. if h = (k, Running) then (k, Released) else h) hs)))"
proof (induction hs)
  case (Cons h hs)
  show ?case
  proof (cases "h = (k, Running)")
    case True
    with Cons.prems(1) have "h \<notin> set hs" by force
    then have "map (\<lambda>h. if h = (k, Running) then (k, Released) else h) hs = hs"
      using True by (intro map_idI) auto
    with True show ?thesis by simp
  next
    case False
    with Cons show ?thesis by (auto simp: case_prod_beta)
  qed
qed simp

lemma returned_numbers: "map fst (map (\<lambda>h. if h = (k, Running) then (k, Released) else h) hs) = map fst hs"
  by (induction hs) auto

lemma closed_numbers:
  "distinct (map fst hs) \<Longrightarrow> (k, Released) \<in> set hs \<Longrightarrow>
    add_mset k (mset (map fst (filter (\<lambda>h. h \<noteq> (k, Released)) hs))) = mset (map fst hs)"
proof (induction hs)
  case (Cons h hs)
  show ?case
  proof (cases "h = (k, Released)")
    case True
    with Cons.prems(1) have "h \<notin> set hs" by force
    then have "filter (\<lambda>h. h \<noteq> (k, Released)) hs = hs" using True by (intro filter_True) auto
    with True show ?thesis by simp
  next
    case False
    with Cons show ?thesis by auto
  qed
qed simp

lemma filter_running_released:
  "filter (\<lambda>(k, pc). pc = Running) (filter (\<lambda>h. h \<noteq> (k, Released)) hs) = filter (\<lambda>(k, pc). pc = Running) hs"
  by (induction hs) auto

lemma accept_step_ok:
  assumes ok: "li_ok evs l" and s: "accept_step refuse stops a l = Some (evs', l')"
  shows "li_ok (evs @ evs') l' \<and> li_cap l' = li_cap l"
proof (cases a)
  case (Incoming c)
  with s ok show ?thesis
    by (auto simp: li_ok_def running_def Let_def atLeast0_lessThan_Suc split: if_splits)
next
  case AcceptFails
  with s ok show ?thesis by (auto simp: li_ok_def running_def split: if_splits)
next
  case (HandlerReturns k)
  with s have m: "(k, Running) \<in> set (li_conns l)" by (auto split: if_splits)
  note r = returned_running [OF conns_distinct [OF ok] m]
  from HandlerReturns s m have l': "evs' = []" "li_next l' = li_next l" "li_cap l' = li_cap l" "li_slots l' = li_slots l - 1"
    "li_conns l' = map (\<lambda>h. if h = (k, Running) then (k, Released) else h) (li_conns l)" by auto
  have "Suc (running l') = running l" unfolding running_def l'(5) by (rule r [symmetric])
  then show ?thesis using ok unfolding li_ok_def l' returned_numbers by (simp add: l')
next
  case (HandlerCloses k)
  with s have m: "(k, Released) \<in> set (li_conns l)" by (auto split: if_splits)
  note c = closed_numbers [OF conns_distinct [OF ok] m]
  from HandlerCloses s m have l': "evs' = [ConnClosed k]" "li_next l' = li_next l" "li_cap l' = li_cap l" "li_slots l' = li_slots l"
    "li_conns l' = filter (\<lambda>h. h \<noteq> (k, Released)) (li_conns l)" by auto
  have r: "running l' = running l" unfolding running_def l'(5) filter_running_released ..
  have "closed_conns (evs @ evs') + mset (map fst (li_conns l')) = closed_conns evs + mset (map fst (li_conns l))"
    unfolding c [symmetric] l'(1,5) closed_conns_append by (simp del: mset_map)
  with ok r l' show ?thesis unfolding li_ok_def by simp
qed

text \<open>What a run keeps; a loop that a failed accept does not stop never stops, and without slots none is served.\<close>

lemma listen_run_ok:
  assumes "listen_run (accept_step refuse stops) (listener_start cap) evs l"
  shows "li_ok evs l \<and> li_cap l = cap \<and> (li_stopped l \<longrightarrow> stops) \<and> (cap = 0 \<longrightarrow> (\<forall>k. Served k \<notin> set evs))"
  using assms
proof (induction "listener_start cap" evs l rule: listen_run.induct)
  case listen_run_start
  then show ?case by (simp add: listener_start_def li_ok_def running_def)
next
  case (listen_run_step evs l1 a evs1 l2)
  then have ok: "li_ok evs l1" "li_cap l1 = cap" and s: "accept_step refuse stops a l1 = Some (evs1, l2)" by auto
  have "li_stopped l2 \<longrightarrow> stops \<or> li_stopped l1" using s by (cases a) (auto simp: Let_def split: if_splits)
  moreover have "cap = 0 \<longrightarrow> (\<forall>k. Served k \<notin> set evs1)" using s ok by (cases a) (auto simp: Let_def split: if_splits)
  ultimately show ?case using listen_run_step accept_step_ok [OF ok(1) s] by auto
qed

section \<open>The properties\<close>

lemma refused_only_full:
  assumes "li_ok evs l" and "\<not> li_stopped l"
  shows "accept_step refuse stops (Incoming c) l =
    Some (if running l < li_cap l
      then ([Served (li_next l)], l\<lparr>li_next := Suc (li_next l), li_slots := Suc (li_slots l), li_conns := li_conns l @ [(li_next l, Running)]\<rparr>)
      else ([Refused (li_next l) (refuse c), ConnClosed (li_next l)], l\<lparr>li_next := Suc (li_next l)\<rparr>))"
  using assms by (simp add: li_ok_def Let_def)

text \<open>C37: Both proxies bound what they serve and lose no connection. Whatever the order in which
  connections come in, accepting fails and handlers end, at most the configured number of handlers
  hold a slot, each accepted connection is with a handler or was closed exactly once, and one is
  turned away only when all slots are held: by the HTTP proxy with a complete 503 answer, by the
  SOCKS proxy without a word. A failed accept ends the SOCKS loop but never the HTTP one. The SOCKS
  proxy always serves at least one connection; the HTTP proxy does not correct its limit, and with a
  limit of zero serves none.\<close>

theorem slots_bound_connections:
  assumes "http_listener n = Some h0" and "startSOCKS5Proxy None m = Inr s0"
    and "listen_run http_accept_step h0 hevs h" and "listen_run socks_accept_step s0 sevs s"
  shows "int (running h) \<le> n \<and> int (running s) \<le> max 1 m
    \<and> closed_conns hevs + mset (map fst (li_conns h)) = mset [0..<li_next h]
    \<and> closed_conns sevs + mset (map fst (li_conns s)) = mset [0..<li_next s]
    \<and> (\<forall>c. \<exists>h'. http_accept_step (Incoming c) h = Some (if int (running h) < n then ([Served (li_next h)], h')
        else ([Refused (li_next h) (writeHTTPError c 503 ''Service Unavailable'' ''proxy connection limit reached''),
               ConnClosed (li_next h)], h')))
    \<and> (\<forall>c. \<not> li_stopped s \<longrightarrow> (\<exists>s'. socks_accept_step (Incoming c) s = Some (if int (running s) < max 1 m
        then ([Served (li_next s)], s') else ([Refused (li_next s) c, ConnClosed (li_next s)], s'))))
    \<and> (n = 0 \<longrightarrow> (\<forall>k. Served k \<notin> set hevs))"
proof -
  have h0: "h0 = listener_start (nat n)" "0 \<le> n" using assms(1) by (auto simp: http_listener_def split: if_splits)
  have s0: "s0 = listener_start (nat (max 1 m))" using assms(2) by (auto simp: startSOCKS5Proxy_def Let_def max_def)
  from listen_run_ok [OF assms(3) [unfolded http_accept_step_def h0]]
  have h: "li_ok hevs h" "li_cap h = nat n" "\<not> li_stopped h" "n = 0 \<longrightarrow> (\<forall>k. Served k \<notin> set hevs)" by auto
  from listen_run_ok [OF assms(4) [unfolded socks_accept_step_def s0]]
  have s: "li_ok sevs s" "li_cap s = nat (max 1 m)" by auto
  have c: "running h < nat n \<longleftrightarrow> int (running h) < n" "running s < nat (max 1 m) \<longleftrightarrow> int (running s) < max 1 m" by linarith+
  have H: "\<exists>h'. http_accept_step (Incoming c) h = Some (if int (running h) < n then ([Served (li_next h)], h')
        else ([Refused (li_next h) (writeHTTPError c 503 ''Service Unavailable'' ''proxy connection limit reached''),
               ConnClosed (li_next h)], h'))" for c
    unfolding http_accept_step_def refused_only_full [OF h(1,3)] h(2) c by (cases "int (running h) < n") simp_all
  have S: "\<exists>s'. socks_accept_step (Incoming c) s = Some (if int (running s) < max 1 m
        then ([Served (li_next s)], s') else ([Refused (li_next s) c, ConnClosed (li_next s)], s'))" if "\<not> li_stopped s" for c
    unfolding socks_accept_step_def refused_only_full [OF s(1) that] s(2) c by (cases "int (running s) < max 1 m") simp_all
  have "int (running h) \<le> n" "int (running s) \<le> max 1 m" using h s h0(2) by (auto simp: li_ok_def)
  moreover have "closed_conns hevs + mset (map fst (li_conns h)) = mset [0..<li_next h]"
    "closed_conns sevs + mset (map fst (li_conns s)) = mset [0..<li_next s]" using h(1) s(1) by (simp_all add: li_ok_def)
  ultimately show ?thesis using H S h(4) by blast
qed

theorem slots_bound_connections_witness:
  "\<exists>h. listen_run http_accept_step (listener_start 1) [Served 0, Refused 1 (writeHTTPError open_conn 503 ''Service Unavailable'' ''proxy connection limit reached''), ConnClosed 1] h
    \<and> int (running h) \<le> 1"
proof -
  let ?r = "writeHTTPError open_conn 503 ''Service Unavailable'' ''proxy connection limit reached''"
  let ?h1 = "\<lparr>li_cap = 1, li_slots = 1, li_conns = [(0, Running)], li_next = 1, li_stopped = False\<rparr>"
  let ?h2 = "?h1\<lparr>li_next := 2\<rparr>"
  have h: "http_listener 1 = Some (listener_start 1)" by (simp add: http_listener_def)
  have s: "startSOCKS5Proxy None 0 = Inr (listener_start 1)" by (simp add: startSOCKS5Proxy_def)
  have 1: "http_accept_step (Incoming open_conn) (listener_start 1) = Some ([Served 0], ?h1)"
    by (simp add: http_accept_step_def listener_start_def Let_def)
  have 2: "http_accept_step (Incoming open_conn) ?h1 = Some ([Refused 1 ?r, ConnClosed 1], ?h2)"
    by (simp add: http_accept_step_def Let_def)
  have r: "listen_run http_accept_step (listener_start 1) [Served 0, Refused 1 ?r, ConnClosed 1] ?h2"
  proof -
    have "listen_run http_accept_step (listener_start 1) ([] @ [Served 0]) ?h1"
      by (rule listen_run_step [where step = http_accept_step, OF listen_run_start 1])
    from listen_run_step [where step = http_accept_step, OF this 2] show ?thesis by simp
  qed
  from slots_bound_connections [OF h s r listen_run_start] r show ?thesis by blast
qed

end
