(* ===== verification/Tuning.thy ===== *)
theory Tuning
  imports Prelude
begin

text \<open>
  Socket options: \<^verbatim>\<open>TuneTCP\<close>, \<^verbatim>\<open>TuneTCPBuffer\<close> and
  \<^verbatim>\<open>extractTCPConn\<close> of \<^verbatim>\<open>protocol.go\<close>, on the connections the program
  passes to them, and the option methods of the SSH carrier. The lemmas show that a setting reaches
  the socket at the bottom of any stack of wrappers and nothing else.
\<close>

section \<open>Connections\<close>

datatype sockopt = NoDelay bool | KeepAlive bool | KeepAlivePeriod int | ReadBuffer int | WriteBuffer int

fun opt_name :: "sockopt \<Rightarrow> string" where
  "opt_name (NoDelay b) = ''SetNoDelay''"
| "opt_name (KeepAlive b) = ''SetKeepAlive''"
| "opt_name (KeepAlivePeriod d) = ''SetKeepAlivePeriod''"
| "opt_name (ReadBuffer n) = ''SetReadBuffer''"
| "opt_name (WriteBuffer n) = ''SetWriteBuffer''"

text \<open>
  A TCP socket by number, the two wrappers of the repository, the tunnels of the three transports,
  which have none of the optional methods, and a connection of another library: the methods it has
  by name, and what \<^verbatim>\<open>NetConn\<close>, \<^verbatim>\<open>Underlying\<close> and
  \<^verbatim>\<open>RawConn\<close> answer where it has them.
\<close>

datatype net_conn =
    NilConn
  | TCPConn nat
  | Buffered net_conn
  | SSHCarrier net_conn
  | TunnelConn
  | ForeignConn nat "string list" "net_conn option" "net_conn option" "net_conn option"

datatype opt_target = Socket nat | Foreign nat

section \<open>The code\<close>

fun extractTCPConn :: "net_conn \<Rightarrow> nat option" where
  "extractTCPConn NilConn = None"
| "extractTCPConn (TCPConn k) = Some k"
| "extractTCPConn (Buffered c) = extractTCPConn c"
| "extractTCPConn (SSHCarrier raw) = extractTCPConn raw"
| "extractTCPConn TunnelConn = None"
| "extractTCPConn (ForeignConn i ms netConn underlying rawConn) =
     (case netConn of Some c \<Rightarrow> extractTCPConn c
      | None \<Rightarrow> (case underlying of Some c \<Rightarrow> extractTCPConn c
        | None \<Rightarrow> (case rawConn of Some c \<Rightarrow> extractTCPConn c | None \<Rightarrow> None)))"

text \<open>
  An option method of a connection, \<open>None\<close> where it has none; those of the carrier set the
  option of a TCP connection, forward it to a connection that has the method, or do nothing.
\<close>

fun set_option :: "sockopt \<Rightarrow> net_conn \<Rightarrow> (opt_target \<times> sockopt) list option" where
  "set_option opt (TCPConn k) = Some [(Socket k, opt)]"
| "set_option opt (SSHCarrier raw) = Some (case set_option opt raw of Some evs \<Rightarrow> evs | None \<Rightarrow> [])"
| "set_option opt (ForeignConn i ms nc ul rc) = (if opt_name opt \<in> set ms then Some [(Foreign i, opt)] else None)"
| "set_option opt NilConn = None"
| "set_option opt (Buffered c) = None"
| "set_option opt TunnelConn = None"

definition try_option :: "net_conn \<Rightarrow> sockopt \<Rightarrow> (opt_target \<times> sockopt) list" where
  "try_option c opt = (case set_option opt c of Some evs \<Rightarrow> evs | None \<Rightarrow> [])"

definition TuneTCP :: "net_conn \<Rightarrow> (opt_target \<times> sockopt) list" where
  "TuneTCP c =
     (if c = NilConn then []
      else case extractTCPConn c of
        Some k \<Rightarrow> [(Socket k, NoDelay True), (Socket k, KeepAlive True), (Socket k, KeepAlivePeriod 30000000000)]
      | None \<Rightarrow> try_option c (NoDelay True) @ try_option c (KeepAlive True) @ try_option c (KeepAlivePeriod 30000000000))"

definition TuneTCPBuffer :: "net_conn \<Rightarrow> int \<Rightarrow> (opt_target \<times> sockopt) list" where
  "TuneTCPBuffer c n =
     (if c = NilConn \<or> n \<le> 0 then []
      else case extractTCPConn c of
        Some k \<Rightarrow> [(Socket k, ReadBuffer n), (Socket k, WriteBuffer n)]
      | None \<Rightarrow> try_option c (ReadBuffer n) @ try_option c (WriteBuffer n))"

section \<open>What a setting reaches\<close>

text \<open>What carries the bytes of a connection in the end: a socket, a tunnel or a foreign connection.\<close>

fun bottom :: "net_conn \<Rightarrow> net_conn" where
  "bottom (Buffered c) = bottom c"
| "bottom (SSHCarrier raw) = bottom raw"
| "bottom c = c"

fun plain_foreign :: "net_conn \<Rightarrow> bool" where
  "plain_foreign (ForeignConn i ms nc ul rc) = (nc = None \<and> ul = None \<and> rc = None)"
| "plain_foreign c = True"

lemma extract_bottom: "extractTCPConn c = extractTCPConn (bottom c)"
  by (induction c rule: bottom.induct) simp_all

lemma try_option_simps [simp]:
  "try_option (TCPConn k) opt = [(Socket k, opt)]"
  "try_option (SSHCarrier raw) opt = try_option raw opt"
  "try_option (ForeignConn i ms nc ul rc) opt = (if opt_name opt \<in> set ms then [(Foreign i, opt)] else [])"
  "try_option NilConn opt = []" "try_option (Buffered c) opt = []" "try_option TunnelConn opt = []"
  by (simp_all add: try_option_def)

lemma try_option_forwards: "set (try_option c opt) \<subseteq> set (try_option (bottom c) opt)"
  by (induction c rule: bottom.induct) simp_all

lemma bottom_bare: "bottom c \<noteq> Buffered d" "bottom c \<noteq> SSHCarrier d"
  by (induction c rule: bottom.induct) simp_all

text \<open>Tuning reaches the socket. However deep it is wrapped, a TCP socket gets exactly the
  three settings, and its buffers exactly when a size is given; a tunnel gets none; a foreign
  connection with no inner one at most those it has methods for; and no other connection is touched.\<close>

theorem tuning_reaches_socket:
  assumes "plain_foreign (bottom c)"
  shows "case bottom c of
      TCPConn k \<Rightarrow> TuneTCP c = [(Socket k, NoDelay True), (Socket k, KeepAlive True), (Socket k, KeepAlivePeriod 30000000000)]
        \<and> TuneTCPBuffer c n = (if n \<le> 0 then [] else [(Socket k, ReadBuffer n), (Socket k, WriteBuffer n)])
    | ForeignConn i ms nc ul rc \<Rightarrow> \<forall>(t, opt) \<in> set (TuneTCP c @ TuneTCPBuffer c n). t = Foreign i \<and> opt_name opt \<in> set ms
    | _ \<Rightarrow> TuneTCP c = [] \<and> TuneTCPBuffer c n = []"
proof -
  have e: "extractTCPConn c = extractTCPConn (bottom c)" by (rule extract_bottom)
  have t: "set (try_option c opt) \<subseteq> set (try_option (bottom c) opt)" for opt by (rule try_option_forwards)
  have nil: "c = NilConn \<Longrightarrow> bottom c = NilConn" by simp
  show ?thesis
  proof (cases "bottom c")
    case (TCPConn k)
    then have "c \<noteq> NilConn" using nil by auto
    with TCPConn e show ?thesis by (simp add: TuneTCP_def TuneTCPBuffer_def)
  next
    case (ForeignConn i ms nc ul rc)
    then have "c \<noteq> NilConn" and x: "extractTCPConn c = None" using nil assms e by auto
    moreover have "opt_name opt \<in> set ms \<and> target = Foreign i" if "(target, opt) \<in> set (try_option c opt')" for target opt opt'
      using t [of opt'] that unfolding ForeignConn by (auto split: if_splits)
    ultimately show ?thesis unfolding ForeignConn net_conn.case
      by (auto simp: TuneTCP_def TuneTCPBuffer_def split: if_splits)
  next
    case NilConn
    have "try_option c opt = []" for opt using t [of opt] unfolding NilConn by simp
    with NilConn e show ?thesis by (simp add: TuneTCP_def TuneTCPBuffer_def)
  next
    case TunnelConn
    have "try_option c opt = []" for opt using t [of opt] unfolding TunnelConn by simp
    with TunnelConn e show ?thesis by (simp add: TuneTCP_def TuneTCPBuffer_def)
  qed (simp_all add: bottom_bare)
qed

theorem tuning_reaches_socket_witness:
  "TuneTCPBuffer (SSHCarrier (Buffered (TCPConn 7))) 65536 = [(Socket 7, ReadBuffer 65536), (Socket 7, WriteBuffer 65536)]
    \<and> TuneTCP (SSHCarrier TunnelConn) = []"
  using tuning_reaches_socket [of "SSHCarrier (Buffered (TCPConn 7))" 65536] tuning_reaches_socket [of "SSHCarrier TunnelConn" 0]
  by simp

end
