(* ===== verification/Sustained.thy ===== *)
theory Sustained
  imports Complex_Main WireSelect
begin

text \<open>
  The sustained throughput test that may follow a calibration (\<^verbatim>\<open>--iperf-duration\<close>), in
  the two copies of \<^verbatim>\<open>chunk.go\<close> and \<^verbatim>\<open>xorchunk/chunk.go\<close>, and its
  place behind the calibration of each transport. Its workers are interleaved probe by probe; the
  clock each of them reads comes with the schedule. Rates are rational numbers here.
\<close>

section \<open>The test\<close>

record 'w sustained =
  su_alive :: "bool list"
  su_bytes :: int
  su_errors :: nat
  su_world :: 'w

text \<open>Worker \<open>i\<close> reads the clock and either probes once more or ends.\<close>

definition worker_turn :: "'w prober \<Rightarrow> int \<Rightarrow> int \<Rightarrow> nat \<times> int \<Rightarrow> 'w sustained \<Rightarrow> 'w sustained option" where
  "worker_turn probe safeChunk deadline turn t =
     (case turn of (i, now) \<Rightarrow>
        if \<not> (i < length (su_alive t) \<and> su_alive t ! i) then None
        else if now < deadline then
          (case probe safeChunk (su_world t) of (res, w) \<Rightarrow>
             Some (if \<not> pr_ok res then t\<lparr>su_errors := Suc (su_errors t), su_world := w\<rparr>
                   else t\<lparr>su_bytes := su_bytes t + pr_bytes res, su_world := w\<rparr>))
        else Some (t\<lparr>su_alive := (su_alive t)[i := False]\<rparr>))"

fun worker_turns :: "'w prober \<Rightarrow> int \<Rightarrow> int \<Rightarrow> (nat \<times> int) list \<Rightarrow> 'w sustained \<Rightarrow> 'w sustained option" where
  "worker_turns probe safeChunk deadline [] t = Some t"
| "worker_turns probe safeChunk deadline (x # xs) t =
     (case worker_turn probe safeChunk deadline x t of None \<Rightarrow> None
      | Some t \<Rightarrow> worker_turns probe safeChunk deadline xs t)"

definition mbps :: "int \<Rightarrow> int \<Rightarrow> rat" where
  "mbps bytes elapsed = (if elapsed > 0 then of_int bytes * 8 / 1000000 / (of_int elapsed / 1000000000) else 0)"

text \<open>
  The whole test, started at a time and over at another, \<open>None\<close> if the schedule leaves a worker
  running.
\<close>

definition sustained_test ::
  "'w prober \<Rightarrow> (int \<Rightarrow> int) \<Rightarrow> int \<Rightarrow> int \<Rightarrow> int \<Rightarrow> rat \<Rightarrow> int \<Rightarrow> (nat \<times> int) list \<Rightarrow> int \<Rightarrow> 'w
   \<Rightarrow> (iperfProbeResult \<times> 'w) option" where
  "sustained_test probe scale min_chunk safeChunk0 duration0 target0 started turns ended w =
     (let duration = (if duration0 \<le> 0 then 15000000000 else duration0);
          targetMbps = (if target0 \<le> 0 then 1 else target0);
          safeChunk = (if safeChunk0 \<le> 0 then min_chunk else safeChunk0);
          safeChunk = (if safeChunk < 32 then 32 else safeChunk);
          workers = scale safeChunk;
          t = \<lparr>su_alive = replicate (nat workers) True, su_bytes = 0, su_errors = 0, su_world = w\<rparr>
      in (case worker_turns probe safeChunk (started + duration) turns t of
            None \<Rightarrow> None
          | Some t \<Rightarrow>
            if True \<in> set (su_alive t) then None
            else
              let targetReached = mbps (su_bytes t) (ended - started) \<ge> targetMbps
              in Some (\<lparr>pr_ok = targetReached \<or> su_bytes t > 0, pr_bytes = su_bytes t, pr_err = None\<rparr>, su_world t)))"

definition probeIperfSustainedParallel ::
  "bytes \<Rightarrow> chunkClientOptions \<Rightarrow> byte \<Rightarrow> int \<Rightarrow> int \<Rightarrow> rat \<Rightarrow> int \<Rightarrow> (nat \<times> int) list \<Rightarrow> int \<Rightarrow> world
   \<Rightarrow> (iperfProbeResult \<times> world) option" where
  "probeIperfSustainedParallel token opts kind = sustained_test (probeIperfOne token opts kind) calculateParallelWorkers (minSize opts)"

definition probeCalibrationSustainedParallel ::
  "string \<Rightarrow> string \<Rightarrow> xOptions \<Rightarrow> bool \<Rightarrow> int \<Rightarrow> int \<Rightarrow> rat \<Rightarrow> int \<Rightarrow> (nat \<times> int) list \<Rightarrow> int \<Rightarrow> world
   \<Rightarrow> (iperfProbeResult \<times> world) option" where
  "probeCalibrationSustainedParallel serverAddr token opts down =
     sustained_test (probeCalibrationSize serverAddr token opts down) CalculateParallelWorkers (xo_minSize opts)"

section \<open>Behind the calibration\<close>

text \<open>
  How the two runs of a test went: start, schedule and end of each. Without a duration there is none.
\<close>

record test_run =
  tr_started :: int
  tr_turns :: "(nat \<times> int) list"
  tr_ended :: int

definition getPathProfile_iperf ::
  "string \<Rightarrow> bytes \<Rightarrow> chunkClientOptions \<Rightarrow> int \<Rightarrow> rat \<Rightarrow> test_run \<Rightarrow> test_run \<Rightarrow> int \<Rightarrow> profileState \<Rightarrow> world
   \<Rightarrow> (pathProfile \<times> profileState \<times> world) option" where
  "getPathProfile_iperf serverAddr token opts iperfDuration iperfTargetMbps r1 r2 now st w =
     (if ps_key st = path_key serverAddr token opts \<and> now - pp_at (ps_p st) < 1800000000000 then Some (ps_p st, st, w)
      else (case getPathProfile serverAddr token opts now st w of (p, st, w) \<Rightarrow>
        if iperfDuration > 0 then
          let targetMbps = (if iperfTargetMbps \<le> 0 then 1 else iperfTargetMbps) in
          (case probeIperfSustainedParallel token opts ProbeUpload (pp_upload p) iperfDuration targetMbps
                  (tr_started r1) (tr_turns r1) (tr_ended r1) w of
             None \<Rightarrow> None
           | Some (_, w) \<Rightarrow>
             (case probeIperfSustainedParallel token opts ProbeDownload (pp_download p) iperfDuration targetMbps
                     (tr_started r2) (tr_turns r2) (tr_ended r2) w of
                None \<Rightarrow> None
              | Some (_, w) \<Rightarrow> Some (p, st, w)))
        else Some (p, st, w)))"

definition xCalibrate_iperf ::
  "string \<Rightarrow> string \<Rightarrow> xOptions \<Rightarrow> int \<Rightarrow> int \<Rightarrow> rat \<Rightarrow> test_run \<Rightarrow> test_run \<Rightarrow> world \<Rightarrow> ((int \<times> int \<times> bool) \<times> world) option" where
  "xCalibrate_iperf serverAddr token opts0 fine iperfDuration iperfTargetMbps r1 r2 w =
     (case xCalibrate serverAddr token opts0 fine w of ((up, down, persistent), w) \<Rightarrow>
        if iperfDuration > 0 then
          let opts = xNormalizeBounds opts0; targetMbps = (if iperfTargetMbps \<le> 0 then 1 else iperfTargetMbps) in
          (case probeCalibrationSustainedParallel serverAddr token opts False up iperfDuration targetMbps
                  (tr_started r1) (tr_turns r1) (tr_ended r1) w of
             None \<Rightarrow> None
           | Some (_, w) \<Rightarrow>
             (case probeCalibrationSustainedParallel serverAddr token opts True down iperfDuration targetMbps
                     (tr_started r2) (tr_turns r2) (tr_ended r2) w of
                None \<Rightarrow> None
              | Some (_, w) \<Rightarrow> Some ((up, down, persistent), w)))
        else Some ((up, down, persistent), w))"

text \<open>
  \<^verbatim>\<open>prepare\<close> of the wire selector with the test behind its calibration.
\<close>

definition calibrate_choice_iperf ::
  "int \<Rightarrow> rat \<Rightarrow> test_run \<Rightarrow> test_run \<Rightarrow> int \<Rightarrow> wireChoice \<Rightarrow> wireSelector \<Rightarrow> profileState \<Rightarrow> world
   \<Rightarrow> (wireSelector \<times> profileState \<times> world) option" where
  "calibrate_choice_iperf iperfDuration iperfTargetMbps r1 r2 now choice s st w =
     (if wc_mode choice = WireXOR then
        let xopts = xor_choice choice (ws_xorOpts s) in
        (case xCalibrate_iperf (ws_serverAddr s) (ws_token s) xopts calibrationFineResolution
                iperfDuration iperfTargetMbps r1 r2 w of
           None \<Rightarrow> None
         | Some ((up, down, persistent), w) \<Rightarrow>
           let safeChunk = min up down;
               workers = CalculateParallelWorkers safeChunk;
               xopts = (if workers > xo_pollers xopts then WithPollers workers xopts else xopts);
               xopts = WithCalibratedChunks up down xopts
           in Some (s\<lparr>ws_xorOpts := xopts\<rparr>, st, w))
      else
        (case getPathProfile_iperf (ws_serverAddr s) (bytes_of (ws_token s))
                (bin_choice choice (ws_binOpts s)) iperfDuration iperfTargetMbps r1 r2 now st w of
           None \<Rightarrow> None
         | Some (profile, st, w) \<Rightarrow> Some (s, st, w)))"

definition prepare_iperf ::
  "int \<Rightarrow> rat \<Rightarrow> test_run \<Rightarrow> test_run \<Rightarrow> detect_action list \<Rightarrow> int \<Rightarrow> wireSelector \<Rightarrow> profileState \<Rightarrow> world
   \<Rightarrow> ((goerr + wireChoice) \<times> wireSelector \<times> profileState \<times> world) option" where
  "prepare_iperf iperfDuration iperfTargetMbps r1 r2 as now s st w =
     (case resolveOnly as s w of
        None \<Rightarrow> None
      | Some (Inl e, s, w) \<Rightarrow> Some (Inl (Msg ''DragonTCP authentication/wire validation failed''), s, st, w)
      | Some (Inr choice, s, w) \<Rightarrow>
        (case calibrate_choice_iperf iperfDuration iperfTargetMbps r1 r2 now choice s st w of
           None \<Rightarrow> None
         | Some (s, st, w) \<Rightarrow> Some (Inr choice, s, st, w)))"

section \<open>What the test keeps\<close>

text \<open>A probe that keeps a property of the world; then the test, however scheduled, keeps it too.\<close>

locale steady_prober =
  fixes probe :: "'w prober" and keeps :: "'w \<Rightarrow> bool"
  assumes steady: "keeps w \<Longrightarrow> keeps (snd (probe c w))"
begin

lemma turn: "worker_turn probe c d x t = Some t' \<Longrightarrow> keeps (su_world t) \<Longrightarrow> keeps (su_world t')"
  using steady [of "su_world t" c] by (auto simp: worker_turn_def split: if_splits prod.splits)

lemma turns: "worker_turns probe c d xs t = Some t' \<Longrightarrow> keeps (su_world t) \<Longrightarrow> keeps (su_world t')"
proof (induction xs arbitrary: t)
  case (Cons x xs)
  then show ?case using turn by (auto split: option.splits)
qed simp

lemma test: "sustained_test probe par mn c d g s xs e w = Some (r, w') \<Longrightarrow> keeps w \<Longrightarrow> keeps w'"
  by (auto simp: sustained_test_def Let_def dest: turns split: option.splits if_splits)

end

interpretation iperf: steady_prober "probeIperfOne token opts kind" "quiet X" for token opts kind X
  by unfold_locales (rule probeIperfOne_quiet)

interpretation calibration: steady_prober "probeCalibrationSize srv token opts down" "quiet X" for srv token opts down X
  by unfold_locales (rule conjunct1 [OF probeCalibrationSize_step])

text \<open>The bytes are those of the successful probes, in whatever order.\<close>

fun probed_in :: "'w prober \<Rightarrow> int \<Rightarrow> int \<Rightarrow> (nat \<times> int) list \<Rightarrow> 'w \<Rightarrow> iperfProbeResult list" where
  "probed_in probe c d [] w = []"
| "probed_in probe c d ((i, now) # xs) w =
     (if now < d then (case probe c w of (r, w) \<Rightarrow> r # probed_in probe c d xs w) else probed_in probe c d xs w)"

lemma turns_count:
  "worker_turns probe c d xs t = Some t' \<Longrightarrow>
    su_bytes t' = su_bytes t + sum_list (map pr_bytes (filter pr_ok (probed_in probe c d xs (su_world t))))
    \<and> su_errors t' = su_errors t + length (filter (\<lambda>r. \<not> pr_ok r) (probed_in probe c d xs (su_world t)))"
proof (induction xs arbitrary: t)
  case (Cons x xs)
  obtain i now where x: "x = (i, now)" by fastforce
  with Cons show ?case by (auto simp: worker_turn_def split: if_splits prod.splits)
qed simp

text \<open>A turn after the deadline ends its worker.\<close>

lemma ended_worker:
  assumes "i < length bs" and "bs ! i"
  shows "Suc (length (filter (\<lambda>b. b) (bs[i := False]))) = length (filter (\<lambda>b. b) bs)"
proof -
  have "filter (\<lambda>b. b) bs = filter (\<lambda>b. b) (take i bs) @ True # filter (\<lambda>b. b) (drop (Suc i) bs)"
    using assms by (subst id_take_nth_drop [OF assms(1)]) simp
  then show ?thesis by (simp add: upd_conv_take_nth_drop [OF assms(1)])
qed

lemma late_turns:
  "worker_turns probe c d xs t = Some t' \<Longrightarrow>
    length (filter (\<lambda>(i, now). d \<le> now) xs) + length (filter (\<lambda>b. b) (su_alive t')) = length (filter (\<lambda>b. b) (su_alive t))"
proof (induction xs arbitrary: t)
  case (Cons x xs)
  obtain i now where x: "x = (i, now)" by fastforce
  with Cons.prems obtain t1 where s: "worker_turn probe c d (i, now) t = Some t1" "worker_turns probe c d xs t1 = Some t'"
    by (auto split: option.splits)
  then have i: "i < length (su_alive t)" "su_alive t ! i" by (auto simp: worker_turn_def split: if_splits)
  show ?case
  proof (cases "now < d")
    case True
    then have "su_alive t1 = su_alive t" using s(1) i by (auto simp: worker_turn_def split: prod.splits if_splits)
    with Cons.IH [OF s(2)] True x show ?thesis by simp
  next
    case False
    then have "su_alive t1 = (su_alive t)[i := False]" using s(1) i by (auto simp: worker_turn_def)
    with Cons.IH [OF s(2)] False x ended_worker [OF i] show ?thesis by simp
  qed
qed simp

lemma mbps_positive: "0 < g \<Longrightarrow> g \<le> mbps n e \<Longrightarrow> 0 < n"
proof (rule ccontr)
  assume g: "0 < g" "g \<le> mbps n e" and "\<not> 0 < n"
  then have "(of_int n :: rat) \<le> 0" by simp
  then have "mbps n e \<le> 0" by (simp add: mbps_def divide_nonpos_pos)
  with g show False by simp
qed

text \<open>The calibration with the tests behind it: the same result, and nothing left open.\<close>

lemma getPathProfile_iperf_same:
  assumes g: "getPathProfile_iperf srv token opts iperf rate r1 r2 now st v = Some (p, st', v')" and q: "quiet X v"
  shows "(\<exists>u. getPathProfile srv token opts now st v = (p, st', u)) \<and> quiet X v'"
proof (cases "ps_key st = path_key srv token opts \<and> now - pp_at (ps_p st) < 1800000000000")
  case True
  then have "(p, st', v') = (ps_p st, st, v)" using g by (auto simp: getPathProfile_iperf_def)
  with True q show ?thesis by (auto simp: getPathProfile_def Let_def)
next
  case False
  obtain p0 st0 u where o: "getPathProfile srv token opts now st v = (p0, st0, u)" by (metis prod.collapse)
  have qu: "quiet X u" using getPathProfile_quiet [OF q, of srv token opts now st] o by simp
  show ?thesis
  proof (cases "iperf > 0")
    case True
    let ?g = "if rate \<le> 0 then 1 else rate"
    obtain x1 w1 where 1: "probeIperfSustainedParallel token opts ProbeUpload (pp_upload p0) iperf ?g
        (tr_started r1) (tr_turns r1) (tr_ended r1) u = Some (x1, w1)"
      using g o False True by (auto simp: getPathProfile_iperf_def Let_def split: option.splits)
    obtain x2 where 2: "probeIperfSustainedParallel token opts ProbeDownload (pp_download p0) iperf ?g
        (tr_started r2) (tr_turns r2) (tr_ended r2) w1 = Some (x2, v')" and e: "p0 = p" "st0 = st'"
      using g o False True 1 by (auto simp: getPathProfile_iperf_def Let_def split: option.splits)
    from iperf.test [OF 1 [unfolded probeIperfSustainedParallel_def] qu] have "quiet X w1" .
    from iperf.test [OF 2 [unfolded probeIperfSustainedParallel_def] this] o e show ?thesis by simp
  next
    case off: False
    have "getPathProfile_iperf srv token opts iperf rate r1 r2 now st v = Some (p0, st0, u)"
      using False off o by (auto simp: getPathProfile_iperf_def)
    with g o qu show ?thesis by simp
  qed
qed

lemma xCalibrate_iperf_same:
  assumes g: "xCalibrate_iperf srv token opts fine iperf rate r1 r2 v = Some (x, v')" and q: "quiet X v"
    and m: "xo_minSize opts \<le> int MaxChunkPayload"
  shows "(\<exists>u. xCalibrate srv token opts fine v = (x, u)) \<and> quiet X v'"
proof -
  obtain up down k u where o: "xCalibrate srv token opts fine v = ((up, down, k), u)" by (metis prod.collapse)
  have qu: "quiet X u" using xCalibrate_quiet [OF q m, of srv token fine] o by simp
  show ?thesis
  proof (cases "iperf > 0")
    case True
    let ?g = "if rate \<le> 0 then 1 else rate" and ?o = "xNormalizeBounds opts"
    obtain x1 w1 where 1: "probeCalibrationSustainedParallel srv token ?o False up iperf ?g
        (tr_started r1) (tr_turns r1) (tr_ended r1) u = Some (x1, w1)"
      using g o True by (auto simp: xCalibrate_iperf_def Let_def split: option.splits)
    obtain x2 where 2: "probeCalibrationSustainedParallel srv token ?o True down iperf ?g
        (tr_started r2) (tr_turns r2) (tr_ended r2) w1 = Some (x2, v')" and e: "x = (up, down, k)"
      using g o True 1 by (auto simp: xCalibrate_iperf_def Let_def split: option.splits)
    from calibration.test [OF 1 [unfolded probeCalibrationSustainedParallel_def] qu] have "quiet X w1" .
    from calibration.test [OF 2 [unfolded probeCalibrationSustainedParallel_def] this] o e show ?thesis by simp
  next
    case False
    then have "xCalibrate_iperf srv token opts fine iperf rate r1 r2 v = Some ((up, down, k), u)"
      using o by (simp add: xCalibrate_iperf_def)
    with g o qu show ?thesis by simp
  qed
qed

lemma calibrate_choice_iperf_same:
  assumes c: "calibrate_choice_iperf iperf rate r1 r2 now choice s st v = Some (s', st', v')" and q: "quiet X v"
    and m: "xo_minSize (ws_xorOpts s) \<le> int MaxChunkPayload"
  shows "(\<exists>u. calibrate_choice now choice s st v = (s', st', u)) \<and> quiet X v'"
proof (cases "wc_mode choice = WireXOR")
  case True
  let ?x = "xor_choice choice (ws_xorOpts s)"
  have m': "xo_minSize ?x \<le> int MaxChunkPayload"
    using m by (simp add: xor_choice_def WithCoverProfile_def WithHeaderMask_def)
  obtain up down k v1 where x: "xCalibrate_iperf (ws_serverAddr s) (ws_token s) ?x calibrationFineResolution iperf rate r1 r2 v
      = Some ((up, down, k), v1)"
    using c True by (auto simp: calibrate_choice_iperf_def Let_def split: option.splits)
  with xCalibrate_iperf_same [OF x q m'] c True show ?thesis
    by (auto simp: calibrate_choice_iperf_def calibrate_choice_def Let_def)
next
  case False
  obtain p st1 v1 where x: "getPathProfile_iperf (ws_serverAddr s) (bytes_of (ws_token s)) (bin_choice choice (ws_binOpts s))
      iperf rate r1 r2 now st v = Some (p, st1, v1)"
    using c False by (auto simp: calibrate_choice_iperf_def split: option.splits)
  with getPathProfile_iperf_same [OF x q] c False show ?thesis
    by (auto simp: calibrate_choice_iperf_def calibrate_choice_def)
qed

lemma calibrate_choice_iperf_off:
  "iperf \<le> 0 \<Longrightarrow> calibrate_choice_iperf iperf rate r1 r2 now choice s st v = Some (calibrate_choice now choice s st v)"
  by (auto simp: calibrate_choice_iperf_def calibrate_choice_def getPathProfile_iperf_def getPathProfile_def
      xCalibrate_iperf_def Let_def split: prod.splits)

text \<open>
  Any run of the tests leaves what \<^verbatim>\<open>prepare\<close> answers and stores as it is without
  them, and nothing open; without a duration there is none.
\<close>

lemma prepare_iperf_same:
  assumes p: "prepare_iperf iperf rate r1 r2 as now s st v = Some (r, s', st', v')" and q: "quiet X v"
    and h: "ws_hasChoice s" and m: "xo_minSize (ws_xorOpts s) \<le> int MaxChunkPayload"
  shows "(\<exists>u. prepare as now s st v = Some (r, s', st', u)) \<and> quiet X v'"
proof -
  have e: "resolveOnly as s v = Some (Inr (ws_resolved s), s, v)" using h by (simp add: resolveOnly_def)
  then have c: "calibrate_choice_iperf iperf rate r1 r2 now (ws_resolved s) s st v = Some (s', st', v')" "r = Inr (ws_resolved s)"
    using p by (auto simp: prepare_iperf_def split: option.splits)
  with calibrate_choice_iperf_same [OF c(1) q m] e show ?thesis by (auto simp: prepare_def)
qed

lemma prepare_iperf_schedule:
  "ws_hasChoice s \<Longrightarrow> prepare_iperf iperf rate r1 r2 as now s st w = prepare_iperf iperf rate r1 r2 as' now s st w"
  by (simp add: prepare_iperf_def resolveOnly_def)

lemma prepare_iperf_off:
  assumes "iperf \<le> 0"
  shows "prepare_iperf iperf rate r1 r2 as now s st w = prepare as now s st w"
  by (auto simp: prepare_iperf_def prepare_def calibrate_choice_iperf_off [OF assms] split: option.splits sum.splits prod.splits)

section \<open>The properties\<close>



end
