(* ===== verification/Startup.thy ===== *)
theory Startup
  imports CmdLine Endpoint SshTunnel Listener Sustained
begin

text \<open>
  \<^verbatim>\<open>main\<close> as a whole: the flags, the port scan, the calibration, the SSH client and
  the two listeners, in the order in which each depends on the one before. What comes from outside
  the repository is one record of arguments.
\<close>

section \<open>Parameters\<close>

text \<open>The state the SSH library sees: the selector, the path profile, the network, and its own.\<close>

type_synonym 'l run_state = "wireSelector \<times> profileState \<times> world \<times> 'l"

text \<open>
  The environment and the resolver, the schedules of the detections of the scan and of
  \<^verbatim>\<open>prepare\<close>, the clock at the calibration, how the two throughput tests
  behind it went, the detection and the clock at the SSH dial, the SSH library, and what the two calls of \<^verbatim>\<open>net.Listen\<close> answer.
\<close>

record 'l outside =
  ou_getenv :: "string \<Rightarrow> string"
  ou_lookup :: "string \<Rightarrow> bytes list option"
  ou_scan :: "nat \<Rightarrow> detect_action list"
  ou_prepare :: "detect_action list"
  ou_now :: int
  ou_tests :: "test_run \<times> test_run"
  ou_sshDial :: "detect_action list \<times> int"
  ou_ssh :: "('l run_state, carrier) ssh_env"
  ou_listenSocks :: "goerr option"
  ou_listenHttp :: "goerr option"

text \<open>The manager dials its carrier through the selector; the rest is the library.\<close>

definition wires_env ::
  "detect_action list \<Rightarrow> int \<Rightarrow> ('l run_state, carrier) ssh_env \<Rightarrow> ('l run_state, carrier) ssh_env" where
  "wires_env as now env = env\<lparr>env_dial := (\<lambda>host port (wires, st, w, l).
     (case sel_dial as host port now wires st w of
        None \<Rightarrow> (Inl (Msg ''detection is still running''), (wires, st, w, l))
      | Some (r, wires, st, w) \<Rightarrow> (r, (wires, st, w, l))))\<rparr>"

section \<open>The start\<close>

text \<open>
  How it ends: an exit with a status and its message, the panic of \<^verbatim>\<open>make\<close> for a
  negative number of slots, or serving, with the SSH manager and its SOCKS listener in SSH mode.
\<close>

datatype startup_end =
    Exited int string
  | Panicked
  | Serving string int "(sshTunnelManager \<times> listener) option" listener

definition start_ssh ::
  "'l outside \<Rightarrow> flags \<Rightarrow> 'l run_state \<Rightarrow> (startup_end + (sshTunnelManager \<times> listener) option) \<times> 'l run_state" where
  "start_ssh out fl s =
     (if TrimSpace (fl_sshUser fl) = [] then (Inr None, s)
      else case newSSHTunnelManager (fl_sshUser fl) (fl_sshPassword fl) (fl_sshInternalHost fl) (fl_sshInternalPort fl)
             (fl_sshHostKeyPin fl) (fl_sshUDPGWHost fl) (fl_sshUDPGWPort fl) (fl_tcpBuffer fl) of
        Inl e \<Rightarrow> (Inl (Exited 2 (err_text e)), s)
      | Inr m \<Rightarrow>
        (case connectLocked (wires_env (fst (ou_sshDial out)) (snd (ou_sshDial out)) (ou_ssh out)) m s of
           (Inl e, m, s, evs) \<Rightarrow> (Inl (Exited 1 (''SSH startup failed: '' @ err_text e)), s)
         | (Inr k, m, s, evs) \<Rightarrow>
           (case startSOCKS5Proxy (ou_listenSocks out) (fl_maxConnections fl) of
              Inl e \<Rightarrow> (Inl (Exited 1 (''SOCKS5 listen failed: '' @ err_text e)), s)
            | Inr socks \<Rightarrow> (Inr (Some (m, socks)), s))))"

text \<open>
  \<^verbatim>\<open>main\<close> from the parsed flags to its accept loop; \<open>None\<close> if a schedule of a
  detection or of a throughput test ends too early.
\<close>

definition startup :: "'l outside \<Rightarrow> flags \<Rightarrow> profileState \<Rightarrow> world \<Rightarrow> 'l \<Rightarrow> (startup_end \<times> profileState \<times> world \<times> wireSelector option) option" where
  "startup out fl0 st w l =
     (case check_flags (ou_getenv out) fl0 of
        Inl e \<Rightarrow> Some (Exited 2 e, st, w, None)
      | Inr c \<Rightarrow>
        let fl = cf_flags c in
        (case selectServerEndpoint (ou_lookup out) (ou_scan out) (fl_serverHost fl) (cf_portStart c) (cf_portEnd c)
               (fl_token fl) (fl_wireMode fl) (cf_chunkOpts c) (cf_xorOpts c) (fl_wireProbeDelay fl)
               (fl_wireProbeThreads fl) (fl_forceClearPayload fl) w of
           None \<Rightarrow> None
         | Some (Inl e, w) \<Rightarrow> Some (Exited 1 (''DragonTCP port discovery failed: '' @ err_text e), st, w, None)
         | Some (Inr (wires, serverAddr, selectedPort), w) \<Rightarrow>
           (case prepare_iperf (fl_iperfDuration fl) (fl_iperfTargetMbps fl) (fst (ou_tests out)) (snd (ou_tests out))
                  (ou_prepare out) (ou_now out) wires st w of
              None \<Rightarrow> None
            | Some (Inl e, wires, st, w) \<Rightarrow> Some (Exited 1 (''DragonTCP startup preflight failed: '' @ err_text e), st, w, Some wires)
            | Some (Inr choice, wires, st, w) \<Rightarrow>
              (case start_ssh out fl (wires, st, w, l) of
                 (Inl e, (wires, st, w, l)) \<Rightarrow> Some (e, st, w, Some wires)
               | (Inr ssh, (wires, st, w, l)) \<Rightarrow>
                 (case ou_listenHttp out of
                    Some e \<Rightarrow> Some (Exited 1 (err_text e), st, w, Some wires)
                  | None \<Rightarrow>
                    (case http_listener (fl_maxConnections fl) of
                       None \<Rightarrow> Some (Panicked, st, w, Some wires)
                     | Some http \<Rightarrow> Some (Serving serverAddr selectedPort ssh http, st, w, Some wires)))))))"

section \<open>The steps in turn\<close>

lemma selected_endpoint:
  assumes "selectServerEndpoint lookup sched input lo hi token wire bo xo pd pt fc w = Some (Inr (s, addr, port), w')"
    and "world_ok w"
  shows "lo \<le> port \<and> port \<le> hi \<and> ws_hasChoice s \<and> ws_serverAddr s = addr \<and> ws_configured s = wire \<and> ws_forceClear s = fc
    \<and> ws_binOpts s = bo \<and> ws_xorOpts s = xo \<and> ws_candidateOverride s = None \<and> ws_resolved s \<in> set (candidates s)
    \<and> quiet (live (w_log w)) w'"
proof -
  let ?mk = "\<lambda>addr. newWireSelector wire addr token bo xo pd pt fc" and ?hosts = "parseTargetHosts lookup input"
  have sc: "scan ?mk sched 0 (endpoints ?hosts lo hi) w = Some (Some (s, addr, port), w')"
    using assms(1) by (auto simp: selectServerEndpoint_def Let_def split: option.splits)
  from scan_found [OF this] obtain pre host post w2 c n
    where e: "endpoints ?hosts lo hi = pre @ (host, port) # post" and r: "resolveOnly (sched n) (?mk addr) w2 = Some (Inr c, s, w')"
    by blast
  have "(host, port) \<in> set (endpoints ?hosts lo hi)" unfolding e by simp
  then have p: "lo \<le> port" "port \<le> hi" by (auto simp: endpoints_def)
  have n: "\<not> ws_hasChoice (?mk addr)" "ws_configured (?mk addr) = wire" "ws_forceClear (?mk addr) = fc"
    "ws_candidateOverride (?mk addr) = None" "ws_serverAddr (?mk addr) = addr" "ws_binOpts (?mk addr) = bo" "ws_xorOpts (?mk addr) = xo"
    by (simp_all add: newWireSelector_def)
  from r n(1) have f: "s = fix_choice c (?mk addr)" and c: "c \<in> set (candidates (?mk addr))"
    by (auto simp: resolveOnly_def split: option.splits dest: detectLocked_candidate)
  have "candidates s = candidates (?mk addr)"
    by (rule sel_config_candidates) (simp add: f fix_choice_def sel_config_def)
  moreover have "quiet (live (w_log w)) w" using assms(2) by (simp add: quiet_def)
  note scan_quiet [OF this sc]
  ultimately show ?thesis using p c n f resolveOnly_found [OF r] by (simp add: fix_choice_def)
qed

text \<open>With the choice fixed, \<^verbatim>\<open>prepare\<close> looks for no wire and only calibrates.\<close>

lemma prepared:
  assumes "prepare as now s st w = Some (r, s1, st1, w1)" and "ws_hasChoice s"
  shows "r = Inr (ws_resolved s) \<and> (s1, st1, w1) = calibrate_choice now (ws_resolved s) s st w
    \<and> ws_hasChoice s1 \<and> ws_resolved s1 = ws_resolved s \<and> ws_serverAddr s1 = ws_serverAddr s
    \<and> ws_binOpts s1 = ws_binOpts s \<and> sel_config s1 = sel_config s"
proof -
  have "resolveOnly as s w = Some (Inr (ws_resolved s), s, w)" using assms(2) by (simp add: resolveOnly_def)
  with assms(1) have "r = Inr (ws_resolved s)" "(s1, st1, w1) = calibrate_choice now (ws_resolved s) s st w"
    by (auto simp: prepare_def split: prod.splits)
  then show ?thesis using assms(2) by (auto simp: calibrate_choice_def sel_config_def Let_def split: if_splits prod.splits)
qed

lemma carrier_world: "carrier_ok c w \<Longrightarrow> world_ok w"
  by (cases c) (auto simp: conn_ok_def bp_ok_def xc_ok_def tunnel_ok_def lane_ok_def lane_own_def lanes_ok_def xlanes_def txn_ok_def txn_own_def)

text \<open>
  What is assumed of the SSH library in a handshake: it works on the carrier it is given, so it
  leaves the selector and the path profile alone and the world in order.
\<close>

definition handshake_keeps :: "('l run_state, carrier) ssh_env \<Rightarrow> bool" where
  "handshake_keeps env \<longleftrightarrow> (\<forall>t a b addr u p wires st w l e wires' st' w' l'.
     env_handshake env t a b addr u p (wires, st, w, l) = (e, (wires', st', w', l')) \<and> world_ok w
     \<longrightarrow> wires' = wires \<and> st' = st \<and> world_ok w')"

text \<open>A dial over a fixed choice.\<close>

lemma fixed_dial_sound:
  assumes "ws_hasChoice s" and "world_ok w" and "minSize (ws_binOpts s) \<le> 1048576"
  obtains r st' w' where "sel_dial as host port now s st w = Some (r, s, st', w')"
    "case r of Inl e \<Rightarrow> live (w_log w') = live (w_log w)
     | Inr k \<Rightarrow> carrier_ok k w' \<and> carrier_others k w' = live (w_log w) \<and> carrier_wire k = wire_of (ws_resolved s)"
proof -
  obtain r st' w' where o: "open_choice (ws_resolved s) host port now s st w = (r, st', w')" by (metis prod.collapse)
  have "sel_dial as host port now s st w = Some (r, s, st', w')" using assms(1) o by (simp add: sel_dial_def sel_mode_def)
  moreover have "quiet (live (w_log w)) w" using assms(2) by (simp add: quiet_def)
  note open_choice_sound [OF this assms(3) o]
  moreover note open_choice_wire [of "ws_resolved s" host port now s st w _ st' w'] o
  ultimately show ?thesis by (intro that [of r st' w']) (auto split: sum.splits)
qed

lemma start_ssh_sound:
  assumes "start_ssh out fl (s, st, w, l) = (Inr ssh, (s', st', w', l'))" and "ws_hasChoice s" and "world_ok w"
    and "minSize (ws_binOpts s) \<le> 1048576" and "handshake_keeps (ou_ssh out)"
  shows "s' = s \<and> world_ok w' \<and> (ssh = None \<longleftrightarrow> TrimSpace (fl_sshUser fl) = []) \<and> (ssh = None \<longrightarrow> w' = w \<and> st' = st)
    \<and> (\<forall>m socks. ssh = Some (m, socks) \<longrightarrow> sm_client m = Some 0 \<and> \<not> sm_closed m)"
proof (cases "TrimSpace (fl_sshUser fl) = []")
  case True
  with assms(1,3) show ?thesis by (auto simp: start_ssh_def)
next
  case False
  obtain m where m: "newSSHTunnelManager (fl_sshUser fl) (fl_sshPassword fl) (fl_sshInternalHost fl) (fl_sshInternalPort fl)
             (fl_sshHostKeyPin fl) (fl_sshUDPGWHost fl) (fl_sshUDPGWPort fl) (fl_tcpBuffer fl) = Inr m"
    using assms(1) False by (auto simp: start_ssh_def split: sum.splits)
  then have m0: "sm_client m = None" "\<not> sm_closed m" "sm_made m = 0"
    by (auto simp: newSSHTunnelManager_def Let_def split: if_splits)
  let ?e = "wires_env (fst (ou_sshDial out)) (snd (ou_sshDial out)) (ou_ssh out)"
  obtain r m1 s1 evs where c: "connectLocked ?e m (s, st, w, l) = (r, m1, s1, evs)" by (metis prod.collapse)
  obtain d st1 w1 where d: "sel_dial (fst (ou_sshDial out)) (sm_internalHost m) (sm_internalPort m) (snd (ou_sshDial out)) s st w
      = Some (d, s, st1, w1)" and ds: "case d of Inl e \<Rightarrow> live (w_log w1) = live (w_log w)
     | Inr k \<Rightarrow> carrier_ok k w1 \<and> carrier_others k w1 = live (w_log w) \<and> carrier_wire k = wire_of (ws_resolved s)"
    by (rule fixed_dial_sound [OF assms(2,3,4)])
  have dial: "env_dial ?e (sm_internalHost m) (sm_internalPort m) (s, st, w, l) = (d, (s, st1, w1, l))"
    using d by (simp add: wires_env_def)
  have hs: "env_handshake ?e = env_handshake (ou_ssh out)" by (simp add: wires_env_def)
  from assms(1) False m c obtain k where k: "r = Inr k" "s1 = (s', st', w', l')" and e: "\<exists>socks. ssh = Some (m1, socks)"
    by (auto simp: start_ssh_def split: sum.splits)
  from k c m0 dial obtain t where t: "d = Inr t" by (cases d) (auto simp: connectLocked_def Let_def)
  have "carrier_ok t w1" using ds t by simp
  note w1 = carrier_world [OF this]
  from c k t m0 dial have h: "env_handshake (ou_ssh out) t sshCarrierWriteBatch
        (if sm_tcpBuffer m > sshCarrierMaxBuffered then sm_tcpBuffer m else sshCarrierMaxBuffered)
        (JoinHostPort (sm_internalHost m) (dec_int (sm_internalPort m))) (sm_username m) (sm_password m) (s, st1, w1, l)
      = (None, (s', st', w', l'))" "m1 = m\<lparr>sm_client := Some 0, sm_made := 1\<rparr>"
    by (auto simp: connectLocked_def Let_def hs split: option.splits prod.splits)
  with assms(5) w1 have "s' = s \<and> world_ok w'" unfolding handshake_keeps_def by blast
  then show ?thesis using e h(2) False m0 by auto
qed

lemma start_ssh_exits: "start_ssh out fl s = (Inl e, s') \<Longrightarrow> \<exists>code msg. e = Exited code msg \<and> code \<in> {1, 2}"
  by (auto simp: start_ssh_def split: if_splits sum.splits prod.splits)

lemma accepted_ranges:
  assumes "check_flags getenv fl = Inr c"
  shows "in_range (cf_chunkOpts c)" and "minSize (cf_chunkOpts c) \<le> 1048576" and "xo_minSize (cf_xorOpts c) \<le> int MaxChunkPayload"
  using check_flags_ok [OF assms]
  by (auto simp: in_range_def chunk_options_def x_options_def NewOptions_def sizes_ok_def adaptation_ok_def MaxChunk)

lemma forced_wire:
  assumes "ws_candidateOverride s = None" and "c \<in> set (candidates s)" and "ws_forceClear s"
    and "ws_configured s \<in> {WireBinary, WireBP, WireAuto}"
  shows "cp_clear (wc_cover c) \<and> \<not> cp_xor (wc_cover c)"
  using assms(1,2) forced_candidates(1) [OF assms(3,4)]
  by (auto simp: candidates_def forcedClearChoice_def Let_def)

text \<open>Everything \<^verbatim>\<open>main\<close> has done when it serves.\<close>

lemma startup_serving:
  assumes "startup out fl st w l = Some (Serving addr port ssh http, st', w', sel)" and "world_ok w"
  obtains c s0 w0 s1 st1 w1 l' s where "check_flags (ou_getenv out) fl = Inr c"
    and "selectServerEndpoint (ou_lookup out) (ou_scan out) (fl_serverHost (cf_flags c)) (cf_portStart c) (cf_portEnd c)
               (fl_token (cf_flags c)) (fl_wireMode (cf_flags c)) (cf_chunkOpts c) (cf_xorOpts c) (fl_wireProbeDelay (cf_flags c))
               (fl_wireProbeThreads (cf_flags c)) (fl_forceClearPayload (cf_flags c)) w = Some (Inr (s0, addr, port), w0)"
    and "prepare_iperf (fl_iperfDuration (cf_flags c)) (fl_iperfTargetMbps (cf_flags c)) (fst (ou_tests out)) (snd (ou_tests out))
        (ou_prepare out) (ou_now out) s0 st w0 = Some (Inr (ws_resolved s0), s1, st1, w1)"
    and "sel = Some s" and "start_ssh out (cf_flags c) (s1, st1, w1, l) = (Inr ssh, (s, st', w', l'))"
    and "http_listener (fl_maxConnections (cf_flags c)) = Some http"
proof -
  obtain c where c: "check_flags (ou_getenv out) fl = Inr c" using assms(1) by (auto simp: startup_def split: sum.splits)
  let ?sel = "selectServerEndpoint (ou_lookup out) (ou_scan out) (fl_serverHost (cf_flags c)) (cf_portStart c) (cf_portEnd c)
               (fl_token (cf_flags c)) (fl_wireMode (cf_flags c)) (cf_chunkOpts c) (cf_xorOpts c) (fl_wireProbeDelay (cf_flags c))
               (fl_wireProbeThreads (cf_flags c)) (fl_forceClearPayload (cf_flags c)) w"
  obtain s0 a p w0 where e: "?sel = Some (Inr (s0, a, p), w0)"
    using assms(1) c by (auto simp: startup_def Let_def split: option.splits sum.splits prod.splits)
  from selected_endpoint [OF e assms(2)] have h: "ws_hasChoice s0" by simp
  let ?prep = "prepare_iperf (fl_iperfDuration (cf_flags c)) (fl_iperfTargetMbps (cf_flags c)) (fst (ou_tests out)) (snd (ou_tests out))
        (ou_prepare out) (ou_now out) s0 st w0"
  obtain r s1 st1 w1 where q: "?prep = Some (r, s1, st1, w1)"
    using assms(1) c e by (auto simp: startup_def Let_def split: option.splits sum.splits prod.splits)
  have q': "?prep = Some (Inr (ws_resolved s0), s1, st1, w1)"
    using q h by (auto simp: prepare_iperf_def resolveOnly_def split: option.splits)
  obtain x s2 st2 w2 l2 where g: "start_ssh out (cf_flags c) (s1, st1, w1, l) = (x, (s2, st2, w2, l2))" by (metis prod.collapse)
  have f: "a = addr" "p = port" "x = Inr ssh" "st2 = st'" "w2 = w'" "sel = Some s2" "http_listener (fl_maxConnections (cf_flags c)) = Some http"
    using assms(1) c e q' g by (auto simp: startup_def Let_def dest: start_ssh_exits split: option.splits sum.splits)
  show ?thesis by (rule that [OF c _ q']) (use e g f in auto)
qed

lemma startup_schedule:
  assumes "world_ok w"
  shows "startup (out\<lparr>ou_prepare := as\<rparr>) fl st w l = startup out fl st w l"
proof -
  have eq: "ou_getenv (out\<lparr>ou_prepare := as\<rparr>) = ou_getenv out" "ou_lookup (out\<lparr>ou_prepare := as\<rparr>) = ou_lookup out"
    "ou_scan (out\<lparr>ou_prepare := as\<rparr>) = ou_scan out" "ou_now (out\<lparr>ou_prepare := as\<rparr>) = ou_now out"
    "ou_prepare (out\<lparr>ou_prepare := as\<rparr>) = as" "ou_listenHttp (out\<lparr>ou_prepare := as\<rparr>) = ou_listenHttp out"
    "ou_listenSocks (out\<lparr>ou_prepare := as\<rparr>) = ou_listenSocks out" "ou_sshDial (out\<lparr>ou_prepare := as\<rparr>) = ou_sshDial out"
    "ou_ssh (out\<lparr>ou_prepare := as\<rparr>) = ou_ssh out" "ou_tests (out\<lparr>ou_prepare := as\<rparr>) = ou_tests out"
    by simp_all
  have p: "prepare_iperf d g r1 r2 as (ou_now out) s st x = prepare_iperf d g r1 r2 (ou_prepare out) (ou_now out) s st x"
    if "selectServerEndpoint a b h lo hi t wm bo xo pd pt fc w = Some (Inr (s, addr, port), x)" for s x a b h lo hi t wm bo xo pd pt fc addr port d g r1 r2
    using selected_endpoint [OF that assms] by (intro prepare_iperf_schedule) simp
  have g: "start_ssh (out\<lparr>ou_prepare := as\<rparr>) = start_ssh out"
    unfolding start_ssh_def [abs_def] eq ..
  show ?thesis unfolding startup_def Let_def eq g
    by (intro sum.case_cong option.case_cong prod.case_cong refl) (simp only: p)
qed

lemma startup_exits:
  assumes "startup out fl st w l = Some (Exited code msg, st', w', sel)"
  shows "code \<in> {1, 2} \<and> (\<forall>e. check_flags (ou_getenv out) fl = Inl e \<longrightarrow> code = 2 \<and> msg = e \<and> st' = st \<and> w' = w)"
  using assms by (auto simp: startup_def Let_def dest: start_ssh_exits split: option.splits sum.splits prod.splits)

lemma startup_panics:
  assumes "startup out fl st w l = Some (Panicked, st', w', sel)"
  shows "\<exists>c. check_flags (ou_getenv out) fl = Inr c \<and> fl_maxConnections (cf_flags c) < 0"
  using assms
  by (auto simp: startup_def Let_def http_listener_def dest: start_ssh_exits split: option.splits sum.splits prod.splits if_splits)

section \<open>A start that works\<close>

text \<open>A server whose second connection answers the X probe, with the default flags and \<^verbatim>\<open>--wire x\<close>.\<close>

definition sample_library :: "(unit run_state, carrier) ssh_env" where
  "sample_library = \<lparr>env_dial = \<lambda>host port s. (Inl ErrClosed, s), env_handshake = \<lambda>t a b addr u p s. (None, s),
     env_abandon = \<lambda>t s. s, env_channel = \<lambda>k target s. (Inl (OtherError ErrClosed), s),
     env_shutdown = \<lambda>k s. (None, s), env_ping = \<lambda>k s. (None, s)\<rparr>"

definition no_test :: test_run where "no_test = \<lparr>tr_started = 0, tr_turns = [], tr_ended = 0\<rparr>"

definition sample_outside :: "unit outside" where
  "sample_outside = \<lparr>ou_getenv = \<lambda>_. [], ou_lookup = \<lambda>_. None, ou_scan = \<lambda>_. [Launch, RunProbe 0, Receive],
     ou_prepare = [], ou_now = 0, ou_tests = (no_test, no_test), ou_sshDial = ([], 0), ou_ssh = sample_library, ou_listenSocks = None, ou_listenHttp = None\<rparr>"

definition probed_world :: world where
  "probed_world = silent_world\<lparr>w_dials := \<lambda>k. Inr (if k = 1 then
     open_conn\<lparr>c_in := (xresponse_frame 0 (1, bytes_of ''PROBEOK'') @ [], EOF)\<rparr> else open_conn)\<rparr>"

lemma sample_handshake [simp]: "handshake_keeps sample_library"
  by (auto simp: handshake_keeps_def sample_library_def)

lemma probed_world_ok [simp]: "world_ok probed_world"
  by (simp add: probed_world_def silent_world_def world_ok_def)

abbreviation x_flags :: flags where "x_flags \<equiv> default_flags\<lparr>fl_wireMode := WireXOR\<rparr>"

lemma x_flags_accepted:
  "check_flags (\<lambda>_. []) x_flags = Inr \<lparr>cf_flags = x_flags, cf_portStart = 53, cf_portEnd = 53,
     cf_chunkOpts = chunk_options default_flags, cf_xorOpts = x_options default_flags\<rparr>"
proof (rule default_wire_accepted)
  have "ToLower (TrimSpace ''x'') = ''x''" by code_simp
  then show "wire_name (ToLower (TrimSpace WireXOR)) = Some WireXOR" by (simp add: wire_name_def wires)
qed

abbreviation x_selector :: wireSelector where
  "x_selector \<equiv> newWireSelector WireXOR (JoinHostPort ''s'' (dec_int 53)) [] (chunk_options default_flags) (x_options default_flags) 100000000 1 False"

lemma probe_answered:
  assumes "world_ok w" and "w_dials w = w_dials probed_world" and "w_dialed w = 1" and "w_requestCounter w = 0"
  shows "\<exists>w'. sel_probe x_selector (direct WireXOR 0) w = (True, w')"
proof -
  let ?l = "newTxnLane (JoinHostPort ''s'' (dec_int 53)) 0 1 2000000000 0 zero_profile"
  let ?c = "open_conn\<lparr>c_in := (xresponse_frame 0 (1, bytes_of ''PROBEOK'') @ [], EOF)\<rparr>"
  have "\<exists>w'. Do (bytes_of (''CPROBE '' @ wireToken [])) ?l w = (Inr (bytes_of ''PROBEOK''), ?l, w') \<and> w_dials w' = w_dials w
      \<and> w_dialed w' = Suc (w_dialed w) \<and> w_requestCounter w' = w_requestCounter w + 1 \<and> world_ok w'"
    by (rule Do_first [OF assms(1) refl, where c = ?c and e = EOF])
      (use assms in \<open>simp_all add: probed_world_def zero_profile_def wireToken_def MaxHandshake_def\<close>)
  then obtain w' where "Do (bytes_of (''CPROBE '' @ wireToken [])) ?l w = (Inr (bytes_of ''PROBEOK''), ?l, w')" by blast
  then have "ProbeProfile (JoinHostPort ''s'' (dec_int 53)) [] (WithHeaderMask 0 (x_options default_flags)) w = (True, snd (tx_Close ?l w'))"
    by (simp add: ProbeProfile_def WithHeaderMask_def x_options_def NewOptions_def default_flags_def Let_def)
  then show ?thesis by (simp add: sel_probe_def xor_choice_def direct_def zero_profile_def newWireSelector_def wires)
qed

lemma x_selector_resolves:
  assumes "world_ok w" and "w_dials w = w_dials probed_world" and "w_dialed w = 1" and "w_requestCounter w = 0"
  shows "\<exists>w'. resolveOnly [Launch, RunProbe 0, Receive] x_selector w
    = Some (Inr (direct WireXOR 0), fix_choice (direct WireXOR 0) x_selector, w')"
proof -
  obtain w' where p: "sel_probe x_selector (direct WireXOR 0) w = (True, w')" using probe_answered [OF assms] by blast
  have v: "validXORHeaderMask 0" by code_simp
  have "[0..<256] = 0 # [1..<256 :: nat]" by (simp add: upt_rec)
  then obtain cs where cs: "candidates x_selector = direct WireXOR 0 # cs"
    using v by (auto simp: candidates_def profileCandidates_def newWireSelector_def mask_candidates_def wires Let_def)
  have t: "probe_threads x_selector = 1" by (simp add: probe_threads_def newWireSelector_def)
  have n: "\<not> ws_hasChoice x_selector" "ws_probeOverride x_selector = None" by (simp_all add: newWireSelector_def)
  show ?thesis unfolding resolveOnly_def detectLocked_def cs t
    using n p by (simp add: detect_start_def run_probe_def Let_def)
qed

lemma sample_startup:
  "\<exists>http st' w' sel. startup sample_outside x_flags empty_profile probed_world ()
     = Some (Serving (JoinHostPort ''s'' (dec_int 53)) 53 None http, st', w', sel)"
proof -
  have h: "parseTargetHosts (\<lambda>_. None) ''s'' = [''s'']" by code_simp
  have f: "fl_serverHost default_flags = ''s''" "fl_token default_flags = []" "fl_wireProbeDelay default_flags = 100000000"
    "fl_wireProbeThreads default_flags = 1" "fl_forceClearPayload default_flags = False" "fl_sshUser default_flags = []"
    "fl_maxConnections default_flags = 20000"
    by (simp_all add: default_flags_def)
  have o: "ou_getenv sample_outside = (\<lambda>_. [])" "ou_lookup sample_outside = (\<lambda>_. None)"
    "ou_scan sample_outside = (\<lambda>_. [Launch, RunProbe 0, Receive])" "ou_prepare sample_outside = []"
    "ou_now sample_outside = 0" "ou_listenHttp sample_outside = None"
    by (simp_all add: sample_outside_def)
  obtain w1 where u: "serverPortReachableErr probed_world = (True, w1)" and w1: "world_ok w1" "w_dials w1 = w_dials probed_world"
    "w_dialed w1 = 1" "w_requestCounter w1 = 0"
    by (simp add: serverPortReachableErr_def probed_world_def silent_world_def log_event_def world_ok_def Let_def)
  obtain w2 where r: "resolveOnly [Launch, RunProbe 0, Receive] x_selector w1
      = Some (Inr (direct WireXOR 0), fix_choice (direct WireXOR 0) x_selector, w2)"
    using x_selector_resolves [OF w1] by blast
  have sel: "selectServerEndpoint (\<lambda>_. None) (\<lambda>_. [Launch, RunProbe 0, Receive]) ''s'' 53 53 [] WireXOR
      (chunk_options default_flags) (x_options default_flags) 100000000 1 False probed_world
      = Some (Inr (fix_choice (direct WireXOR 0) x_selector, JoinHostPort ''s'' (dec_int 53), 53), w2)"
    using r by (simp add: selectServerEndpoint_def h endpoints_def u Let_def)
  let ?s = "fix_choice (direct WireXOR 0) x_selector"
  obtain s3 st3 w3 where c: "calibrate_choice 0 (direct WireXOR 0) ?s empty_profile w2 = (s3, st3, w3)" by (metis prod.collapse)
  have p: "prepare [] 0 ?s empty_profile w2 = Some (Inr (direct WireXOR 0), s3, st3, w3)"
    using c by (simp add: prepare_def resolveOnly_def fix_choice_def)
  have i: "fl_iperfDuration default_flags \<le> 0" by (simp add: default_flags_def)
  have t: "TrimSpace [] = []" by code_simp
  have g: "start_ssh sample_outside x_flags (s3, st3, w3, ()) = (Inr None, (s3, st3, w3, ()))" by (simp add: start_ssh_def f t)
  show ?thesis
    by (simp add: startup_def x_flags_accepted f o sel p g prepare_iperf_off [OF i] http_listener_def)
qed

end
