(* ===== verification/Spec2Isabelle.thy ===== *)
theory Spec2Isabelle
  imports Wire XorFrame ReqIdPool BpTunnel XCalibrate XPull WireSelect SshCarrier SshTunnel SocksUdp Relay HttpFront
    CmdLine Endpoint Listener Tuning Sustained Startup
begin

text \<open>
  The DragonTCP client: a local HTTP proxy, and in SSH mode a local SOCKS5 proxy, whose streams are
  carried to a server over many short requests, in one of three wire formats. This development
  translates the Go program definition by definition and proves what makes each part correct.

  \<^bold>\<open>The program.\<close> \<^verbatim>\<open>main\<close> (\<^verbatim>\<open>main.go\<close>) checks its
  flags, scans hosts and ports for a server that validates a wire, calibrates how large a chunk the
  path carries in each direction, brings up the SSH client if it is asked for, and serves. A local
  connection asks the wire selector (\<^verbatim>\<open>wireselect.go\<close>) for a carrier to its
  target: the native chunk transport (\<^verbatim>\<open>chunk.go\<close> over
  \<^verbatim>\<open>internal/wire\<close>), the acknowledged BP transport (\<^verbatim>\<open>bp.go\<close>)
  or the X transport (\<^verbatim>\<open>internal/xorchunk\<close> over
  \<^verbatim>\<open>internal/protocol\<close>). Each sends records through request lanes, whose
  connections may open with a covering preface (\<^verbatim>\<open>internal/cover\<close>), sized by an
  adaptive sizer. SSH mode puts a write-combining carrier (\<^verbatim>\<open>ssh_carrier.go\<close>) and
  one shared SSH client (\<^verbatim>\<open>ssh_tunnel.go\<close>) on top of such a carrier, and the SOCKS5
  proxy (\<^verbatim>\<open>socks5.go\<close>) opens its channels.

  \<^bold>\<open>How it is modelled.\<close> Structs are records, enumerations and results datatypes,
  fixed-width integers words, Go's \<^verbatim>\<open>int\<close> an integer, an error a value of
  \<open>goerr\<close> and a fallible function a sum with the error on the left. The network is a record
  \<open>world\<close> (theory \<open>Lane\<close>): what the n-th dial and the n-th read of randomness give, and
  the log of everything dialed, requested and closed. A connection (\<open>conn\<close>) holds the bytes it
  will still deliver and how it ends, the bytes written, and how each write ends; so every fault of
  the network is an argument of the theorems. Methods return the updated struct and world. Where
  goroutines share state, an operation is cut at the points where it holds no lock, and a run is an
  arbitrary sequence of such steps: an explicit schedule where a function needs a result
  (\<open>WireSelect.detect_run\<close>, \<open>Sustained.worker_turns\<close>), an inductive run relation
  otherwise.

  \<^bold>\<open>The theories.\<close>

  \<^item> \<open>Prelude\<close>: bytes, errors (\<open>isTransportTimeout\<close> of
    \<^verbatim>\<open>transport_error.go\<close>), big-endian integers, readers and writers
    (\<^verbatim>\<open>io.ReadFull\<close>, \<open>writeAll\<close>); the locales \<open>frame_codec\<close> and
    \<open>length_prefixed\<close>, which every frame format instantiates. \<open>Sha256\<close>,
    \<open>GoText\<close>, \<open>NetAddr\<close> and \<open>Bufio\<close> are the parts of Go's library whose
    values the client depends on: the hash, the string functions, host and port texts, and the
    buffered reader (locale \<open>full_reader\<close>).
  \<^item> \<open>Wire\<close> and \<open>ReqIdPool\<close> (\<^verbatim>\<open>internal/wire/protocol.go\<close>):
    request, response and multiplexed frames with their payload mask, and the pool of request IDs.
    Shown: round trips on any stream, refusals, unique IDs.
  \<^item> \<open>Cover\<close> (\<^verbatim>\<open>internal/cover/profile.go\<close>): the preface and its round
    trip. \<open>XorFrame\<close> (\<^verbatim>\<open>internal/protocol\<close>): the X frames, and the three
    builds of the XOR routine shown equal for every length and alignment.
  \<^item> \<open>Sizer\<close>: both adaptive sizers behind the locale \<open>chunk_sizer\<close>; they stay
    within their bounds under any answers.
  \<^item> \<open>Lane\<close> (\<^verbatim>\<open>requestLane\<close>): dialing, rotation, replay and batches. The
    locale \<open>lane_turn\<close> states what one attempt promises; from it no request is sent after a
    timeout or a third time and no connection leaks. \<open>Calibrate\<close>: probes, majority, the
    ascending and descending search, the cached path profile.
  \<^item> \<open>Tunnel\<close>, \<open>ChunkConn\<close>, \<open>BpTunnel\<close>: \<^verbatim>\<open>Read\<close>,
    \<^verbatim>\<open>Write\<close>, OPEN and \<^verbatim>\<open>Close\<close> of the chunk and the BP
    tunnel. Their loops are the same, so the locales \<open>upload_turn\<close> and
    \<open>fill_turn_laws\<close> are proved once and interpreted for both: offsets, counts and order of
    the stream, no leak over a whole life, when \<^verbatim>\<open>Write\<close> returns.
  \<^item> \<open>XLane\<close>, \<open>XCalibrate\<close>, \<open>XTunnel\<close>, \<open>XPush\<close>,
    \<open>XPull\<close>: the X transport. A transaction pairs each answer with its request; an upload
    arrives exactly once; under every interleaving of pull workers, reader, writer and
    \<^verbatim>\<open>Close\<close> the download is delivered in order.
  \<^item> \<open>Sustained\<close>: the throughput test behind the calibration of both transports
    (\<^verbatim>\<open>--iperf-duration\<close>), and calibration and \<^verbatim>\<open>prepare\<close> with
    it; locale \<open>steady_prober\<close>. It changes no measurement.
  \<^item> \<open>WireSelect\<close>: candidates, concurrent detection, \<^verbatim>\<open>prepare\<close> and
    \<^verbatim>\<open>dial\<close>. Detection is sound and complete and ends; a dial leaks nothing.
  \<^item> \<open>SshCarrier\<close>, \<open>SshTunnel\<close>: the carrier refines an abstract byte pipe and
    its calls return; SSH clients are closed exactly once; the host key is pinned.
  \<^item> \<open>Socks\<close>, \<open>SocksUdp\<close>: the SOCKS5 handshake and the UDP association with its
    three loops. \<open>HttpText\<close>, \<open>HttpRewrite\<close>, \<open>HttpFront\<close>: the HTTP proxy, from
    the header reader to the relay. \<open>Relay\<close>: payload, dialing and the copy loops (locale
    \<open>copier\<close>). \<open>Listener\<close>: both accept loops and their slots. \<open>Tuning\<close>: socket
    options.
  \<^item> \<open>CmdLine\<close>, \<open>Endpoint\<close>, \<open>Startup\<close>: the flags, the port scan, and
    \<^verbatim>\<open>main\<close> as a whole. This theory joins them: what holds when the program serves,
    and the first exchange of a lane across preface, frames and masks.

  \<^bold>\<open>Loops.\<close> Recursion on data and on measures ends by itself. The retry loops of the
  tunnels and the unchecked \<^verbatim>\<open>writeAll\<close> of \<^verbatim>\<open>internal/protocol\<close>
  may run forever and are partial functions, so that not returning is the value \<open>None\<close>; which
  calls return is proved as such (in \<open>ChunkConn\<close>, \<open>XPush\<close>,
  \<open>SshCarrier\<close> and \<open>XorFrame\<close>). No fuel is used: a schedule that ends too early gives \<open>None\<close>,
  and \<open>WireSelect\<close> shows that one of three steps per candidate and one more is
  always enough.

  \<^bold>\<open>Parameters.\<close> What is not in the repository is an argument: the SSH library (record
  \<open>ssh_env\<close>, with \<open>handshake_keeps\<close> for what a handshake may touch),
  \<^verbatim>\<open>url.Parse\<close>, the resolver, the environment, the pin file, the clock and the
  network. Each theorem that assumes something of one has an instance in its witness.

  \<^bold>\<open>Not modelled.\<close> Log output and the \<^verbatim>\<open>String\<close> methods; sleeps and delays
  (they only restrict the interleavings); deadlines, whose effect is a timeout error of a read or a
  write; buffer pools and buffer sizes; accessors that pass a call through; the unused
  \<^verbatim>\<open>probeCandidates\<close>; the kernel's side of socket options. What a dial gives
  a lane is the outcome of \<open>DialTCP\<close> as a whole; the exchange of the HTTP payload inside it is
  modelled by itself in \<open>Relay\<close>. Throughput rates, floating-point numbers
  in the code, are rationals. The server and the Android application are other programs.
\<close>

section \<open>Properties across components\<close>



text \<open>The connection a lane dials, after a covering preface.\<close>

lemma writeAll_once: "conn_write c b = (length b, None, c') \<Longrightarrow> b \<noteq> [] \<Longrightarrow> writeAll c b = (None, c')"
  by (simp add: writeAll.simps [of c b])

lemma covered_dial:
  assumes "w_dials w (w_dialed w) = Inr c0" and "accepting c0" and "w_rngs w (w_rngn w) = (src, None)"
    and "cp_enabled (ln_profile l)" and "unat (cp_padding (ln_profile l)) \<le> MaxPadding"
  obtains c b w1 where "dialLane l w = (None, l\<lparr>ln_pc := Some \<lparr>pc_id = w_dialed w, pc_conn = c, pc_requests = 0\<rparr>\<rparr>, w1)"
    "c_out c = c_out c0 @ b @ map src [0..<unat (cp_padding (ln_profile l))]" "length b = PrefaceSize"
    "DecodePreface b = (ln_profile l, True)" "accepting c" "c_in c = c_in c0"
proof -
  let ?p = "ln_profile l" and ?w = "log_event (Dialed (w_dialed w)) (w\<lparr>w_dialed := Suc (w_dialed w)\<rparr>)"
  let ?b = "put16 (cp_id ?p) @ xor_bytes (preface_plain ?p) (take 10 (cover_key (cp_id ?p)))"
  let ?o = "?b @ map src [0..<unat (cp_padding ?p)]"
  have e: "EncodePreface ?p = Inr ?b" using assms(4,5) by (simp add: EncodePreface_def not_less)
  have n: "length ?o \<le> 2097400" using assms(5) by (simp add: MaxPadding_def)
  obtain c where c: "conn_write c0 ?o = (length ?o, None, c)" "c_out c = c_out c0 @ ?o" "accepting c" "c_in c = c_in c0"
    using conn_write_accepting [OF assms(2) n] assms(2) by (auto simp: accepting_def)
  have "length ?o \<noteq> 0" by (simp del: length_0_conv)
  then have "?o \<noteq> []" by (metis list.size(3))
  from writeAll_once [OF c(1) this] have "WritePreface c0 ?p (src, None) = (None, c)"
    using assms(4) e by (cases "unat (cp_padding ?p) > 0") (simp_all add: WritePreface_def randRead_def)
  then have "dialLane l w = (None, l\<lparr>ln_pc := Some \<lparr>pc_id = w_dialed w, pc_conn = c, pc_requests = 0\<rparr>\<rparr>, ?w\<lparr>w_rngn := Suc (w_rngn w)\<rparr>)"
    using assms(1,3) by (simp add: dialLane_def take_rng_def log_event_def Let_def)
  from this c show ?thesis
    by (intro that [where c = c and b = ?b]) (use DecodePreface_encoded [OF assms(4,5)] in \<open>simp_all add: PrefaceSize_def\<close>)
qed

text \<open>C4: Client and server understand each other from the first byte. On the connection a lane dials
  for its first request, the first twelve bytes decode to the very profile of the lane, and what follows
  the padding they announce is read, under the mask and the payload encoding of the decoded profile, as
  exactly the request; the server's answer to it comes back as status and plaintext body.\<close>

theorem first_exchange_understood:
  assumes "ln_pc l = None" and "\<not> ln_closed l" and "w_dials w (w_dialed w) = Inr c0" and "accepting c0" and "c_out c0 = []"
    and "w_rngs w (w_rngn w) = (src, None)" and "cp_enabled (ln_profile l)" and "unat (cp_padding (ln_profile l)) \<le> MaxPadding"
    and "ln_headerMask l = cp_headerMask (ln_profile l)" and "ln_reconnectEvery l \<noteq> 1"
    and "m \<le> ModeClose" and "length b \<le> MaxPayload"
    and "st \<le> StatusEOF" and "st \<noteq> StatusError" and "length body \<le> MaxPayload"
    and "c_in c0 = (response_frame (ln_headerMask l) (st, wire_payload (cp_clear (ln_profile l)) sid m q True body) @ r, e)"
  shows "\<exists>l' w' p. single m sid q b l w = (Inr (st, body), l', w') \<and> ln_pc l' = Some p
    \<and> (case DecodePreface (take PrefaceSize (c_out (pc_conn p))) of (profile, ok) \<Rightarrow> ok \<and> profile = ln_profile l
      \<and> ReadRequestProfileEncoding (drop (PrefaceSize + unat (cp_padding profile)) (c_out (pc_conn p)), EOF)
          (cp_headerMask profile) (cp_clear profile)
        = Inr (\<lparr>rq_mode = m, rq_session = sid, rq_seq = q, rq_payload = b\<rparr>, ([], EOF)))
    \<and> c_in (pc_conn p) = (r, e)"
proof -
  let ?pr = "ln_profile l" and ?clear = "cp_clear (ln_profile l)" and ?hm = "ln_headerMask l"
  let ?wb = "wire_payload ?clear sid m q True body" and ?rq = "\<lparr>rq_mode = m, rq_session = sid, rq_seq = q, rq_payload = b\<rparr>"
  obtain c pre w1 where d: "dialLane l w = (None, l\<lparr>ln_pc := Some \<lparr>pc_id = w_dialed w, pc_conn = c, pc_requests = 0\<rparr>\<rparr>, w1)"
    and o: "c_out c = pre @ map src [0..<unat (cp_padding ?pr)]" "length pre = PrefaceSize" "DecodePreface pre = (?pr, True)"
    and ac: "accepting c" "c_in c = c_in c0"
    using covered_dial [OF assms(3,4,6,7,8)] assms(5) by (metis append_Nil)
  obtain c' where c': "WriteRequestProfileEncoding c m sid q b ?hm ?clear = (None, c')"
    "c_out c' = c_out c @ request_frame ?hm ?clear ?rq" "c_in c' = c_in c" by (rule WriteRequest_pair [OF ac(1) assms(12)])
  have "response_ok (st, ?wb)" using assms(13,15) by (simp add: response_ok_def)
  from response_lp.dec_whole [OF this]
  have rd: "ReadResponseProfile (c_in c') ?hm = Inr ((st, ?wb), (r, e))" by (simp add: assms(16) ac(2) c'(3) response_whole)
  have body: "(if st \<noteq> StatusError \<and> ?wb \<noteq> [] \<and> \<not> ?clear then DecodeMaskedResponse st ?wb sid m q else ?wb) = body"
    using assms(14) by (auto simp: wire_payload_def DecodeMaskedResponse_def dest: arg_cong [where f = length])
  have en: "ensureLocked l w = (None, l\<lparr>ln_pc := Some \<lparr>pc_id = w_dialed w, pc_conn = c, pc_requests = 0\<rparr>\<rparr>, w1)"
    using assms(1,2) d by (simp add: ensureLocked_def)
  have rot: "\<not> (0 < ln_reconnectEvery l \<and> ln_reconnectEvery l \<le> 1)" using assms(10) by linarith
  let ?p = "\<lparr>pc_id = w_dialed w, pc_conn = c'\<lparr>c_in := (r, e)\<rparr>, pc_requests = 1\<rparr>"
  have close: "closeAfterLocked (l\<lparr>ln_pc := Some ?p\<rparr>) v = (l\<lparr>ln_pc := Some ?p\<rparr>, v)" for v
    using rot by (auto simp: closeAfterLocked_def)
  have sg: "single m sid q b l w = (Inr (st, body), l\<lparr>ln_pc := Some ?p\<rparr>, log_event (Requested (w_dialed w) m q b) w1)"
    using c'(1) rd body by (simp add: single_def numeral_2_eq_2 single_turn_def en close Let_def)
  have rq: "ReadRequestProfileEncoding (request_frame hm clear ?rq @ r, e) hm clear = Inr (?rq, (r, e))" for hm clear r e
    using request_lp.dec_whole [of ?rq] assms(11,12) by (simp add: request_whole request_ok_def)
  have "ReadRequestProfileEncoding (request_frame ?hm ?clear ?rq, EOF) ?hm ?clear = Inr (?rq, ([], EOF))"
    using rq [of ?hm ?clear "[]" EOF] by simp
  with sg show ?thesis using o c'(2) assms(9) by (intro exI [of _ "l\<lparr>ln_pc := Some ?p\<rparr>"] exI [of _ ?p] exI conjI) auto
qed

theorem first_exchange_understood_witness:
  "\<exists>l' w' p. single ModeProbe (sid_of []) 3 [9]
      (newRequestLane ''s:53'' 0 0 5 0x25 (wc_cover (forcedClearChoice WireBinary 0x25)))
      (silent_world\<lparr>w_dials := \<lambda>_. Inr (open_conn\<lparr>c_in := (response_frame 0x25 (StatusOK, []) @ [], EOF)\<rparr>)\<rparr>) = (Inr (StatusOK, []), l', w')
    \<and> ln_pc l' = Some p \<and> c_in (pc_conn p) = ([], EOF)"
proof -
  let ?l = "newRequestLane ''s:53'' 0 0 5 0x25 (wc_cover (forcedClearChoice WireBinary 0x25))"
  let ?c = "open_conn\<lparr>c_in := (response_frame 0x25 (StatusOK, []) @ [], EOF)\<rparr>"
  let ?w = "silent_world\<lparr>w_dials := \<lambda>_. Inr ?c\<rparr>"
  have f: "ln_profile ?l = wc_cover (forcedClearChoice WireBinary 0x25)" "ln_headerMask ?l = 0x25" "ln_pc ?l = None" "\<not> ln_closed ?l"
    "ln_reconnectEvery ?l = 0" by (simp_all add: newRequestLane_def Let_def)
  have g: "cp_enabled (ln_profile ?l)" "cp_padding (ln_profile ?l) = 0" "cp_headerMask (ln_profile ?l) = 0x25" "cp_clear (ln_profile ?l)"
    unfolding f by (simp_all add: forcedClearChoice_def Let_def)
  have s: "w_dials ?w (w_dialed ?w) = Inr ?c" "w_rngs ?w (w_rngn ?w) = (\<lambda>_. 0, None)" by (simp_all add: silent_world_def)
  from first_exchange_understood [of ?l ?w ?c "\<lambda>_. 0" ModeProbe "[9]" StatusOK "[]" "sid_of []" 3 "[]" EOF, OF f(3,4) s(1) _ _ s(2) g(1)] g f(2,5)
  show ?thesis by (auto simp: mode_defs status_defs MaxPayload_def MaxPadding_def wire_payload_def open_conn_def accepting_def)
qed

end
